(* ===== verification/Prelude.thy ===== *)
theory Prelude
  imports Main "HOL-Library.Word"
begin

text \<open>
  Shared vocabulary of the development: the machine types of the C++ sources, byte memories
  with block reads and writes (the model of \<open>memcpy\<close>), the unsigned subtraction loops the
  queues use instead of a division, results of operations that can throw, and the generic
  lemmas on lists, folds and modular arithmetic that the component theories rest on.
\<close>

section \<open>Collections of facts\<close>

named_theorems mem_simps \<open>reading a byte memory after a block write\<close>
named_theorems wrap_simps \<open>wrapping unsigned arithmetic\<close>
named_theorems state_defs \<open>operations that are unfolded together in component proofs\<close>

section \<open>Machine types\<close>

type_synonym byte = "8 word"
type_synonym 'a mem = "nat \<Rightarrow> 'a"

text \<open>\<open>unsigned\<close> is 32 bits wide, \<open>unsigned long\<close> and \<open>uint64_t\<close> are 64 bits wide.\<close>

definition u32 :: "nat \<Rightarrow> nat" where
  "u32 n = n mod 2 ^ 32"

definition u64 :: "nat \<Rightarrow> nat" where
  "u64 n = n mod 2 ^ 64"

lemma u32_less [simp]: "u32 n < 2 ^ 32"
  by (simp add: u32_def)

lemma u64_less [simp]: "u64 n < 2 ^ 64"
  by (simp add: u64_def)

lemma u32_id [wrap_simps]: "n < 2 ^ 32 \<Longrightarrow> u32 n = n"
  by (simp add: u32_def)

lemma u64_id [wrap_simps]: "n < 2 ^ 64 \<Longrightarrow> u64 n = n"
  by (simp add: u64_def)

text \<open>Unsigned subtraction at 32 bits: \<open>a - b\<close> wraps when \<open>a < b\<close>.\<close>

definition sub32 :: "nat \<Rightarrow> nat \<Rightarrow> nat" where
  "sub32 a b = (a + (2 ^ 32 - b mod 2 ^ 32)) mod 2 ^ 32"

lemma sub32_le [wrap_simps]:
  assumes "b \<le> a" and "a < 2 ^ 32"
  shows "sub32 a b = a - b"
proof -
  have "a + (2 ^ 32 - b mod 2 ^ 32) = (a - b) + 2 ^ 32"
    using assms by simp
  then have "sub32 a b = ((a - b) + 2 ^ 32) mod 2 ^ 32"
    unfolding sub32_def by (simp only:)
  also have "\<dots> = a - b"
    using assms by (simp only: mod_add_self2) simp
  finally show ?thesis .
qed

section \<open>Errors\<close>

text \<open>
  What an operation of the library can throw: \<open>AssertException\<close> from \<open>ASSERT\<close>,
  \<open>std::invalid_argument\<close>, \<open>CPN::ShutdownException\<close>, \<open>CPN::BrokenQueueException\<close>
  with the key of the broken endpoint, \<open>D4R::DeadlockException\<close>. \<open>NullPointer\<close> stands for the
  dereference of a null pointer, which C++ leaves undefined; \<open>Undefined\<close> for other undefined
  behaviour, and \<open>OutOfRange\<close> is \<open>std::out_of_range\<close>.
\<close>

datatype cpn_error =
    AssertException
  | InvalidArgument
  | ShutdownException
  | BrokenQueueException nat
  | DeadlockException
  | NullPointer
  | OutOfRange
  | Undefined

text \<open>A call that may have to wait: it comes back with a value, would wait, or throws.\<close>

datatype 'a outcome = Returned 'a | Blocks | Throws cpn_error

definition ASSERT :: "bool \<Rightarrow> cpn_error + 'a \<Rightarrow> cpn_error + 'a" where
  "ASSERT b r = (if b then r else Inl AssertException)"

lemma ASSERT_True [simp]: "ASSERT True r = r"
  by (simp add: ASSERT_def)

lemma ASSERT_False [simp]: "ASSERT False r = Inl AssertException"
  by (simp add: ASSERT_def)

lemma ASSERT_Inr: "ASSERT b r = Inr x \<longleftrightarrow> b \<and> r = Inr x"
  by (simp add: ASSERT_def)

text \<open>When the result of a composed call is a value.\<close>

named_theorems result_iff \<open>when a result is a value\<close>

lemma map_sum_Inr [result_iff]: "map_sum f g r = Inr y \<longleftrightarrow> (\<exists>x. r = Inr x \<and> y = g x)"
  by (cases r) auto

lemma map_sum_Inl [result_iff]: "map_sum f g r = Inl y \<longleftrightarrow> (\<exists>x. r = Inl x \<and> y = f x)"
  by (cases r) auto

declare ASSERT_Inr [result_iff]

section \<open>Subtraction loops\<close>

text \<open>
  \<open>while (idx >= queueLength) idx -= queueLength;\<close> The loop does not end for length 0;
  every queue the constructors build has a positive length, so the guard \<open>0 < q\<close> of the
  model is never the reason for stopping.
\<close>

function wrap_sub :: "nat \<Rightarrow> nat \<Rightarrow> nat" where
  "wrap_sub n q = (if 0 < q \<and> q \<le> n then wrap_sub (n - q) q else n)"
  by pat_completeness auto
termination
  by (relation "measure fst") auto

declare wrap_sub.simps [simp del]

lemma wrap_sub_eq_mod [simp]: "0 < q \<Longrightarrow> wrap_sub n q = n mod q"
proof (induction n q rule: wrap_sub.induct)
  case (1 n q)
  then show ?case
    by (subst wrap_sub.simps) (auto simp: le_mod_geq)
qed

section \<open>Memory blocks\<close>

text \<open>
  Reading \<open>n\<close> cells from address \<open>a\<close>, and storing a block at \<open>a\<close>. Addresses go
  through a translation \<open>f\<close> (the identity for ordinary memory; the page mapping of a
  \<open>MirrorBufferSet\<close>, where two addresses can name one cell). \<open>memcpy\<close> on
  non-overlapping blocks is a block read followed by a block write.
\<close>

definition read_block :: "(nat \<Rightarrow> nat) \<Rightarrow> 'a mem \<Rightarrow> nat \<Rightarrow> nat \<Rightarrow> 'a list" where
  "read_block f m a n = map (\<lambda>k. m (f (a + k))) [0..<n]"

primrec write_block :: "(nat \<Rightarrow> nat) \<Rightarrow> 'a mem \<Rightarrow> nat \<Rightarrow> 'a list \<Rightarrow> 'a mem" where
  "write_block f m a [] = m"
| "write_block f m a (x # xs) = write_block f (m(f a := x)) (Suc a) xs"

definition memcpy :: "'a mem \<Rightarrow> nat \<Rightarrow> nat \<Rightarrow> nat \<Rightarrow> 'a mem" where
  "memcpy m dst src n = write_block id m dst (read_block id m src n)"

lemma length_read_block [simp]: "length (read_block f m a n) = n"
  by (simp add: read_block_def)

lemma nth_read_block [simp]: "k < n \<Longrightarrow> read_block f m a n ! k = m (f (a + k))"
  by (simp add: read_block_def)

lemma write_block_other [mem_simps]:
  "(\<And>k. k < length xs \<Longrightarrow> f (a + k) \<noteq> b) \<Longrightarrow> write_block f m a xs b = m b"
proof (induction xs arbitrary: m a)
  case Nil
  then show ?case by simp
next
  case (Cons x xs)
  have "f (Suc a + k) \<noteq> b" if "k < length xs" for k
    using Cons.prems [of "Suc k"] that by simp
  then have "write_block f (m(f a := x)) (Suc a) xs b = (m(f a := x)) b"
    by (rule Cons.IH)
  with Cons.prems [of 0] show ?case by simp
qed

lemma write_block_in [mem_simps]:
  assumes "k < length xs"
    and "\<And>j. j < length xs \<Longrightarrow> f (a + j) = f (a + k) \<Longrightarrow> j = k"
  shows "write_block f m a xs (f (a + k)) = xs ! k"
  using assms
proof (induction xs arbitrary: m a k)
  case Nil
  then show ?case by simp
next
  case (Cons x xs)
  show ?case
  proof (cases k)
    case 0
    have "f (Suc a + j) \<noteq> f a" if "j < length xs" for j
      using Cons.prems(2) [of "Suc j"] that 0 by auto
    then have "write_block f (m(f a := x)) (Suc a) xs (f a) = (m(f a := x)) (f a)"
      by (intro write_block_other) auto
    with 0 show ?thesis by simp
  next
    case (Suc k')
    have "j = k'" if "j < length xs" and "f (Suc a + j) = f (Suc a + k')" for j
      using Cons.prems(2) [of "Suc j"] that Suc by auto
    with Cons.prems(1) Suc have "write_block f (m(f a := x)) (Suc a) xs (f (Suc a + k')) = xs ! k'"
      by (intro Cons.IH) auto
    with Suc show ?thesis by simp
  qed
qed

lemma write_block_local: "m b = m' b \<Longrightarrow> write_block f m a xs b = write_block f m' a xs b"
proof (induction xs arbitrary: m m' a)
  case Nil
  then show ?case by simp
next
  case (Cons x xs)
  then have "(m(f a := x)) b = (m'(f a := x)) b" by simp
  then show ?case unfolding write_block.simps by (rule Cons.IH)
qed

lemma write_block_id:
  "write_block id m a xs b = (if a \<le> b \<and> b < a + length xs then xs ! (b - a) else m b)"
proof (cases "a \<le> b \<and> b < a + length xs")
  case True
  then have "write_block id m a xs (id (a + (b - a))) = xs ! (b - a)"
    by (intro write_block_in) auto
  with True show ?thesis by simp
next
  case False
  then have "write_block id m a xs b = m b"
    by (intro write_block_other) auto
  with False show ?thesis by auto
qed

lemma memcpy_apply:
  "memcpy m dst src n a = (if dst \<le> a \<and> a < dst + n then m (src + (a - dst)) else m a)"
  by (auto simp: memcpy_def write_block_id)

section \<open>Folding over independent regions\<close>

text \<open>
  A loop over channels in which iteration \<open>c\<close> writes only its own addresses and reads
  nothing another iteration writes: each cell has the value its own iteration gives it.
\<close>

lemma fold_regions:
  assumes own: "\<And>c m a. a \<notin> reg c \<Longrightarrow> g c m a = m a"
    and local: "\<And>c m m' a. (\<And>b. b \<in> reg c \<Longrightarrow> m b = m' b) \<Longrightarrow> a \<in> reg c \<Longrightarrow> g c m a = g c m' a"
    and disj: "\<And>c d. c \<noteq> d \<Longrightarrow> reg c \<inter> reg d = {}"
  shows "a \<in> reg c \<Longrightarrow> fold g [0..<n] m a = (if c < n then g c m a else m a)"
proof (induction n arbitrary: a)
  case 0
  then show ?case by simp
next
  case (Suc n)
  show ?case
  proof (cases "c = n")
    case True
    have "fold g [0..<n] m b = m b" if "b \<in> reg c" for b
      using Suc.IH [OF that] True by simp
    then have "g c (fold g [0..<n] m) a = g c m a"
      using Suc.prems by (rule local)
    with True show ?thesis by simp
  next
    case False
    with disj Suc.prems have "a \<notin> reg n" by blast
    with False Suc show ?thesis by (auto simp: own less_Suc_eq)
  qed
qed

section \<open>Lists\<close>

lemma map_upt_cong_shift: "(\<And>k. k < n \<Longrightarrow> f k = g k) \<Longrightarrow> map f [0..<n] = map g [0..<n]"
  by simp

lemma take_map_upt: "take t (map f [0..<n]) = map f [0..<min t n]"
  by (simp add: take_map take_upt min_def)

lemma drop_map_upt: "drop t (map f [0..<n]) = map (\<lambda>k. f (t + k)) [0..<n - t]"
  by (rule nth_equalityI) auto

section \<open>Positions in consecutive blocks\<close>

lemma block_div: "r < B \<Longrightarrow> (c * B + r) div B = (c::nat)"
  by simp

lemma block_mod: "r < B \<Longrightarrow> (c * B + r) mod B = (r::nat)"
  by simp

lemma block_number_inj:
  fixes c d i j B :: nat
  assumes "c * B + i = d * B + j" and "i < B" and "j < B"
  shows "c = d \<and> i = j"
proof -
  have "c = (c * B + i) div B" "d = (d * B + j) div B"
    using assms(2,3) by simp_all
  with assms(1) have "c = d" by simp
  with assms(1) show ?thesis by simp
qed

lemma mod_add_left_cancel:
  fixes x :: nat
  assumes "(x + i) mod Q = (x + j) mod Q"
  shows "i mod Q = j mod Q"
  using assms
proof (induction i j rule: linorder_wlog)
  case (le i j)
  then have "Q dvd (x + j) - (x + i)"
    by (metis add_le_cancel_left mod_eq_dvd_iff_nat)
  with le(1) show ?case
    by (metis add_diff_cancel_left mod_eq_dvd_iff_nat)
next
  case (sym i j)
  then show ?case by simp
qed

end
