(* ===== verification/Ring.thy ===== *)
theory Ring
  imports Prelude
begin

text \<open>
  Circular windows. Both queue classes keep the bytes of a channel in a ring of \<open>Q\<close> bytes
  followed by a mirror area of \<open>M\<close> bytes that repeats the start of the ring, so that a
  block which wraps around can be read and written contiguously. \<open>ring_view\<close> is the list of
  queued bytes, \<open>mirror_ok\<close> says that the mirror repeats every queued byte it covers.
  The locale \<open>mirrored_ring\<close> states when a write through the window touches free cells
  only, and proves once, for both classes, that such a write keeps the queued bytes.
\<close>

definition ring_view :: "(nat \<Rightarrow> 'a) \<Rightarrow> nat \<Rightarrow> nat \<Rightarrow> nat \<Rightarrow> 'a list" where
  "ring_view R Q H n = map (\<lambda>k. R ((H + k) mod Q)) [0..<n]"

definition mirror_ok :: "(nat \<Rightarrow> 'a) \<Rightarrow> nat \<Rightarrow> nat \<Rightarrow> nat \<Rightarrow> nat \<Rightarrow> bool" where
  "mirror_ok R Q M H n \<longleftrightarrow>
     (\<forall>k<n. (H + k) mod Q < M \<longrightarrow> R ((H + k) mod Q + Q) = R ((H + k) mod Q))"

lemma length_ring_view [simp]: "length (ring_view R Q H n) = n"
  by (simp add: ring_view_def)

lemma nth_ring_view [simp]: "k < n \<Longrightarrow> ring_view R Q H n ! k = R ((H + k) mod Q)"
  by (simp add: ring_view_def)

lemma ring_view_0 [simp]: "ring_view R Q H 0 = []"
  by (simp add: ring_view_def)

lemma mirror_ok_0 [simp]: "mirror_ok R Q M H 0"
  by (simp add: mirror_ok_def)

lemma ring_view_mod: "ring_view R Q (H mod Q) n = ring_view R Q H n"
  by (simp add: ring_view_def mod_add_left_eq)

lemma mirror_ok_mod: "mirror_ok R Q M (H mod Q) n = mirror_ok R Q M H n"
  by (simp add: mirror_ok_def mod_add_left_eq)

lemma ring_view_start: "H mod Q = H' mod Q \<Longrightarrow> ring_view R Q H n = ring_view R Q H' n"
  by (metis ring_view_mod)

lemma mirror_ok_start: "H mod Q = H' mod Q \<Longrightarrow> mirror_ok R Q M H n = mirror_ok R Q M H' n"
  by (metis mirror_ok_mod)

lemma mirror_okD:
  "mirror_ok R Q M H n \<Longrightarrow> k < n \<Longrightarrow> (H + k) mod Q < M \<Longrightarrow> R ((H + k) mod Q + Q) = R ((H + k) mod Q)"
  by (simp add: mirror_ok_def)

lemma ring_view_cong:
  "(\<And>k. k < n \<Longrightarrow> R ((H + k) mod Q) = R' ((H + k) mod Q)) \<Longrightarrow> ring_view R Q H n = ring_view R' Q H n"
  by (simp add: ring_view_def)

lemma ring_view_drop: "ring_view R Q (H + m) (n - m) = drop m (ring_view R Q H n)"
  by (rule nth_equalityI) (auto simp: ring_view_def add.assoc)

lemma ring_view_append: "ring_view R Q H (n + m) = ring_view R Q H n @ ring_view R Q (H + n) m"
  by (rule nth_equalityI) (auto simp: nth_append)

lemma mirror_ok_drop: "mirror_ok R Q M H n \<Longrightarrow> mirror_ok R Q M (H + m) (n - m)"
proof -
  assume "mirror_ok R Q M H n"
  then have "R ((H + (m + k)) mod Q + Q) = R ((H + (m + k)) mod Q)"
    if "k < n - m" and "(H + (m + k)) mod Q < M" for k
    using that by (intro mirror_okD) auto
  then show ?thesis by (simp add: mirror_ok_def add.assoc)
qed

lemma mirror_ok_append:
  "mirror_ok R Q M H n \<Longrightarrow> mirror_ok R Q M (H + n) m \<Longrightarrow> mirror_ok R Q M H (n + m)"
  unfolding mirror_ok_def
proof (intro allI impI)
  fix k
  assume old: "\<forall>k<n. (H + k) mod Q < M \<longrightarrow> R ((H + k) mod Q + Q) = R ((H + k) mod Q)"
    and new: "\<forall>k<m. (H + n + k) mod Q < M \<longrightarrow> R ((H + n + k) mod Q + Q) = R ((H + n + k) mod Q)"
    and k: "k < n + m" "(H + k) mod Q < M"
  show "R ((H + k) mod Q + Q) = R ((H + k) mod Q)"
  proof (cases "k < n")
    case True
    with old k show ?thesis by blast
  next
    case False
    then have "H + k = H + n + (k - n)" by simp
    with new k False show ?thesis by (metis add_diff_inverse_nat nat_add_left_cancel_less)
  qed
qed

text \<open>
  Two steps away from \<open>H\<close> name the same ring cell only when they are a full turn apart.
\<close>

lemma ring_pos_inj_le:
  fixes H :: nat
  assumes "i \<le> j" and "j < i + Q" and "(H + i) mod Q = (H + j) mod Q"
  shows "i = j"
proof -
  from assms(1,3) have "Q dvd (H + j) - (H + i)"
    by (metis add_le_cancel_left mod_eq_dvd_iff_nat)
  then have "Q dvd j - i" by simp
  with assms(1,2) show ?thesis
    using nat_dvd_not_less [of "j - i" Q] by fastforce
qed

lemma ring_pos_inj:
  fixes H :: nat
  assumes "(H + i) mod Q = (H + j) mod Q" and "i < j + Q" and "j < i + Q"
  shows "i = j"
  using assms ring_pos_inj_le [of i j Q H] ring_pos_inj_le [of j i Q H] by (metis nat_le_linear)

text \<open>
  Reading \<open>t\<close> bytes contiguously from the position of \<open>H\<close> gives the first \<open>t\<close> queued
  bytes, as long as the block stays inside the ring and its mirror.
\<close>

lemma ring_window:
  assumes "0 < Q" and "mirror_ok R Q M H n" and "t \<le> n" and "H mod Q + t \<le> Q + M"
    and "M \<le> Q"
  shows "map (\<lambda>k. R (H mod Q + k)) [0..<t] = take t (ring_view R Q H n)"
proof (rule nth_equalityI)
  show "length (map (\<lambda>k. R (H mod Q + k)) [0..<t]) = length (take t (ring_view R Q H n))"
    using assms(3) by simp
next
  fix k
  assume "k < length (map (\<lambda>k. R (H mod Q + k)) [0..<t])"
  then have k: "k < t" by simp
  have "R (H mod Q + k) = R ((H + k) mod Q)"
  proof (cases "H mod Q + k < Q")
    case True
    then show ?thesis by (metis mod_add_left_eq mod_less)
  next
    case False
    then have "(H mod Q + k) mod Q = H mod Q + k - Q"
      using assms(4,5) k by (simp add: le_mod_geq)
    then have pos: "(H + k) mod Q = H mod Q + k - Q"
      by (simp add: mod_add_left_eq)
    with False have "(H + k) mod Q + Q = H mod Q + k" by simp
    moreover from pos False k assms(4) have "(H + k) mod Q < M" by simp
    ultimately show ?thesis
      using mirror_okD [OF assms(2), of k] k assms(3) by simp
  qed
  with k assms(3) show "map (\<lambda>k. R (H mod Q + k)) [0..<t] ! k = take t (ring_view R Q H n) ! k"
    by simp
qed

section \<open>Channels in one memory block\<close>

text \<open>
  \<open>chan_view f a m\<close> reads the bytes of the channel that starts at address \<open>a\<close>. A client
  stores one block per channel, all at the same offset; \<open>write_chans\<close> is that loop.
\<close>

definition chan_view :: "(nat \<Rightarrow> nat) \<Rightarrow> nat \<Rightarrow> 'a mem \<Rightarrow> nat \<Rightarrow> 'a" where
  "chan_view f a m = (\<lambda>i. m (f (a + i)))"

definition write_chans ::
  "(nat \<Rightarrow> nat) \<Rightarrow> (nat \<Rightarrow> nat) \<Rightarrow> nat \<Rightarrow> nat \<Rightarrow> (nat \<Rightarrow> 'a list) \<Rightarrow> 'a mem \<Rightarrow> 'a mem" where
  "write_chans f a n off data m = fold (\<lambda>c m. write_block f m (a c + off) (data c)) [0..<n] m"

lemma write_chans_0 [simp]: "write_chans f a 0 off data m = m"
  by (simp add: write_chans_def)

lemma write_chans_Suc [simp]:
  "write_chans f a (Suc n) off data m = write_block f (write_chans f a n off data m) (a n + off) (data n)"
  by (simp add: write_chans_def)

locale mirrored_ring =
  fixes wf :: "'q \<Rightarrow> bool"
    and trans :: "'q \<Rightarrow> nat \<Rightarrow> nat"
    and chan_addr :: "'q \<Rightarrow> nat \<Rightarrow> nat"
    and ring :: "'q \<Rightarrow> nat"
    and mirror :: "'q \<Rightarrow> nat"
    and chans :: "'q \<Rightarrow> nat"
  assumes ring_pos: "wf q \<Longrightarrow> 0 < ring q"
    and mirror_le: "wf q \<Longrightarrow> mirror q \<le> ring q"
    and cell_sep: "wf q \<Longrightarrow> c < chans q \<Longrightarrow> d < chans q \<Longrightarrow>
      i < ring q + mirror q \<Longrightarrow> j < ring q + mirror q \<Longrightarrow>
      trans q (chan_addr q c + i) = trans q (chan_addr q d + j) \<Longrightarrow>
      c = d \<and> i mod ring q = j mod ring q"
begin

lemma write_other_chan:
  assumes "wf q" and "c < chans q" and "d < chans q" and "c \<noteq> d"
    and "off + length xs \<le> ring q + mirror q" and "i < ring q + mirror q"
  shows "chan_view (trans q) (chan_addr q c) (write_block (trans q) m (chan_addr q d + off) xs) i
    = chan_view (trans q) (chan_addr q c) m i"
  unfolding chan_view_def
proof (rule write_block_other)
  fix k
  assume "k < length xs"
  then show "trans q (chan_addr q d + off + k) \<noteq> trans q (chan_addr q c + i)"
    using assms cell_sep [of q d c "off + k" i] by (auto simp: add.assoc)
qed

lemma write_chan_puts:
  assumes "wf q" and "d < chans q" and "off + length xs \<le> ring q + mirror q"
    and "length xs \<le> ring q" and "j < length xs"
  shows "chan_view (trans q) (chan_addr q d) (write_block (trans q) m (chan_addr q d + off) xs) (off + j)
    = xs ! j"
proof -
  have "k = j" if "k < length xs"
    and "trans q (chan_addr q d + off + k) = trans q (chan_addr q d + off + j)" for k
  proof -
    have "(off + k) mod ring q = (off + j) mod ring q"
      using cell_sep [of q d d "off + k" "off + j"] assms that by (simp add: add.assoc)
    then show ?thesis
      using ring_pos_inj [of off k "ring q" j] that(1) assms(4,5) by simp
  qed
  then have "write_block (trans q) m (chan_addr q d + off) xs (trans q (chan_addr q d + off + j)) = xs ! j"
    using assms(5) by (intro write_block_in) auto
  then show ?thesis by (simp add: chan_view_def add.assoc)
qed

text \<open>A block stored behind the queued bytes, and no longer than the free space, keeps them.\<close>

lemma write_chan_keeps:
  assumes "wf q" and "d < chans q" and "k < n" and "n + length xs \<le> ring q"
    and "(H + n) mod ring q + length xs \<le> ring q + mirror q"
    and "i < ring q + mirror q" and "i mod ring q = (H + k) mod ring q"
  shows "chan_view (trans q) (chan_addr q d)
      (write_block (trans q) m (chan_addr q d + (H + n) mod ring q) xs) i
    = chan_view (trans q) (chan_addr q d) m i"
  unfolding chan_view_def
proof (rule write_block_other)
  fix j
  assume j: "j < length xs"
  show "trans q (chan_addr q d + (H + n) mod ring q + j) \<noteq> trans q (chan_addr q d + i)"
  proof
    assume "trans q (chan_addr q d + (H + n) mod ring q + j) = trans q (chan_addr q d + i)"
    then have "((H + n) mod ring q + j) mod ring q = i mod ring q"
      using cell_sep [of q d d "(H + n) mod ring q + j" i] assms(1,2,5,6) j by (simp add: add.assoc)
    then have "(H + (n + j)) mod ring q = (H + k) mod ring q"
      using assms(7) by (simp add: mod_add_left_eq add.assoc)
    then have "n + j = k"
      using ring_pos_inj [of H "n + j" "ring q" k] assms(3,4) j by simp
    with assms(3) show False by simp
  qed
qed

lemma write_chans_view:
  assumes "wf q" and "N \<le> chans q" and "c < chans q"
    and "\<And>d. d < N \<Longrightarrow> off + length (data d) \<le> ring q + mirror q" and "i < ring q + mirror q"
  shows "chan_view (trans q) (chan_addr q c) (write_chans (trans q) (chan_addr q) N off data m) i
    = (if c < N then chan_view (trans q) (chan_addr q c)
         (write_block (trans q) m (chan_addr q c + off) (data c)) i
       else chan_view (trans q) (chan_addr q c) m i)"
  using assms(2,4)
proof (induction N)
  case 0
  then show ?case by (simp add: write_chans_def)
next
  case (Suc N)
  let ?f = "trans q" and ?a = "chan_addr q"
  let ?m = "write_chans ?f ?a N off data m"
  have step: "write_chans ?f ?a (Suc N) off data m = write_block ?f ?m (?a N + off) (data N)"
    by (simp add: write_chans_def)
  have IH: "chan_view ?f (?a c) ?m i
    = (if c < N then chan_view ?f (?a c) (write_block ?f m (?a c + off) (data c)) i
       else chan_view ?f (?a c) m i)"
    using Suc by simp
  show ?case
  proof (cases "c = N")
    case False
    then show ?thesis
      using step IH Suc.prems assms write_other_chan [of q c N off "data N" i ?m] by auto
  next
    case True
    with IH have "?m (?f (?a N + i)) = m (?f (?a N + i))" by (simp add: chan_view_def)
    then have "write_block ?f ?m (?a N + off) (data N) (?f (?a N + i))
      = write_block ?f m (?a N + off) (data N) (?f (?a N + i))"
      by (rule write_block_local)
    with True step show ?thesis by (simp add: chan_view_def)
  qed
qed

end

section \<open>Maintaining the mirror by copying\<close>

text \<open>
  After \<open>C\<close> new bytes were stored from ring position \<open>I\<close>, the part of them below the
  mirrored prefix is copied up to the mirror (\<open>U\<close> bytes) and the part that ran over the end
  of the ring is copied down to its start (\<open>D\<close> bytes).
\<close>

definition mirror_step :: "(nat \<Rightarrow> 'a) \<Rightarrow> nat \<Rightarrow> nat \<Rightarrow> nat \<Rightarrow> nat \<Rightarrow> nat \<Rightarrow> 'a" where
  "mirror_step R Q I U D = memcpy (memcpy R (I + Q) I U) 0 Q D"

lemma mirror_step_apply:
  "D \<le> Q \<Longrightarrow> mirror_step R Q I U D i =
     (let p = (if i < D then Q + i else i) in if I + Q \<le> p \<and> p < I + Q + U then R (p - Q) else R p)"
  by (auto simp: mirror_step_def memcpy_apply Let_def)

lemma mirror_step_cong:
  assumes "D \<le> Q" and "D \<le> M" and "\<And>x. x < Q + M \<Longrightarrow> R x = R' x" and "i < Q + M"
  shows "mirror_step R Q I U D i = mirror_step R' Q I U D i"
  using assms by (auto simp: mirror_step_apply Let_def)

lemma memcpy_shift: "memcpy m (b + d) (b + s) n (b + i) = memcpy (\<lambda>i. m (b + i)) d s n i"
  by (auto simp: memcpy_apply add.assoc)

definition copy_up :: "nat \<Rightarrow> nat \<Rightarrow> nat \<Rightarrow> nat" where
  "copy_up M I C = (if I + C < M then C else if I < M then M - I else 0)"

definition copy_down :: "nat \<Rightarrow> nat \<Rightarrow> nat \<Rightarrow> nat" where
  "copy_down Q I C = (if Q < I + C then I + C - Q else 0)"

lemma copy_up_scale: "0 < e \<Longrightarrow> copy_up (m * e) (i * e) (n * e) = copy_up m i n * e"
  by (simp add: copy_up_def diff_mult_distrib flip: add_mult_distrib)

lemma copy_down_scale: "0 < e \<Longrightarrow> copy_down (m * e) (i * e) (n * e) = copy_down m i n * e"
  by (simp add: copy_down_def diff_mult_distrib flip: add_mult_distrib)

lemma mirror_step_0 [simp]: "mirror_step R Q I 0 0 = R"
  by (rule ext) (auto simp: mirror_step_def memcpy_apply)

lemma mirror_step_new:
  assumes "I < Q" and "C \<le> Q" and "j < C"
  shows "mirror_step R Q I (copy_up M I C) (copy_down Q I C) ((I + j) mod Q) = R (I + j)"
proof (cases "I + j < Q")
  case True
  then show ?thesis
    using assms by (auto simp: mirror_step_apply copy_up_def copy_down_def Let_def)
next
  case False
  then have "(I + j) mod Q = I + j - Q" using assms by (simp add: le_mod_geq)
  then show ?thesis
    using assms False by (auto simp: mirror_step_apply copy_up_def copy_down_def Let_def)
qed

lemma mirror_step_mirror:
  assumes "I < Q" and "C \<le> Q" and "j < C" and "M \<le> Q" and "(I + j) mod Q < M"
    and "I + C \<le> Q + M"
  shows "mirror_step R Q I (copy_up M I C) (copy_down Q I C) ((I + j) mod Q + Q)
    = mirror_step R Q I (copy_up M I C) (copy_down Q I C) ((I + j) mod Q)"
proof (cases "I + j < Q")
  case True
  then show ?thesis
    using assms by (auto simp: mirror_step_apply copy_up_def copy_down_def Let_def)
next
  case False
  then have "(I + j) mod Q = I + j - Q" using assms by (simp add: le_mod_geq)
  then show ?thesis
    using assms False by (auto simp: mirror_step_apply copy_up_def copy_down_def Let_def)
qed

text \<open>The copies write only cells whose ring position is that of one of the new bytes.\<close>

lemma mirror_step_old:
  assumes "I < Q" and "C \<le> Q" and "M \<le> Q" and "I + C \<le> Q + M"
    and "\<And>j. j < C \<Longrightarrow> i mod Q \<noteq> (I + j) mod Q"
  shows "mirror_step R Q I (copy_up M I C) (copy_down Q I C) i = R i"
proof -
  have "\<not> i < copy_down Q I C"
  proof
    assume "i < copy_down Q I C"
    then have "i + Q - I < C" "I + (i + Q - I) = i + Q"
      using assms(1,2) by (auto simp: copy_down_def split: if_splits)
    with assms(5) show False by (metis mod_add_self2)
  qed
  moreover have "\<not> (I + Q \<le> i \<and> i < I + Q + copy_up M I C)"
  proof
    assume "I + Q \<le> i \<and> i < I + Q + copy_up M I C"
    then have "i - Q - I < C" "i = I + (i - Q - I) + Q"
      using assms(1,2) by (auto simp: copy_up_def split: if_splits)
    with assms(5) show False by (metis mod_add_self2)
  qed
  ultimately show ?thesis
    using assms(1,2) by (auto simp: mirror_step_apply copy_down_def Let_def)
qed

text \<open>
  Appending to a ring: if the queued bytes are kept, the next \<open>C\<close> positions hold \<open>xs\<close>
  and the mirror repeats them, the queued bytes are the old ones followed by \<open>xs\<close>.
\<close>

lemma ring_append_block:
  assumes "0 < Q" and "M \<le> Q" and "mirror_ok R Q M H n" and "C \<le> length xs"
    and old: "\<And>k i. k < n \<Longrightarrow> i < Q + M \<Longrightarrow> i mod Q = (H + k) mod Q \<Longrightarrow> R' i = R i"
    and new: "\<And>j. j < C \<Longrightarrow> R' ((H + n + j) mod Q) = xs ! j"
    and mir: "\<And>j. j < C \<Longrightarrow> (H + n + j) mod Q < M \<Longrightarrow>
      R' ((H + n + j) mod Q + Q) = R' ((H + n + j) mod Q)"
  shows "ring_view R' Q H (n + C) = ring_view R Q H n @ take C xs"
    and "mirror_ok R' Q M H (n + C)"
proof -
  have pos: "(H + k) mod Q < Q" for k
    using assms(1) by simp
  have "ring_view R' Q H n = ring_view R Q H n"
    using old pos by (intro ring_view_cong) (simp add: trans_less_add1)
  moreover have "ring_view R' Q (H + n) C = take C xs"
    using new assms(4) by (intro nth_equalityI) auto
  ultimately show "ring_view R' Q H (n + C) = ring_view R Q H n @ take C xs"
    by (simp add: ring_view_append)
  have "mirror_ok R' Q M H n"
    unfolding mirror_ok_def
  proof (intro allI impI)
    fix k
    assume k: "k < n" and m: "(H + k) mod Q < M"
    have "R' ((H + k) mod Q) = R ((H + k) mod Q)"
      using old [OF k] pos by (simp add: trans_less_add1)
    moreover have "R' ((H + k) mod Q + Q) = R ((H + k) mod Q + Q)"
      using old [OF k] m by simp
    ultimately show "R' ((H + k) mod Q + Q) = R' ((H + k) mod Q)"
      using mirror_okD [OF assms(3) k m] by simp
  qed
  moreover have "mirror_ok R' Q M (H + n) C"
    using mir by (simp add: mirror_ok_def)
  ultimately show "mirror_ok R' Q M H (n + C)"
    by (rule mirror_ok_append)
qed

end
