(* ===== verification/Fifo.thy ===== *)
theory Fifo
  imports Prelude
begin

text \<open>
  The contract of the data queues: a first-in first-out byte stream per channel, with
  thresholds. A queue of the library is used through a pointer protocol (ask for a block, fill
  or read it, then release it); \<open>put\<close> and \<open>get\<close> stand for one round of that protocol and
  \<open>grow\<close> for enlarging the queue while it holds data. The laws say what a round does to the
  queued bytes; the lemmas show for every provider that any sequence of rounds is lossless,
  keeps the order, and never blocks before the advertised room or count is used up.
\<close>

datatype qop = Put nat "nat \<Rightarrow> byte list" | Get nat | GrowTo nat nat

type_synonym 'q put = "'q \<Rightarrow> nat \<Rightarrow> (nat \<Rightarrow> byte list) \<Rightarrow> 'q option"
type_synonym 'q get = "'q \<Rightarrow> nat \<Rightarrow> ('q \<times> (nat \<Rightarrow> byte list)) option"
type_synonym 'q grow = "'q \<Rightarrow> nat \<Rightarrow> nat \<Rightarrow> 'q option"

text \<open>
  A run of rounds: the final queue and what the reader received on each channel, or \<open>None\<close>
  as soon as a round would have to block.
\<close>

fun run_fifo :: "'q put \<Rightarrow> 'q get \<Rightarrow> 'q grow \<Rightarrow> qop list \<Rightarrow> 'q \<Rightarrow> ('q \<times> (nat \<Rightarrow> byte list)) option" where
  "run_fifo put get grow [] q = Some (q, \<lambda>_. [])"
| "run_fifo put get grow (Put n d # ops) q =
     (case put q n d of None \<Rightarrow> None | Some q' \<Rightarrow> run_fifo put get grow ops q')"
| "run_fifo put get grow (Get n # ops) q =
     (case get q n of None \<Rightarrow> None
      | Some (q', out) \<Rightarrow> map_option (map_prod id (\<lambda>outs c. out c @ outs c)) (run_fifo put get grow ops q'))"
| "run_fifo put get grow (GrowTo l t # ops) q =
     (case grow q l t of None \<Rightarrow> None | Some q' \<Rightarrow> run_fifo put get grow ops q')"

text \<open>The bytes a run sends on channel \<open>c\<close>.\<close>

fun sent :: "qop list \<Rightarrow> nat \<Rightarrow> byte list" where
  "sent [] c = []"
| "sent (Put n d # ops) c = d c @ sent ops c"
| "sent (Get n # ops) c = sent ops c"
| "sent (GrowTo l t # ops) c = sent ops c"

text \<open>
  Bookkeeping on element numbers alone: whether a run never has to block, given the number of
  queued elements \<open>k\<close>, the free elements \<open>r\<close> and the largest threshold \<open>m\<close> it starts with.
\<close>

fun admissible :: "nat \<Rightarrow> nat \<Rightarrow> qop list \<Rightarrow> nat \<Rightarrow> nat \<Rightarrow> nat \<Rightarrow> bool" where
  "admissible chs u [] k r m \<longleftrightarrow> True"
| "admissible chs u (Put n d # ops) k r m \<longleftrightarrow> n \<le> r \<and> n \<le> m \<and>
     (\<forall>c\<in>set [0..<chs]. length (d c) = n * u) \<and> admissible chs u ops (k + n) (r - n) m"
| "admissible chs u (Get n # ops) k r m \<longleftrightarrow> n \<le> k \<and> n \<le> m \<and> admissible chs u ops (k - n) (r + n) m"
| "admissible chs u (GrowTo l t # ops) k r m \<longleftrightarrow> admissible chs u ops k (max r (l - k)) (max m t)"

lemma admissible_mono:
  "admissible chs u ops k r m \<Longrightarrow> r \<le> r' \<Longrightarrow> m \<le> m' \<Longrightarrow> admissible chs u ops k r' m'"
proof (induction ops arbitrary: k r r' m m')
  case (Cons op ops)
  show ?case
  proof (cases op)
    case (Put n d)
    with Cons.prems Cons.IH [of "k + n" "r - n" m "r' - n" m'] show ?thesis by auto
  next
    case (Get n)
    with Cons.prems Cons.IH [of "k - n" "r + n" m "r' + n" m'] show ?thesis by auto
  next
    case (GrowTo l t)
    then have "admissible chs u ops k (max r (l - k)) (max m t)" using Cons.prems(1) by simp
    then have "admissible chs u ops k (max r' (l - k)) (max m' t)"
      by (rule Cons.IH) (use Cons.prems(2,3) in auto)
    with GrowTo show ?thesis by simp
  qed
qed simp

locale fifo_queue =
  fixes inv :: "'q \<Rightarrow> bool"
    and chans :: "'q \<Rightarrow> nat"
    and unit :: "'q \<Rightarrow> nat"
    and contents :: "'q \<Rightarrow> nat \<Rightarrow> byte list"
    and count :: "'q \<Rightarrow> nat"
    and room :: "'q \<Rightarrow> nat"
    and limit :: "'q \<Rightarrow> nat"
    and put :: "'q put"
    and get :: "'q get"
    and grow :: "'q grow"
  assumes put_enabled: "inv q \<Longrightarrow> put q n d \<noteq> None \<longleftrightarrow>
      n \<le> room q \<and> n \<le> limit q \<and> (\<forall>c<chans q. length (d c) = n * unit q)"
    and put_law: "inv q \<Longrightarrow> put q n d = Some q' \<Longrightarrow> inv q' \<and> chans q' = chans q \<and> unit q' = unit q \<and>
      room q' + n = room q \<and> count q' = count q + n \<and> limit q' = limit q \<and>
      (\<forall>c<chans q. contents q' c = contents q c @ d c)"
    and get_enabled: "inv q \<Longrightarrow> get q n \<noteq> None \<longleftrightarrow> n \<le> count q \<and> n \<le> limit q"
    and get_law: "inv q \<Longrightarrow> get q n = Some (q', out) \<Longrightarrow> inv q' \<and> chans q' = chans q \<and> unit q' = unit q \<and>
      room q' = room q + n \<and> count q' + n = count q \<and> limit q' = limit q \<and>
      (\<forall>c<chans q. contents q c = out c @ contents q' c \<and> length (out c) = n * unit q)"
    and grow_law: "inv q \<Longrightarrow> \<exists>q'. grow q l t = Some q' \<and> inv q' \<and> chans q' = chans q \<and> unit q' = unit q \<and>
      count q' = count q \<and> room q \<le> room q' \<and> limit q \<le> limit q' \<and>
      (\<forall>c<chans q. contents q' c = contents q c)"
begin

text \<open>Nothing is lost, duplicated or reordered by any run, growth included.\<close>

lemma run_lossless:
  assumes "inv q" and "run_fifo put get grow ops q = Some (q', out)"
  shows "inv q' \<and> chans q' = chans q \<and>
    (\<forall>c<chans q. contents q c @ sent ops c = out c @ contents q' c)"
  using assms
proof (induction ops arbitrary: q out)
  case Nil
  then show ?case by auto
next
  case (Cons op ops)
  show ?case
  proof (cases op)
    case (Put n d)
    with Cons.prems obtain q1 where q1: "put q n d = Some q1" "run_fifo put get grow ops q1 = Some (q', out)"
      by (auto split: option.splits)
    from put_law [OF Cons.prems(1) q1(1)] Cons.IH [OF _ q1(2)] Put show ?thesis by auto
  next
    case (Get n)
    with Cons.prems obtain q1 o1 o2 where q1: "get q n = Some (q1, o1)"
        "run_fifo put get grow ops q1 = Some (q', o2)" "out = (\<lambda>c. o1 c @ o2 c)"
      by (auto split: option.splits)
    from get_law [OF Cons.prems(1) q1(1)] Cons.IH [OF _ q1(2)] q1(3) Get show ?thesis by auto
  next
    case (GrowTo l t)
    with Cons.prems obtain q1 where q1: "grow q l t = Some q1" "run_fifo put get grow ops q1 = Some (q', out)"
      by (auto split: option.splits)
    from grow_law [OF Cons.prems(1), of l t] Cons.IH [OF _ q1(2)] q1(1) GrowTo show ?thesis by auto
  qed
qed

text \<open>A block goes in and comes out unchanged when the queue was empty.\<close>

lemma put_get:
  assumes "inv q" and "put q n d = Some q1" and "contents q c = []" and "c < chans q"
    and "get q1 n = Some (q2, out)"
  shows "out c = d c" and "contents q2 c = []"
proof -
  note p = put_law [OF assms(1,2)]
  have "length (d c) = n * unit q" using put_enabled [OF assms(1), of n d] assms(2,4) by auto
  then show "out c = d c" "contents q2 c = []"
    using p get_law [OF _ assms(5)] assms(3,4) by auto
qed

end

text \<open>Queues that become as large as asked for.\<close>

locale growing_queue = fifo_queue +
  assumes grow_room: "inv q \<Longrightarrow> grow q l t = Some q' \<Longrightarrow> l \<le> room q' + count q' \<and> t \<le> limit q'"
begin

text \<open>A run that the bookkeeping admits does not block.\<close>

lemma run_admissible:
  assumes "inv q" and "admissible (chans q) (unit q) ops (count q) (room q) (limit q)"
  shows "run_fifo put get grow ops q \<noteq> None"
  using assms
proof (induction ops arbitrary: q)
  case (Cons op ops)
  show ?case
  proof (cases op)
    case (Put n d)
    with Cons.prems obtain q1 where q1: "put q n d = Some q1"
      using put_enabled [OF Cons.prems(1), of n d] by auto
    from put_law [OF Cons.prems(1) q1] have "room q - n = room q1" by auto
    with put_law [OF Cons.prems(1) q1] Cons Put q1 show ?thesis by auto
  next
    case (Get n)
    with Cons.prems obtain q1 out where q1: "get q n = Some (q1, out)"
      using get_enabled [OF Cons.prems(1), of n] by auto
    from get_law [OF Cons.prems(1) q1] have "count q - n = count q1" by auto
    with get_law [OF Cons.prems(1) q1] Cons Get q1 show ?thesis by auto
  next
    case (GrowTo l t)
    obtain q1 where q1: "grow q l t = Some q1" "inv q1" "chans q1 = chans q" "unit q1 = unit q"
        "count q1 = count q" "room q \<le> room q1" "l \<le> room q1 + count q1" "limit q \<le> limit q1" "t \<le> limit q1"
      using grow_law [OF Cons.prems(1), of l t] grow_room [OF Cons.prems(1), of l t] by auto
    have "admissible (chans q) (unit q) ops (count q) (max (room q) (l - count q)) (max (limit q) t)"
      using Cons.prems(2) GrowTo by simp
    then have "admissible (chans q1) (unit q1) ops (count q1) (room q1) (limit q1)"
      unfolding q1(3-5) by (rule admissible_mono) (use q1 in auto)
    with Cons.IH q1 GrowTo show ?thesis by simp
  qed
qed simp

text \<open>After growing by \<open>n\<close> a writer that needs \<open>n\<close> elements does not block.\<close>

lemma grow_unblocks:
  assumes "inv q" and "\<forall>c<chans q. length (d c) = n * unit q"
  shows "\<exists>q1 q2. grow q (count q + n) n = Some q1 \<and> put q1 n d = Some q2 \<and>
    (\<forall>c<chans q. contents q2 c = contents q c @ d c)"
proof -
  obtain q1 where q1: "grow q (count q + n) n = Some q1" "inv q1" "chans q1 = chans q" "unit q1 = unit q"
      "count q1 = count q" "count q + n \<le> room q1 + count q1" "n \<le> limit q1"
      "\<forall>c<chans q. contents q1 c = contents q c"
    using grow_law [OF assms(1), of "count q + n" n] grow_room [OF assms(1), of "count q + n" n] by auto
  then obtain q2 where "put q1 n d = Some q2"
    using put_enabled [of q1 n d] assms(2) by auto
  with q1 put_law [OF q1(2)] show ?thesis by auto
qed

end

end
