(* ===== verification/CircQueue.thy ===== *)
theory CircQueue
  imports Ring Fifo
begin

text \<open>
  \<open>CircularQueue\<close> (libraries/CircularQueue/CircularQueue.cc, .h): the byte queue of the packet
  encoder and decoder. \<open>head\<close> is the next byte to write, \<open>tail\<close> the next byte to read; one cell
  of the ring stays empty, so the ring has \<open>size + 1\<close> cells, and each channel is followed by
  \<open>maxThreshold\<close> cells of overflow area. Unlike \<open>ThresholdQueueBase\<close> the overflow area is
  filled on demand: \<open>Enqueue\<close> copies what ran over the end down, \<open>GetRawDequeuePtr\<close> copies the
  start of the ring up. The buffer is a byte memory with its size; sizes are natural numbers.
\<close>

section \<open>State and operations\<close>

record cqueue =
  cq_queueLength :: nat
  cq_maxThreshold :: nat
  cq_numChannels :: nat
  cq_chanStride :: nat
  cq_head :: nat
  cq_tail :: nat
  cq_buffer :: "byte mem"
  cq_size :: nat

definition new_CircularQueue :: "nat \<Rightarrow> nat \<Rightarrow> nat \<Rightarrow> cqueue" where
  "new_CircularQueue sz maxThresh numChans =
    (let q = \<lparr>cq_queueLength = sz + 1, cq_maxThreshold = maxThresh, cq_numChannels = numChans,
              cq_chanStride = sz + 1 + maxThresh, cq_head = 0, cq_tail = 0, cq_buffer = \<lambda>_. 0,
              cq_size = (sz + 1 + maxThresh) * numChans\<rparr>
     in if sz < maxThresh
        then q\<lparr>cq_queueLength := maxThresh + 1, cq_chanStride := 2 * maxThresh + 1,
               cq_size := (2 * maxThresh + 1) * numChans\<rparr>
        else q)"

definition Freespace_cq :: "cqueue \<Rightarrow> nat" where
  "Freespace_cq q =
    (if cq_head q \<ge> cq_tail q then cq_queueLength q - (cq_head q - cq_tail q) - 1
     else cq_tail q - cq_head q - 1)"

definition Count_cq :: "cqueue \<Rightarrow> nat" where
  "Count_cq q =
    (if cq_head q \<ge> cq_tail q then cq_head q - cq_tail q
     else cq_head q + (cq_queueLength q - cq_tail q))"

definition QueueLength_cq :: "cqueue \<Rightarrow> nat" where
  "QueueLength_cq q = cq_queueLength q - 1"

definition Empty_cq :: "cqueue \<Rightarrow> bool" where
  "Empty_cq q \<longleftrightarrow> cq_head q = cq_tail q"

definition Full_cq :: "cqueue \<Rightarrow> bool" where
  "Full_cq q \<longleftrightarrow> Freespace_cq q = 0"

definition Clear_cq :: "cqueue \<Rightarrow> cqueue" where
  "Clear_cq q = q\<lparr>cq_head := 0, cq_tail := 0\<rparr>"

text \<open>An index into the buffer, \<open>Inr None\<close> for the null pointer.\<close>

definition GetRawEnqueuePtr_cq :: "cqueue \<Rightarrow> nat \<Rightarrow> nat \<Rightarrow> cpn_error + nat option" where
  "GetRawEnqueuePtr_cq q thresh chan =
     ASSERT (chan < cq_numChannels q)
       (if Freespace_cq q \<ge> thresh \<and> cq_maxThreshold q \<ge> thresh
        then Inr (Some (cq_head q + cq_chanStride q * chan)) else Inr None)"

definition copy_down_chan :: "cqueue \<Rightarrow> nat \<Rightarrow> nat \<Rightarrow> byte mem \<Rightarrow> byte mem" where
  "copy_down_chan q newHead chan m =
     memcpy m (cq_chanStride q * chan) (cq_queueLength q + cq_chanStride q * chan) newHead"

definition Enqueue_cq :: "cqueue \<Rightarrow> nat \<Rightarrow> cpn_error + cqueue" where
  "Enqueue_cq q count =
     ASSERT (count \<le> Freespace_cq q)
       (let newHead = cq_head q + count
        in if newHead \<ge> cq_queueLength q
           then let newHead' = newHead - cq_queueLength q
                in Inr (q\<lparr>cq_buffer := fold (copy_down_chan q newHead') [0..<cq_numChannels q] (cq_buffer q),
                          cq_head := newHead'\<rparr>)
           else Inr (q\<lparr>cq_head := newHead\<rparr>))"

definition GetRawDequeuePtr_cq :: "cqueue \<Rightarrow> nat \<Rightarrow> nat \<Rightarrow> nat option \<times> cqueue" where
  "GetRawDequeuePtr_cq q thresh chan =
    (let chanOff = cq_chanStride q * chan
     in if Count_cq q \<ge> thresh \<and> cq_maxThreshold q \<ge> thresh
        then (Some (cq_tail q + chanOff),
              if cq_tail q + thresh > cq_queueLength q
              then q\<lparr>cq_buffer := memcpy (cq_buffer q) (cq_queueLength q + chanOff) chanOff
                        (cq_tail q + thresh - cq_queueLength q)\<rparr>
              else q)
        else (None, q))"

definition Dequeue_cq :: "cqueue \<Rightarrow> nat \<Rightarrow> cpn_error + cqueue" where
  "Dequeue_cq q count =
     ASSERT (count \<le> Count_cq q)
       (let newTail = cq_tail q + count
        in Inr (q\<lparr>cq_tail := (if newTail \<ge> cq_queueLength q then newTail - cq_queueLength q else newTail)\<rparr>))"

text \<open>
  \<open>RawEnqueue\<close> and \<open>RawDequeue\<close> copy in chunks of at most \<open>MaxThreshold()\<close> bytes from and to
  the client memory \<open>data\<close>. The first channel is copied before the loop over the others.
\<close>

definition copy_in_chan ::
  "byte mem \<Rightarrow> nat \<Rightarrow> nat \<Rightarrow> nat \<Rightarrow> nat \<Rightarrow> cpn_error + cqueue \<Rightarrow> cpn_error + cqueue" where
  "copy_in_chan data stride numcopied n chan r = (case r of Inl e \<Rightarrow> Inl e | Inr q \<Rightarrow>
     (case GetRawEnqueuePtr_cq q n chan of
        Inl e \<Rightarrow> Inl e
      | Inr None \<Rightarrow> Inl AssertException
      | Inr (Some dest) \<Rightarrow> Inr (q\<lparr>cq_buffer :=
          write_block id (cq_buffer q) dest (read_block id data (numcopied + stride * chan) n)\<rparr>)))"

partial_function (option) RawEnqueue_loop ::
  "byte mem \<Rightarrow> nat \<Rightarrow> nat \<Rightarrow> nat \<Rightarrow> nat \<Rightarrow> cqueue \<Rightarrow> (cpn_error + cqueue) option" where
  "RawEnqueue_loop data count numChans stride numcopied q =
    (if numcopied < count then
       let numtocopy = min (count - numcopied) (cq_maxThreshold q)
       in case fold (copy_in_chan data stride numcopied numtocopy) (0 # [1..<numChans]) (Inr q) of
            Inl e \<Rightarrow> Some (Inl e)
          | Inr q1 \<Rightarrow>
             (case Enqueue_cq q1 numtocopy of
                Inl e \<Rightarrow> Some (Inl e)
              | Inr q2 \<Rightarrow> RawEnqueue_loop data count numChans stride (numcopied + numtocopy) q2)
     else Some (Inr q))"

definition RawEnqueue_cq ::
  "byte mem \<Rightarrow> nat \<Rightarrow> nat \<Rightarrow> nat \<Rightarrow> cqueue \<Rightarrow> (cpn_error + bool \<times> cqueue) option" where
  "RawEnqueue_cq data count numChans stride q =
    (if \<not> numChans \<le> cq_numChannels q then Some (Inl AssertException)
     else if Freespace_cq q < count then Some (Inr (False, q))
     else map_option (map_sum id (Pair True)) (RawEnqueue_loop data count numChans stride 0 q))"

definition copy_out_chan ::
  "nat \<Rightarrow> nat \<Rightarrow> nat \<Rightarrow> nat \<Rightarrow> cpn_error + cqueue \<times> byte mem \<Rightarrow> cpn_error + cqueue \<times> byte mem" where
  "copy_out_chan stride numcopied n chan r = (case r of Inl e \<Rightarrow> Inl e | Inr (q, data) \<Rightarrow>
     (case GetRawDequeuePtr_cq q n chan of
        (None, q') \<Rightarrow> Inl AssertException
      | (Some src, q') \<Rightarrow>
          Inr (q', write_block id data (numcopied + stride * chan) (read_block id (cq_buffer q') src n))))"

partial_function (option) RawDequeue_loop ::
  "nat \<Rightarrow> nat \<Rightarrow> nat \<Rightarrow> nat \<Rightarrow> cqueue \<Rightarrow> byte mem \<Rightarrow> (cpn_error + cqueue \<times> byte mem) option" where
  "RawDequeue_loop count numChans stride numcopied q data =
    (if numcopied < count then
       let numtocopy = min (count - numcopied) (cq_maxThreshold q)
       in case fold (copy_out_chan stride numcopied numtocopy) (0 # [1..<numChans]) (Inr (q, data)) of
            Inl e \<Rightarrow> Some (Inl e)
          | Inr (q1, data1) \<Rightarrow>
             (case Dequeue_cq q1 numtocopy of
                Inl e \<Rightarrow> Some (Inl e)
              | Inr q2 \<Rightarrow> RawDequeue_loop count numChans stride (numcopied + numtocopy) q2 data1)
     else Some (Inr (q, data)))"

definition RawDequeue_cq ::
  "byte mem \<Rightarrow> nat \<Rightarrow> nat \<Rightarrow> nat \<Rightarrow> cqueue \<Rightarrow> (cpn_error + bool \<times> cqueue \<times> byte mem) option" where
  "RawDequeue_cq data count numChans stride q =
    (if \<not> numChans \<le> cq_numChannels q then Some (Inl AssertException)
     else if Count_cq q < count then Some (Inr (False, q, data))
     else map_option (map_sum id (Pair True)) (RawDequeue_loop count numChans stride 0 q data))"

definition Grow_cq :: "cqueue \<Rightarrow> nat \<Rightarrow> nat \<Rightarrow> (cpn_error + cqueue) option" where
  "Grow_cq q queueLen0 maxThresh0 =
    (if queueLen0 \<le> cq_queueLength q \<and> maxThresh0 \<le> cq_maxThreshold q then Some (Inr q)
     else
       let queueLen = (if queueLen0 < cq_queueLength q then cq_queueLength q else queueLen0);
           maxThresh = (if maxThresh0 < cq_maxThreshold q then cq_maxThreshold q else maxThresh0);
           newchanstride = queueLen + 1 + maxThresh;
           oldcount = Count_cq q
       in case RawDequeue_cq (\<lambda>_. 0) oldcount (cq_numChannels q) newchanstride q of
            None \<Rightarrow> None
          | Some (Inl e) \<Rightarrow> Some (Inl e)
          | Some (Inr (False, _, _)) \<Rightarrow> Some (Inl AssertException)
          | Some (Inr (True, q', copybuffer)) \<Rightarrow>
              Some (Inr (q'\<lparr>cq_tail := 0, cq_queueLength := queueLen + 1, cq_maxThreshold := maxThresh,
                cq_chanStride := newchanstride, cq_head := oldcount, cq_buffer := copybuffer,
                cq_size := newchanstride * cq_numChannels q'\<rparr>)))"

section \<open>Well-formed queues and their contents\<close>

definition cq_inv :: "cqueue \<Rightarrow> bool" where
  "cq_inv q \<longleftrightarrow> 0 < cq_numChannels q \<and> 1 \<le> cq_maxThreshold q \<and>
     cq_head q < cq_queueLength q \<and> cq_tail q < cq_queueLength q \<and>
     cq_chanStride q = cq_queueLength q + cq_maxThreshold q \<and> cq_size q = cq_chanStride q * cq_numChannels q"

definition cq_view :: "cqueue \<Rightarrow> nat \<Rightarrow> nat \<Rightarrow> byte" where
  "cq_view q c = chan_view id (cq_chanStride q * c) (cq_buffer q)"

definition cq_contents :: "cqueue \<Rightarrow> nat \<Rightarrow> byte list" where
  "cq_contents q c = ring_view (cq_view q c) (cq_queueLength q) (cq_tail q) (Count_cq q)"

definition cq_mirror :: "cqueue \<Rightarrow> nat" where
  "cq_mirror q = min (cq_maxThreshold q) (cq_queueLength q)"

text \<open>One round of the pointer protocol on all channels.\<close>

definition fill_cq :: "cqueue \<Rightarrow> nat \<Rightarrow> (nat \<Rightarrow> byte list) \<Rightarrow> cqueue" where
  "fill_cq q n d = q\<lparr>cq_buffer :=
     write_chans id (\<lambda>c. cq_chanStride q * c) (cq_numChannels q) (cq_head q) d (cq_buffer q)\<rparr>"

definition put_cq :: "cqueue put" where
  "put_cq q n d =
    (if GetRawEnqueuePtr_cq q n 0 \<noteq> Inr None \<and> (\<forall>c\<in>set [0..<cq_numChannels q]. length (d c) = n)
     then (case Enqueue_cq (fill_cq q n d) n of Inl _ \<Rightarrow> None | Inr q' \<Rightarrow> Some q') else None)"

definition read_chan_cq :: "nat \<Rightarrow> nat \<Rightarrow> cqueue \<times> (nat \<Rightarrow> byte list) \<Rightarrow> cqueue \<times> (nat \<Rightarrow> byte list)" where
  "read_chan_cq n c = (\<lambda>(q, out). case GetRawDequeuePtr_cq q n c of
      (None, q') \<Rightarrow> (q', out)
    | (Some p, q') \<Rightarrow> (q', out(c := read_block id (cq_buffer q') p n)))"

definition get_cq :: "cqueue get" where
  "get_cq q n =
    (if fst (GetRawDequeuePtr_cq q n 0) \<noteq> None
     then let (q1, out) = fold (read_chan_cq n) [0..<cq_numChannels q] (q, \<lambda>_. [])
          in (case Dequeue_cq q1 n of Inl _ \<Rightarrow> None | Inr q2 \<Rightarrow> Some (q2, out))
     else None)"

definition grow_cq :: "cqueue grow" where
  "grow_cq q l t = (case Grow_cq q l t of Some (Inr q') \<Rightarrow> Some q' | _ \<Rightarrow> None)"

section \<open>Positions and counts\<close>

lemma cq_invD:
  assumes "cq_inv q"
  shows "0 < cq_numChannels q" "1 \<le> cq_maxThreshold q" "cq_head q < cq_queueLength q"
    "cq_tail q < cq_queueLength q" "cq_chanStride q = cq_queueLength q + cq_maxThreshold q"
    "cq_size q = cq_chanStride q * cq_numChannels q" "0 < cq_queueLength q"
  using assms by (auto simp: cq_inv_def)

lemma Count_cq_free: "cq_inv q \<Longrightarrow> Count_cq q + Freespace_cq q + 1 = cq_queueLength q"
  by (auto simp: cq_inv_def Count_cq_def Freespace_cq_def)

lemma cq_head_eq: "cq_inv q \<Longrightarrow> cq_head q = (cq_tail q + Count_cq q) mod cq_queueLength q"
  by (auto simp: cq_inv_def Count_cq_def)

lemma cq_count_iff:
  assumes "cq_tail q < cq_queueLength q" and "n < cq_queueLength q"
    and "cq_head q = (cq_tail q + n) mod cq_queueLength q"
  shows "Count_cq q = n"
proof (cases "cq_tail q + n < cq_queueLength q")
  case True
  with assms show ?thesis by (auto simp: Count_cq_def)
next
  case False
  then have "(cq_tail q + n) mod cq_queueLength q = cq_tail q + n - cq_queueLength q"
    using assms(1,2) by (simp add: le_mod_geq)
  with assms False show ?thesis by (auto simp: Count_cq_def)
qed

lemma cq_buffer_same [simp]:
  "Count_cq (q\<lparr>cq_buffer := m\<rparr>) = Count_cq q" "Freespace_cq (q\<lparr>cq_buffer := m\<rparr>) = Freespace_cq q"
  "cq_inv (q\<lparr>cq_buffer := m\<rparr>) = cq_inv q" "cq_mirror (q\<lparr>cq_buffer := m\<rparr>) = cq_mirror q"
  "GetRawEnqueuePtr_cq (q\<lparr>cq_buffer := m\<rparr>) = GetRawEnqueuePtr_cq q"
  by (auto simp: Count_cq_def Freespace_cq_def cq_inv_def cq_mirror_def GetRawEnqueuePtr_cq_def fun_eq_iff)

interpretation cqr: mirrored_ring cq_inv "\<lambda>_. id" "\<lambda>q c. cq_chanStride q * c" cq_queueLength cq_mirror
    cq_numChannels
proof
  fix q :: cqueue
  assume inv: "cq_inv q"
  show "0 < cq_queueLength q" using cq_invD(7) [OF inv] .
  show "cq_mirror q \<le> cq_queueLength q" by (simp add: cq_mirror_def)
  fix c d i j
  assume ij: "i < cq_queueLength q + cq_mirror q" "j < cq_queueLength q + cq_mirror q"
    and eq: "id (cq_chanStride q * c + i) = id (cq_chanStride q * d + j)"
  have "cq_queueLength q + cq_mirror q \<le> cq_chanStride q"
    using cq_invD(5) [OF inv] by (simp add: cq_mirror_def)
  with ij eq have "c = d \<and> i = j"
    using block_number_inj [of c "cq_chanStride q" i d j] by (simp add: mult.commute)
  then show "c = d \<and> i mod cq_queueLength q = j mod cq_queueLength q" by simp
qed

lemma cq_window:
  "cq_inv q \<Longrightarrow> n \<le> cq_maxThreshold q \<Longrightarrow> n < cq_queueLength q \<Longrightarrow> h < cq_queueLength q \<Longrightarrow>
    h + n \<le> cq_queueLength q + cq_mirror q"
  by (auto simp: cq_mirror_def)

section \<open>Writing\<close>

lemma copy_down_view:
  assumes "cq_inv q" and "n \<le> cq_maxThreshold q" and "n \<le> cq_queueLength q" and "c < cq_numChannels q"
    and "i < cq_chanStride q"
  shows "fold (copy_down_chan q n) [0..<cq_numChannels q] m (cq_chanStride q * c + i)
    = (if i < n then m (cq_chanStride q * c + (cq_queueLength q + i)) else m (cq_chanStride q * c + i))"
proof -
  let ?S = "cq_chanStride q"
  let ?reg = "\<lambda>c. {?S * c..<?S * c + ?S}"
  have S: "?S = cq_queueLength q + cq_maxThreshold q" using cq_invD(5) [OF assms(1)] .
  have "fold (copy_down_chan q n) [0..<cq_numChannels q] m (?S * c + i)
      = (if c < cq_numChannels q then copy_down_chan q n c m (?S * c + i) else m (?S * c + i))"
  proof (rule fold_regions [where reg = ?reg])
    show "copy_down_chan q n c m a = m a" if "a \<notin> ?reg c" for c m a
      using that assms(2,3) S by (auto simp: copy_down_chan_def memcpy_apply)
    show "copy_down_chan q n c m a = copy_down_chan q n c m' a"
      if "\<And>b. b \<in> ?reg c \<Longrightarrow> m b = m' b" and "a \<in> ?reg c" for c m m' a
      using that assms(2,3) S by (auto simp: copy_down_chan_def memcpy_apply)
    show "?reg c \<inter> ?reg d = {}" if "c \<noteq> d" for c d
    proof -
      have "c = d" if "?S * c \<le> x" "x < ?S * c + ?S" "?S * d \<le> x" "x < ?S * d + ?S" for x
        using block_number_inj [of c ?S "x - ?S * c" d "x - ?S * d"] that by (auto simp: mult.commute)
      with that show ?thesis unfolding disjoint_iff atLeastLessThan_iff by blast
    qed
    show "?S * c + i \<in> ?reg c" using assms(5) by simp
  qed
  then show ?thesis
    using assms(4) by (simp add: copy_down_chan_def memcpy_apply ac_simps)
qed

lemma Enqueue_cq_enabled: "(\<exists>q'. Enqueue_cq q n = Inr q') \<longleftrightarrow> n \<le> Freespace_cq q"
  by (auto simp: Enqueue_cq_def ASSERT_def Let_def)

text \<open>The bytes of a channel after \<open>Enqueue\<close>.\<close>

lemma Enqueue_cq_ok:
  assumes "cq_inv q" and "n \<le> cq_maxThreshold q" and q': "Enqueue_cq q n = Inr q'"
  shows "cq_inv q'" and "Count_cq q' = Count_cq q + n"
    and "cq_tail q' = cq_tail q" and "cq_queueLength q' = cq_queueLength q"
    and "cq_maxThreshold q' = cq_maxThreshold q" and "cq_numChannels q' = cq_numChannels q"
    and "cq_chanStride q' = cq_chanStride q"
    and "\<And>c i. c < cq_numChannels q \<Longrightarrow> i < cq_queueLength q \<Longrightarrow>
       cq_view q' c i = cq_view q c (if cq_queueLength q + i < cq_head q + n then cq_queueLength q + i else i)"
proof -
  let ?L = "cq_queueLength q"
  note D = cq_invD [OF assms(1)]
  have free: "n \<le> Freespace_cq q" using q' by (simp add: Enqueue_cq_def ASSERT_Inr)
  have n: "n < ?L" "Count_cq q + n < ?L" using Count_cq_free [OF assms(1)] free by linarith+
  define h where "h = (cq_head q + n) mod ?L"
  have h: "h = (if cq_head q + n \<ge> ?L then cq_head q + n - ?L else cq_head q + n)"
    using D(3) n by (simp add: h_def le_mod_geq)
  have q'_def: "q' = (if cq_head q + n \<ge> ?L
     then q\<lparr>cq_buffer := fold (copy_down_chan q h) [0..<cq_numChannels q] (cq_buffer q), cq_head := h\<rparr>
     else q\<lparr>cq_head := h\<rparr>)"
    using q' h by (auto simp: Enqueue_cq_def ASSERT_Inr Let_def split: if_splits)
  show same: "cq_tail q' = cq_tail q" "cq_queueLength q' = ?L" "cq_maxThreshold q' = cq_maxThreshold q"
      "cq_numChannels q' = cq_numChannels q" "cq_chanStride q' = cq_chanStride q"
    by (simp_all add: q'_def)
  have same': "cq_head q' = h" "cq_size q' = cq_size q" by (simp_all add: q'_def)
  have "h < ?L" using D(7) by (simp add: h_def)
  then show "cq_inv q'" using assms(1) by (simp add: cq_inv_def same same')
  have "h = (cq_tail q + (Count_cq q + n)) mod ?L"
    using cq_head_eq [OF assms(1)] by (simp add: h_def mod_add_left_eq add.assoc)
  then show "Count_cq q' = Count_cq q + n"
    using D(4) n by (intro cq_count_iff) (simp_all add: same same')
  show "cq_view q' c i = cq_view q c (if ?L + i < cq_head q + n then ?L + i else i)"
    if "c < cq_numChannels q" "i < ?L" for c i
  proof (cases "cq_head q + n \<ge> ?L")
    case True
    have "h \<le> cq_maxThreshold q" "h \<le> ?L" using True h assms(2) D(3) \<open>h < ?L\<close> by auto
    then show ?thesis
      using copy_down_view [OF assms(1) _ _ that(1), of h i "cq_buffer q"] that(2) D(5) True h
      by (auto simp: cq_view_def chan_view_def q'_def)
  next
    case False
    then show ?thesis using that by (simp add: cq_view_def chan_view_def q'_def)
  qed
qed

lemma put_cq_enabled:
  assumes "cq_inv q"
  shows "put_cq q n d \<noteq> None \<longleftrightarrow>
    n \<le> Freespace_cq q \<and> n \<le> cq_maxThreshold q \<and> (\<forall>c<cq_numChannels q. length (d c) = n)"
proof
  assume "put_cq q n d \<noteq> None"
  then show "n \<le> Freespace_cq q \<and> n \<le> cq_maxThreshold q \<and> (\<forall>c<cq_numChannels q. length (d c) = n)"
    using cq_invD(1) [OF assms] by (auto simp: put_cq_def GetRawEnqueuePtr_cq_def split: if_splits)
next
  assume a: "n \<le> Freespace_cq q \<and> n \<le> cq_maxThreshold q \<and> (\<forall>c<cq_numChannels q. length (d c) = n)"
  then obtain q' where "Enqueue_cq (fill_cq q n d) n = Inr q'"
    using Enqueue_cq_enabled [of "fill_cq q n d" n] by (auto simp: fill_cq_def)
  with a show "put_cq q n d \<noteq> None"
    using cq_invD(1) [OF assms] by (auto simp: put_cq_def GetRawEnqueuePtr_cq_def)
qed

lemma put_cq_Some:
  assumes "cq_inv q" and "put_cq q n d = Some q'"
  shows "cq_inv q'" and "Count_cq q' = Count_cq q + n" and "cq_queueLength q' = cq_queueLength q"
    and "cq_maxThreshold q' = cq_maxThreshold q" and "cq_numChannels q' = cq_numChannels q"
    and "c < cq_numChannels q \<Longrightarrow> cq_contents q' c = cq_contents q c @ d c"
proof -
  let ?L = "cq_queueLength q" and ?M = "cq_mirror q" and ?q1 = "fill_cq q n d"
  note D = cq_invD [OF assms(1)]
  have n: "n \<le> Freespace_cq q" "n \<le> cq_maxThreshold q"
    and len: "\<And>c. c < cq_numChannels q \<Longrightarrow> length (d c) = n"
    using put_cq_enabled [OF assms(1), of n d] assms(2) by auto
  have room: "Count_cq q + n < ?L" using Count_cq_free [OF assms(1)] n by linarith
  have q': "Enqueue_cq ?q1 n = Inr q'"
    using assms(2) by (auto simp: put_cq_def split: if_splits sum.splits)
  have inv1: "cq_inv ?q1" using assms(1) by (simp add: fill_cq_def)
  have sz1: "cq_queueLength ?q1 = ?L" "cq_numChannels ?q1 = cq_numChannels q" "cq_head ?q1 = cq_head q"
      "cq_tail ?q1 = cq_tail q" "cq_maxThreshold ?q1 = cq_maxThreshold q" "Count_cq ?q1 = Count_cq q"
    by (simp_all add: fill_cq_def)
  note e = Enqueue_cq_ok [OF inv1 _ q', unfolded sz1, OF n(2)]
  show "cq_inv q'" "Count_cq q' = Count_cq q + n" "cq_queueLength q' = ?L"
    "cq_maxThreshold q' = cq_maxThreshold q" "cq_numChannels q' = cq_numChannels q"
    by (fact e)+
  show "cq_contents q' c = cq_contents q c @ d c" if c: "c < cq_numChannels q"
  proof -
    have fits: "cq_head q + length (d e) \<le> ?L + ?M" if "e < cq_numChannels q" for e
      using cq_window [OF assms(1) n(2) _ D(3)] len [OF that] room by simp
    have view1: "cq_view ?q1 c i = chan_view id (cq_chanStride q * c)
        (write_block id (cq_buffer q) (cq_chanStride q * c + cq_head q) (d c)) i" if "i < ?L + ?M" for i
      using cqr.write_chans_view [OF assms(1) order.refl c, of "cq_head q" d i] fits that c
      by (simp add: fill_cq_def cq_view_def)
    have H: "cq_head q = (cq_tail q + Count_cq q) mod ?L" using cq_head_eq [OF assms(1)] .
    have pos: "j < n \<Longrightarrow> (cq_tail q + Count_cq q + j) mod ?L
        = (if cq_head q + j < ?L then cq_head q + j else cq_head q + j - ?L)" for j
    proof -
      assume j: "j < n"
      have "(cq_tail q + Count_cq q + j) mod ?L = (cq_head q + j) mod ?L"
        unfolding H by (simp add: mod_add_left_eq)
      then show ?thesis using D(3) room j by (simp add: le_mod_geq)
    qed
    have new: "cq_view q' c ((cq_tail q + Count_cq q + j) mod ?L) = d c ! j" if j: "j < n" for j
    proof -
      have "cq_view q' c ((cq_tail q + Count_cq q + j) mod ?L) = cq_view ?q1 c (cq_head q + j)"
        using e(8) [OF c, of "(cq_tail q + Count_cq q + j) mod ?L"] D(3,7) pos [OF j] j room
        by (auto split: if_splits)
      also have "\<dots> = d c ! j"
        using view1 [of "cq_head q + j"] cqr.write_chan_puts [OF assms(1) c fits [OF c], of j] len [OF c] j room
          fits [OF c] by simp
      finally show ?thesis .
    qed
    have old: "cq_view q' c i = cq_view q c i" if k: "k < Count_cq q" "i < ?L + 0" "i mod ?L = (cq_tail q + k) mod ?L" for k i
    proof -
      have i: "i < ?L" using k(2) by simp
      have "\<not> ?L + i < cq_head q + n"
      proof
        assume l: "?L + i < cq_head q + n"
        define x where "x = ?L + i - cq_head q"
        have x: "x < n" "cq_head q + x = ?L + i" using l D(3) by (auto simp: x_def)
        have "(cq_tail q + Count_cq q + x) mod ?L = (cq_head q + x) mod ?L"
          by (simp only: H mod_add_left_eq)
        then have "(cq_tail q + (Count_cq q + x)) mod ?L = (cq_tail q + k) mod ?L"
          using x(2) k(3) by (simp add: add.assoc)
        then have "Count_cq q + x = k"
          by (rule ring_pos_inj) (use k(1) room x(1) in auto)
        with k(1) show False by simp
      qed
      then have "cq_view q' c i = cq_view ?q1 c i" using e(8) [OF c i] by simp
      also have "\<dots> = cq_view q c i"
        using view1 [of i] cqr.write_chan_keeps [OF assms(1) c k(1), of "d c" "cq_tail q" i "cq_buffer q"]
          len [OF c] room fits [OF c] k i H by (simp add: cq_view_def)
      finally show ?thesis .
    qed
    have "ring_view (cq_view q' c) ?L (cq_tail q) (Count_cq q + n)
        = ring_view (cq_view q c) ?L (cq_tail q) (Count_cq q) @ take n (d c)"
      by (rule ring_append_block(1) [where M = 0]) (use D(7) len [OF c] old new in \<open>auto simp: mirror_ok_def\<close>)
    then show ?thesis using e len [OF c] by (simp add: cq_contents_def)
  qed
qed

section \<open>Reading\<close>

text \<open>\<open>GetRawDequeuePtr\<close> changes only the overflow area, and its block is the front of the channel.\<close>

lemma GetRawDequeuePtr_cq_ok:
  assumes "cq_inv q" and "n \<le> Count_cq q" and "n \<le> cq_maxThreshold q" and "c < cq_numChannels q"
  shows "\<exists>m. GetRawDequeuePtr_cq q n c = (Some (cq_tail q + cq_chanStride q * c), q\<lparr>cq_buffer := m\<rparr>) \<and>
    (\<forall>d<cq_numChannels q. cq_contents (q\<lparr>cq_buffer := m\<rparr>) d = cq_contents q d) \<and>
    read_block id m (cq_tail q + cq_chanStride q * c) n = take n (cq_contents q c)"
proof -
  let ?L = "cq_queueLength q" and ?S = "cq_chanStride q"
  note D = cq_invD [OF assms(1)]
  have n: "n < ?L" using Count_cq_free [OF assms(1)] assms(2) by linarith
  define w where "w = cq_tail q + n - ?L"
  define m where "m = memcpy (cq_buffer q) (?L + ?S * c) (?S * c) w"
  have w: "w \<le> cq_maxThreshold q" "w \<le> ?L" using D(4) assms(3) n by (auto simp: w_def)
  have "memcpy (cq_buffer q) a b 0 = cq_buffer q" for a b by (rule ext) (auto simp: memcpy_apply)
  then have ptr: "GetRawDequeuePtr_cq q n c = (Some (cq_tail q + ?S * c), q\<lparr>cq_buffer := m\<rparr>)"
    using assms(2,3) by (auto simp: GetRawDequeuePtr_cq_def m_def w_def Let_def)
  have ring: "m (?S * d + i) = cq_buffer q (?S * d + i)" if "i < ?L" for d i
  proof -
    have "\<not> (?L + ?S * c \<le> ?S * d + i \<and> ?S * d + i < ?L + ?S * c + w)"
    proof
      assume a: "?L + ?S * c \<le> ?S * d + i \<and> ?S * d + i < ?L + ?S * c + w"
      then have "d * ?S + i = c * ?S + (?S * d + i - ?S * c)" "?S * d + i - ?S * c < ?S" "i < ?S"
        using w D(5) that by (auto simp: mult.commute)
      then have "i = ?S * d + i - ?S * c" using block_number_inj [of d ?S i c] by blast
      with a that show False by linarith
    qed
    then show ?thesis by (auto simp: m_def memcpy_apply)
  qed
  have cont: "cq_contents (q\<lparr>cq_buffer := m\<rparr>) d = cq_contents q d" for d
    unfolding cq_contents_def using ring D(7)
    by (auto simp: cq_view_def chan_view_def intro!: ring_view_cong)
  have "read_block id m (cq_tail q + ?S * c) n = take n (cq_contents q c)"
  proof (rule nth_equalityI)
    fix k assume "k < length (read_block id m (cq_tail q + ?S * c) n)"
    then have k: "k < n" by simp
    have "m (?S * c + (cq_tail q + k)) = cq_buffer q (?S * c + (cq_tail q + k) mod ?L)"
    proof (cases "cq_tail q + k < ?L")
      case True
      then show ?thesis using ring [of "cq_tail q + k" c] by simp
    next
      case False
      then have "(cq_tail q + k) mod ?L = cq_tail q + k - ?L" using D(4) n k by (simp add: le_mod_geq)
      with False k show ?thesis by (simp add: m_def memcpy_apply w_def)
    qed
    with k assms(2) show "read_block id m (cq_tail q + ?S * c) n ! k = take n (cq_contents q c) ! k"
      by (simp add: cq_contents_def cq_view_def chan_view_def ac_simps)
  qed (use assms(2) in \<open>simp add: cq_contents_def\<close>)
  with ptr cont show ?thesis by blast
qed

lemma Dequeue_cq_ok:
  assumes "cq_inv q" and "n \<le> Count_cq q"
  shows "\<exists>q'. Dequeue_cq q n = Inr q' \<and> cq_inv q' \<and> Count_cq q' + n = Count_cq q \<and>
    cq_queueLength q' = cq_queueLength q \<and> cq_maxThreshold q' = cq_maxThreshold q \<and>
    cq_numChannels q' = cq_numChannels q \<and> (\<forall>c. cq_contents q' c = drop n (cq_contents q c))"
proof -
  let ?L = "cq_queueLength q"
  note D = cq_invD [OF assms(1)]
  have n: "n < ?L" "Count_cq q < ?L" using Count_cq_free [OF assms(1)] assms(2) by linarith+
  define t where "t = (cq_tail q + n) mod ?L"
  have t: "t = (if cq_tail q + n \<ge> ?L then cq_tail q + n - ?L else cq_tail q + n)"
    using D(4) n by (simp add: t_def le_mod_geq)
  have q': "Dequeue_cq q n = Inr (q\<lparr>cq_tail := t\<rparr>)" using assms(2) t by (auto simp: Dequeue_cq_def Let_def)
  have inv: "cq_inv (q\<lparr>cq_tail := t\<rparr>)" using assms(1) D(7) by (simp add: cq_inv_def t_def)
  have "cq_head q = (t + (Count_cq q - n)) mod ?L"
    using cq_head_eq [OF assms(1)] assms(2) unfolding t_def mod_add_left_eq by simp
  then have cnt: "Count_cq (q\<lparr>cq_tail := t\<rparr>) = Count_cq q - n"
    using D(7) n by (intro cq_count_iff) (simp_all add: t_def)
  have "cq_contents (q\<lparr>cq_tail := t\<rparr>) c = drop n (cq_contents q c)" for c
    unfolding cq_contents_def cnt
    by (simp add: cq_view_def t_def ring_view_mod ring_view_drop [symmetric])
  with q' inv cnt assms(2) show ?thesis by simp
qed

lemma read_chan_cq_eq:
  "GetRawDequeuePtr_cq q n c = (Some p, q') \<Longrightarrow>
    read_chan_cq n c (q, out) = (q', out(c := read_block id (cq_buffer q') p n))"
  by (simp add: read_chan_cq_def)

lemma get_cq_Some:
  assumes "cq_inv q" and "n \<le> Count_cq q" and "n \<le> cq_maxThreshold q"
  shows "\<exists>q' out. get_cq q n = Some (q', out) \<and> cq_inv q' \<and> Count_cq q' + n = Count_cq q \<and>
    cq_queueLength q' = cq_queueLength q \<and> cq_maxThreshold q' = cq_maxThreshold q \<and>
    cq_numChannels q' = cq_numChannels q \<and>
    (\<forall>c<cq_numChannels q. cq_contents q c = out c @ cq_contents q' c \<and> length (out c) = n)"
proof -
  have loop: "N \<le> cq_numChannels q \<Longrightarrow> \<exists>m out. fold (read_chan_cq n) [0..<N] (q, \<lambda>_. []) = (q\<lparr>cq_buffer := m\<rparr>, out) \<and>
      (\<forall>d<cq_numChannels q. cq_contents (q\<lparr>cq_buffer := m\<rparr>) d = cq_contents q d) \<and>
      (\<forall>c<N. out c = take n (cq_contents q c))" for N
  proof (induction N)
    case 0
    have "q = q\<lparr>cq_buffer := cq_buffer q\<rparr>" by simp
    then show ?case by (intro exI [of _ "cq_buffer q"] exI [of _ "\<lambda>_. []"]) simp
  next
    case (Suc N)
    then obtain m out where IH: "fold (read_chan_cq n) [0..<N] (q, \<lambda>_. []) = (q\<lparr>cq_buffer := m\<rparr>, out)"
        "\<forall>d<cq_numChannels q. cq_contents (q\<lparr>cq_buffer := m\<rparr>) d = cq_contents q d"
        "\<forall>c<N. out c = take n (cq_contents q c)" by auto
    obtain m' where "GetRawDequeuePtr_cq (q\<lparr>cq_buffer := m\<rparr>) n N
          = (Some (cq_tail q + cq_chanStride q * N), q\<lparr>cq_buffer := m'\<rparr>)"
        "\<forall>d<cq_numChannels q. cq_contents (q\<lparr>cq_buffer := m'\<rparr>) d = cq_contents (q\<lparr>cq_buffer := m\<rparr>) d"
        "read_block id m' (cq_tail q + cq_chanStride q * N) n = take n (cq_contents (q\<lparr>cq_buffer := m\<rparr>) N)"
      using GetRawDequeuePtr_cq_ok [of "q\<lparr>cq_buffer := m\<rparr>" n N] assms Suc.prems by auto
    with IH Suc.prems show ?case
      by (intro exI [of _ m'] exI [of _ "out(N := take n (cq_contents q N))"])
        (auto simp: read_chan_cq_eq less_Suc_eq)
  qed
  obtain m out where f: "fold (read_chan_cq n) [0..<cq_numChannels q] (q, \<lambda>_. []) = (q\<lparr>cq_buffer := m\<rparr>, out)"
      "\<forall>d<cq_numChannels q. cq_contents (q\<lparr>cq_buffer := m\<rparr>) d = cq_contents q d"
      "\<forall>c<cq_numChannels q. out c = take n (cq_contents q c)" using loop [OF order.refl] by blast
  obtain q' where q': "Dequeue_cq (q\<lparr>cq_buffer := m\<rparr>) n = Inr q'" "cq_inv q'" "Count_cq q' + n = Count_cq q"
      "cq_queueLength q' = cq_queueLength q" "cq_maxThreshold q' = cq_maxThreshold q"
      "cq_numChannels q' = cq_numChannels q" "\<forall>c. cq_contents q' c = drop n (cq_contents (q\<lparr>cq_buffer := m\<rparr>) c)"
    using Dequeue_cq_ok [of "q\<lparr>cq_buffer := m\<rparr>" n] assms(1,2) by auto
  have "get_cq q n = Some (q', out)"
    using f(1) q'(1) assms(2,3) by (simp add: get_cq_def GetRawDequeuePtr_cq_def Let_def)
  moreover have "length (cq_contents q c) = Count_cq q" for c by (simp add: cq_contents_def)
  ultimately show ?thesis using q' f(2,3) assms(2) by auto
qed

lemma get_cq_enabled: "cq_inv q \<Longrightarrow> get_cq q n \<noteq> None \<longleftrightarrow> n \<le> Count_cq q \<and> n \<le> cq_maxThreshold q"
  using get_cq_Some [of q n] by (auto simp: get_cq_def GetRawDequeuePtr_cq_def Let_def split: if_splits)

section \<open>Copying blocks larger than the threshold\<close>

lemma copy_in_Inr:
  "GetRawEnqueuePtr_cq q n c = Inr (Some p) \<Longrightarrow> copy_in_chan data st k n c (Inr q)
     = Inr (q\<lparr>cq_buffer := write_block id (cq_buffer q) p (read_block id data (k + st * c) n)\<rparr>)"
  by (simp add: copy_in_chan_def)

lemma copy_in_fold:
  assumes "n \<le> Freespace_cq q" and "n \<le> cq_maxThreshold q"
  shows "N \<le> cq_numChannels q \<Longrightarrow> fold (copy_in_chan data st k n) [0..<N] (Inr q)
    = Inr (q\<lparr>cq_buffer := write_chans id (\<lambda>c. cq_chanStride q * c) N (cq_head q)
        (\<lambda>c. read_block id data (k + st * c) n) (cq_buffer q)\<rparr>)"
proof (induction N)
  case 0
  then show ?case by simp
next
  case (Suc N)
  then have "GetRawEnqueuePtr_cq q n N = Inr (Some (cq_head q + cq_chanStride q * N))"
    using assms by (simp add: GetRawEnqueuePtr_cq_def)
  with Suc show ?case by (simp add: copy_in_Inr add.commute id_def)
qed

lemma first_then_rest: "0 < N \<Longrightarrow> 0 # [1..<N] = [0..<N]"
  by (simp add: upt_conv_Cons)

lemma RawEnqueue_step:
  assumes "cq_inv q" and "k < count" and "n = min (count - k) (cq_maxThreshold q)" and "n \<le> Freespace_cq q"
  shows "\<exists>q'. put_cq q n (\<lambda>c. read_block id data (k + st * c) n) = Some q' \<and>
    RawEnqueue_loop data count (cq_numChannels q) st k q
      = RawEnqueue_loop data count (cq_numChannels q) st (k + n) q'"
proof -
  let ?d = "\<lambda>c. read_block id data (k + st * c) n"
  have le: "n \<le> cq_maxThreshold q" using assms(3) by simp
  note D = cq_invD [OF assms(1)]
  obtain q' where put: "put_cq q n ?d = Some q'"
    using put_cq_enabled [OF assms(1), of n ?d] assms(4) le by auto
  then have enq: "Enqueue_cq (fill_cq q n ?d) n = Inr q'"
    by (auto simp: put_cq_def split: if_splits sum.splits)
  have "fold (copy_in_chan data st k n) (0 # [1..<cq_numChannels q]) (Inr q) = Inr (fill_cq q n ?d)"
    unfolding first_then_rest [OF D(1)] copy_in_fold [OF assms(4) le order.refl] by (simp add: fill_cq_def)
  then have "RawEnqueue_loop data count (cq_numChannels q) st k q
      = RawEnqueue_loop data count (cq_numChannels q) st (k + n) q'"
    using assms(2,3) enq by (subst RawEnqueue_loop.simps) (simp add: Let_def)
  with put show ?thesis by blast
qed

lemma read_block_append: "read_block f m a (n + k) = read_block f m a n @ read_block f m (a + n) k"
  by (rule nth_equalityI) (auto simp: nth_append add.assoc)

lemma RawEnqueue_loop_ok:
  assumes "cq_inv q" and "k \<le> count" and "count - k \<le> Freespace_cq q" and "N = cq_numChannels q"
  shows "\<exists>q'. RawEnqueue_loop data count N st k q = Some (Inr q') \<and> cq_inv q' \<and>
    Count_cq q' = Count_cq q + (count - k) \<and> cq_queueLength q' = cq_queueLength q \<and>
    cq_maxThreshold q' = cq_maxThreshold q \<and> cq_numChannels q' = cq_numChannels q \<and>
    (\<forall>c<cq_numChannels q. cq_contents q' c = cq_contents q c @ read_block id data (st * c + k) (count - k))"
  using assms
proof (induction "count - k" arbitrary: k q rule: less_induct)
  case less
  show ?case
  proof (cases "k < count")
    case False
    then have "RawEnqueue_loop data count N st k q = Some (Inr q)"
      by (simp add: RawEnqueue_loop.simps)
    with False less.prems show ?thesis by (simp add: read_block_def)
  next
    case True
    note D = cq_invD [OF less.prems(1)]
    define n where "n = min (count - k) (cq_maxThreshold q)"
    have n: "0 < n" "n \<le> count - k" using True D(2) by (auto simp: n_def)
    then have free: "n \<le> Freespace_cq q" using less.prems(3) by simp
    obtain q1 where q1: "put_cq q n (\<lambda>c. read_block id data (k + st * c) n) = Some q1"
        "RawEnqueue_loop data count N st k q = RawEnqueue_loop data count N st (k + n) q1"
      using RawEnqueue_step [OF less.prems(1) True n_def free] less.prems(4) by auto
    note p = put_cq_Some [OF less.prems(1) q1(1)]
    have m: "count - (k + n) < count - k" "k + n \<le> count" "N = cq_numChannels q1"
        "count - (k + n) \<le> Freespace_cq q1"
      using n True less.prems(4) Count_cq_free [OF p(1)] Count_cq_free [OF less.prems(1)] p(2,3,5) less.prems(3)
      by linarith+
    then obtain q' where q': "RawEnqueue_loop data count N st (k + n) q1 = Some (Inr q')" "cq_inv q'"
        "Count_cq q' = Count_cq q1 + (count - (k + n))" "cq_queueLength q' = cq_queueLength q1"
        "cq_maxThreshold q' = cq_maxThreshold q1" "cq_numChannels q' = cq_numChannels q1"
        "\<forall>c<cq_numChannels q1. cq_contents q' c
           = cq_contents q1 c @ read_block id data (st * c + (k + n)) (count - (k + n))"
      using less.hyps [OF m(1) p(1) m(2,4,3)] by blast
    have "read_block id data (st * c + k) (count - k)
        = read_block id data (st * c + k) n @ read_block id data (st * c + (k + n)) (count - (k + n))" for c
      using read_block_append [of id data "st * c + k" n "count - (k + n)"] m(2)
      by (simp add: add.assoc)
    with q' q1(2) p n show ?thesis by (simp add: add.commute)
  qed
qed

lemma copy_out_Inr:
  "GetRawDequeuePtr_cq q n c = (Some p, q') \<Longrightarrow> copy_out_chan st k n c (Inr (q, data))
     = Inr (q', write_block id data (k + st * c) (read_block id (cq_buffer q') p n))"
  by (simp add: copy_out_chan_def)

lemma copy_out_fold:
  assumes "cq_inv q" and "n \<le> Count_cq q" and "n \<le> cq_maxThreshold q" and "k + n \<le> st"
  shows "N \<le> cq_numChannels q \<Longrightarrow> \<exists>m data'. fold (copy_out_chan st k n) [0..<N] (Inr (q, data))
      = Inr (q\<lparr>cq_buffer := m\<rparr>, data') \<and>
    (\<forall>d<cq_numChannels q. cq_contents (q\<lparr>cq_buffer := m\<rparr>) d = cq_contents q d) \<and>
    (\<forall>c j. j < st \<longrightarrow> data' (st * c + j) =
       (if c < N \<and> k \<le> j \<and> j < k + n then cq_contents q c ! (j - k) else data (st * c + j)))"
proof (induction N)
  case 0
  have "q = q\<lparr>cq_buffer := cq_buffer q\<rparr>" by simp
  then show ?case by (intro exI [of _ "cq_buffer q"] exI [of _ data]) simp
next
  case (Suc N)
  then obtain m data' where IH: "fold (copy_out_chan st k n) [0..<N] (Inr (q, data)) = Inr (q\<lparr>cq_buffer := m\<rparr>, data')"
      "\<forall>d<cq_numChannels q. cq_contents (q\<lparr>cq_buffer := m\<rparr>) d = cq_contents q d"
      "\<forall>c j. j < st \<longrightarrow> data' (st * c + j) =
         (if c < N \<and> k \<le> j \<and> j < k + n then cq_contents q c ! (j - k) else data (st * c + j))" by auto
  obtain m' where m': "GetRawDequeuePtr_cq (q\<lparr>cq_buffer := m\<rparr>) n N
        = (Some (cq_tail q + cq_chanStride q * N), q\<lparr>cq_buffer := m'\<rparr>)"
      "\<forall>d<cq_numChannels q. cq_contents (q\<lparr>cq_buffer := m'\<rparr>) d = cq_contents (q\<lparr>cq_buffer := m\<rparr>) d"
      "read_block id m' (cq_tail q + cq_chanStride q * N) n = take n (cq_contents (q\<lparr>cq_buffer := m\<rparr>) N)"
    using GetRawDequeuePtr_cq_ok [of "q\<lparr>cq_buffer := m\<rparr>" n N] assms Suc.prems by auto
  define data'' where "data'' = write_block id data' (k + st * N) (take n (cq_contents q N))"
  have len: "length (take n (cq_contents q N)) = n" using assms(2) by (simp add: cq_contents_def)
  have "data'' (st * c + j) =
      (if c < Suc N \<and> k \<le> j \<and> j < k + n then cq_contents q c ! (j - k) else data (st * c + j))"
    if j: "j < st" for c j
  proof (cases "c = N")
    case True
    with IH(3) j len show ?thesis by (auto simp: data''_def write_block_id)
  next
    case False
    have "\<not> (k + st * N \<le> st * c + j \<and> st * c + j < k + st * N + n)"
    proof
      assume a: "k + st * N \<le> st * c + j \<and> st * c + j < k + st * N + n"
      then have "c * st + j = N * st + (st * c + j - st * N)" "st * c + j - st * N < st"
        using assms(4) by (auto simp: mult.commute)
      with j False show False using block_number_inj [of c st j N] by blast
    qed
    with IH(3) j False len show ?thesis by (auto simp: data''_def write_block_id less_Suc_eq)
  qed
  with IH m' Suc.prems show ?case
    by (intro exI [of _ m'] exI [of _ data'']) (simp add: copy_out_Inr data''_def)
qed

lemma RawDequeue_step:
  assumes "cq_inv q" and "k < count" and "n = min (count - k) (cq_maxThreshold q)" and "n \<le> Count_cq q"
    and "count \<le> st" and N: "N = cq_numChannels q"
  shows "\<exists>q' data'. RawDequeue_loop count N st k q data = RawDequeue_loop count N st (k + n) q' data' \<and>
    cq_inv q' \<and> Count_cq q' + n = Count_cq q \<and> cq_queueLength q' = cq_queueLength q \<and>
    cq_maxThreshold q' = cq_maxThreshold q \<and> cq_numChannels q' = N \<and>
    (\<forall>c<N. cq_contents q' c = drop n (cq_contents q c)) \<and>
    (\<forall>c<N. \<forall>j < st. data' (st * c + j) =
       (if k \<le> j \<and> j < k + n then cq_contents q c ! (j - k) else data (st * c + j)))"
proof -
  note D = cq_invD [OF assms(1)]
  have le: "n \<le> cq_maxThreshold q" "k + n \<le> st" using assms(2,3,5) by auto
  obtain m data' where f: "fold (copy_out_chan st k n) [0..<N] (Inr (q, data)) = Inr (q\<lparr>cq_buffer := m\<rparr>, data')"
      "\<forall>d<N. cq_contents (q\<lparr>cq_buffer := m\<rparr>) d = cq_contents q d"
      "\<forall>c j. j < st \<longrightarrow> data' (st * c + j) =
         (if c < N \<and> k \<le> j \<and> j < k + n then cq_contents q c ! (j - k) else data (st * c + j))"
    using copy_out_fold [OF assms(1,4) le, of N data] N by auto
  obtain q' where q': "Dequeue_cq (q\<lparr>cq_buffer := m\<rparr>) n = Inr q'" "cq_inv q'" "Count_cq q' + n = Count_cq q"
      "cq_queueLength q' = cq_queueLength q" "cq_maxThreshold q' = cq_maxThreshold q"
      "cq_numChannels q' = cq_numChannels q" "\<forall>c. cq_contents q' c = drop n (cq_contents (q\<lparr>cq_buffer := m\<rparr>) c)"
    using Dequeue_cq_ok [of "q\<lparr>cq_buffer := m\<rparr>" n] assms(1,4) by auto
  have "RawDequeue_loop count N st k q data = RawDequeue_loop count N st (k + n) q' data'"
    using f(1) q'(1) assms(2,3) first_then_rest [of N] D(1) N
    by (subst RawDequeue_loop.simps) (simp add: Let_def)
  with q' f(2,3) N show ?thesis by (intro exI [of _ q'] exI [of _ data']) simp
qed

lemma RawDequeue_loop_ok:
  assumes "cq_inv q" and "k \<le> count" and "count - k \<le> Count_cq q" and "N = cq_numChannels q" and "count \<le> st"
  shows "\<exists>q' data'. RawDequeue_loop count N st k q data = Some (Inr (q', data')) \<and> cq_inv q' \<and>
    Count_cq q' + (count - k) = Count_cq q \<and> cq_queueLength q' = cq_queueLength q \<and>
    cq_maxThreshold q' = cq_maxThreshold q \<and> cq_numChannels q' = N \<and>
    (\<forall>c<N. cq_contents q' c = drop (count - k) (cq_contents q c)) \<and>
    (\<forall>c<N. \<forall>j<count. data' (st * c + j) =
       (if j < k then data (st * c + j) else cq_contents q c ! (j - k)))"
  using assms
proof (induction "count - k" arbitrary: k q data rule: less_induct)
  case less
  show ?case
  proof (cases "k < count")
    case False
    then have "RawDequeue_loop count N st k q data = Some (Inr (q, data))"
      by (simp add: RawDequeue_loop.simps)
    with False less.prems show ?thesis by simp
  next
    case True
    define n where "n = min (count - k) (cq_maxThreshold q)"
    have n: "0 < n" "n \<le> count - k" "n \<le> Count_cq q"
      using True cq_invD(2) [OF less.prems(1)] less.prems(3) by (auto simp: n_def)
    obtain q1 data1 where q1: "RawDequeue_loop count N st k q data = RawDequeue_loop count N st (k + n) q1 data1"
        "cq_inv q1" "Count_cq q1 + n = Count_cq q" "cq_queueLength q1 = cq_queueLength q"
        "cq_maxThreshold q1 = cq_maxThreshold q" "cq_numChannels q1 = N"
        "\<forall>c<N. cq_contents q1 c = drop n (cq_contents q c)"
        "\<forall>c<N. \<forall>j < st. data1 (st * c + j) =
           (if k \<le> j \<and> j < k + n then cq_contents q c ! (j - k) else data (st * c + j))"
      using RawDequeue_step [OF less.prems(1) True n_def n(3) less.prems(5,4), of data] by blast
    have m: "count - (k + n) < count - k" "k + n \<le> count" "count - (k + n) \<le> Count_cq q1" "N = cq_numChannels q1"
      using n True q1(3,6) less.prems(3) by linarith+
    obtain q' data' where q': "RawDequeue_loop count N st (k + n) q1 data1 = Some (Inr (q', data'))" "cq_inv q'"
        "Count_cq q' + (count - (k + n)) = Count_cq q1" "cq_queueLength q' = cq_queueLength q1"
        "cq_maxThreshold q' = cq_maxThreshold q1" "cq_numChannels q' = N"
        "\<forall>c<N. cq_contents q' c = drop (count - (k + n)) (cq_contents q1 c)"
        "\<forall>c<N. \<forall>j<count. data' (st * c + j) =
           (if j < k + n then data1 (st * c + j) else cq_contents q1 c ! (j - (k + n)))"
      using less.hyps [OF m(1) q1(2) m(2,3,4) less.prems(5), of data1] by blast
    have "data' (st * c + j) = (if j < k then data (st * c + j) else cq_contents q c ! (j - k))"
      if cj: "c < N" "j < count" for c j
    proof (cases "j < k + n")
      case True
      with q'(8) q1(8) cj less.prems(5) show ?thesis by auto
    next
      case False
      have "length (cq_contents q c) = Count_cq q" by (simp add: cq_contents_def)
      moreover have "n + (j - (k + n)) = j - k" using False by simp
      ultimately show ?thesis
        using False q'(8) q1(7) cj n(3) by (simp add: nth_drop)
    qed
    moreover have "count - (k + n) + n = count - k" using n by simp
    ultimately show ?thesis
      using q' q1 by (intro exI [of _ q'] exI [of _ data']) (simp add: drop_drop add.commute)
  qed
qed

lemma Grow_cq_ok:
  assumes "cq_inv q"
  shows "\<exists>q'. Grow_cq q l t = Some (Inr q') \<and> cq_inv q' \<and> Count_cq q' = Count_cq q \<and>
    cq_numChannels q' = cq_numChannels q \<and> Freespace_cq q \<le> Freespace_cq q' \<and>
    cq_maxThreshold q' = max t (cq_maxThreshold q) \<and>
    (l \<noteq> cq_queueLength q \<or> t > cq_maxThreshold q \<longrightarrow> l \<le> QueueLength_cq q') \<and>
    (\<forall>c<cq_numChannels q. cq_contents q' c = cq_contents q c)"
proof (cases "l \<le> cq_queueLength q \<and> t \<le> cq_maxThreshold q")
  case True
  then have "Grow_cq q l t = Some (Inr q)" by (simp add: Grow_cq_def)
  with True assms show ?thesis by (auto simp: QueueLength_cq_def)
next
  case False
  define L T where "L = max l (cq_queueLength q)" and "T = max t (cq_maxThreshold q)"
  define S where "S = L + 1 + T"
  let ?n = "Count_cq q" and ?N = "cq_numChannels q"
  note D = cq_invD [OF assms]
  have cnt: "?n < cq_queueLength q" using Count_cq_free [OF assms] by linarith
  then have "?n \<le> S" by (simp add: S_def L_def)
  then obtain q1 data where r: "RawDequeue_loop ?n ?N S 0 q (\<lambda>_. 0) = Some (Inr (q1, data))" "cq_inv q1"
      "cq_numChannels q1 = ?N" "\<forall>c<?N. \<forall>j<?n. data (S * c + j) = cq_contents q c ! j"
    using RawDequeue_loop_ok [OF assms _ _ refl, of 0 ?n S "\<lambda>_. 0"] by auto
  define q' where "q' = q1\<lparr>cq_tail := 0, cq_queueLength := L + 1, cq_maxThreshold := T, cq_chanStride := S,
    cq_head := ?n, cq_buffer := data, cq_size := S * ?N\<rparr>"
  have args: "(if l < cq_queueLength q then cq_queueLength q else l) = L"
      "(if t < cq_maxThreshold q then cq_maxThreshold q else t) = T"
    by (auto simp: L_def T_def)
  have grow: "Grow_cq q l t = Some (Inr q')"
    using False r(1,3) unfolding Grow_cq_def Let_def args RawDequeue_cq_def
    by (auto simp: q'_def S_def)
  have inv: "cq_inv q'" using D cnt r(3) by (auto simp: cq_inv_def q'_def S_def T_def L_def)
  have c': "Count_cq q' = ?n" by (simp add: Count_cq_def q'_def)
  have "cq_contents q' c = cq_contents q c" if "c < ?N" for c
  proof (rule nth_equalityI)
    fix j assume "j < length (cq_contents q' c)"
    then have j: "j < ?n" by (simp add: cq_contents_def c')
    then have "j mod (L + 1) = j" using cnt by (simp add: L_def)
    then have "cq_contents q' c ! j = data (S * c + j)"
      using j by (simp add: cq_contents_def c') (simp add: q'_def cq_view_def chan_view_def)
    with r(4) that j show "cq_contents q' c ! j = cq_contents q c ! j" by simp
  qed (simp add: cq_contents_def c')
  moreover have "Freespace_cq q \<le> Freespace_cq q'"
    using Count_cq_free [OF assms] Count_cq_free [OF inv] c' by (simp add: q'_def L_def)
  ultimately show ?thesis
    using grow inv c' r(3) by (auto simp: q'_def QueueLength_cq_def L_def T_def)
qed

section \<open>The queue as a byte stream\<close>

interpretation cq: fifo_queue cq_inv cq_numChannels "\<lambda>_. 1" cq_contents Count_cq Freespace_cq cq_maxThreshold
    put_cq get_cq grow_cq
proof
  fix q q' :: cqueue and n l t :: nat and d out :: "nat \<Rightarrow> byte list"
  assume inv: "cq_inv q"
  show "put_cq q n d \<noteq> None \<longleftrightarrow>
      n \<le> Freespace_cq q \<and> n \<le> cq_maxThreshold q \<and> (\<forall>c<cq_numChannels q. length (d c) = n * 1)"
    using put_cq_enabled [OF inv] by simp
  show "get_cq q n \<noteq> None \<longleftrightarrow> n \<le> Count_cq q \<and> n \<le> cq_maxThreshold q"
    by (rule get_cq_enabled [OF inv])
  show "cq_inv q' \<and> cq_numChannels q' = cq_numChannels q \<and> (1::nat) = 1 \<and> Freespace_cq q' + n = Freespace_cq q \<and>
      Count_cq q' = Count_cq q + n \<and> cq_maxThreshold q' = cq_maxThreshold q \<and>
      (\<forall>c<cq_numChannels q. cq_contents q' c = cq_contents q c @ d c)"
    if "put_cq q n d = Some q'"
    using put_cq_Some [OF inv that] Count_cq_free [OF inv] Count_cq_free [of q'] by auto
  show "cq_inv q' \<and> cq_numChannels q' = cq_numChannels q \<and> (1::nat) = 1 \<and> Freespace_cq q' = Freespace_cq q + n \<and>
      Count_cq q' + n = Count_cq q \<and> cq_maxThreshold q' = cq_maxThreshold q \<and>
      (\<forall>c<cq_numChannels q. cq_contents q c = out c @ cq_contents q' c \<and> length (out c) = n * 1)"
    if g: "get_cq q n = Some (q', out)"
  proof -
    have "n \<le> Count_cq q" "n \<le> cq_maxThreshold q" using get_cq_enabled [OF inv, of n] g by auto
    with get_cq_Some [OF inv, of n] g Count_cq_free [OF inv] Count_cq_free [of q'] show ?thesis by auto
  qed
  show "\<exists>q'. grow_cq q l t = Some q' \<and> cq_inv q' \<and> cq_numChannels q' = cq_numChannels q \<and> (1::nat) = 1 \<and>
      Count_cq q' = Count_cq q \<and> Freespace_cq q \<le> Freespace_cq q' \<and> cq_maxThreshold q \<le> cq_maxThreshold q' \<and>
      (\<forall>c<cq_numChannels q. cq_contents q' c = cq_contents q c)"
    using Grow_cq_ok [OF inv, of l t] by (auto simp: grow_cq_def)
qed

lemma new_CircularQueue_inv:
  assumes "0 < nc" and "1 \<le> t"
  shows "cq_inv (new_CircularQueue l t nc)" and "Count_cq (new_CircularQueue l t nc) = 0"
    and "QueueLength_cq (new_CircularQueue l t nc) = max l t" and "cq_numChannels (new_CircularQueue l t nc) = nc"
    and "cq_maxThreshold (new_CircularQueue l t nc) = t" and "Freespace_cq (new_CircularQueue l t nc) = max l t"
  using assms by (auto simp: new_CircularQueue_def cq_inv_def Count_cq_def Freespace_cq_def QueueLength_cq_def Let_def)

lemma cq_contents_empty: "Count_cq q = 0 \<Longrightarrow> cq_contents q c = []"
  by (simp add: cq_contents_def)

text \<open>\<open>Clear\<close> empties a queue.\<close>

lemma Clear_cq_ok:
  "cq_inv q \<Longrightarrow> cq_inv (Clear_cq q) \<and> Count_cq (Clear_cq q) = 0 \<and> Empty_cq (Clear_cq q) \<and>
    Freespace_cq (Clear_cq q) = QueueLength_cq q"
  by (auto simp: Clear_cq_def cq_inv_def Count_cq_def Empty_cq_def Freespace_cq_def QueueLength_cq_def)

section \<open>Properties\<close>



text \<open>\<open>RawEnqueue\<close> and \<open>RawDequeue\<close> of a block of any length that fits, also longer than the
  threshold, return (the copy loops end) and move exactly that block, on all channels.\<close>

theorem cq_raw_copy:
  assumes "cq_inv q" and "count \<le> Freespace_cq q" and "c < cq_numChannels q" and "count \<le> stride"
  shows "\<exists>q1. RawEnqueue_cq data count (cq_numChannels q) stride q = Some (Inr (True, q1)) \<and> cq_inv q1 \<and>
     cq_contents q1 c = cq_contents q c @ read_block id data (stride * c) count \<and>
     (Count_cq q = 0 \<longrightarrow> (\<exists>q2 data'. RawDequeue_cq (\<lambda>_. 0) count (cq_numChannels q) stride q1
          = Some (Inr (True, q2, data')) \<and> Count_cq q2 = 0 \<and>
        (\<forall>j<count. data' (stride * c + j) = data (stride * c + j))))"
proof -
  obtain q1 where q1: "RawEnqueue_loop data count (cq_numChannels q) stride 0 q = Some (Inr q1)" "cq_inv q1"
      "Count_cq q1 = Count_cq q + count" "cq_numChannels q1 = cq_numChannels q"
      "\<forall>c<cq_numChannels q. cq_contents q1 c = cq_contents q c @ read_block id data (stride * c) count"
    using RawEnqueue_loop_ok [OF assms(1) _ _ refl, of 0 count data stride] assms(2) by auto
  then have enq: "RawEnqueue_cq data count (cq_numChannels q) stride q = Some (Inr (True, q1))"
    using assms(2) by (simp add: RawEnqueue_cq_def)
  have "\<exists>q2 data'. RawDequeue_cq (\<lambda>_. 0) count (cq_numChannels q) stride q1 = Some (Inr (True, q2, data')) \<and>
      Count_cq q2 = 0 \<and> (\<forall>j<count. data' (stride * c + j) = data (stride * c + j))" if e: "Count_cq q = 0"
  proof -
    obtain q2 data' where q2: "RawDequeue_loop count (cq_numChannels q) stride 0 q1 (\<lambda>_. 0) = Some (Inr (q2, data'))"
        "Count_cq q2 + count = Count_cq q1"
        "\<forall>c<cq_numChannels q. \<forall>j<count. data' (stride * c + j) = cq_contents q1 c ! j"
      using RawDequeue_loop_ok [OF q1(2) _ _ _ assms(4), of 0 "cq_numChannels q" "\<lambda>_. 0"] q1(3,4) by auto
    have "data' (stride * c + j) = data (stride * c + j)" if "j < count" for j
      using q2(3) q1(5) assms(3) that cq_contents_empty [OF e] by simp
    with q2 q1(3,4) e show ?thesis by (auto simp: RawDequeue_cq_def)
  qed
  with enq q1 assms(3) show ?thesis by auto
qed

text \<open>\<open>Grow\<close> compares the requested length with the internal ring length, which is one more than
  the capacity: asking for exactly one byte more than the capacity changes nothing, so the caller's
  block still does not fit.\<close>

theorem cq_grow_by_one_ignored:
  assumes "cq_inv q" and "t \<le> cq_maxThreshold q"
  shows "Grow_cq q (QueueLength_cq q + 1) t = Some (Inr q) \<and>
    (\<forall>d. put_cq q (Freespace_cq q + 1) d = None)"
proof -
  have "QueueLength_cq q + 1 = cq_queueLength q" using cq_invD(7) [OF assms(1)] by (simp add: QueueLength_cq_def)
  then show ?thesis
    using assms(2) cq.put_enabled [OF assms(1), of "Freespace_cq q + 1"] by (auto simp: Grow_cq_def)
qed

end
