(* ===== verification/TQBase.thy ===== *)
theory TQBase
  imports Ring
begin

text \<open>
  \<open>ThresholdQueueBase\<close> (libraries/ThresholdQueue/ThresholdQueueBase.cc, .h) and the part of
  \<open>MirrorBufferSet\<close> (libraries/MirrorBufferSet/MirrorBufferSet.cc) that it relies on.

  The memory of a queue is a byte memory: the \<open>malloc\<close> block, or the shared memory file of
  the \<open>MirrorBufferSet\<close>, whose pages are mapped twice. Pointers are byte offsets from the
  start of that block. Sizes are natural numbers, for queues whose byte sizes fit in 64 bits;
  the two running element counters wrap at 64 bits. The system page size and the initial
  contents of a fresh block are arguments of the constructors.
\<close>

section \<open>MirrorBufferSet\<close>

record mirrorbuf =
  bufferSize :: nat
  mirrorSize :: nat
  numBuffers :: nat

definition round_up :: "nat \<Rightarrow> nat \<Rightarrow> nat" where
  "round_up pageSize n = (if n mod pageSize \<noteq> 0 then n + (pageSize - n mod pageSize) else n)"

definition MirrorBufferSet :: "nat \<Rightarrow> nat \<Rightarrow> nat \<Rightarrow> nat \<Rightarrow> mirrorbuf" where
  "MirrorBufferSet pageSize bufferSz mirrorSz nBuffers =
     \<lparr>bufferSize = round_up pageSize bufferSz, mirrorSize = round_up pageSize mirrorSz,
      numBuffers = nBuffers\<rparr>"

text \<open>
  The offset in the shared memory file of the byte at offset \<open>a\<close> from \<open>bufferBase\<close>:
  buffer \<open>buf\<close> and its mirror are both mapped from file offset \<open>buf*bufferSize\<close>.
\<close>

definition file_offset :: "mirrorbuf \<Rightarrow> nat \<Rightarrow> nat" where
  "file_offset mb a =
     (let span = bufferSize mb + mirrorSize mb; buf = a div span; r = a mod span
      in buf * bufferSize mb + (if r < bufferSize mb then r else r - bufferSize mb))"

section \<open>State\<close>

record tqb =
  elementSize :: nat
  head :: nat
  tail :: nat
  queueLength :: nat
  maxThreshold :: nat
  numChannels :: nat
  channelStride :: nat
  chanOffset :: nat
  baseOffset :: nat
  elementsEnqueued :: nat
  elementsDequeued :: nat
  base :: nat
  mbs :: "mirrorbuf option"
  memory :: "byte mem"

record ThresholdQueueAttr =
  attr_queueLength :: nat
  attr_maxThreshold :: nat
  attr_numChannels :: nat
  attr_useMBS :: bool
  attr_chanOffset :: nat
  attr_baseOffset :: nat

text \<open>The address translation of the block a queue lives in.\<close>

definition translate :: "tqb \<Rightarrow> nat \<Rightarrow> nat" where
  "translate q = (case mbs q of None \<Rightarrow> id | Some mb \<Rightarrow> file_offset mb)"

section \<open>Construction\<close>

definition Reset_tqb :: "tqb \<Rightarrow> tqb" where
  "Reset_tqb q = q\<lparr>elementsEnqueued := 0, elementsDequeued := 0, head := 0, tail := 0\<rparr>"

definition AllocateBuf ::
  "nat \<Rightarrow> byte mem \<Rightarrow> tqb \<Rightarrow> nat \<Rightarrow> nat \<Rightarrow> nat \<Rightarrow> bool \<Rightarrow> tqb" where
  "AllocateBuf pageSize fresh q queueLen0 maxThresh0 numChans useMBS =
    (let maxThresh = (if maxThresh0 < 1 then 1 else maxThresh0);
         queueLen = (if maxThresh > queueLen0 then maxThresh else queueLen0)
     in if useMBS then
          let bufSz = queueLen * elementSize q;
              mirSz = (maxThresh - 1 + baseOffset q + (numChans - 1) * chanOffset q) * elementSize q;
              mb = MirrorBufferSet pageSize bufSz mirSz numChans;
              ql = bufferSize mb div elementSize q;
              mt = mirrorSize mb div elementSize q + 1;
              mt' = mt - (baseOffset q + (numChans - 1) * chanOffset q)
          in Reset_tqb (q\<lparr>numChannels := numChans, mbs := Some mb, queueLength := ql,
               channelStride := ql + mt - 1 + chanOffset q, base := baseOffset q,
               maxThreshold := (if mt' > ql then ql else mt'), memory := fresh\<rparr>)
        else
          Reset_tqb (q\<lparr>numChannels := numChans, mbs := None, queueLength := queueLen,
               maxThreshold := maxThresh, channelStride := queueLen + maxThresh - 1,
               base := 0, memory := fresh\<rparr>))"

text \<open>The member initialisers of both constructors.\<close>

definition tqb_init :: "nat \<Rightarrow> nat \<Rightarrow> nat \<Rightarrow> nat \<Rightarrow> byte mem \<Rightarrow> tqb" where
  "tqb_init elemSize queueLen maxThresh numChans fresh =
     \<lparr>elementSize = elemSize, head = 0, tail = 0, queueLength = queueLen, maxThreshold = maxThresh,
      numChannels = numChans, channelStride = 0, chanOffset = 0, baseOffset = 0,
      elementsEnqueued = 0, elementsDequeued = 0, base = 0, mbs = None, memory = fresh\<rparr>"

definition clamp_sizes :: "tqb \<Rightarrow> tqb" where
  "clamp_sizes q =
    (let q1 = (if maxThreshold q < 1 then q\<lparr>maxThreshold := 1\<rparr> else q)
     in if maxThreshold q1 > queueLength q1 then q1\<lparr>queueLength := maxThreshold q1\<rparr> else q1)"

definition new_tqb :: "nat \<Rightarrow> byte mem \<Rightarrow> nat \<Rightarrow> nat \<Rightarrow> nat \<Rightarrow> nat \<Rightarrow> tqb" where
  "new_tqb pageSize fresh elemSize queueLen maxThresh numChans =
    (let q = Reset_tqb (clamp_sizes (tqb_init elemSize queueLen maxThresh numChans fresh))
     in AllocateBuf pageSize fresh q (queueLength q) (maxThreshold q) (numChannels q) True)"

definition new_tqb_attr :: "nat \<Rightarrow> byte mem \<Rightarrow> nat \<Rightarrow> ThresholdQueueAttr \<Rightarrow> tqb" where
  "new_tqb_attr pageSize fresh elemSize attr =
    (let q = Reset_tqb (clamp_sizes (tqb_init elemSize (attr_queueLength attr)
               (attr_maxThreshold attr) (attr_numChannels attr) fresh));
         q' = (if attr_useMBS attr
               then q\<lparr>baseOffset := attr_baseOffset attr mod pageSize div elemSize,
                      chanOffset := attr_chanOffset attr div elemSize\<rparr>
               else q)
     in AllocateBuf pageSize fresh q' (queueLength q') (maxThreshold q') (numChannels q')
          (attr_useMBS attr))"

section \<open>Operations\<close>

definition Count_tqb :: "tqb \<Rightarrow> nat" where
  "Count_tqb q =
    (let count = wrap_sub (2 * queueLength q - head q + tail q) (queueLength q)
     in if count \<noteq> 0 then count else if head q = tail q then 0 else queueLength q)"

definition Freespace_tqb :: "tqb \<Rightarrow> nat" where
  "Freespace_tqb q = queueLength q - Count_tqb q"

definition Empty_tqb :: "tqb \<Rightarrow> bool" where
  "Empty_tqb q \<longleftrightarrow> Count_tqb q = 0"

definition Full_tqb :: "tqb \<Rightarrow> bool" where
  "Full_tqb q \<longleftrightarrow> Freespace_tqb q = 0"

definition GetRawEnqueuePtr_tqb :: "tqb \<Rightarrow> nat \<Rightarrow> nat \<Rightarrow> nat option" where
  "GetRawEnqueuePtr_tqb q thresh chan =
    (if thresh > Freespace_tqb q \<or> thresh > maxThreshold q then None
     else Some (base q + (chan * channelStride q + wrap_sub (tail q) (queueLength q)) * elementSize q))"

definition GetRawDequeuePtr_tqb :: "tqb \<Rightarrow> nat \<Rightarrow> nat \<Rightarrow> nat option" where
  "GetRawDequeuePtr_tqb q thresh chan =
    (if thresh > Count_tqb q \<or> thresh > maxThreshold q then None
     else Some (base q + (chan * channelStride q + wrap_sub (head q) (queueLength q)) * elementSize q))"

text \<open>The copies \<open>Enqueue\<close> makes for one channel when there is no \<open>MirrorBufferSet\<close>.\<close>

definition mirror_channel :: "tqb \<Rightarrow> nat \<Rightarrow> nat \<Rightarrow> nat \<Rightarrow> nat \<Rightarrow> byte mem \<Rightarrow> byte mem" where
  "mirror_channel q idx countUp countDn chan m =
    (let chanBase = base q + chan * channelStride q * elementSize q;
         m1 = memcpy m (chanBase + (idx + queueLength q) * elementSize q)
                (chanBase + idx * elementSize q) (countUp * elementSize q)
     in memcpy m1 chanBase (chanBase + queueLength q * elementSize q) (countDn * elementSize q))"

definition Enqueue_tqb :: "tqb \<Rightarrow> nat \<Rightarrow> tqb" where
  "Enqueue_tqb q count =
    (let q' = (case mbs q of
         Some _ \<Rightarrow> q
       | None \<Rightarrow>
          (let idx = wrap_sub (tail q) (queueLength q);
               countUp0 = (if idx < maxThreshold q - 1 then maxThreshold q - 1 - idx else 0);
               countUp = (if idx + count < maxThreshold q - 1 then count else countUp0);
               countDn = (if idx + count > queueLength q then idx + count - queueLength q else 0)
           in if countUp \<noteq> 0 \<or> countDn \<noteq> 0
              then q\<lparr>memory := fold (mirror_channel q idx countUp countDn) [0..<numChannels q] (memory q)\<rparr>
              else q))
     in q'\<lparr>tail := wrap_sub (tail q' + count) (2 * queueLength q'),
            elementsEnqueued := u64 (elementsEnqueued q' + count)\<rparr>)"

definition Dequeue_tqb :: "tqb \<Rightarrow> nat \<Rightarrow> tqb" where
  "Dequeue_tqb q count =
     q\<lparr>head := wrap_sub (head q + count) (2 * queueLength q),
       elementsDequeued := u64 (elementsDequeued q + count)\<rparr>"

text \<open>What a client does with the pointers: store a block, read a block.\<close>

definition store_tqb :: "tqb \<Rightarrow> nat \<Rightarrow> byte list \<Rightarrow> tqb" where
  "store_tqb q ptr xs = q\<lparr>memory := write_block (translate q) (memory q) ptr xs\<rparr>"

definition load_tqb :: "tqb \<Rightarrow> nat \<Rightarrow> nat \<Rightarrow> byte list" where
  "load_tqb q ptr n = read_block (translate q) (memory q) ptr n"

text \<open>A producer that fills the buffers of all channels before it calls \<open>Enqueue\<close>.\<close>

definition fill_tqb :: "tqb \<Rightarrow> nat \<Rightarrow> (nat \<Rightarrow> byte list) \<Rightarrow> tqb" where
  "fill_tqb q thresh data =
     fold (\<lambda>chan q. case GetRawEnqueuePtr_tqb q thresh chan of
                      None \<Rightarrow> q | Some p \<Rightarrow> store_tqb q p (data chan)) [0..<numChannels q] q"

section \<open>Growing\<close>

text \<open>Everything but the positions, the counters and the memory is the same in both queues.\<close>

definition same_sizes :: "tqb \<Rightarrow> tqb \<Rightarrow> bool" where
  "same_sizes q q' \<longleftrightarrow> elementSize q = elementSize q' \<and> queueLength q = queueLength q' \<and>
     maxThreshold q = maxThreshold q' \<and> numChannels q = numChannels q' \<and>
     channelStride q = channelStride q' \<and> chanOffset q = chanOffset q' \<and>
     baseOffset q = baseOffset q' \<and> base q = base q' \<and> mbs q = mbs q'"

definition copy_chan :: "tqb \<Rightarrow> nat \<Rightarrow> nat \<Rightarrow> cpn_error + tqb \<Rightarrow> cpn_error + tqb" where
  "copy_chan old count chan r = (case r of Inl e \<Rightarrow> Inl e | Inr new \<Rightarrow>
     (case (GetRawDequeuePtr_tqb old count chan, GetRawEnqueuePtr_tqb new count chan) of
        (Some src, Some dst) \<Rightarrow> Inr (store_tqb new dst (load_tqb old src (count * elementSize new)))
      | _ \<Rightarrow> Inl AssertException))"

text \<open>
  The copy loop of \<open>Grow\<close>. The result is \<open>None\<close> if the loop does not end, \<open>Inl\<close> if an
  assertion fails, else the old queue, drained, and the new queue.
\<close>

partial_function (option) copy_queue :: "tqb \<Rightarrow> tqb \<Rightarrow> (cpn_error + tqb \<times> tqb) option" where
  "copy_queue old new =
    (if Count_tqb old = 0 then Some (Inr (old, new))
     else let count = min (Count_tqb old) (maxThreshold old)
          in case fold (copy_chan old count) [0..<numChannels new] (Inr new) of
               Inl e \<Rightarrow> Some (Inl e)
             | Inr new' \<Rightarrow> copy_queue (Dequeue_tqb old count) (Enqueue_tqb new' count))"

definition Grow_tqb :: "nat \<Rightarrow> byte mem \<Rightarrow> tqb \<Rightarrow> nat \<Rightarrow> nat \<Rightarrow> (cpn_error + tqb) option" where
  "Grow_tqb pageSize fresh q queueLen0 maxThresh0 =
    (let maxThresh1 = (if maxThresh0 = 0 then maxThreshold q else maxThresh0)
     in if queueLen0 \<le> queueLength q \<and> maxThresh1 \<le> maxThreshold q then Some (Inr q)
        else
          let maxThresh = (if maxThresh1 \<le> maxThreshold q then maxThreshold q else maxThresh1);
              queueLen = (if queueLen0 \<le> queueLength q then queueLength q else queueLen0);
              q1 = AllocateBuf pageSize fresh q queueLen maxThresh (numChannels q) (mbs q \<noteq> None);
              q2 = q1\<lparr>elementsDequeued := elementsDequeued q\<rparr>
          in map_option (map_sum id (\<lambda>(old, new). new\<lparr>elementsEnqueued := elementsEnqueued old\<rparr>))
               (copy_queue q q2))"

section \<open>Well-formed queues and their contents\<close>

definition ring_bytes :: "tqb \<Rightarrow> nat" where
  "ring_bytes q = queueLength q * elementSize q"

definition mirror_bytes :: "tqb \<Rightarrow> nat" where
  "mirror_bytes q = (maxThreshold q - 1) * elementSize q"

definition channel_addr :: "tqb \<Rightarrow> nat \<Rightarrow> nat" where
  "channel_addr q chan = base q + chan * channelStride q * elementSize q"

definition layout_ok :: "tqb \<Rightarrow> bool" where
  "layout_ok q \<longleftrightarrow> (case mbs q of
      None \<Rightarrow> channelStride q = queueLength q + maxThreshold q - 1
    | Some mb \<Rightarrow> bufferSize mb = queueLength q * elementSize q \<and> mirrorSize mb \<le> bufferSize mb \<and>
        numBuffers mb = numChannels q \<and>
        channelStride q * elementSize q = bufferSize mb + mirrorSize mb + chanOffset q * elementSize q \<and>
        base q + (numChannels q - 1) * (chanOffset q * elementSize q) + ring_bytes q + mirror_bytes q
          \<le> bufferSize mb + mirrorSize mb)"

definition tqb_wf :: "tqb \<Rightarrow> bool" where
  "tqb_wf q \<longleftrightarrow> 0 < elementSize q \<and> 1 \<le> maxThreshold q \<and> maxThreshold q \<le> queueLength q \<and>
     head q < 2 * queueLength q \<and> tail q < 2 * queueLength q \<and>
     (2 * queueLength q - head q + tail q) mod (2 * queueLength q) \<le> queueLength q \<and> layout_ok q"

definition view_tqb :: "tqb \<Rightarrow> nat \<Rightarrow> nat \<Rightarrow> byte" where
  "view_tqb q c = chan_view (translate q) (channel_addr q c) (memory q)"

definition contents_tqb :: "tqb \<Rightarrow> nat \<Rightarrow> byte list" where
  "contents_tqb q c =
     ring_view (view_tqb q c) (ring_bytes q) (head q * elementSize q) (Count_tqb q * elementSize q)"

definition tqb_inv :: "tqb \<Rightarrow> bool" where
  "tqb_inv q \<longleftrightarrow> tqb_wf q \<and>
     (\<forall>c<numChannels q. mirror_ok (view_tqb q c) (ring_bytes q) (mirror_bytes q)
        (head q * elementSize q) (Count_tqb q * elementSize q))"

text \<open>
  With a \<open>MirrorBufferSet\<close> the sizes are rounded to pages. The element size has to divide the
  page size, and the mirror (with the channel offsets) must not be longer than the buffer.
\<close>

definition mbs_fits :: "nat \<Rightarrow> tqb \<Rightarrow> nat \<Rightarrow> nat \<Rightarrow> nat \<Rightarrow> bool" where
  "mbs_fits pageSize q len thr nc \<longleftrightarrow> 0 < pageSize \<and> elementSize q dvd pageSize \<and>
     max thr 1 - 1 + baseOffset q + (nc - 1) * chanOffset q \<le> max len (max thr 1)"

text \<open>
  Pointers stay inside the allocated block: \<open>channelStride * numChannels * elementSize\<close> bytes of
  \<open>malloc\<close>, or the mapped buffers with their mirrors.
\<close>

definition block_size :: "tqb \<Rightarrow> nat" where
  "block_size q = (case mbs q of None \<Rightarrow> channelStride q * numChannels q * elementSize q
     | Some mb \<Rightarrow> (bufferSize mb + mirrorSize mb) * numBuffers mb)"

lemma tqb_wfD:
  assumes "tqb_wf q"
  shows "0 < elementSize q" "1 \<le> maxThreshold q" "maxThreshold q \<le> queueLength q" "0 < queueLength q"
    "head q < 2 * queueLength q" "tail q < 2 * queueLength q"
    "(2 * queueLength q - head q + tail q) mod (2 * queueLength q) \<le> queueLength q" "layout_ok q"
  using assms by (auto simp: tqb_wf_def)

lemma Count_tqb_eq:
  assumes "tqb_wf q"
  shows "Count_tqb q = (2 * queueLength q - head q + tail q) mod (2 * queueLength q)" (is "_ = ?y")
proof -
  let ?L = "queueLength q" and ?x = "2 * queueLength q - head q + tail q"
  note wf = tqb_wfD [OF assms]
  have "?y mod ?L = ?x mod ?L"
    by (simp add: mod_mod_cancel)
  moreover have "head q = tail q \<longleftrightarrow> ?y = 0"
  proof
    assume "?y = 0"
    then obtain k where k: "?x = 2 * ?L * k" by auto
    have "2 * ?L * k < 2 * ?L * 2" "0 < 2 * ?L * k"
      using wf by (simp_all only: k [symmetric])
    then have "k = 1" by auto
    with k wf show "head q = tail q" by simp
  next
    assume "head q = tail q"
    with wf show "?y = 0" by simp
  qed
  moreover have "?y \<le> ?L" using wf by simp
  ultimately show ?thesis
    using wf(4) by (cases "?y = ?L") (auto simp: Count_tqb_def Let_def)
qed

lemma Count_le: "tqb_wf q \<Longrightarrow> Count_tqb q \<le> queueLength q"
  by (simp add: Count_tqb_eq tqb_wfD)

lemma tail_eq:
  assumes "tqb_wf q"
  shows "tail q = (head q + Count_tqb q) mod (2 * queueLength q)"
proof -
  note wf = tqb_wfD [OF assms]
  have "(head q + Count_tqb q) mod (2 * queueLength q)
      = (head q + (2 * queueLength q - head q + tail q)) mod (2 * queueLength q)"
    using assms by (simp add: Count_tqb_eq mod_add_right_eq)
  also have "\<dots> = tail q"
    using wf by simp
  finally show ?thesis by simp
qed


section \<open>The cells of a channel\<close>

lemma ring_mirror_bytes:
  "1 \<le> maxThreshold q \<Longrightarrow>
     ring_bytes q + mirror_bytes q = (queueLength q + maxThreshold q - 1) * elementSize q"
  by (simp add: ring_bytes_def mirror_bytes_def add_mult_distrib [symmetric])

lemma ring_bytes_pos: "tqb_wf q \<Longrightarrow> 0 < ring_bytes q"
  by (simp add: ring_bytes_def tqb_wfD)

lemma mirror_bytes_le: "tqb_wf q \<Longrightarrow> mirror_bytes q \<le> ring_bytes q"
  unfolding ring_bytes_def mirror_bytes_def
  using tqb_wfD(3) [of q] by (intro mult_le_mono1) simp

lemma plain_address:
  assumes "tqb_wf q" and "mbs q = None"
  shows "translate q (channel_addr q c + i) = base q + (c * (ring_bytes q + mirror_bytes q) + i)"
proof -
  have "channelStride q = queueLength q + maxThreshold q - 1"
    using tqb_wfD(8) [OF assms(1)] assms(2) by (simp add: layout_ok_def)
  with assms tqb_wfD(2) show ?thesis
    by (simp add: translate_def channel_addr_def ring_mirror_bytes)
qed

lemma mbs_address:
  assumes "tqb_wf q" and "mbs q = Some mb" and "c < numChannels q"
    and "i < ring_bytes q + mirror_bytes q"
  shows "translate q (channel_addr q c + i) =
    c * ring_bytes q + (base q + c * (chanOffset q * elementSize q) + i) mod ring_bytes q"
proof -
  let ?B = "bufferSize mb" and ?M = "mirrorSize mb"
  let ?r = "base q + c * (chanOffset q * elementSize q) + i"
  have lay: "?B = ring_bytes q" "?M \<le> ?B"
      "channelStride q * elementSize q = ?B + ?M + chanOffset q * elementSize q"
      "base q + (numChannels q - 1) * (chanOffset q * elementSize q) + ring_bytes q + mirror_bytes q \<le> ?B + ?M"
    using tqb_wfD(8) [OF assms(1)] assms(2) by (auto simp: layout_ok_def ring_bytes_def)
  have "c * (chanOffset q * elementSize q) \<le> (numChannels q - 1) * (chanOffset q * elementSize q)"
    using assms(3) by (intro mult_le_mono1) simp
  with lay(4) assms(4) have r: "?r < ?B + ?M" by linarith
  have "channel_addr q c + i = c * (?B + ?M) + ?r"
    by (simp add: channel_addr_def lay(3) mult.assoc add_mult_distrib2)
  then have "(channel_addr q c + i) div (?B + ?M) = c" "(channel_addr q c + i) mod (?B + ?M) = ?r"
    using r by (simp_all only: block_div block_mod)
  moreover have "(if ?r < ?B then ?r else ?r - ?B) = ?r mod ?B"
    using r lay(2) by (simp add: le_mod_geq)
  ultimately have "file_offset mb (channel_addr q c + i) = c * ?B + ?r mod ?B"
    by (simp only: file_offset_def Let_def)
  with assms(2) lay(1) show ?thesis by (simp add: translate_def)
qed

lemma tqb_cell_sep:
  assumes "tqb_wf q" and "c < numChannels q" and "d < numChannels q"
    and "i < ring_bytes q + mirror_bytes q" and "j < ring_bytes q + mirror_bytes q"
    and eq: "translate q (channel_addr q c + i) = translate q (channel_addr q d + j)"
  shows "c = d \<and> i mod ring_bytes q = j mod ring_bytes q"
proof (cases "mbs q")
  case None
  then show ?thesis
    using eq assms block_number_inj [of c "ring_bytes q + mirror_bytes q" i d j]
    by (simp add: plain_address)
next
  case (Some mb)
  let ?x = "\<lambda>c. base q + c * (chanOffset q * elementSize q)"
  have "c * ring_bytes q + (?x c + i) mod ring_bytes q = d * ring_bytes q + (?x d + j) mod ring_bytes q"
    using eq assms Some by (simp add: mbs_address)
  then have "c = d" "(?x c + i) mod ring_bytes q = (?x d + j) mod ring_bytes q"
    using ring_bytes_pos [OF assms(1)]
      block_number_inj [of c "ring_bytes q" "(?x c + i) mod ring_bytes q" d "(?x d + j) mod ring_bytes q"]
    by simp_all
  then show ?thesis
    using mod_add_left_cancel [of "?x c" i "ring_bytes q" j] by simp
qed

interpretation tqr: mirrored_ring tqb_wf translate channel_addr ring_bytes mirror_bytes numChannels
  by unfold_locales (blast intro: ring_bytes_pos mirror_bytes_le dest: tqb_cell_sep)+


section \<open>Counting\<close>

lemma circular_distance:
  fixes h :: nat
  assumes "h < N" and "d < N"
  shows "(N - h + (h + d) mod N) mod N = d"
proof -
  have "(N - h + (h + d) mod N) mod N = (N - h + (h + d)) mod N"
    by (simp add: mod_add_right_eq)
  also have "\<dots> = (N + d) mod N" using assms(1) by simp
  finally show ?thesis using assms(2) by simp
qed

lemma tqb_wfI:
  assumes "0 < elementSize q" and "1 \<le> maxThreshold q" and "maxThreshold q \<le> queueLength q"
    and "layout_ok q" and "head q < 2 * queueLength q"
    and "tail q = (head q + n) mod (2 * queueLength q)" and "n \<le> queueLength q"
  shows "tqb_wf q" and "Count_tqb q = n"
proof -
  have "(2 * queueLength q - head q + tail q) mod (2 * queueLength q) = n"
    using assms by (simp only: assms(6), intro circular_distance) auto
  with assms show "tqb_wf q" by (simp add: tqb_wf_def)
  then show "Count_tqb q = n"
    using \<open>(2 * queueLength q - head q + tail q) mod (2 * queueLength q) = n\<close>
    by (simp add: Count_tqb_eq)
qed

lemma translate_update [simp]:
  "translate (q\<lparr>memory := m\<rparr>) = translate q"
  "translate (q\<lparr>head := h\<rparr>) = translate q"
  "translate (q\<lparr>tail := h\<rparr>) = translate q"
  "translate (q\<lparr>elementsEnqueued := h\<rparr>) = translate q"
  "translate (q\<lparr>elementsDequeued := h\<rparr>) = translate q"
  by (simp_all add: translate_def)

lemma layout_ok_update [simp]:
  "layout_ok (q\<lparr>memory := m\<rparr>) = layout_ok q"
  "layout_ok (q\<lparr>head := h\<rparr>) = layout_ok q"
  "layout_ok (q\<lparr>tail := h\<rparr>) = layout_ok q"
  "layout_ok (q\<lparr>elementsEnqueued := h\<rparr>) = layout_ok q"
  "layout_ok (q\<lparr>elementsDequeued := h\<rparr>) = layout_ok q"
  by (simp_all add: layout_ok_def ring_bytes_def mirror_bytes_def split: option.split)

lemma scale_mod: "(a * e) mod (b * e) = (a mod b) * (e::nat)"
  by simp

section \<open>Dequeue\<close>

lemma dequeue_pointer:
  assumes "tqb_wf q" and "GetRawDequeuePtr_tqb q thresh c = Some p"
  shows "p = channel_addr q c + (head q * elementSize q) mod ring_bytes q"
    and "thresh \<le> Count_tqb q" and "thresh \<le> maxThreshold q"
  using assms tqb_wfD(4) [OF assms(1)]
  by (auto simp: GetRawDequeuePtr_tqb_def channel_addr_def ring_bytes_def scale_mod add_mult_distrib
      split: if_splits)

lemma window_fits:
  assumes "tqb_wf q" and "t \<le> maxThreshold q"
  shows "(h * elementSize q) mod ring_bytes q + t * elementSize q \<le> ring_bytes q + mirror_bytes q"
proof -
  have "h mod queueLength q + t \<le> queueLength q + maxThreshold q - 1"
    using tqb_wfD [OF assms(1)] assms(2) mod_less_divisor [of "queueLength q" h] by linarith
  then have "(h mod queueLength q + t) * elementSize q \<le> (queueLength q + maxThreshold q - 1) * elementSize q"
    by (rule mult_le_mono1)
  then have "h mod queueLength q * elementSize q + t * elementSize q \<le> ring_bytes q + mirror_bytes q"
    by (simp only: ring_mirror_bytes [OF tqb_wfD(2) [OF assms(1)]] add_mult_distrib)
  moreover have "(h * elementSize q) mod ring_bytes q = h mod queueLength q * elementSize q"
    by (simp add: ring_bytes_def)
  ultimately show ?thesis by simp
qed

lemma load_contents:
  assumes "tqb_inv q" and "c < numChannels q" and "GetRawDequeuePtr_tqb q thresh c = Some p"
  shows "load_tqb q p (thresh * elementSize q) = take (thresh * elementSize q) (contents_tqb q c)"
proof -
  have wf: "tqb_wf q" and mir: "mirror_ok (view_tqb q c) (ring_bytes q) (mirror_bytes q)
      (head q * elementSize q) (Count_tqb q * elementSize q)"
    using assms(1,2) by (auto simp: tqb_inv_def)
  note ptr = dequeue_pointer [OF wf assms(3)]
  have "map (\<lambda>k. view_tqb q c ((head q * elementSize q) mod ring_bytes q + k)) [0..<thresh * elementSize q]
      = take (thresh * elementSize q) (contents_tqb q c)"
    unfolding contents_tqb_def
    using mir ptr(2) window_fits [OF wf ptr(3)]
    by (intro ring_window) (auto simp: ring_bytes_pos mirror_bytes_le wf)
  then show ?thesis
    by (simp add: load_tqb_def read_block_def view_tqb_def chan_view_def ptr(1) add.assoc)
qed

lemma dequeue_ok:
  assumes "tqb_inv q" and "n \<le> Count_tqb q"
  shows "tqb_inv (Dequeue_tqb q n)" (is ?inv)
    and "Count_tqb (Dequeue_tqb q n) = Count_tqb q - n" (is ?count)
    and "contents_tqb (Dequeue_tqb q n) c = drop (n * elementSize q) (contents_tqb q c)" (is ?contents)
proof -
  let ?q = "Dequeue_tqb q n" and ?L = "queueLength q" and ?e = "elementSize q"
  have wf: "tqb_wf q" using assms(1) by (simp add: tqb_inv_def)
  note wfD = tqb_wfD [OF wf]
  have head: "head ?q = (head q + n) mod (2 * ?L)"
    using wfD(4) by (simp add: Dequeue_tqb_def)
  have "tail q = ((head q + n) + (Count_tqb q - n)) mod (2 * ?L)"
    using tail_eq [OF wf] assms(2) by simp
  moreover have "tail ?q = tail q" "queueLength ?q = ?L"
    by (simp_all add: Dequeue_tqb_def)
  ultimately have "tail ?q = (head ?q + (Count_tqb q - n)) mod (2 * queueLength ?q)"
    by (simp only: head mod_add_left_eq)
  then have wf': "tqb_wf ?q" and cnt: ?count
    using wfD Count_le [OF wf] by (auto intro!: tqb_wfI simp: Dequeue_tqb_def)
  show ?count by (fact cnt)
  have start: "(head ?q * ?e) mod ring_bytes q = (head q * ?e + n * ?e) mod ring_bytes q"
    by (simp add: head ring_bytes_def scale_mod add_mult_distrib [symmetric] mod_mod_cancel)
  have len: "Count_tqb ?q * ?e = Count_tqb q * ?e - n * ?e"
    by (simp add: cnt diff_mult_distrib)
  have same: "view_tqb ?q = view_tqb q" "ring_bytes ?q = ring_bytes q" "mirror_bytes ?q = mirror_bytes q"
      "elementSize ?q = ?e" "numChannels ?q = numChannels q"
    by (auto simp: Dequeue_tqb_def view_tqb_def ring_bytes_def mirror_bytes_def channel_addr_def)
  show ?contents
    unfolding contents_tqb_def same len ring_view_start [OF start] by (rule ring_view_drop)
  show ?inv
    using assms(1) wf' unfolding tqb_inv_def same len mirror_ok_start [OF start]
    by (auto intro: mirror_ok_drop)
qed


section \<open>Enqueue\<close>

lemma enqueue_pointer:
  assumes "tqb_wf q"
  shows "GetRawEnqueuePtr_tqb q thresh c =
    (if thresh \<le> Freespace_tqb q \<and> thresh \<le> maxThreshold q
     then Some (channel_addr q c + (tail q * elementSize q) mod ring_bytes q) else None)"
  using tqb_wfD(4) [OF assms]
  by (auto simp: GetRawEnqueuePtr_tqb_def channel_addr_def ring_bytes_def scale_mod add_mult_distrib)

lemma Count_memory [simp]: "Count_tqb (q\<lparr>memory := m\<rparr>) = Count_tqb q"
  by (simp add: Count_tqb_def Let_def)

lemma Freespace_memory [simp]: "Freespace_tqb (q\<lparr>memory := m\<rparr>) = Freespace_tqb q"
  by (simp add: Freespace_tqb_def)

lemma GetRawEnqueuePtr_memory [simp]:
  "GetRawEnqueuePtr_tqb (q\<lparr>memory := m\<rparr>) t c = GetRawEnqueuePtr_tqb q t c"
  by (simp add: GetRawEnqueuePtr_tqb_def)

lemma tqb_wf_memory [simp]: "tqb_wf (q\<lparr>memory := m\<rparr>) = tqb_wf q"
  by (simp add: tqb_wf_def)

lemma fill_tqb_eq:
  assumes "tqb_wf q" and "thresh \<le> Freespace_tqb q" and "thresh \<le> maxThreshold q"
  shows "fill_tqb q thresh data = q\<lparr>memory := write_chans (translate q) (channel_addr q) (numChannels q)
    ((tail q * elementSize q) mod ring_bytes q) data (memory q)\<rparr>"
proof -
  let ?off = "(tail q * elementSize q) mod ring_bytes q"
  let ?g = "\<lambda>chan q. case GetRawEnqueuePtr_tqb q thresh chan of
              None \<Rightarrow> q | Some p \<Rightarrow> store_tqb q p (data chan)"
  have "fold ?g [0..<n] q = q\<lparr>memory := write_chans (translate q) (channel_addr q) n ?off data (memory q)\<rparr>" for n
  proof (induction n)
    case 0
    then show ?case by (simp add: write_chans_def)
  next
    case (Suc n)
    then show ?case
      using assms by (simp add: enqueue_pointer store_tqb_def write_chans_def)
  qed
  then show ?thesis by (simp add: fill_tqb_def)
qed

text \<open>The memory after the mirror copies, seen from one channel.\<close>

lemma mirror_channel_view:
  "mirror_channel q idx up dn c m (channel_addr q c + i)
    = mirror_step (\<lambda>i. m (channel_addr q c + i)) (ring_bytes q) (idx * elementSize q)
        (up * elementSize q) (dn * elementSize q) i"
proof -
  let ?a = "channel_addr q c"
  have "mirror_channel q idx up dn c m (?a + i)
      = memcpy (memcpy m (?a + (idx * elementSize q + ring_bytes q)) (?a + idx * elementSize q)
          (up * elementSize q)) (?a + 0) (?a + ring_bytes q) (dn * elementSize q) (?a + i)"
    by (simp add: mirror_channel_def channel_addr_def ring_bytes_def add_mult_distrib Let_def)
  then show ?thesis
    by (simp only: memcpy_shift mirror_step_def)
qed


lemma mirror_fold_view:
  assumes "tqb_wf q" and "mbs q = None" and "c < numChannels q" and "i < ring_bytes q + mirror_bytes q"
    and up: "idx * elementSize q + up * elementSize q \<le> mirror_bytes q \<or> up = 0"
    and dn: "dn * elementSize q \<le> mirror_bytes q"
  shows "fold (mirror_channel q idx up dn) [0..<numChannels q] m (channel_addr q c + i)
    = mirror_step (\<lambda>i. m (channel_addr q c + i)) (ring_bytes q) (idx * elementSize q)
        (up * elementSize q) (dn * elementSize q) i"
proof -
  let ?S = "ring_bytes q + mirror_bytes q"
  let ?reg = "\<lambda>c. {channel_addr q c..<channel_addr q c + ?S}"
  let ?g = "mirror_channel q idx up dn"
  have addr: "channel_addr q d = base q + d * ?S" for d
    using plain_address [OF assms(1,2), of d 0] assms(2) by (simp add: translate_def)
  have dn': "dn * elementSize q \<le> ring_bytes q"
    using dn mirror_bytes_le [OF assms(1)] by simp
  have own: "?g d m' a = m' a" if "a \<notin> ?reg d" for d m' a
    using that up dn by (auto simp: mirror_channel_def channel_addr_def Let_def memcpy_apply
        ring_bytes_def add_mult_distrib)
  have local: "?g d m1 a = ?g d m2 a"
    if agree: "\<And>b. b \<in> ?reg d \<Longrightarrow> m1 b = m2 b" and a: "a \<in> ?reg d" for d m1 m2 a
  proof -
    obtain j where j: "a = channel_addr q d + j" "j < ?S"
      using a by (metis atLeastLessThan_iff le_Suc_ex nat_add_left_cancel_less)
    have "m1 (channel_addr q d + x) = m2 (channel_addr q d + x)" if "x < ?S" for x
      using agree that by simp
    then show ?thesis
      unfolding j(1) mirror_channel_view using dn dn' j(2) by (intro mirror_step_cong) auto
  qed
  have disj: "?reg d \<inter> ?reg d' = {}" if "d \<noteq> d'" for d d'
  proof (rule ccontr)
    assume "?reg d \<inter> ?reg d' \<noteq> {}"
    then obtain b where "b \<in> ?reg d" "b \<in> ?reg d'" by blast
    then have "d * ?S + (b - (base q + d * ?S)) = d' * ?S + (b - (base q + d' * ?S))"
        "b - (base q + d * ?S) < ?S" "b - (base q + d' * ?S) < ?S"
      unfolding addr by auto
    with that show False
      using block_number_inj [of d ?S "b - (base q + d * ?S)" d' "b - (base q + d' * ?S)"] by blast
  qed
  have "channel_addr q c + i \<in> ?reg c" using assms(4) by simp
  from fold_regions [of ?reg ?g, OF own local disj this, of "numChannels q" m] assms(3)
  show ?thesis by (simp add: mirror_channel_view)
qed


lemma Enqueue_fields [simp]:
  "elementSize (Enqueue_tqb q n) = elementSize q" "head (Enqueue_tqb q n) = head q"
  "queueLength (Enqueue_tqb q n) = queueLength q" "maxThreshold (Enqueue_tqb q n) = maxThreshold q"
  "numChannels (Enqueue_tqb q n) = numChannels q" "channelStride (Enqueue_tqb q n) = channelStride q"
  "base (Enqueue_tqb q n) = base q" "mbs (Enqueue_tqb q n) = mbs q"
  "chanOffset (Enqueue_tqb q n) = chanOffset q" "baseOffset (Enqueue_tqb q n) = baseOffset q"
  "elementsDequeued (Enqueue_tqb q n) = elementsDequeued q"
  "elementsEnqueued (Enqueue_tqb q n) = u64 (elementsEnqueued q + n)"
  by (auto simp: Enqueue_tqb_def Let_def split: option.split)

lemma Enqueue_tail: "0 < queueLength q \<Longrightarrow> tail (Enqueue_tqb q n) = (tail q + n) mod (2 * queueLength q)"
  by (auto simp: Enqueue_tqb_def Let_def split: option.split)

lemma Enqueue_same [simp]:
  "translate (Enqueue_tqb q n) = translate q" "channel_addr (Enqueue_tqb q n) c = channel_addr q c"
  "ring_bytes (Enqueue_tqb q n) = ring_bytes q" "mirror_bytes (Enqueue_tqb q n) = mirror_bytes q"
  "layout_ok (Enqueue_tqb q n) = layout_ok q"
  by (auto simp: translate_def channel_addr_def ring_bytes_def mirror_bytes_def layout_ok_def
      split: option.split)

lemma Enqueue_wf:
  assumes "tqb_wf q" and "n \<le> Freespace_tqb q"
  shows "tqb_wf (Enqueue_tqb q n)" and "Count_tqb (Enqueue_tqb q n) = Count_tqb q + n"
proof -
  note wfD = tqb_wfD [OF assms(1)]
  have "tail (Enqueue_tqb q n) = (head q + Count_tqb q + n) mod (2 * queueLength q)"
    using Enqueue_tail [OF wfD(4)] tail_eq [OF assms(1)] by (metis mod_add_left_eq)
  moreover have "Count_tqb q + n \<le> queueLength q"
    using assms(2) Count_le [OF assms(1)] by (simp add: Freespace_tqb_def)
  ultimately show "tqb_wf (Enqueue_tqb q n)" "Count_tqb (Enqueue_tqb q n) = Count_tqb q + n"
    using wfD by (auto intro!: tqb_wfI simp: add.assoc)
qed

lemma Enqueue_memory_mbs: "mbs q = Some mb \<Longrightarrow> memory (Enqueue_tqb q n) = memory q"
  by (simp add: Enqueue_tqb_def Let_def)

lemma Enqueue_view_plain:
  assumes "tqb_wf q" and "mbs q = None" and "c < numChannels q" and "n \<le> maxThreshold q"
    and "i < ring_bytes q + mirror_bytes q"
  shows "view_tqb (Enqueue_tqb q n) c i =
    (let I = (tail q * elementSize q) mod ring_bytes q; C = n * elementSize q
     in mirror_step (view_tqb q c) (ring_bytes q) I (copy_up (mirror_bytes q) I C)
          (copy_down (ring_bytes q) I C) i)"
proof -
  let ?e = "elementSize q" and ?L = "queueLength q" and ?m = "maxThreshold q - 1"
  define idx where "idx = tail q mod ?L"
  define up where "up = copy_up ?m idx n"
  define dn where "dn = copy_down ?L idx n"
  note wfD = tqb_wfD [OF assms(1)]
  have idx: "idx < ?L" "(tail q * ?e) mod ring_bytes q = idx * ?e"
    using wfD(4) by (auto simp: idx_def ring_bytes_def)
  have scale: "copy_up (mirror_bytes q) (idx * ?e) (n * ?e) = up * ?e"
      "copy_down (ring_bytes q) (idx * ?e) (n * ?e) = dn * ?e"
    by (simp_all only: up_def dn_def mirror_bytes_def ring_bytes_def copy_up_scale copy_down_scale wfD(1))
  have up: "idx + up \<le> ?m \<or> up = 0" by (auto simp: up_def copy_up_def)
  have dn: "dn \<le> ?m" using idx(1) assms(4) wfD(2) by (auto simp: dn_def copy_down_def)
  have up': "idx * ?e + up * ?e \<le> mirror_bytes q \<or> up = 0"
    using up by (auto simp: mirror_bytes_def add_mult_distrib [symmetric])
  have dn': "dn * ?e \<le> mirror_bytes q"
    unfolding mirror_bytes_def using dn by (rule mult_le_mono1)
  have mem: "memory (Enqueue_tqb q n) =
      (if up \<noteq> 0 \<or> dn \<noteq> 0 then fold (mirror_channel q idx up dn) [0..<numChannels q] (memory q)
       else memory q)"
    using wfD(4) assms(2)
    by (auto simp: Enqueue_tqb_def Let_def up_def dn_def copy_up_def copy_down_def idx_def)
  have id: "view_tqb q' c = (\<lambda>i. memory q' (channel_addr q c + i))"
    if "translate q' = id" "channel_addr q' c = channel_addr q c" for q'
    using that by (simp add: view_tqb_def chan_view_def)
  have tid: "translate q = id" using assms(2) by (simp add: translate_def)
  show ?thesis
    unfolding Let_def idx(2) scale
    using mirror_fold_view [OF assms(1-3,5) up' dn', of "memory q"]
    by (simp add: id [OF tid] id [of "Enqueue_tqb q n"] tid mem)
qed


text \<open>With a \<open>MirrorBufferSet\<close> equal ring positions are the same cell.\<close>

lemma view_periodic:
  assumes "tqb_wf q" and "mbs q = Some mb" and "c < numChannels q"
    and "i < ring_bytes q + mirror_bytes q" and "j < ring_bytes q + mirror_bytes q"
    and "i mod ring_bytes q = j mod ring_bytes q"
  shows "view_tqb q c i = view_tqb q c j"
  using assms by (simp add: view_tqb_def chan_view_def mbs_address) (metis mod_add_right_eq)

lemma tail_position:
  assumes "tqb_wf q"
  shows "(tail q * elementSize q) mod ring_bytes q
    = (head q * elementSize q + Count_tqb q * elementSize q) mod ring_bytes q"
  by (subst tail_eq [OF assms])
    (simp add: ring_bytes_def scale_mod add_mult_distrib [symmetric] mod_mod_cancel)

lemma fill_view:
  assumes "tqb_wf q" and "thresh \<le> Freespace_tqb q" and "thresh \<le> maxThreshold q"
    and "\<And>c. c < numChannels q \<Longrightarrow> length (data c) \<le> thresh * elementSize q"
    and "c < numChannels q"
  defines "I \<equiv> (tail q * elementSize q) mod ring_bytes q"
    and "H \<equiv> head q * elementSize q"
  shows "j < length (data c) \<Longrightarrow> view_tqb (fill_tqb q thresh data) c (I + j) = data c ! j"
    and "k < Count_tqb q * elementSize q \<Longrightarrow> i < ring_bytes q + mirror_bytes q \<Longrightarrow>
      i mod ring_bytes q = (H + k) mod ring_bytes q \<Longrightarrow>
      view_tqb (fill_tqb q thresh data) c i = view_tqb q c i"
proof -
  let ?e = "elementSize q" and ?n = "Count_tqb q * elementSize q"
  have I: "I = (H + ?n) mod ring_bytes q"
    using tail_position [OF assms(1)] by (simp add: I_def H_def)
  have fits: "I + length (data d) \<le> ring_bytes q + mirror_bytes q" if "d < numChannels q" for d
    using window_fits [OF assms(1,3), of "tail q"] assms(4) [OF that] by (simp add: I_def)
  have "(Count_tqb q + thresh) * ?e \<le> queueLength q * ?e"
    using assms(2) Count_le [OF assms(1)] by (intro mult_le_mono1) (simp add: Freespace_tqb_def)
  then have room: "?n + length (data c) \<le> ring_bytes q"
    using assms(4) [OF assms(5)] by (simp add: ring_bytes_def add_mult_distrib)
  have view: "view_tqb (fill_tqb q thresh data) c i =
      chan_view (translate q) (channel_addr q c)
        (write_block (translate q) (memory q) (channel_addr q c + I) (data c)) i"
    if "i < ring_bytes q + mirror_bytes q" for i
    using tqr.write_chans_view [OF assms(1) order.refl assms(5), of I data i "memory q"] that assms(5) fits
    by (simp add: fill_tqb_eq [OF assms(1-3)] view_tqb_def channel_addr_def [abs_def] I_def)
  show "view_tqb (fill_tqb q thresh data) c (I + j) = data c ! j" if "j < length (data c)"
  proof -
    have "I + j < ring_bytes q + mirror_bytes q" using that fits [OF assms(5)] by simp
    then show ?thesis
      using view tqr.write_chan_puts [OF assms(1,5) fits [OF assms(5)] _ that] room by simp
  qed
  show "view_tqb (fill_tqb q thresh data) c i = view_tqb q c i"
    if "k < ?n" and "i < ring_bytes q + mirror_bytes q" and "i mod ring_bytes q = (H + k) mod ring_bytes q"
  proof -
    have "chan_view (translate q) (channel_addr q c)
        (write_block (translate q) (memory q) (channel_addr q c + (H + ?n) mod ring_bytes q) (data c)) i
      = chan_view (translate q) (channel_addr q c) (memory q) i"
      using that fits [OF assms(5)] unfolding I
      by (intro tqr.write_chan_keeps [OF assms(1,5) _ room]) auto
    with view [OF that(2)] show ?thesis by (simp add: I view_tqb_def)
  qed
qed

lemma enqueue_view:
  assumes "tqb_wf q" and "c < numChannels q" and "n \<le> maxThreshold q"
  defines "I \<equiv> (tail q * elementSize q) mod ring_bytes q" and "C \<equiv> n * elementSize q"
  shows "j < C \<Longrightarrow> view_tqb (Enqueue_tqb q n) c ((I + j) mod ring_bytes q) = view_tqb q c (I + j)"
    and "j < C \<Longrightarrow> (I + j) mod ring_bytes q < mirror_bytes q \<Longrightarrow>
      view_tqb (Enqueue_tqb q n) c ((I + j) mod ring_bytes q + ring_bytes q)
        = view_tqb (Enqueue_tqb q n) c ((I + j) mod ring_bytes q)"
    and "i < ring_bytes q + mirror_bytes q \<Longrightarrow> (\<And>j. j < C \<Longrightarrow> i mod ring_bytes q \<noteq> (I + j) mod ring_bytes q) \<Longrightarrow>
      view_tqb (Enqueue_tqb q n) c i = view_tqb q c i"
proof -
  let ?Q = "ring_bytes q" and ?M = "mirror_bytes q"
  have Q: "0 < ?Q" "?M \<le> ?Q" using ring_bytes_pos mirror_bytes_le assms(1) by auto
  have I: "I < ?Q" using Q by (simp add: I_def)
  have C: "C \<le> ?Q" "I + C \<le> ?Q + ?M"
    using assms(3) tqb_wfD(3) [OF assms(1)] window_fits [OF assms(1,3), of "tail q"]
    by (auto simp: C_def I_def ring_bytes_def)
  show new: "view_tqb (Enqueue_tqb q n) c ((I + j) mod ?Q) = view_tqb q c (I + j)" if "j < C"
  proof (cases "mbs q")
    case None
    have "(I + j) mod ?Q < ?Q + ?M" using Q by (simp add: trans_less_add1)
    with Enqueue_view_plain [OF assms(1) None assms(2,3)] mirror_step_new [OF I C(1) that]
    show ?thesis by (simp add: Let_def I_def C_def)
  next
    case (Some mb)
    have "view_tqb q c ((I + j) mod ?Q) = view_tqb q c (I + j)"
      using Q C that by (intro view_periodic [OF assms(1) Some assms(2)]) (auto simp: trans_less_add1)
    with Some show ?thesis by (simp add: view_tqb_def Enqueue_memory_mbs)
  qed
  show "view_tqb (Enqueue_tqb q n) c ((I + j) mod ?Q + ?Q) = view_tqb (Enqueue_tqb q n) c ((I + j) mod ?Q)"
    if "j < C" "(I + j) mod ?Q < ?M"
  proof (cases "mbs q")
    case None
    have "(I + j) mod ?Q < ?Q + ?M" "(I + j) mod ?Q + ?Q < ?Q + ?M" using that by auto
    with Enqueue_view_plain [OF assms(1) None assms(2,3)] mirror_step_mirror [OF I C(1) that(1) Q(2) that(2) C(2)]
    show ?thesis by (simp add: Let_def I_def C_def)
  next
    case (Some mb)
    have "view_tqb q c ((I + j) mod ?Q + ?Q) = view_tqb q c ((I + j) mod ?Q)"
      using Q C that by (intro view_periodic [OF assms(1) Some assms(2)]) (auto simp: trans_less_add1)
    with Some show ?thesis by (simp add: view_tqb_def Enqueue_memory_mbs)
  qed
  show "view_tqb (Enqueue_tqb q n) c i = view_tqb q c i"
    if "i < ?Q + ?M" "\<And>j. j < C \<Longrightarrow> i mod ?Q \<noteq> (I + j) mod ?Q"
  proof (cases "mbs q")
    case None
    with Enqueue_view_plain [OF assms(1) None assms(2,3) that(1)]
      mirror_step_old [OF I C(1) Q(2) C(2), of i "view_tqb q c"] that(2)
    show ?thesis by (simp add: Let_def I_def C_def)
  next
    case (Some mb)
    then show ?thesis by (simp add: view_tqb_def Enqueue_memory_mbs)
  qed
qed


lemma memory_update_same [simp]:
  "ring_bytes (q\<lparr>memory := m\<rparr>) = ring_bytes q" "mirror_bytes (q\<lparr>memory := m\<rparr>) = mirror_bytes q"
  "channel_addr (q\<lparr>memory := m\<rparr>) = channel_addr q"
  by (auto simp: ring_bytes_def mirror_bytes_def channel_addr_def)

text \<open>
  A producer asks for \<open>thresh\<close> elements, stores up to that many in every channel and
  enqueues \<open>n\<close> of them: first one channel, then the whole queue.
\<close>

lemma fill_enqueue_channel:
  assumes "tqb_inv q" and "thresh \<le> Freespace_tqb q" and "thresh \<le> maxThreshold q" and "n \<le> thresh"
    and len: "\<And>c. c < numChannels q \<Longrightarrow>
      n * elementSize q \<le> length (data c) \<and> length (data c) \<le> thresh * elementSize q"
    and c: "c < numChannels q"
  defines "R \<equiv> view_tqb (Enqueue_tqb (fill_tqb q thresh data) n) c"
    and "H \<equiv> head q * elementSize q" and "m \<equiv> Count_tqb q * elementSize q" and "C \<equiv> n * elementSize q"
  shows "ring_view R (ring_bytes q) H (m + C) = ring_view (view_tqb q c) (ring_bytes q) H m @ take C (data c)"
    and "mirror_ok R (ring_bytes q) (mirror_bytes q) H (m + C)"
proof -
  let ?q1 = "fill_tqb q thresh data" and ?Q = "ring_bytes q" and ?M = "mirror_bytes q"
  let ?I = "(tail q * elementSize q) mod ?Q"
  have wf: "tqb_wf q" and mir: "mirror_ok (view_tqb q c) ?Q ?M H m"
    using assms(1) c by (auto simp: tqb_inv_def H_def m_def)
  obtain mm where q1: "?q1 = q\<lparr>memory := mm\<rparr>" using fill_tqb_eq [OF wf assms(2,3)] by blast
  have wf1: "tqb_wf ?q1" and nthr: "n \<le> maxThreshold ?q1" and c1: "c < numChannels ?q1"
    using wf assms(3,4) c by (simp_all add: q1)
  note fill = fill_view [OF wf assms(2,3) _ c, of data, folded H_def m_def]
  note enq = enqueue_view [OF wf1 c1 nthr, simplified q1, simplified, folded q1 C_def, folded R_def]
  have pos: "(?I + j) mod ?Q = (H + m + j) mod ?Q" for j
    using tail_position [OF wf] by (simp add: H_def m_def mod_add_left_eq)
  have "Count_tqb q + n \<le> queueLength q"
    using assms(2,4) Count_le [OF wf] by (simp add: Freespace_tqb_def)
  then have room: "m + C \<le> ?Q"
    unfolding m_def C_def ring_bytes_def add_mult_distrib [symmetric] by (rule mult_le_mono1)
  have old: "R i = view_tqb q c i"
    if k: "k < m" and i: "i < ?Q + ?M" "i mod ?Q = (H + k) mod ?Q" for k i
  proof -
    have "i mod ?Q \<noteq> (?I + j) mod ?Q" if "j < C" for j
      using ring_pos_inj [of H k ?Q "m + j"] room that k i(2) by (auto simp: pos add.assoc)
    with enq(3) [of i] fill(2) [of k i] k i len show ?thesis by (simp add: R_def)
  qed
  have new: "R ((H + m + j) mod ?Q) = data c ! j" if "j < C" for j
    using enq(1) [OF that] fill(1) [of j] that len [OF c] len by (simp add: pos C_def R_def)
  have mirn: "R ((H + m + j) mod ?Q + ?Q) = R ((H + m + j) mod ?Q)"
    if "j < C" "(H + m + j) mod ?Q < ?M" for j
    using enq(2) [OF that(1)] that(2) by (simp add: pos R_def)
  have "C \<le> length (data c)" using len [OF c] by (simp add: C_def)
  note app = ring_append_block [OF ring_bytes_pos [OF wf] mirror_bytes_le [OF wf] mir this old new mirn]
  show "ring_view R ?Q H (m + C) = ring_view (view_tqb q c) ?Q H m @ take C (data c)"
    and "mirror_ok R ?Q ?M H (m + C)" by (rule app; assumption)+
qed

lemma fill_enqueue_ok:
  assumes "tqb_inv q" and "thresh \<le> Freespace_tqb q" and "thresh \<le> maxThreshold q" and "n \<le> thresh"
    and len: "\<And>c. c < numChannels q \<Longrightarrow>
      n * elementSize q \<le> length (data c) \<and> length (data c) \<le> thresh * elementSize q"
  shows "tqb_inv (Enqueue_tqb (fill_tqb q thresh data) n)"
    and "Count_tqb (Enqueue_tqb (fill_tqb q thresh data) n) = Count_tqb q + n"
    and "c < numChannels q \<Longrightarrow> contents_tqb (Enqueue_tqb (fill_tqb q thresh data) n) c
      = contents_tqb q c @ take (n * elementSize q) (data c)"
proof -
  let ?q1 = "fill_tqb q thresh data"
  let ?q2 = "Enqueue_tqb ?q1 n"
  have wf: "tqb_wf q" using assms(1) by (simp add: tqb_inv_def)
  obtain m where q1: "?q1 = q\<lparr>memory := m\<rparr>" using fill_tqb_eq [OF wf assms(2,3)] by blast
  have "tqb_wf ?q1" "n \<le> Freespace_tqb ?q1"
    using wf assms(2-4) by (simp_all add: q1)
  note wf2 = Enqueue_wf [OF this]
  show cnt: "Count_tqb ?q2 = Count_tqb q + n" using wf2(2) by (simp add: q1)
  have len2: "Count_tqb ?q2 * elementSize q = Count_tqb q * elementSize q + n * elementSize q"
    by (simp add: cnt add_mult_distrib)
  have same: "elementSize ?q2 = elementSize q" "head ?q2 = head q" "ring_bytes ?q2 = ring_bytes q"
      "mirror_bytes ?q2 = mirror_bytes q" "numChannels ?q2 = numChannels q"
    by (simp_all add: q1)
  note chan = fill_enqueue_channel [OF assms(1-4), of data, OF len]
  show "contents_tqb ?q2 c = contents_tqb q c @ take (n * elementSize q) (data c)"
    if "c < numChannels q"
    using chan(1) [OF _ that] unfolding contents_tqb_def same len2 by simp
  show "tqb_inv ?q2"
    using chan(2) wf2(1) unfolding tqb_inv_def same len2 by simp
qed

section \<open>Copying to a larger queue\<close>

lemma copy_chan_Inr:
  "GetRawDequeuePtr_tqb old n c = Some src \<Longrightarrow> GetRawEnqueuePtr_tqb new n c = Some dst \<Longrightarrow>
    copy_chan old n c (Inr new) = Inr (store_tqb new dst (load_tqb old src (n * elementSize new)))"
  by (simp add: copy_chan_def)

lemma copy_chans_fill:
  assumes "tqb_inv old" and "tqb_wf new" and "elementSize new = elementSize old"
    and "numChannels new = numChannels old"
    and "count \<le> Count_tqb old" and "count \<le> maxThreshold old"
    and "count \<le> Freespace_tqb new" and "count \<le> maxThreshold new"
  shows "fold (copy_chan old count) [0..<numChannels new] (Inr new)
    = Inr (fill_tqb new count (\<lambda>c. take (count * elementSize old) (contents_tqb old c)))"
proof -
  let ?data = "\<lambda>c. take (count * elementSize old) (contents_tqb old c)"
  let ?g = "\<lambda>chan q. case GetRawEnqueuePtr_tqb q count chan of
              None \<Rightarrow> q | Some p \<Rightarrow> store_tqb q p (?data chan)"
  have "n \<le> numChannels new \<Longrightarrow> fold (copy_chan old count) [0..<n] (Inr new) = Inr (fold ?g [0..<n] new)
      \<and> (\<exists>m. fold ?g [0..<n] new = new\<lparr>memory := m\<rparr>)" for n
  proof (induction n)
    case 0
    have "\<exists>m. new = new\<lparr>memory := m\<rparr>" by (rule exI [of _ "memory new"]) simp
    then show ?case by (simp only: upt.simps fold_simps)
  next
    case (Suc n)
    then obtain m where m: "fold ?g [0..<n] new = new\<lparr>memory := m\<rparr>"
        "fold (copy_chan old count) [0..<n] (Inr new) = Inr (new\<lparr>memory := m\<rparr>)" by auto
    obtain src where src: "GetRawDequeuePtr_tqb old count n = Some src"
      using assms(5,6) by (simp add: GetRawDequeuePtr_tqb_def)
    have "n < numChannels old" using Suc.prems assms(4) by simp
    then have "load_tqb old src (count * elementSize new) = ?data n"
      using load_contents [OF assms(1) _ src] assms(3) by simp
    then show ?case
      using m src enqueue_pointer [OF assms(2), of count n] assms(7,8)
      by (auto simp: copy_chan_Inr store_tqb_def)
  qed
  then show ?thesis by (simp add: fill_tqb_def)
qed


text \<open>
  Copying ends, moves all queued bytes of every channel behind what the new queue holds, and
  leaves everything else of both queues as it was.
\<close>

lemma copy_queue_ok:
  assumes "tqb_inv old" and "tqb_inv new" and "elementSize new = elementSize old"
    and "numChannels new = numChannels old"
    and "maxThreshold old \<le> maxThreshold new" and "Count_tqb old \<le> Freespace_tqb new"
  shows "\<exists>old' new'. copy_queue old new = Some (Inr (old', new')) \<and> tqb_inv new' \<and>
     Count_tqb new' = Count_tqb new + Count_tqb old \<and>
     (\<forall>c<numChannels new. contents_tqb new' c = contents_tqb new c @ contents_tqb old c) \<and>
     same_sizes new' new \<and> elementsEnqueued old' = elementsEnqueued old \<and>
     elementsDequeued new' = elementsDequeued new \<and>
     (\<exists>h n. old' = old\<lparr>head := h, elementsDequeued := n\<rparr>)"
  using assms
proof (induction "Count_tqb old" arbitrary: old new rule: less_induct)
  case less
  show ?case
  proof (cases "Count_tqb old = 0")
    case True
    then have "copy_queue old new = Some (Inr (old, new))"
      by (simp add: copy_queue.simps)
    moreover have "\<exists>h n. old = old\<lparr>head := h, elementsDequeued := n\<rparr>"
      by (rule exI [of _ "head old"], rule exI [of _ "elementsDequeued old"]) simp
    ultimately show ?thesis using True less.prems by (simp add: contents_tqb_def same_sizes_def)
  next
    case False
    define n where "n = min (Count_tqb old) (maxThreshold old)"
    let ?data = "\<lambda>c. take (n * elementSize old) (contents_tqb old c)"
    let ?new = "Enqueue_tqb (fill_tqb new n ?data) n" and ?old = "Dequeue_tqb old n"
    have wf: "tqb_wf old" "tqb_wf new" using less.prems(1,2) by (auto simp: tqb_inv_def)
    have n: "0 < n" "n \<le> Count_tqb old" "n \<le> maxThreshold old" "n \<le> Freespace_tqb new"
        "n \<le> maxThreshold new"
      using False less.prems(5,6) tqb_wfD(2) [OF wf(1)] by (auto simp: n_def)
    have step: "copy_queue old new = copy_queue ?old ?new"
      using copy_chans_fill [OF less.prems(1) wf(2) less.prems(3,4) n(2-5)] False
      by (subst copy_queue.simps) (simp add: n_def Let_def)
    obtain m where m: "fill_tqb new n ?data = new\<lparr>memory := m\<rparr>"
      using fill_tqb_eq [OF wf(2) n(4,5)] by blast
    have len: "length (?data c) = n * elementSize new" for c
      using n(2) less.prems(3) by (auto simp: contents_tqb_def min_def)
    note enq = fill_enqueue_ok [OF less.prems(2) n(4,5) order.refl, of ?data, unfolded len]
    note deq = dequeue_ok [OF less.prems(1) n(2)]
    have sizes: "same_sizes ?new new" "elementsDequeued ?new = elementsDequeued new"
      by (simp_all add: same_sizes_def m)
    have "Count_tqb ?old < Count_tqb old" using deq(2) n(1,2) by simp
    moreover have "Count_tqb ?old \<le> Freespace_tqb ?new"
      using deq(2) enq(2) less.prems(6) by (simp add: Freespace_tqb_def m)
    ultimately obtain old' new' where IH: "copy_queue ?old ?new = Some (Inr (old', new'))"
        "tqb_inv new'" "Count_tqb new' = Count_tqb ?new + Count_tqb ?old"
        "\<forall>c<numChannels ?new. contents_tqb new' c = contents_tqb ?new c @ contents_tqb ?old c"
        "same_sizes new' ?new" "elementsEnqueued old' = elementsEnqueued ?old"
        "elementsDequeued new' = elementsDequeued ?new" "\<exists>h n. old' = ?old\<lparr>head := h, elementsDequeued := n\<rparr>"
      using less.hyps [of ?old ?new] less.prems enq(1) deq(1) by (auto simp: m Dequeue_tqb_def)
    have "contents_tqb new' c = contents_tqb new c @ contents_tqb old c" if "c < numChannels new" for c
      using IH(4) enq(3) [OF _ that] deq(3) [of c] that less.prems(3) by (simp add: m)
    moreover have "same_sizes new' new" using IH(5) sizes(1) by (simp add: same_sizes_def)
    moreover have "Count_tqb new' = Count_tqb new + Count_tqb old"
      using IH(3) enq(2) deq(2) n(2) by simp
    moreover have "\<exists>h n. old' = old\<lparr>head := h, elementsDequeued := n\<rparr>"
      using IH(8) by (auto simp: Dequeue_tqb_def)
    ultimately show ?thesis
      using IH(1-7) step sizes(2) by (simp add: Dequeue_tqb_def)
  qed
qed

section \<open>Allocation and growth\<close>

lemma round_up_alt:
  assumes "0 < p"
  shows "round_up p n = (if n mod p = 0 then n else (n div p + 1) * p)"
proof -
  have "n = n div p * p + n mod p" "n mod p < p" using assms by simp_all
  then have "n + (p - n mod p) = n div p * p + p" by linarith
  then show ?thesis by (simp add: round_up_def)
qed

lemma round_up_ge: "0 < p \<Longrightarrow> n \<le> round_up p n"
  by (simp add: round_up_def)
    (metis add_leD2 le_add_diff_inverse mod_less_divisor nat_less_le trans_le_add1 diff_add_assoc le_add1)

lemma round_up_dvd: "0 < p \<Longrightarrow> p dvd round_up p n"
  by (auto simp: round_up_alt)

lemma round_up_mono:
  assumes "0 < p" and "m \<le> n"
  shows "round_up p m \<le> round_up p n"
proof -
  obtain k where k: "round_up p n = p * k" using round_up_dvd [OF assms(1)] by blast
  have le: "m \<le> p * k" using assms(2) round_up_ge [OF assms(1), of n] k by simp
  have "(m div p + 1) * p \<le> p * k" if "m mod p \<noteq> 0"
  proof -
    have "m \<noteq> p * k" using that by auto
    then have "m < k * p" using le by (simp add: mult.commute)
    then have "m div p < k" by (rule less_mult_imp_div_less)
    then have "(m div p + 1) * p \<le> k * p" by (intro mult_le_mono1) simp
    then show ?thesis by (simp add: mult.commute)
  qed
  with le k assms(1) show ?thesis by (simp add: round_up_alt)
qed

lemma fresh_Count:
  "head q = 0 \<Longrightarrow> tail q = 0 \<Longrightarrow> 0 < queueLength q \<Longrightarrow> Count_tqb q = 0"
  by (simp add: Count_tqb_def)

lemma fresh_inv:
  assumes "head q = 0" and "tail q = 0" and "0 < elementSize q" and "1 \<le> maxThreshold q"
    and "maxThreshold q \<le> queueLength q" and "layout_ok q"
  shows "tqb_inv q" and "Count_tqb q = 0" and "\<And>c. contents_tqb q c = []"
  using assms fresh_Count [of q] by (auto simp: tqb_inv_def tqb_wf_def contents_tqb_def)

lemma AllocateBuf_plain:
  assumes "0 < elementSize q"
    and q'_def: "q' = AllocateBuf pageSize fresh q len thr nc False"
  shows "tqb_inv q'" and "Count_tqb q' = 0" and "\<And>c. contents_tqb q' c = []"
    and "maxThreshold q' = max thr 1" and "queueLength q' = max len (max thr 1)"
proof -
  note fresh = fresh_inv [of q']
  have f: "head q' = 0" "tail q' = 0" "0 < elementSize q'" "1 \<le> maxThreshold q'"
    "maxThreshold q' \<le> queueLength q'" "layout_ok q'"
    using assms(1) by (auto simp: q'_def AllocateBuf_def Reset_tqb_def Let_def layout_ok_def)
  show "tqb_inv q'" "Count_tqb q' = 0" "\<And>c. contents_tqb q' c = []" using fresh f by blast+
  show "maxThreshold q' = max thr 1" "queueLength q' = max len (max thr 1)"
    by (auto simp: q'_def AllocateBuf_def Reset_tqb_def Let_def)
qed

lemma AllocateBuf_mbs:
  assumes "0 < elementSize q" and "mbs_fits pageSize q len thr nc"
    and q'_def: "q' = AllocateBuf pageSize fresh q len thr nc True"
  shows "tqb_inv q'" and "Count_tqb q' = 0" and "\<And>c. contents_tqb q' c = []"
    and "max thr 1 \<le> maxThreshold q'" and "max len (max thr 1) \<le> queueLength q'"
proof -
  let ?e = "elementSize q" and ?off = "baseOffset q + (nc - 1) * chanOffset q"
  define T L where "T = max thr 1" and "L = max len (max thr 1)"
  define B M where "B = round_up pageSize (L * ?e)" and "M = round_up pageSize ((T - 1 + ?off) * ?e)"
  have p: "0 < pageSize" "?e dvd pageSize" "T - 1 + ?off \<le> L"
    using assms(2) by (simp_all only: mbs_fits_def T_def L_def add.assoc)
  have "?e dvd B" "?e dvd M"
    unfolding B_def M_def using dvd_trans [OF p(2) round_up_dvd [OF p(1)]] by auto
  then obtain L' m' where B: "B = L' * ?e" and M: "M = m' * ?e"
    by (metis dvd_def mult.commute)
  have ge: "L * ?e \<le> L' * ?e" "(T - 1 + ?off) * ?e \<le> m' * ?e" "m' * ?e \<le> L' * ?e"
    unfolding B [symmetric] M [symmetric] B_def M_def
    using round_up_ge [OF p(1)] p(1,3) by (auto intro!: round_up_mono)
  then have le: "L \<le> L'" "T - 1 + ?off \<le> m'" "m' \<le> L'" using assms(1) by auto
  have TL: "1 \<le> T" "T \<le> L" by (auto simp: T_def L_def)
  have args: "(if thr < 1 then 1 else thr) = T" "(if T > len then T else len) = L"
    by (auto simp: T_def L_def)
  have q': "q' = Reset_tqb (q\<lparr>numChannels := nc,
      mbs := Some \<lparr>bufferSize = B, mirrorSize = M, numBuffers = nc\<rparr>, queueLength := L',
      channelStride := L' + m' + chanOffset q, base := baseOffset q,
      maxThreshold := min (m' + 1 - ?off) L', memory := fresh\<rparr>)"
    unfolding q'_def AllocateBuf_def Let_def args MirrorBufferSet_def add.assoc
      B_def [symmetric] M_def [symmetric]
    using assms(1) by (auto simp: B M add.assoc)
  have thr: "T \<le> min (m' + 1 - ?off) L'" using le TL by auto
  have "maxThreshold q' = min (m' + 1 - ?off) L'" "queueLength q' = L'"
    by (simp_all add: q' Reset_tqb_def)
  then show "max thr 1 \<le> maxThreshold q'" "max len (max thr 1) \<le> queueLength q'"
    using thr le(1) by (simp_all only: T_def L_def)
  have "min (m' + 1 - ?off) L' - 1 + ?off \<le> m'" using thr TL le by auto
  then have "(min (m' + 1 - ?off) L' - 1 + ?off) * ?e \<le> m' * ?e" by (rule mult_le_mono1)
  then have "(min (m' + 1 - ?off) L' - 1) * ?e + baseOffset q * ?e + (nc - 1) * (chanOffset q * ?e) \<le> m' * ?e"
    by (simp only: add_mult_distrib mult.assoc add.assoc)
  moreover have "baseOffset q \<le> baseOffset q * ?e" using assms(1) by simp
  ultimately have "baseOffset q + (nc - 1) * (chanOffset q * ?e) + L' * ?e + (min (m' + 1 - ?off) L' - 1) * ?e
      \<le> L' * ?e + m' * ?e" by linarith
  then have "layout_ok q'"
    using ge(3) by (simp add: layout_ok_def q' Reset_tqb_def ring_bytes_def mirror_bytes_def B M add_mult_distrib)
  moreover have "head q' = 0" "tail q' = 0" "0 < elementSize q'" "1 \<le> maxThreshold q'"
      "maxThreshold q' \<le> queueLength q'"
    using assms(1) thr TL by (auto simp: q' Reset_tqb_def)
  ultimately show "tqb_inv q'" "Count_tqb q' = 0" "\<And>c. contents_tqb q' c = []"
    using fresh_inv by blast+
qed

lemma AllocateBuf_fields [simp]:
  "elementSize (AllocateBuf p f q l t n b) = elementSize q"
  "numChannels (AllocateBuf p f q l t n b) = n"
  "baseOffset (AllocateBuf p f q l t n b) = baseOffset q"
  "chanOffset (AllocateBuf p f q l t n b) = chanOffset q"
  "mbs (AllocateBuf p f q l t n b) = None \<longleftrightarrow> \<not> b"
  by (simp_all add: AllocateBuf_def Reset_tqb_def Let_def)

lemma AllocateBuf_ok:
  assumes "0 < elementSize q" and "b \<Longrightarrow> mbs_fits pageSize q len thr nc"
    and q'_def: "q' = AllocateBuf pageSize fresh q len thr nc b"
  shows "tqb_inv q'" and "Count_tqb q' = 0" and "\<And>c. contents_tqb q' c = []"
    and "max thr 1 \<le> maxThreshold q'" and "max len (max thr 1) \<le> queueLength q'"
  using AllocateBuf_mbs [OF assms(1) _ refl, of pageSize len thr nc fresh]
    AllocateBuf_plain [OF assms(1) refl, of pageSize fresh len thr nc] assms(2)
  by (cases b; simp add: q'_def)+

lemma counter_same [simp]:
  "Count_tqb (q\<lparr>elementsDequeued := n\<rparr>) = Count_tqb q" "Count_tqb (q\<lparr>elementsEnqueued := n\<rparr>) = Count_tqb q"
  "view_tqb (q\<lparr>elementsDequeued := n\<rparr>) = view_tqb q" "view_tqb (q\<lparr>elementsEnqueued := n\<rparr>) = view_tqb q"
  "ring_bytes (q\<lparr>elementsDequeued := n\<rparr>) = ring_bytes q" "ring_bytes (q\<lparr>elementsEnqueued := n\<rparr>) = ring_bytes q"
  "mirror_bytes (q\<lparr>elementsDequeued := n\<rparr>) = mirror_bytes q"
  "mirror_bytes (q\<lparr>elementsEnqueued := n\<rparr>) = mirror_bytes q"
  by (auto simp: Count_tqb_def Let_def fun_eq_iff view_tqb_def translate_def channel_addr_def
      ring_bytes_def mirror_bytes_def)

lemma counter_inv [simp]:
  "tqb_inv (q\<lparr>elementsDequeued := n\<rparr>) = tqb_inv q" "tqb_inv (q\<lparr>elementsEnqueued := n\<rparr>) = tqb_inv q"
  "contents_tqb (q\<lparr>elementsDequeued := n\<rparr>) = contents_tqb q" "contents_tqb (q\<lparr>elementsEnqueued := n\<rparr>) = contents_tqb q"
  by (auto simp: tqb_inv_def tqb_wf_def layout_ok_def contents_tqb_def fun_eq_iff split: option.split)

lemma Grow_ok:
  assumes "tqb_inv q"
    and "mbs q \<noteq> None \<Longrightarrow> mbs_fits pageSize q (max len (queueLength q)) (max thr (maxThreshold q)) (numChannels q)"
  shows "\<exists>q'. Grow_tqb pageSize fresh q len thr = Some (Inr q') \<and> tqb_inv q' \<and>
     len \<le> queueLength q' \<and> thr \<le> maxThreshold q' \<and>
     queueLength q \<le> queueLength q' \<and> maxThreshold q \<le> maxThreshold q' \<and>
     Count_tqb q' = Count_tqb q \<and> numChannels q' = numChannels q \<and> elementSize q' = elementSize q \<and>
     (mbs q' = None \<longleftrightarrow> mbs q = None) \<and> baseOffset q' = baseOffset q \<and> chanOffset q' = chanOffset q \<and>
     (\<forall>c<numChannels q. contents_tqb q' c = contents_tqb q c) \<and>
     elementsEnqueued q' = elementsEnqueued q \<and> elementsDequeued q' = elementsDequeued q"
proof (cases "len \<le> queueLength q \<and> (if thr = 0 then maxThreshold q else thr) \<le> maxThreshold q")
  case True
  then have "Grow_tqb pageSize fresh q len thr = Some (Inr q)" by (simp add: Grow_tqb_def)
  with True assms(1) show ?thesis by (auto split: if_splits)
next
  case False
  define L T where "L = max len (queueLength q)" and "T = max thr (maxThreshold q)"
  define q1 where "q1 = AllocateBuf pageSize fresh q L T (numChannels q) (mbs q \<noteq> None)"
  define q2 where "q2 = q1\<lparr>elementsDequeued := elementsDequeued q\<rparr>"
  have wf: "tqb_wf q" using assms(1) by (simp add: tqb_inv_def)
  have thr: "(if (if thr = 0 then maxThreshold q else thr) \<le> maxThreshold q then maxThreshold q
        else (if thr = 0 then maxThreshold q else thr)) = T"
      "(if len \<le> queueLength q then queueLength q else len) = L"
    by (auto simp: T_def L_def)
  have grow: "Grow_tqb pageSize fresh q len thr = map_option
      (map_sum id (\<lambda>(old, new). new\<lparr>elementsEnqueued := elementsEnqueued old\<rparr>)) (copy_queue q q2)"
    unfolding Grow_tqb_def Let_def thr q2_def q1_def using False by (simp only: if_False)
  note q1 = AllocateBuf_ok [OF tqb_wfD(1) [OF wf] _ q1_def]
  have fits: "mbs q \<noteq> None \<Longrightarrow> mbs_fits pageSize q L T (numChannels q)"
    using assms(2) by (simp add: L_def T_def)
  have sz: "L \<le> queueLength q2" "T \<le> maxThreshold q2" "elementSize q2 = elementSize q"
      "numChannels q2 = numChannels q" "mbs q2 = None \<longleftrightarrow> mbs q = None" "baseOffset q2 = baseOffset q"
      "chanOffset q2 = chanOffset q"
    using q1(4,5) [OF fits] by (simp_all add: q2_def) (simp_all add: q1_def)
  have free: "Count_tqb q \<le> Freespace_tqb q2"
    using Count_le [OF wf] q1(2) [OF fits] sz(1) by (simp add: Freespace_tqb_def q2_def L_def)
  obtain old' new' where cp: "copy_queue q q2 = Some (Inr (old', new'))" "tqb_inv new'"
      "Count_tqb new' = Count_tqb q2 + Count_tqb q"
      "\<forall>c<numChannels q2. contents_tqb new' c = contents_tqb q2 c @ contents_tqb q c"
      "same_sizes new' q2" "elementsEnqueued old' = elementsEnqueued q"
      "elementsDequeued new' = elementsDequeued q2"
    using copy_queue_ok [OF assms(1), of q2] q1(1) [OF fits] sz free by (auto simp: q2_def T_def)
  show ?thesis
    using cp sz q1(2,3) [OF fits] grow
    by (auto simp: same_sizes_def q2_def L_def T_def)
qed

lemma pointer_in_block:
  assumes "tqb_wf q" and "mbs q = None \<Longrightarrow> base q = 0" and "c < numChannels q" and "thresh \<le> maxThreshold q"
    and "h < 2 * queueLength q"
  shows "channel_addr q c + (h * elementSize q) mod ring_bytes q + thresh * elementSize q \<le> block_size q"
proof -
  let ?R = "ring_bytes q + mirror_bytes q"
  have win: "(h * elementSize q) mod ring_bytes q + thresh * elementSize q \<le> ?R"
    using window_fits [OF assms(1,4)] by simp
  show ?thesis
  proof (cases "mbs q")
    case None
    have "channelStride q = queueLength q + maxThreshold q - 1"
      using tqb_wfD(8) [OF assms(1)] None by (simp add: layout_ok_def)
    then have R: "channelStride q * elementSize q = ?R" 
      using ring_mirror_bytes tqb_wfD(2) [OF assms(1)] by simp
    have "channel_addr q c + ?R = (c + 1) * ?R"
      using R assms(2) [OF None] by (simp add: channel_addr_def mult.assoc)
    also have "\<dots> \<le> numChannels q * ?R" using assms(3) by (intro mult_le_mono1) simp
    also have "\<dots> = block_size q" using R by (simp add: block_size_def None mult.commute mult.left_commute)
    finally show ?thesis using win by simp
  next
    case (Some mb)
    let ?S = "bufferSize mb + mirrorSize mb" and ?o = "chanOffset q * elementSize q"
    have lay: "channelStride q * elementSize q = ?S + ?o" "numBuffers mb = numChannels q"
        "base q + (numChannels q - 1) * ?o + ?R \<le> ?S"
      using tqb_wfD(8) [OF assms(1)] Some by (auto simp: layout_ok_def)
    have "c * ?o \<le> (numChannels q - 1) * ?o" using assms(3) by (intro mult_le_mono1) simp
    moreover have "channel_addr q c = base q + c * ?S + c * ?o"
      by (simp add: channel_addr_def mult.assoc lay(1) add_mult_distrib2)
    ultimately have "channel_addr q c + ?R \<le> c * ?S + ?S" using lay(3) by linarith
    also have "\<dots> = (c + 1) * ?S" by simp
    also have "\<dots> \<le> numChannels q * ?S" using assms(3) by (intro mult_le_mono1) simp
    also have "\<dots> = block_size q" by (simp add: block_size_def Some lay(2) mult.commute)
    finally show ?thesis using win by linarith
  qed
qed

end
