(* ===== verification/TQStream.thy ===== *)
theory TQStream
  imports TQBase Fifo
begin

text \<open>
  \<open>ThresholdQueueBase\<close> as a provider of the \<open>fifo_queue\<close> contract, and its properties: the byte
  stream on every channel, pointers inside the allocated block, growth, construction.
\<close>

section \<open>The queue as a byte stream\<close>

text \<open>
  One round of the pointer protocol on each side: a producer fills \<open>n\<close> elements of every channel
  and enqueues them; a consumer copies \<open>n\<close> elements of every channel out and dequeues them.
\<close>

definition put_tqb :: "tqb put" where
  "put_tqb q n data =
    (if GetRawEnqueuePtr_tqb q n 0 \<noteq> None \<and> (\<forall>c\<in>set [0..<numChannels q]. length (data c) = n * elementSize q)
     then Some (Enqueue_tqb (fill_tqb q n data) n) else None)"

definition get_tqb :: "tqb get" where
  "get_tqb q n =
    (if GetRawDequeuePtr_tqb q n 0 \<noteq> None
     then Some (Dequeue_tqb q n, \<lambda>c. case GetRawDequeuePtr_tqb q n c of
                  None \<Rightarrow> [] | Some p \<Rightarrow> load_tqb q p (n * elementSize q))
     else None)"

definition grow_tqb :: "nat \<Rightarrow> byte mem \<Rightarrow> tqb grow" where
  "grow_tqb pageSize fresh q l t =
     (case Grow_tqb pageSize fresh q l t of Some (Inr q') \<Rightarrow> Some q' | _ \<Rightarrow> None)"

text \<open>
  Queues that can grow to any size: in memory from \<open>malloc\<close>, or in a \<open>MirrorBufferSet\<close> without
  offsets whose pages hold a whole number of elements.
\<close>

definition growable :: "nat \<Rightarrow> tqb \<Rightarrow> bool" where
  "growable pageSize q \<longleftrightarrow> tqb_inv q \<and> (mbs q \<noteq> None \<longrightarrow>
     0 < pageSize \<and> elementSize q dvd pageSize \<and> baseOffset q = 0 \<and> chanOffset q = 0)"

text \<open>A small two-channel configuration the witnesses use.\<close>

definition demo_attr :: "bool \<Rightarrow> ThresholdQueueAttr" where
  "demo_attr useMBS = \<lparr>attr_queueLength = 3, attr_maxThreshold = 2, attr_numChannels = 2,
     attr_useMBS = useMBS, attr_chanOffset = 0, attr_baseOffset = 0\<rparr>"

lemma put_tqb_Some:
  assumes "tqb_inv q" and "put_tqb q n d = Some q'"
  shows "tqb_inv q'" and "Count_tqb q' = Count_tqb q + n" and "same_sizes q' q"
    and "c < numChannels q \<Longrightarrow> contents_tqb q' c = contents_tqb q c @ d c"
    and "head q' = head q" and "elementsDequeued q' = elementsDequeued q"
    and "elementsEnqueued q' = u64 (elementsEnqueued q + n)"
proof -
  have wf: "tqb_wf q" using assms(1) by (simp add: tqb_inv_def)
  have q': "q' = Enqueue_tqb (fill_tqb q n d) n"
    and len: "\<And>c. c < numChannels q \<Longrightarrow> length (d c) = n * elementSize q"
    and n: "n \<le> Freespace_tqb q" "n \<le> maxThreshold q"
    using assms(2) by (auto simp: put_tqb_def GetRawEnqueuePtr_tqb_def split: if_splits)
  obtain m where m: "fill_tqb q n d = q\<lparr>memory := m\<rparr>" using fill_tqb_eq [OF wf n] by blast
  note ok = fill_enqueue_ok [OF assms(1) n order.refl, of d]
  show "tqb_inv q'" "Count_tqb q' = Count_tqb q + n"
    "c < numChannels q \<Longrightarrow> contents_tqb q' c = contents_tqb q c @ d c"
    using ok len by (simp_all add: q')
  show "same_sizes q' q" "head q' = head q" "elementsDequeued q' = elementsDequeued q"
    "elementsEnqueued q' = u64 (elementsEnqueued q + n)"
    by (simp_all add: same_sizes_def q' m) 
qed

lemma get_tqb_Some:
  assumes "tqb_inv q" and "get_tqb q n = Some (q', out)"
  shows "tqb_inv q'" and "Count_tqb q' + n = Count_tqb q" and "same_sizes q' q"
    and "c < numChannels q \<Longrightarrow> contents_tqb q c = out c @ contents_tqb q' c"
    and "c < numChannels q \<Longrightarrow> length (out c) = n * elementSize q"
proof -
  have q': "q' = Dequeue_tqb q n" and n: "n \<le> Count_tqb q" "n \<le> maxThreshold q"
    using assms(2) by (auto simp: get_tqb_def GetRawDequeuePtr_tqb_def split: if_splits)
  note ok = dequeue_ok [OF assms(1) n(1)]
  have out: "out c = take (n * elementSize q) (contents_tqb q c)" if "c < numChannels q" for c
  proof -
    obtain p where p: "GetRawDequeuePtr_tqb q n c = Some p"
      using n by (simp add: GetRawDequeuePtr_tqb_def)
    with assms(2) load_contents [OF assms(1) that p] show ?thesis
      by (auto simp: get_tqb_def split: if_splits)
  qed
  show "tqb_inv q'" "Count_tqb q' + n = Count_tqb q" using ok n(1) by (simp_all add: q')
  show "same_sizes q' q" by (simp add: same_sizes_def q' Dequeue_tqb_def)
  show "contents_tqb q c = out c @ contents_tqb q' c" if "c < numChannels q"
    using ok(3) [of c] out [OF that] by (simp add: q')
  show "length (out c) = n * elementSize q" if "c < numChannels q"
    using out [OF that] n(1) by (simp add: contents_tqb_def)
qed

lemma growable_fits:
  "growable pageSize q \<Longrightarrow> mbs q \<noteq> None \<Longrightarrow> mbs_fits pageSize q l t (numChannels q)"
  by (auto simp: growable_def mbs_fits_def)

lemma same_sizes_growable: "same_sizes q' q \<Longrightarrow> tqb_inv q' \<Longrightarrow> growable p q \<Longrightarrow> growable p q'"
  by (simp add: same_sizes_def growable_def)

lemma grow_tqb_Some:
  assumes "growable pageSize q"
  shows "\<exists>q'. grow_tqb pageSize fresh q l t = Some q' \<and> growable pageSize q' \<and>
     numChannels q' = numChannels q \<and> elementSize q' = elementSize q \<and> Count_tqb q' = Count_tqb q \<and>
     Freespace_tqb q \<le> Freespace_tqb q' \<and> l \<le> Freespace_tqb q' + Count_tqb q' \<and>
     maxThreshold q \<le> maxThreshold q' \<and> t \<le> maxThreshold q' \<and>
     (\<forall>c<numChannels q. contents_tqb q' c = contents_tqb q c)"
proof -
  have inv: "tqb_inv q" using assms by (simp add: growable_def)
  obtain q' where q': "Grow_tqb pageSize fresh q l t = Some (Inr q')" "tqb_inv q'"
      "l \<le> queueLength q'" "t \<le> maxThreshold q'" "queueLength q \<le> queueLength q'"
      "maxThreshold q \<le> maxThreshold q'" "Count_tqb q' = Count_tqb q" "numChannels q' = numChannels q"
      "elementSize q' = elementSize q" "mbs q' = None \<longleftrightarrow> mbs q = None" "baseOffset q' = baseOffset q"
      "chanOffset q' = chanOffset q" "\<forall>c<numChannels q. contents_tqb q' c = contents_tqb q c"
    using Grow_ok [OF inv growable_fits [OF assms], where len = l and thr = t and fresh = fresh] by auto
  have "Count_tqb q' \<le> queueLength q'" using Count_le q'(2) by (simp add: tqb_inv_def)
  then show ?thesis
    using q' assms by (auto simp: grow_tqb_def growable_def Freespace_tqb_def)
qed

lemma tqb_fifo:
  "growing_queue (growable pageSize) numChannels elementSize contents_tqb Count_tqb Freespace_tqb maxThreshold
     put_tqb get_tqb (grow_tqb pageSize fresh)"
proof
  fix q q' :: tqb and n l t :: nat and d out :: "nat \<Rightarrow> byte list"
  assume g: "growable pageSize q"
  then have inv: "tqb_inv q" and le: "Count_tqb q \<le> queueLength q"
    by (auto simp: growable_def tqb_inv_def Count_le)
  show "put_tqb q n d \<noteq> None \<longleftrightarrow>
      n \<le> Freespace_tqb q \<and> n \<le> maxThreshold q \<and> (\<forall>c<numChannels q. length (d c) = n * elementSize q)"
    by (auto simp: put_tqb_def GetRawEnqueuePtr_tqb_def)
  show "get_tqb q n \<noteq> None \<longleftrightarrow> n \<le> Count_tqb q \<and> n \<le> maxThreshold q"
    by (auto simp: get_tqb_def GetRawDequeuePtr_tqb_def)
  show "growable pageSize q' \<and> numChannels q' = numChannels q \<and> elementSize q' = elementSize q \<and>
      Freespace_tqb q' + n = Freespace_tqb q \<and> Count_tqb q' = Count_tqb q + n \<and>
      maxThreshold q' = maxThreshold q \<and> (\<forall>c<numChannels q. contents_tqb q' c = contents_tqb q c @ d c)"
    if p: "put_tqb q n d = Some q'"
  proof -
    have "n \<le> Freespace_tqb q" using p by (simp add: put_tqb_def GetRawEnqueuePtr_tqb_def split: if_splits)
    then show ?thesis
      using put_tqb_Some [OF inv p] same_sizes_growable [OF _ _ g] le
      by (auto simp: same_sizes_def Freespace_tqb_def)
  qed
  show "growable pageSize q' \<and> numChannels q' = numChannels q \<and> elementSize q' = elementSize q \<and>
      Freespace_tqb q' = Freespace_tqb q + n \<and> Count_tqb q' + n = Count_tqb q \<and>
      maxThreshold q' = maxThreshold q \<and>
      (\<forall>c<numChannels q. contents_tqb q c = out c @ contents_tqb q' c \<and> length (out c) = n * elementSize q)"
    if p: "get_tqb q n = Some (q', out)"
    using get_tqb_Some [OF inv p] same_sizes_growable [OF _ _ g] le
    by (auto simp: same_sizes_def Freespace_tqb_def)
  show "\<exists>q'. grow_tqb pageSize fresh q l t = Some q' \<and> growable pageSize q' \<and>
     numChannels q' = numChannels q \<and> elementSize q' = elementSize q \<and> Count_tqb q' = Count_tqb q \<and>
     Freespace_tqb q \<le> Freespace_tqb q' \<and> maxThreshold q \<le> maxThreshold q' \<and>
     (\<forall>c<numChannels q. contents_tqb q' c = contents_tqb q c)"
    using grow_tqb_Some [OF g, of fresh l t] by auto
  show "l \<le> Freespace_tqb q' + Count_tqb q' \<and> t \<le> maxThreshold q'"
    if "grow_tqb pageSize fresh q l t = Some q'"
    using grow_tqb_Some [OF g, of fresh l t] that by auto
qed

interpretation tq: growing_queue "growable pageSize" numChannels elementSize contents_tqb Count_tqb
    Freespace_tqb maxThreshold put_tqb get_tqb "grow_tqb pageSize fresh" for pageSize fresh
  by (rule tqb_fifo)

lemma clamp_sizes_eq:
  "clamp_sizes q = q\<lparr>maxThreshold := max 1 (maxThreshold q), queueLength := max (queueLength q) (max 1 (maxThreshold q))\<rparr>"
  by (simp add: clamp_sizes_def Let_def max_def)

lemma new_tqb_attr_growable:
  assumes "0 < es" and "attr_useMBS a \<Longrightarrow> 0 < pageSize \<and> es dvd pageSize \<and> attr_baseOffset a = 0 \<and> attr_chanOffset a = 0"
  shows "growable pageSize (new_tqb_attr pageSize fresh es a)"
proof -
  show ?thesis
    unfolding growable_def new_tqb_attr_def Let_def clamp_sizes_eq
    using assms by (auto simp: tqb_init_def Reset_tqb_def mbs_fits_def intro!: AllocateBuf_ok(1) [OF _ _ refl])
qed

lemma demo_growable: "growable 8 (new_tqb_attr 8 fresh 2 (demo_attr b))"
  by (rule new_tqb_attr_growable) (simp_all add: demo_attr_def)

lemma demo_sizes:
  "elementSize (new_tqb_attr 8 fresh 2 (demo_attr b)) = 2" "numChannels (new_tqb_attr 8 fresh 2 (demo_attr b)) = 2"
  "Count_tqb (new_tqb_attr 8 fresh 2 (demo_attr b)) = 0"
  "Freespace_tqb (new_tqb_attr 8 fresh 2 (demo_attr b)) = (if b then 4 else 3)"
  "maxThreshold (new_tqb_attr 8 fresh 2 (demo_attr b)) = (if b then 4 else 2)"
  by (simp_all add: new_tqb_attr_def demo_attr_def Let_def tqb_init_def clamp_sizes_def Reset_tqb_def
      AllocateBuf_def Count_tqb_def Freespace_tqb_def MirrorBufferSet_def round_up_def)

text \<open>
  With a \<open>MirrorBufferSet\<close> whose page size is no multiple of the element size the mapping repeats
  after \<open>bufferSize\<close> bytes and the queue wraps after \<open>queueLength * elementSize\<close> bytes, which is
  less: an element that is written across the end of the ring is read back from another place.
\<close>

lemma mbs_element_size_mismatch:
  defines "q0 \<equiv> new_tqb 4 (\<lambda>_. 0) 3 2 2 1"
  defines "q1 \<equiv> Dequeue_tqb (Enqueue_tqb (store_tqb q0 0 [1, 2, 3]) 1) 1"
  defines "q2 \<equiv> Enqueue_tqb (store_tqb q1 3 [4, 5, 6, 7, 8, 9]) 2"
  shows "GetRawEnqueuePtr_tqb q1 2 0 = Some 3" and "Count_tqb q2 = 2"
    and "GetRawDequeuePtr_tqb (Dequeue_tqb q2 1) 1 0 = Some 0"
    and "load_tqb (Dequeue_tqb q2 1) 0 3 = [9, 2, 3]"
proof -
  let ?m = "(\<lambda>_. 0)(0 := 1, 1 := 2, 2 := 3) :: byte mem"
  have q0: "q0 = \<lparr>elementSize = 3, head = 0, tail = 0, queueLength = 2, maxThreshold = 2, numChannels = 1,
      channelStride = 3, chanOffset = 0, baseOffset = 0, elementsEnqueued = 0, elementsDequeued = 0, base = 0,
      mbs = Some \<lparr>bufferSize = 8, mirrorSize = 4, numBuffers = 1\<rparr>, memory = \<lambda>_. 0\<rparr>"
    by (simp add: q0_def new_tqb_def tqb_init_def clamp_sizes_eq Reset_tqb_def AllocateBuf_def
        MirrorBufferSet_def round_up_def Let_def)
  have q1: "q1 = q0\<lparr>head := 1, tail := 1, elementsEnqueued := 1, elementsDequeued := 1, memory := ?m\<rparr>"
    by (simp add: q1_def q0 store_tqb_def Enqueue_tqb_def Dequeue_tqb_def translate_def file_offset_def u64_def
        Let_def numeral_2_eq_2)
  then show "GetRawEnqueuePtr_tqb q1 2 0 = Some 3"
    by (simp add: q0 GetRawEnqueuePtr_tqb_def Freespace_tqb_def Count_tqb_def)
  have q2: "q2 = q1\<lparr>tail := 3, elementsEnqueued := 3,
      memory := ?m(3 := 4, 4 := 5, 5 := 6, 6 := 7, 7 := 8, 0 := 9)\<rparr>"
    by (simp add: q2_def q1 q0 store_tqb_def Enqueue_tqb_def translate_def file_offset_def u64_def Let_def)
  then show "Count_tqb q2 = 2" by (simp add: q1 q0 Count_tqb_def)
  show "GetRawDequeuePtr_tqb (Dequeue_tqb q2 1) 1 0 = Some 0"
    by (simp add: q2 q1 q0 Dequeue_tqb_def GetRawDequeuePtr_tqb_def Count_tqb_def)
  show "load_tqb (Dequeue_tqb q2 1) 0 3 = [9, 2, 3]"
    by (simp add: q2 q1 q0 Dequeue_tqb_def load_tqb_def read_block_def translate_def file_offset_def
        numeral_3_eq_3 Let_def)
qed

section \<open>Properties\<close>

text \<open>C10: a \<open>ThresholdQueueBase\<close>, in \<open>malloc\<close> memory with copied mirrors or in a
  \<open>MirrorBufferSet\<close>, is a lossless first-in first-out byte stream on every channel: for every
  sequence of enqueues, dequeues and growths that fits the element counts the calls return
  pointers and, on each channel, what was queued followed by what was sent is what was received
  followed by what is still queued.\<close>

theorem tqb_stream:
  assumes "growable pageSize q"
    and "admissible (numChannels q) (elementSize q) ops (Count_tqb q) (Freespace_tqb q) (maxThreshold q)"
  shows "\<exists>q' out. run_fifo put_tqb get_tqb (grow_tqb pageSize fresh) ops q = Some (q', out) \<and>
    growable pageSize q' \<and> numChannels q' = numChannels q \<and>
    (\<forall>c<numChannels q. contents_tqb q c @ sent ops c = out c @ contents_tqb q' c)"
  using tq.run_admissible [OF assms] tq.run_lossless [OF assms(1)] by fastforce

theorem tqb_stream_witness:
  "\<exists>q' out. run_fifo put_tqb get_tqb (grow_tqb 8 (\<lambda>_. 0))
       [Put 2 (\<lambda>c. [1, 2, 3, 4]), Get 1, GrowTo 5 3, Put 2 (\<lambda>c. [5, 6, 7, 8]), Get 3]
       (new_tqb_attr 8 (\<lambda>_. 0) 2 (demo_attr True)) = Some (q', out) \<and>
     contents_tqb (new_tqb_attr 8 (\<lambda>_. 0) 2 (demo_attr True)) 1 @ [1, 2, 3, 4, 5, 6, 7, 8]
       = out 1 @ contents_tqb q' 1"
proof -
  let ?ops = "[Put 2 (\<lambda>c. [1, 2, 3, 4]), Get 1, GrowTo 5 3, Put 2 (\<lambda>c. [5, 6, 7, 8]), Get 3]"
  let ?q = "new_tqb_attr 8 (\<lambda>_. 0) 2 (demo_attr True)"
  have "admissible (numChannels ?q) (elementSize ?q) ?ops (Count_tqb ?q) (Freespace_tqb ?q) (maxThreshold ?q)"
    by (simp add: demo_sizes)
  note run = tqb_stream [OF demo_growable this, where fresh = "\<lambda>_. 0"]
  have "sent ?ops 1 = [1, 2, 3, 4, 5, 6, 7, 8]" "1 < numChannels ?q" by (simp_all add: demo_sizes)
  with run show ?thesis by metis
qed

text \<open>C19: every pointer handed out for \<open>thresh\<close> elements of a channel of a well-formed queue is the
  start of \<open>thresh * elementSize\<close> bytes inside the block the queue allocated, for reading and for
  writing.\<close>

theorem tqb_pointers_in_block:
  assumes "tqb_inv q" and "mbs q = None \<longrightarrow> base q = 0" and "chan < numChannels q"
    and "GetRawEnqueuePtr_tqb q thresh chan = Some p \<or> GetRawDequeuePtr_tqb q thresh chan = Some p"
  shows "p + thresh * elementSize q \<le> block_size q"
proof -
  have wf: "tqb_wf q" using assms(1) by (simp add: tqb_inv_def)
  obtain h where "p = channel_addr q chan + (h * elementSize q) mod ring_bytes q" "h < 2 * queueLength q"
      "thresh \<le> maxThreshold q"
    using assms(4) enqueue_pointer [OF wf, of thresh chan] dequeue_pointer [OF wf, of thresh chan] tqb_wfD(5,6) [OF wf]
    by (auto split: if_splits)
  then show ?thesis using pointer_in_block [OF wf _ assms(3)] assms(2) by simp
qed

theorem tqb_pointers_in_block_witness:
  "let q = new_tqb_attr 8 (\<lambda>_. 0) 2 (demo_attr True)
   in \<exists>p. GetRawEnqueuePtr_tqb q 2 1 = Some p \<and> p + 2 * elementSize q \<le> block_size q"
proof -
  let ?q = "new_tqb_attr 8 (\<lambda>_. 0) 2 (demo_attr True)"
  have "tqb_inv ?q" using demo_growable by (simp add: growable_def)
  moreover obtain p where "GetRawEnqueuePtr_tqb ?q 2 1 = Some p"
    by (simp add: GetRawEnqueuePtr_tqb_def demo_sizes)
  moreover have "mbs ?q = None \<longrightarrow> base ?q = 0"
    by (simp add: new_tqb_attr_def demo_attr_def Let_def)
  ultimately show ?thesis
    using tqb_pointers_in_block [of ?q 1 2 p] by (auto simp: demo_sizes)
qed

text \<open>\<open>Grow\<close> on a queue that holds data returns (its copy loop ends and no assertion fails) a queue
  of at least the requested length and threshold, never a smaller one, with the same bytes queued
  on every channel and the same enqueue and dequeue totals.\<close>

theorem tqb_grow_keeps_contents:
  assumes "tqb_inv q"
    and "mbs q \<noteq> None \<longrightarrow> mbs_fits pageSize q (max len (queueLength q)) (max thr (maxThreshold q)) (numChannels q)"
  shows "\<exists>q'. Grow_tqb pageSize fresh q len thr = Some (Inr q') \<and> tqb_inv q' \<and>
     max len (queueLength q) \<le> queueLength q' \<and> max thr (maxThreshold q) \<le> maxThreshold q' \<and>
     Count_tqb q' = Count_tqb q \<and> (\<forall>c<numChannels q. contents_tqb q' c = contents_tqb q c) \<and>
     elementsEnqueued q' = elementsEnqueued q \<and> elementsDequeued q' = elementsDequeued q"
  using Grow_ok [OF assms(1), of pageSize len thr fresh] assms(2) by auto



end
