(* ===== verification/CPNQueue.thy ===== *)
theory CPNQueue
  imports TQStream
begin

text \<open>
  The local queues of a process network: \<open>CPN::QueueBase\<close> (libraries/CPN/QueueBase.cc) as a monitor
  over \<open>CPN::ThresholdQueue\<close> (libraries/CPN/ThresholdQueue.cc), which keeps its bytes in a
  \<open>ThresholdQueueBase\<close> with elements of one byte and can grow while the writer or the reader holds
  a pointer into it: the buffer the pointer points to is then kept as \<open>oldqueue\<close> until the pointer
  is given back.

  An operation that would wait on the condition variable returns \<open>Blocks\<close>; the state then shows
  what it waits for (\<open>readrequest\<close>, \<open>writerequest\<close>), and resuming it runs the same loop again. The
  kernel's answers (\<open>CheckTerminated\<close>, \<open>GrowQueueMaxThreshold\<close>), the page size and the contents of
  fresh memory are in \<open>cpn_env\<close>. Requests and lengths are natural numbers; the sums passed to
  \<open>UnlockedGrow\<close> wrap at 32 bits.
\<close>

section \<open>State\<close>

record cpn_env =
  pageSize :: nat
  fresh :: "byte mem"
  GrowQueueMaxThreshold :: bool
  terminated :: bool

record cpnq =
  readerkey :: nat
  writerkey :: nat
  readshutdown :: bool
  writeshutdown :: bool
  readrequest :: nat
  writerequest :: nat
  enqueuethresh :: nat
  dequeuethresh :: nat
  indequeue :: bool
  inenqueue :: bool
  queue :: tqb
  oldqueue :: "tqb option"
  enqueueUseOld :: bool
  dequeueUseOld :: bool

definition new_ThresholdQueue :: "cpn_env \<Rightarrow> nat \<Rightarrow> nat \<Rightarrow> nat \<Rightarrow> nat \<Rightarrow> nat \<Rightarrow> bool \<Rightarrow> cpnq" where
  "new_ThresholdQueue env rkey wkey len maxThresh numChans hintThreshold =
     \<lparr>readerkey = rkey, writerkey = wkey, readshutdown = False, writeshutdown = False, readrequest = 0,
      writerequest = 0, enqueuethresh = 0, dequeuethresh = 0, indequeue = False, inenqueue = False,
      queue = new_tqb_attr (pageSize env) (fresh env) 1
        \<lparr>attr_queueLength = len, attr_maxThreshold = maxThresh, attr_numChannels = numChans,
         attr_useMBS = hintThreshold, attr_chanOffset = 0, attr_baseOffset = 0\<rparr>,
      oldqueue = None, enqueueUseOld = False, dequeueUseOld = False\<rparr>"

section \<open>ThresholdQueue\<close>

text \<open>\<open>TQImpl::Grow\<close>: the duplicate of the old queue (when asked for) and the grown queue.\<close>

definition TQImpl_Grow ::
  "cpn_env \<Rightarrow> tqb \<Rightarrow> nat \<Rightarrow> nat \<Rightarrow> bool \<Rightarrow> (cpn_error + tqb option \<times> tqb) option" where
  "TQImpl_Grow env q queueLen0 maxThresh0 copy =
    (if queueLen0 \<le> queueLength q \<and> maxThresh0 \<le> maxThreshold q then Some (Inr (None, q))
     else
       let maxThresh = (if maxThresh0 \<le> maxThreshold q then maxThreshold q else maxThresh0);
           queueLen = (if queueLen0 \<le> queueLength q then queueLength q else queueLen0);
           q1 = AllocateBuf (pageSize env) (fresh env) q queueLen maxThresh (numChannels q) (mbs q \<noteq> None);
           q2 = q1\<lparr>elementsDequeued := elementsDequeued q\<rparr>
       in map_option (map_sum id (\<lambda>(old, new).
              (if copy then Some (old\<lparr>head := head q, tail := tail q\<rparr>) else None,
               new\<lparr>elementsEnqueued := elementsEnqueued old\<rparr>)))
            (copy_queue q q2))"

definition InternalGetRawEnqueuePtr :: "cpnq \<Rightarrow> nat \<Rightarrow> nat \<Rightarrow> cpn_error + nat option" where
  "InternalGetRawEnqueuePtr q thresh chan =
    (if enqueueUseOld q then
       ASSERT (inenqueue q)
         (case oldqueue q of
            None \<Rightarrow> Inl AssertException
          | Some old \<Rightarrow>
             (case GetRawEnqueuePtr_tqb old thresh chan of None \<Rightarrow> Inl AssertException | Some p \<Rightarrow> Inr (Some p)))
     else Inr (GetRawEnqueuePtr_tqb (queue q) thresh chan))"

definition InternalEnqueue :: "cpnq \<Rightarrow> nat \<Rightarrow> (cpn_error + cpnq) option" where
  "InternalEnqueue q count =
    (if enqueueUseOld q then
       (case oldqueue q of
          None \<Rightarrow> Some (Inl AssertException)
        | Some old \<Rightarrow>
           let old1 = Enqueue_tqb (Dequeue_tqb old (Count_tqb old)) count
           in map_option (map_sum id (\<lambda>(_, new). q\<lparr>queue := new, enqueueUseOld := False, oldqueue := None\<rparr>))
                (copy_queue old1 (queue q)))
     else Some (Inr (q\<lparr>queue := Enqueue_tqb (queue q) count\<rparr>)))"

definition InternalGetRawDequeuePtr :: "cpnq \<Rightarrow> nat \<Rightarrow> nat \<Rightarrow> cpn_error + nat option" where
  "InternalGetRawDequeuePtr q thresh chan =
    (if dequeueUseOld q then
       ASSERT (indequeue q)
         (case oldqueue q of
            None \<Rightarrow> Inl AssertException
          | Some old \<Rightarrow>
             (case GetRawDequeuePtr_tqb old thresh chan of None \<Rightarrow> Inl AssertException | Some p \<Rightarrow> Inr (Some p)))
     else Inr (GetRawDequeuePtr_tqb (queue q) thresh chan))"

definition InternalDequeue :: "cpnq \<Rightarrow> nat \<Rightarrow> cpnq" where
  "InternalDequeue q count =
    (let q1 = (if dequeueUseOld q then q\<lparr>dequeueUseOld := False, oldqueue := None\<rparr> else q)
     in q1\<lparr>queue := Dequeue_tqb (queue q1) count\<rparr>)"

definition UnlockedGrow :: "cpn_env \<Rightarrow> cpnq \<Rightarrow> nat \<Rightarrow> nat \<Rightarrow> (cpn_error + cpnq) option" where
  "UnlockedGrow env q queueLen maxThresh =
    (if queueLen \<le> queueLength (queue q) \<and> maxThresh \<le> maxThreshold (queue q) then Some (Inr q)
     else if inenqueue q \<and> indequeue q then Some (Inl AssertException)
     else if oldqueue q \<noteq> None then
       (if enqueueUseOld q = inenqueue q \<and> dequeueUseOld q = indequeue q
        then map_option (map_sum id (\<lambda>(_, new). q\<lparr>queue := new\<rparr>))
               (TQImpl_Grow env (queue q) queueLen maxThresh False)
        else Some (Inl AssertException))
     else if \<not> inenqueue q \<and> \<not> indequeue q then
       map_option (map_sum id (\<lambda>(_, new). q\<lparr>queue := new\<rparr>))
         (TQImpl_Grow env (queue q) queueLen maxThresh False)
     else
       map_option (map_sum id (\<lambda>(old, new).
           let q1 = q\<lparr>enqueueUseOld := inenqueue q, dequeueUseOld := indequeue q, queue := new, oldqueue := old\<rparr>
           in if old = None then q1\<lparr>enqueueUseOld := False\<rparr> else q1))
         (TQImpl_Grow env (queue q) queueLen maxThresh True))"

section \<open>QueueBase\<close>

text \<open>\<open>kernel->CheckTerminated()\<close> at the start of both predicates is a throw of its own.\<close>

definition ReadBlocked :: "cpnq \<Rightarrow> bool" where
  "ReadBlocked q \<longleftrightarrow> Count_tqb (queue q) < readrequest q \<and> \<not> (readshutdown q \<or> writeshutdown q)"

definition WriteBlocked :: "cpnq \<Rightarrow> bool" where
  "WriteBlocked q \<longleftrightarrow> Freespace_tqb (queue q) < writerequest q \<and> \<not> (readshutdown q \<or> writeshutdown q)"

text \<open>
  The loop of \<open>GetRawDequeuePtr\<close>. \<open>Returned None\<close> is the null pointer of a reader whose writer has
  shut down; \<open>Blocks\<close> is reached when \<open>WaitForData\<close> waits. When \<open>WaitForData\<close> finds nothing to wait
  for, the loop goes round again; \<open>None\<close> is a loop that never ends.
\<close>

partial_function (option) GetRawDequeuePtr_loop ::
  "cpn_env \<Rightarrow> nat \<Rightarrow> nat \<Rightarrow> cpnq \<Rightarrow> (nat option outcome \<times> cpnq) option" where
  "GetRawDequeuePtr_loop env thresh chan q =
    (case InternalGetRawDequeuePtr q thresh chan of
       Inl e \<Rightarrow> Some (Throws e, q)
     | Inr ptr \<Rightarrow>
        if ptr \<noteq> None \<or> writeshutdown q
        then Some (Returned ptr, if ptr \<noteq> None then q\<lparr>indequeue := True\<rparr> else q)
        else if readshutdown q then Some (Throws (BrokenQueueException (readerkey q)), q)
        else if thresh > maxThreshold (queue q) \<and> GrowQueueMaxThreshold env then
          (case UnlockedGrow env q (u32 (2 * thresh)) thresh of
             None \<Rightarrow> None
           | Some (Inl e) \<Rightarrow> Some (Throws e, q)
           | Some (Inr q') \<Rightarrow> GetRawDequeuePtr_loop env thresh chan q')
        else if terminated env then Some (Throws ShutdownException, q)
        else if WriteBlocked q \<and> GrowQueueMaxThreshold env then
          (case UnlockedGrow env q (u32 (writerequest q + thresh)) thresh of
             None \<Rightarrow> None
           | Some (Inl e) \<Rightarrow> Some (Throws e, q)
           | Some (Inr q') \<Rightarrow> GetRawDequeuePtr_loop env thresh chan q')
        else if ReadBlocked (q\<lparr>readrequest := thresh\<rparr>) then Some (Blocks, q\<lparr>readrequest := thresh\<rparr>)
        else GetRawDequeuePtr_loop env thresh chan (q\<lparr>readrequest := 0\<rparr>))"

definition GetRawDequeuePtr_cpn :: "cpn_env \<Rightarrow> cpnq \<Rightarrow> nat \<Rightarrow> nat \<Rightarrow> (nat option outcome \<times> cpnq) option" where
  "GetRawDequeuePtr_cpn env q thresh chan =
    (if terminated env then Some (Throws ShutdownException, q)
     else if indequeue q then
       (if dequeuethresh q \<ge> thresh then GetRawDequeuePtr_loop env thresh chan q
        else Some (Throws AssertException, q))
     else GetRawDequeuePtr_loop env thresh chan (q\<lparr>dequeuethresh := thresh\<rparr>))"

text \<open>The waiting reader wakes up (\<open>readrequest = 0\<close>) and runs the loop again.\<close>

definition resume_read :: "cpn_env \<Rightarrow> cpnq \<Rightarrow> nat \<Rightarrow> nat \<Rightarrow> (nat option outcome \<times> cpnq) option" where
  "resume_read env q thresh chan =
    (if terminated env then Some (Throws ShutdownException, q)
     else if ReadBlocked q then Some (Blocks, q)
     else GetRawDequeuePtr_loop env thresh chan (q\<lparr>readrequest := 0\<rparr>))"

definition Dequeue_cpn :: "cpnq \<Rightarrow> nat \<Rightarrow> cpn_error + cpnq" where
  "Dequeue_cpn q count =
    (let q1 = q\<lparr>dequeuethresh := 0, indequeue := False\<rparr>
     in if readshutdown q1 then Inl (BrokenQueueException (readerkey q1))
        else Inr (InternalDequeue q1 count))"

partial_function (option) GetRawEnqueuePtr_loop ::
  "cpn_env \<Rightarrow> nat \<Rightarrow> nat \<Rightarrow> bool \<Rightarrow> cpnq \<Rightarrow> (nat outcome \<times> cpnq) option" where
  "GetRawEnqueuePtr_loop env thresh chan grown q =
    (case InternalGetRawEnqueuePtr q thresh chan of
       Inl e \<Rightarrow> Some (Throws e, q)
     | Inr (Some ptr) \<Rightarrow> Some (Returned ptr, q\<lparr>inenqueue := True\<rparr>)
     | Inr None \<Rightarrow>
        if readshutdown q \<or> writeshutdown q then Some (Throws (BrokenQueueException (writerkey q)), q)
        else if thresh > maxThreshold (queue q) \<and> GrowQueueMaxThreshold env then
          (case UnlockedGrow env q (u32 (2 * thresh)) thresh of
             None \<Rightarrow> None
           | Some (Inl e) \<Rightarrow> Some (Throws e, q)
           | Some (Inr q') \<Rightarrow> GetRawEnqueuePtr_loop env thresh chan grown q')
        else if \<not> grown \<and> terminated env then Some (Throws ShutdownException, q)
        else if \<not> grown \<and> ReadBlocked q \<and> GrowQueueMaxThreshold env then
          (case UnlockedGrow env q (u32 (readrequest q + thresh)) thresh of
             None \<Rightarrow> None
           | Some (Inl e) \<Rightarrow> Some (Throws e, q)
           | Some (Inr q') \<Rightarrow> GetRawEnqueuePtr_loop env thresh chan True q')
        else if terminated env then Some (Throws ShutdownException, q\<lparr>writerequest := thresh\<rparr>)
        else if WriteBlocked (q\<lparr>writerequest := thresh\<rparr>) then Some (Blocks, q\<lparr>writerequest := thresh\<rparr>)
        else GetRawEnqueuePtr_loop env thresh chan grown (q\<lparr>writerequest := 0\<rparr>))"

definition GetRawEnqueuePtr_cpn :: "cpn_env \<Rightarrow> cpnq \<Rightarrow> nat \<Rightarrow> nat \<Rightarrow> (nat outcome \<times> cpnq) option" where
  "GetRawEnqueuePtr_cpn env q thresh chan =
    (if terminated env then Some (Throws ShutdownException, q)
     else if inenqueue q then
       (if enqueuethresh q \<ge> thresh then GetRawEnqueuePtr_loop env thresh chan False q
        else Some (Throws AssertException, q))
     else GetRawEnqueuePtr_loop env thresh chan False (q\<lparr>enqueuethresh := thresh\<rparr>))"

definition resume_write :: "cpn_env \<Rightarrow> cpnq \<Rightarrow> nat \<Rightarrow> nat \<Rightarrow> bool \<Rightarrow> (nat outcome \<times> cpnq) option" where
  "resume_write env q thresh chan grown =
    (if terminated env then Some (Throws ShutdownException, q)
     else if WriteBlocked q then Some (Blocks, q)
     else GetRawEnqueuePtr_loop env thresh chan grown (q\<lparr>writerequest := 0\<rparr>))"

definition Enqueue_cpn :: "cpnq \<Rightarrow> nat \<Rightarrow> (cpn_error + cpnq) option" where
  "Enqueue_cpn q count =
    (let q1 = q\<lparr>enqueuethresh := 0, inenqueue := False\<rparr>
     in if writeshutdown q1 then Some (Inl (BrokenQueueException (writerkey q1)))
        else InternalEnqueue q1 count)"

definition ShutdownReader :: "cpnq \<Rightarrow> cpnq" where
  "ShutdownReader q = q\<lparr>readshutdown := True\<rparr>"

definition ShutdownWriter :: "cpnq \<Rightarrow> cpnq" where
  "ShutdownWriter q = q\<lparr>writeshutdown := True\<rparr>"

text \<open>\<open>Detect\<close>, with the grow size of the default context.\<close>

definition CalculateGrowSize :: "nat \<Rightarrow> nat \<Rightarrow> nat" where
  "CalculateGrowSize currentsize request = u32 (currentsize + request)"

definition Detect_cpn :: "cpn_env \<Rightarrow> cpnq \<Rightarrow> (cpn_error + cpnq) option" where
  "Detect_cpn env q =
     UnlockedGrow env q (CalculateGrowSize (Count_tqb (queue q)) (writerequest q)) (writerequest q)"

section \<open>What the pointers see\<close>

text \<open>The buffer the writer's and the reader's pointer lie in, and the start of the block.\<close>

definition enq_buffer :: "cpnq \<Rightarrow> tqb" where
  "enq_buffer q = (if enqueueUseOld q then (case oldqueue q of Some old \<Rightarrow> old | None \<Rightarrow> queue q) else queue q)"

definition deq_buffer :: "cpnq \<Rightarrow> tqb" where
  "deq_buffer q = (if dequeueUseOld q then (case oldqueue q of Some old \<Rightarrow> old | None \<Rightarrow> queue q) else queue q)"

definition enq_addr :: "tqb \<Rightarrow> nat \<Rightarrow> nat" where
  "enq_addr t c = channel_addr t c + (tail t * elementSize t) mod ring_bytes t"

definition enq_window :: "cpnq \<Rightarrow> nat \<Rightarrow> nat \<Rightarrow> byte list" where
  "enq_window q c n = load_tqb (enq_buffer q) (enq_addr (enq_buffer q) c) n"

definition deq_window :: "cpnq \<Rightarrow> nat \<Rightarrow> nat \<Rightarrow> byte list" where
  "deq_window q c n =
    (case GetRawDequeuePtr_tqb (deq_buffer q) n c of None \<Rightarrow> [] | Some p \<Rightarrow> load_tqb (deq_buffer q) p n)"

text \<open>The writer stores a block through its pointer for channel \<open>c\<close>.\<close>

definition client_store :: "cpnq \<Rightarrow> nat \<Rightarrow> byte list \<Rightarrow> cpnq" where
  "client_store q c bs =
    (let b = store_tqb (enq_buffer q) (enq_addr (enq_buffer q) c) bs
     in if enqueueUseOld q then q\<lparr>oldqueue := Some b\<rparr> else q\<lparr>queue := b\<rparr>)"

definition cpn_contents :: "cpnq \<Rightarrow> nat \<Rightarrow> byte list" where
  "cpn_contents q c = contents_tqb (queue q) c"

definition cpn_inv :: "cpn_env \<Rightarrow> cpnq \<Rightarrow> bool" where
  "cpn_inv env q \<longleftrightarrow> growable (pageSize env) (queue q) \<and> elementSize (queue q) = 1 \<and>
     (inenqueue q \<longrightarrow> enqueuethresh q \<le> Freespace_tqb (queue q) \<and> enqueuethresh q \<le> maxThreshold (queue q)) \<and>
     (indequeue q \<longrightarrow> dequeuethresh q \<le> Count_tqb (queue q) \<and> dequeuethresh q \<le> maxThreshold (queue q)) \<and>
     (enqueueUseOld q \<longrightarrow> inenqueue q) \<and> (dequeueUseOld q \<longrightarrow> indequeue q) \<and>
     \<not> (enqueueUseOld q \<and> dequeueUseOld q) \<and>
     (case oldqueue q of
        None \<Rightarrow> \<not> enqueueUseOld q \<and> \<not> dequeueUseOld q
      | Some old \<Rightarrow> (enqueueUseOld q \<or> dequeueUseOld q) \<and> tqb_inv old \<and> elementSize old = 1 \<and>
          numChannels old = numChannels (queue q) \<and> maxThreshold old \<le> maxThreshold (queue q) \<and>
          (enqueueUseOld q \<longrightarrow> enqueuethresh q \<le> Freespace_tqb old \<and> enqueuethresh q \<le> maxThreshold old) \<and>
          (dequeueUseOld q \<longrightarrow> dequeuethresh q \<le> Count_tqb old \<and> dequeuethresh q \<le> maxThreshold old \<and>
             (\<forall>c<numChannels (queue q). \<exists>more. contents_tqb (queue q) c = contents_tqb old c @ more)))"

text \<open>What a call of \<open>GetRawDequeuePtr\<close> can come to.\<close>

definition read_result :: "cpnq \<Rightarrow> nat \<Rightarrow> nat option outcome \<Rightarrow> cpnq \<Rightarrow> bool" where
  "read_result q thresh r q' = (case r of
      Returned (Some p) \<Rightarrow> indequeue q' \<and> thresh \<le> Count_tqb (queue q') \<and> readrequest q' = readrequest q
    | Returned None \<Rightarrow> writeshutdown q \<and> \<not> indequeue q' \<and> readrequest q' = readrequest q
    | Throws e \<Rightarrow> readshutdown q \<and> e = BrokenQueueException (readerkey q) \<and> \<not> indequeue q' \<and>
        readrequest q' = readrequest q
    | Blocks \<Rightarrow> \<not> indequeue q' \<and> readrequest q' = thresh \<and> ReadBlocked q' \<and> \<not> WriteBlocked q')"

definition write_result :: "cpnq \<Rightarrow> nat \<Rightarrow> nat outcome \<Rightarrow> cpnq \<Rightarrow> bool" where
  "write_result q thresh r q' = (case r of
      Returned p \<Rightarrow> inenqueue q' \<and> thresh \<le> Freespace_tqb (queue q') \<and> writerequest q' = writerequest q
    | Throws e \<Rightarrow> (readshutdown q \<or> writeshutdown q) \<and> e = BrokenQueueException (writerkey q) \<and> \<not> inenqueue q' \<and>
        writerequest q' = writerequest q
    | Blocks \<Rightarrow> \<not> inenqueue q' \<and> writerequest q' = thresh \<and> WriteBlocked q' \<and> \<not> ReadBlocked q')"

text \<open>Everything but the buffers, the pointer flags and the two requests stays as it is.\<close>

definition same_user :: "cpnq \<Rightarrow> cpnq \<Rightarrow> bool" where
  "same_user q q' \<longleftrightarrow> readshutdown q' = readshutdown q \<and> writeshutdown q' = writeshutdown q \<and>
     readerkey q' = readerkey q \<and> writerkey q' = writerkey q \<and> dequeuethresh q' = dequeuethresh q \<and>
     enqueuethresh q' = enqueuethresh q \<and> Count_tqb (queue q') = Count_tqb (queue q) \<and>
     numChannels (queue q') = numChannels (queue q) \<and>
     (\<forall>c<numChannels (queue q). cpn_contents q' c = cpn_contents q c) \<and>
     (inenqueue q \<longrightarrow> inenqueue q' \<and> (\<forall>c n. enq_window q' c n = enq_window q c n))"

definition reader_ok :: "cpn_env \<Rightarrow> cpnq \<Rightarrow> nat \<Rightarrow> bool" where
  "reader_ok env q t \<longleftrightarrow> cpn_inv env q \<and> \<not> indequeue q \<and> dequeuethresh q = t \<and> \<not> terminated env \<and>
     GrowQueueMaxThreshold env \<and> writerequest q + t < 2 ^ 32"

definition writer_ok :: "cpn_env \<Rightarrow> cpnq \<Rightarrow> nat \<Rightarrow> bool" where
  "writer_ok env q t \<longleftrightarrow> cpn_inv env q \<and> \<not> inenqueue q \<and> enqueuethresh q = t \<and> \<not> terminated env \<and>
     GrowQueueMaxThreshold env \<and> readrequest q + t < 2 ^ 32"

section \<open>Reader and writer together\<close>

text \<open>
  The steps of the two threads of a queue, each under the queue's lock. A thread whose call came to
  \<open>Blocks\<close> has its request set and goes on by resuming that call; requests stay below \<open>2 ^ 31\<close>.
\<close>

datatype mon_event = Moved | Stored nat "byte list" | Enqueued nat | Dequeued nat

inductive mon_step :: "cpn_env \<Rightarrow> mon_event \<Rightarrow> cpnq \<Rightarrow> cpnq \<Rightarrow> bool" for env where
  mon_get_read: "readrequest q = 0 \<Longrightarrow> \<not> indequeue q \<Longrightarrow> 0 < t \<Longrightarrow> t < 2 ^ 31 \<Longrightarrow>
    GetRawDequeuePtr_cpn env q t c = Some (r, q') \<Longrightarrow> mon_step env Moved q q'"
| mon_resume_read: "readrequest q \<noteq> 0 \<Longrightarrow> resume_read env q (readrequest q) c = Some (r, q') \<Longrightarrow>
    mon_step env Moved q q'"
| mon_dequeue: "indequeue q \<Longrightarrow> n \<le> dequeuethresh q \<Longrightarrow> Dequeue_cpn q n = Inr q' \<Longrightarrow>
    mon_step env (Dequeued n) q q'"
| mon_get_write: "writerequest q = 0 \<Longrightarrow> \<not> inenqueue q \<Longrightarrow> 0 < t \<Longrightarrow> t < 2 ^ 31 \<Longrightarrow>
    GetRawEnqueuePtr_cpn env q t c = Some (r, q') \<Longrightarrow> mon_step env Moved q q'"
| mon_resume_write: "writerequest q \<noteq> 0 \<Longrightarrow> resume_write env q (writerequest q) c False = Some (r, q') \<Longrightarrow>
    mon_step env Moved q q'"
| mon_store: "inenqueue q \<Longrightarrow> c < numChannels (queue q) \<Longrightarrow> length bs \<le> enqueuethresh q \<Longrightarrow>
    mon_step env (Stored c bs) q (client_store q c bs)"
| mon_enqueue: "inenqueue q \<Longrightarrow> n \<le> enqueuethresh q \<Longrightarrow> Enqueue_cpn q n = Some (Inr q') \<Longrightarrow>
    mon_step env (Enqueued n) q q'"
| mon_shutdown_reader: "mon_step env Moved q (ShutdownReader q)"
| mon_shutdown_writer: "mon_step env Moved q (ShutdownWriter q)"

text \<open>
  A run of the two threads, with the bytes of channel \<open>c\<close> the writer had behind its pointer at each
  \<open>Enqueue\<close> and those the reader saw behind its pointer at each \<open>Dequeue\<close>.
\<close>

definition sent_by :: "mon_event \<Rightarrow> cpnq \<Rightarrow> nat \<Rightarrow> byte list" where
  "sent_by ev q c = (case ev of Enqueued n \<Rightarrow> enq_window q c n | _ \<Rightarrow> [])"

definition received_by :: "mon_event \<Rightarrow> cpnq \<Rightarrow> nat \<Rightarrow> byte list" where
  "received_by ev q c = (case ev of Dequeued n \<Rightarrow> deq_window q c n | _ \<Rightarrow> [])"

inductive mon_run :: "cpn_env \<Rightarrow> nat \<Rightarrow> cpnq \<Rightarrow> byte list \<Rightarrow> byte list \<Rightarrow> cpnq \<Rightarrow> bool" for env c q0 where
  mon_run_start: "mon_run env c q0 [] [] q0"
| mon_run_step: "mon_run env c q0 s r q \<Longrightarrow> mon_step env ev q q' \<Longrightarrow>
    mon_run env c q0 (s @ sent_by ev q c) (r @ received_by ev q c) q'"

definition mon_inv :: "cpn_env \<Rightarrow> cpnq \<Rightarrow> bool" where
  "mon_inv env q \<longleftrightarrow> cpn_inv env q \<and> readrequest q < 2 ^ 31 \<and> writerequest q < 2 ^ 31 \<and>
     (readrequest q \<noteq> 0 \<longrightarrow> \<not> indequeue q \<and> dequeuethresh q = readrequest q) \<and>
     (writerequest q \<noteq> 0 \<longrightarrow> \<not> inenqueue q \<and> enqueuethresh q = writerequest q) \<and>
     \<not> (ReadBlocked q \<and> WriteBlocked q)"

text \<open>A queue of four bytes.\<close>

definition demo_env :: cpn_env where
  "demo_env = \<lparr>pageSize = 8, fresh = (\<lambda>_. 0), GrowQueueMaxThreshold = True, terminated = False\<rparr>"

definition demo_q :: cpnq where
  "demo_q = new_ThresholdQueue demo_env 1 2 4 2 1 False"

section \<open>Blocks in the ring buffer\<close>

lemma write_block_same: "write_block f m a (read_block f m a n) = m"
proof (induction n arbitrary: a)
  case (Suc n)
  have "read_block f m a (Suc n) = m (f a) # read_block f m (Suc a) n"
    by (rule nth_equalityI) (auto simp: nth_Cons' )
  with Suc show ?case by simp
qed (simp add: read_block_def)

lemma fill_same:
  assumes "tqb_wf q" and "n \<le> Freespace_tqb q" and "n \<le> maxThreshold q"
  shows "fill_tqb q n (\<lambda>c. load_tqb q (enq_addr q c) (n * elementSize q)) = q"
proof -
  have "fold (\<lambda>chan q'. case GetRawEnqueuePtr_tqb q' n chan of None \<Rightarrow> q'
          | Some p \<Rightarrow> store_tqb q' p (load_tqb q (enq_addr q chan) (n * elementSize q))) [0..<N] q = q" for N
  proof (induction N)
    case (Suc N)
    have "store_tqb q (enq_addr q N) (load_tqb q (enq_addr q N) (n * elementSize q)) = q"
      by (simp add: store_tqb_def load_tqb_def write_block_same)
    with Suc show ?case
      using enqueue_pointer [OF assms(1), of n N] assms(2,3) by (simp add: enq_addr_def)
  qed simp
  then show ?thesis by (simp add: fill_tqb_def)
qed

text \<open>\<open>Enqueue\<close> appends what the window holds.\<close>

lemma Enqueue_window:
  assumes "tqb_inv q" and "n \<le> Freespace_tqb q" and "n \<le> maxThreshold q"
  shows "tqb_inv (Enqueue_tqb q n)" and "Count_tqb (Enqueue_tqb q n) = Count_tqb q + n"
    and "c < numChannels q \<Longrightarrow> contents_tqb (Enqueue_tqb q n) c
      = contents_tqb q c @ load_tqb q (enq_addr q c) (n * elementSize q)"
proof -
  have wf: "tqb_wf q" using assms(1) by (simp add: tqb_inv_def)
  let ?d = "\<lambda>c. load_tqb q (enq_addr q c) (n * elementSize q)"
  have len: "length (?d c) = n * elementSize q" for c by (simp add: load_tqb_def)
  note ok = fill_enqueue_ok [OF assms order.refl, of ?d, unfolded fill_same [OF wf assms(2,3)]]
  show "tqb_inv (Enqueue_tqb q n)" "Count_tqb (Enqueue_tqb q n) = Count_tqb q + n"
    "c < numChannels q \<Longrightarrow> contents_tqb (Enqueue_tqb q n) c = contents_tqb q c @ ?d c"
    using ok len by simp_all
qed

text \<open>Storing through the window keeps the queued bytes.\<close>

lemma store_window:
  assumes "tqb_inv q" and "c < numChannels q" and "length bs \<le> n * elementSize q"
    and "n \<le> Freespace_tqb q" and "n \<le> maxThreshold q"
  defines "q' \<equiv> store_tqb q (enq_addr q c) bs"
  shows "tqb_inv q'" and "d < numChannels q \<Longrightarrow> contents_tqb q' d = contents_tqb q d"
    and "\<exists>m. q' = q\<lparr>memory := m\<rparr>"
    and "d < numChannels q \<Longrightarrow> k \<le> length bs \<Longrightarrow>
      load_tqb q' (enq_addr q d) k = (if d = c then take k bs else load_tqb q (enq_addr q d) k)"
proof -
  have wf: "tqb_wf q" using assms(1) by (simp add: tqb_inv_def)
  let ?Q = "ring_bytes q" and ?M = "mirror_bytes q" and ?H = "head q * elementSize q"
    and ?n = "Count_tqb q * elementSize q" and ?T = "translate q"
  let ?I = "(tail q * elementSize q) mod ?Q"
  let ?m = "write_block ?T (memory q) (channel_addr q c + ?I) bs"
  have q': "q' = q\<lparr>memory := ?m\<rparr>" by (simp add: q'_def store_tqb_def enq_addr_def)
  then show "\<exists>m. q' = q\<lparr>memory := m\<rparr>" by blast
  have I: "?I = (?H + ?n) mod ?Q" using tail_position [OF wf] .
  have fits: "?I + length bs \<le> ?Q + ?M" using window_fits [OF wf assms(5), of "tail q"] assms(3) by simp
  have "(Count_tqb q + n) * elementSize q \<le> queueLength q * elementSize q"
    using assms(4) Count_le [OF wf] by (intro mult_le_mono1) (simp add: Freespace_tqb_def)
  then have room: "?n + length bs \<le> ?Q" using assms(3) by (simp add: ring_bytes_def add_mult_distrib)
  have keep: "view_tqb q' d i = view_tqb q d i"
    if "d < numChannels q" "k < ?n" "i < ?Q + ?M" "i mod ?Q = (?H + k) mod ?Q" for d k i
  proof (cases "d = c")
    case True
    have "chan_view ?T (channel_addr q c) (write_block ?T (memory q) (channel_addr q c + (?H + ?n) mod ?Q) bs) i
        = chan_view ?T (channel_addr q c) (memory q) i"
      using that fits I by (intro tqr.write_chan_keeps [OF wf assms(2) that(2) room]) auto
    with True I show ?thesis by (simp add: view_tqb_def q')
  next
    case False
    with tqr.write_other_chan [OF wf that(1) assms(2) False fits that(3), of "memory q"]
    show ?thesis by (simp add: view_tqb_def q')
  qed
  have Q: "0 < ?Q" "?M \<le> ?Q" using ring_bytes_pos mirror_bytes_le wf by auto
  have same: "ring_bytes q' = ?Q" "mirror_bytes q' = ?M" "head q' = head q" "elementSize q' = elementSize q"
      "Count_tqb q' = Count_tqb q" "numChannels q' = numChannels q" "tqb_wf q' = tqb_wf q"
    by (simp_all add: q')
  show "contents_tqb q' d = contents_tqb q d" if "d < numChannels q"
    unfolding contents_tqb_def same
    using keep [OF that] Q by (intro ring_view_cong) (simp add: trans_less_add1)
  have "mirror_ok (view_tqb q' d) ?Q ?M ?H ?n" if d: "d < numChannels q" for d
    unfolding mirror_ok_def
  proof (intro allI impI)
    fix k assume k: "k < ?n" "(?H + k) mod ?Q < ?M"
    have "view_tqb q d ((?H + k) mod ?Q + ?Q) = view_tqb q d ((?H + k) mod ?Q)"
      using assms(1) d k by (auto simp: tqb_inv_def mirror_ok_def)
    with keep [OF d k(1), of "(?H + k) mod ?Q"] keep [OF d k(1), of "(?H + k) mod ?Q + ?Q"] k(2)
    show "view_tqb q' d ((?H + k) mod ?Q + ?Q) = view_tqb q' d ((?H + k) mod ?Q)" by simp
  qed
  with wf show "tqb_inv q'" by (simp add: tqb_inv_def same)
  show "load_tqb q' (enq_addr q d) k = (if d = c then take k bs else load_tqb q (enq_addr q d) k)"
    if d: "d < numChannels q" and k: "k \<le> length bs"
  proof (rule nth_equalityI)
    fix j assume "j < length (load_tqb q' (enq_addr q d) k)"
    then have j: "j < k" by (simp add: load_tqb_def)
    have v: "load_tqb q'' (enq_addr q d) k ! j = view_tqb q'' d (?I + j)"
      if "translate q'' = ?T" "channel_addr q'' d = channel_addr q d" for q''
      using j that by (simp add: load_tqb_def enq_addr_def view_tqb_def chan_view_def add.assoc)
    have "view_tqb q' d (?I + j) = (if d = c then bs ! j else view_tqb q d (?I + j))"
    proof (cases "d = c")
      case True
      with tqr.write_chan_puts [OF wf assms(2) fits _, of j "memory q"] room j k
      show ?thesis by (simp add: view_tqb_def q')
    next
      case False
      with tqr.write_other_chan [OF wf d assms(2) False fits, of "?I + j" "memory q"] fits j k
      show ?thesis by (simp add: view_tqb_def q')
    qed
    moreover have "load_tqb q (enq_addr q d) k ! j = view_tqb q d (?I + j)" by (rule v) simp_all
    moreover have "load_tqb q' (enq_addr q d) k ! j = view_tqb q' d (?I + j)" by (rule v) (simp_all add: q')
    ultimately show "load_tqb q' (enq_addr q d) k ! j
        = (if d = c then take k bs else load_tqb q (enq_addr q d) k) ! j"
      using j by simp
  qed (use k in \<open>simp add: load_tqb_def\<close>)
qed

section \<open>Growing under outstanding pointers\<close>

lemma TQImpl_Grow_ok:
  assumes "growable (pageSize env) q"
  shows "\<exists>old new. TQImpl_Grow env q l t copy = Some (Inr (old, new)) \<and> growable (pageSize env) new \<and>
    max l (queueLength q) \<le> queueLength new \<and> max t (maxThreshold q) \<le> maxThreshold new \<and>
    Count_tqb new = Count_tqb q \<and> numChannels new = numChannels q \<and> elementSize new = elementSize q \<and>
    (\<forall>c<numChannels q. contents_tqb new c = contents_tqb q c) \<and>
    (old = None \<longleftrightarrow> \<not> copy \<or> l \<le> queueLength q \<and> t \<le> maxThreshold q) \<and>
    (\<forall>x. old = Some x \<longrightarrow> (\<exists>n. x = q\<lparr>elementsDequeued := n\<rparr>))"
proof (cases "l \<le> queueLength q \<and> t \<le> maxThreshold q")
  case True
  then have "TQImpl_Grow env q l t copy = Some (Inr (None, q))" by (simp add: TQImpl_Grow_def)
  with True assms show ?thesis by auto
next
  case False
  have inv: "tqb_inv q" using assms by (simp add: growable_def)
  then have wf: "tqb_wf q" by (simp add: tqb_inv_def)
  define L T where "L = max l (queueLength q)" and "T = max t (maxThreshold q)"
  define q1 where "q1 = AllocateBuf (pageSize env) (fresh env) q L T (numChannels q) (mbs q \<noteq> None)"
  define q2 where "q2 = q1\<lparr>elementsDequeued := elementsDequeued q\<rparr>"
  have args: "(if t \<le> maxThreshold q then maxThreshold q else t) = T"
      "(if l \<le> queueLength q then queueLength q else l) = L"
    by (auto simp: T_def L_def)
  have fits: "mbs q \<noteq> None \<Longrightarrow> mbs_fits (pageSize env) q L T (numChannels q)"
    using growable_fits [OF assms] by blast
  note a = AllocateBuf_ok [OF tqb_wfD(1) [OF wf] fits q1_def]
  have sz: "L \<le> queueLength q2" "T \<le> maxThreshold q2" "elementSize q2 = elementSize q"
      "numChannels q2 = numChannels q" "mbs q2 = None \<longleftrightarrow> mbs q = None" "baseOffset q2 = baseOffset q"
      "chanOffset q2 = chanOffset q" "tqb_inv q2" "Count_tqb q2 = 0" "\<And>c. contents_tqb q2 c = []"
    using a by (simp_all add: q2_def) (simp_all add: q1_def)
  have free: "Count_tqb q \<le> Freespace_tqb q2"
    using Count_le [OF wf] sz(1,9) by (simp add: Freespace_tqb_def L_def)
  obtain old new where cp: "copy_queue q q2 = Some (Inr (old, new))" "tqb_inv new"
      "Count_tqb new = Count_tqb q2 + Count_tqb q"
      "\<forall>c<numChannels q2. contents_tqb new c = contents_tqb q2 c @ contents_tqb q c"
      "same_sizes new q2" "\<exists>h n. old = q\<lparr>head := h, elementsDequeued := n\<rparr>"
    using copy_queue_ok [OF inv sz(8,3,4)] sz(2) free by (auto simp: T_def)
  have g: "TQImpl_Grow env q l t copy = Some (Inr (if copy then Some (old\<lparr>head := head q, tail := tail q\<rparr>) else None,
      new\<lparr>elementsEnqueued := elementsEnqueued old\<rparr>))"
    using False unfolding TQImpl_Grow_def Let_def args q1_def [symmetric] q2_def [symmetric] by (auto simp: cp(1))
  have "growable (pageSize env) (new\<lparr>elementsEnqueued := elementsEnqueued old\<rparr>)"
    using assms cp(2,5) sz by (simp add: growable_def same_sizes_def)
  moreover have "\<exists>n. old\<lparr>head := head q, tail := tail q\<rparr> = q\<lparr>elementsDequeued := n\<rparr>" using cp(6) by auto
  ultimately show ?thesis
    using g cp sz False by (auto simp: same_sizes_def L_def T_def)
qed

lemma enq_addr_counter [simp]: "enq_addr (q\<lparr>elementsDequeued := n\<rparr>) = enq_addr q"
  by (simp add: enq_addr_def fun_eq_iff channel_addr_def ring_bytes_def)

lemma load_counter [simp]: "load_tqb (q\<lparr>elementsDequeued := n\<rparr>) = load_tqb q"
  by (simp add: load_tqb_def fun_eq_iff translate_def)

lemma deq_window_eq:
  assumes "tqb_inv b" and "c < numChannels b" and "elementSize b = 1" and "n \<le> Count_tqb b" and "n \<le> maxThreshold b"
  shows "(case GetRawDequeuePtr_tqb b n c of None \<Rightarrow> [] | Some p \<Rightarrow> load_tqb b p n) = take n (contents_tqb b c)"
proof -
  obtain p where "GetRawDequeuePtr_tqb b n c = Some p" using assms(4,5) by (simp add: GetRawDequeuePtr_tqb_def)
  with load_contents [OF assms(1,2) this] assms(3) show ?thesis by simp
qed

lemma cpn_invD:
  assumes "cpn_inv env q"
  shows "growable (pageSize env) (queue q)" "tqb_inv (queue q)" "elementSize (queue q) = 1"
    "inenqueue q \<Longrightarrow> enqueuethresh q \<le> Freespace_tqb (queue q) \<and> enqueuethresh q \<le> maxThreshold (queue q)"
    "indequeue q \<Longrightarrow> dequeuethresh q \<le> Count_tqb (queue q) \<and> dequeuethresh q \<le> maxThreshold (queue q)"
    "enqueueUseOld q \<Longrightarrow> inenqueue q" "dequeueUseOld q \<Longrightarrow> indequeue q" "\<not> (enqueueUseOld q \<and> dequeueUseOld q)"
    "oldqueue q = None \<longleftrightarrow> \<not> enqueueUseOld q \<and> \<not> dequeueUseOld q"
    "oldqueue q = Some old \<Longrightarrow> tqb_inv old \<and> elementSize old = 1 \<and> numChannels old = numChannels (queue q) \<and>
       maxThreshold old \<le> maxThreshold (queue q)"
    "oldqueue q = Some old \<Longrightarrow> enqueueUseOld q \<Longrightarrow>
       enqueuethresh q \<le> Freespace_tqb old \<and> enqueuethresh q \<le> maxThreshold old"
    "oldqueue q = Some old \<Longrightarrow> dequeueUseOld q \<Longrightarrow> dequeuethresh q \<le> Count_tqb old \<and>
       dequeuethresh q \<le> maxThreshold old \<and>
       (\<forall>c<numChannels (queue q). \<exists>more. contents_tqb (queue q) c = contents_tqb old c @ more)"
  using assms by (auto simp: cpn_inv_def growable_def split: option.splits)

text \<open>What the reader sees through its pointer is the front of the queue, whichever buffer it lies in.\<close>

lemma deq_window_contents:
  assumes "cpn_inv env q" and "indequeue q" and "n \<le> dequeuethresh q" and "c < numChannels (queue q)"
  shows "deq_window q c n = take n (cpn_contents q c)"
proof (cases "dequeueUseOld q")
  case False
  note D = cpn_invD [OF assms(1)]
  have "n \<le> Count_tqb (queue q)" "n \<le> maxThreshold (queue q)" using D(5) [OF assms(2)] assms(3) by auto
  moreover have "deq_buffer q = queue q" using False by (simp add: deq_buffer_def)
  ultimately show ?thesis
    using deq_window_eq [OF D(2) assms(4) D(3), of n] by (simp only: deq_window_def cpn_contents_def)
next
  case True
  note D = cpn_invD [OF assms(1)]
  obtain old where old: "oldqueue q = Some old" using D(9) True by (cases "oldqueue q") auto
  have buf: "deq_buffer q = old" using True old by (simp add: deq_buffer_def)
  have o: "tqb_inv old" "elementSize old = 1" "numChannels old = numChannels (queue q)" using D(10) [OF old] by auto
  have n: "n \<le> Count_tqb old" "n \<le> maxThreshold old"
    and pre: "\<exists>more. contents_tqb (queue q) c = contents_tqb old c @ more"
    using D(12) [OF old True] assms(3,4) by auto
  have "deq_window q c n = take n (contents_tqb old c)"
    using deq_window_eq [OF o(1) _ o(2) n, of c] o(3) assms(4) by (simp only: deq_window_def buf)
  also have "\<dots> = take n (contents_tqb (queue q) c)"
    using pre n(1) o(2) by (auto simp: contents_tqb_def)
  finally show ?thesis by (simp add: cpn_contents_def)
qed

lemma UnlockedGrow_ok:
  assumes "cpn_inv env q" and "\<not> (inenqueue q \<and> indequeue q)"
  shows "\<exists>q'. UnlockedGrow env q l t = Some (Inr q') \<and> cpn_inv env q' \<and>
    l \<le> queueLength (queue q') \<and> t \<le> maxThreshold (queue q') \<and>
    queueLength (queue q) \<le> queueLength (queue q') \<and> maxThreshold (queue q) \<le> maxThreshold (queue q') \<and>
    Count_tqb (queue q') = Count_tqb (queue q) \<and> numChannels (queue q') = numChannels (queue q) \<and>
    (\<forall>c<numChannels (queue q). cpn_contents q' c = cpn_contents q c) \<and>
    (inenqueue q \<longrightarrow> (\<forall>c n. enq_window q' c n = enq_window q c n)) \<and>
    q' = q\<lparr>queue := queue q', oldqueue := oldqueue q', enqueueUseOld := enqueueUseOld q', dequeueUseOld := dequeueUseOld q'\<rparr>"
proof (cases "l \<le> queueLength (queue q) \<and> t \<le> maxThreshold (queue q)")
  case True
  then have "UnlockedGrow env q l t = Some (Inr q)" by (simp add: UnlockedGrow_def)
  with True assms show ?thesis by auto
next
  case False
  note D = cpn_invD [OF assms(1)]
  have use: "oldqueue q \<noteq> None \<Longrightarrow> enqueueUseOld q = inenqueue q \<and> dequeueUseOld q = indequeue q"
    using D(6-9) assms(2) by auto
  let ?copy = "oldqueue q = None \<and> (inenqueue q \<or> indequeue q)"
  obtain old new where g: "TQImpl_Grow env (queue q) l t ?copy = Some (Inr (old, new))" "growable (pageSize env) new"
      "max l (queueLength (queue q)) \<le> queueLength new" "max t (maxThreshold (queue q)) \<le> maxThreshold new"
      "Count_tqb new = Count_tqb (queue q)" "numChannels new = numChannels (queue q)" "elementSize new = 1"
      "\<forall>c<numChannels (queue q). contents_tqb new c = contents_tqb (queue q) c"
      "old = None \<longleftrightarrow> \<not> ?copy" "\<forall>x. old = Some x \<longrightarrow> (\<exists>n. x = (queue q)\<lparr>elementsDequeued := n\<rparr>)"
    using TQImpl_Grow_ok [OF D(1), of l t ?copy] False D(3) by auto
  have free: "Freespace_tqb (queue q) \<le> Freespace_tqb new" using g(3,5) by (auto simp: Freespace_tqb_def)
  show ?thesis
  proof (cases ?copy)
    case True
    then obtain n where old: "old = Some ((queue q)\<lparr>elementsDequeued := n\<rparr>)" using g(9,10) by (cases old) auto
    define q' where "q' = q\<lparr>enqueueUseOld := inenqueue q, dequeueUseOld := indequeue q, queue := new, oldqueue := old\<rparr>"
    have grow: "UnlockedGrow env q l t = Some (Inr q')"
      using False assms(2) True g(1) old by (auto simp: UnlockedGrow_def q'_def Let_def)
    have fr: "Freespace_tqb ((queue q)\<lparr>elementsDequeued := n\<rparr>) = Freespace_tqb (queue q)"
      by (simp add: Freespace_tqb_def)
    have "cpn_inv env q'"
      using D g(2-8) assms(2) True free fr by (auto simp: cpn_inv_def q'_def old)
    with grow g(2-8) True old show ?thesis
      by (intro exI [of _ q'])
        (auto simp: q'_def cpn_contents_def enq_window_def enq_buffer_def D(9))
  next
    case nocopy: False
    define q' where "q' = q\<lparr>queue := new\<rparr>"
    have grow: "UnlockedGrow env q l t = Some (Inr q')"
      using False assms(2) use nocopy g(1) by (auto simp: UnlockedGrow_def q'_def Let_def)
    have inv: "cpn_inv env q'"
      using D g(2-8) free assms(1) by (auto simp: cpn_inv_def q'_def split: option.splits)
    have win: "inenqueue q \<longrightarrow> (\<forall>c n. enq_window q' c n = enq_window q c n)"
      using nocopy assms(2) use by (auto simp: enq_window_def enq_buffer_def q'_def split: option.splits)
    show ?thesis
      using grow inv win g(3-8) by (intro exI [of _ q']) (auto simp: q'_def cpn_contents_def)
  qed
qed

section \<open>Giving pointers back\<close>

lemma same_sizes_Enqueue: "same_sizes (Enqueue_tqb q n) q"
  by (simp add: same_sizes_def)

lemma same_sizes_Dequeue: "same_sizes (Dequeue_tqb q n) q"
  by (simp add: same_sizes_def Dequeue_tqb_def)

lemma same_sizes_free:
  "same_sizes q' q \<Longrightarrow> Freespace_tqb q' = queueLength q - Count_tqb q'"
  by (simp add: same_sizes_def Freespace_tqb_def)

lemma Dequeue_window [simp]:
  "enq_addr (Dequeue_tqb q n) = enq_addr q" "load_tqb (Dequeue_tqb q n) = load_tqb q"
  by (simp_all add: enq_addr_def load_tqb_def fun_eq_iff Dequeue_tqb_def channel_addr_def ring_bytes_def translate_def)

lemma Enqueue_cpn_ok:
  assumes "cpn_inv env q" and "inenqueue q" and "n \<le> enqueuethresh q" and "\<not> writeshutdown q"
  shows "\<exists>q'. Enqueue_cpn q n = Some (Inr q') \<and> cpn_inv env q' \<and> \<not> inenqueue q' \<and>
    Count_tqb (queue q') = Count_tqb (queue q) + n \<and> numChannels (queue q') = numChannels (queue q) \<and>
    (\<forall>c<numChannels (queue q). cpn_contents q' c = cpn_contents q c @ enq_window q c n) \<and>
    indequeue q' = indequeue q \<and> readrequest q' = readrequest q \<and> writerequest q' = writerequest q \<and>
    dequeuethresh q' = dequeuethresh q \<and> readshutdown q' = readshutdown q \<and> writeshutdown q' = writeshutdown q"
proof -
  note D = cpn_invD [OF assms(1)]
  let ?q = "q\<lparr>enqueuethresh := 0, inenqueue := False\<rparr>"
  have n: "n \<le> Freespace_tqb (queue q)" "n \<le> maxThreshold (queue q)" using D(4) [OF assms(2)] assms(3) by auto
  show ?thesis
  proof (cases "enqueueUseOld q")
    case False
    note e = Enqueue_window [OF D(2) n]
    let ?new = "Enqueue_tqb (queue q) n"
    have g: "growable (pageSize env) ?new" using same_sizes_growable [OF same_sizes_Enqueue e(1) D(1)] .
    have pre: "\<exists>more. contents_tqb ?new c = contents_tqb old c @ more"
      if "oldqueue q = Some old" "dequeueUseOld q" "c < numChannels (queue q)" for old c
      using D(12) [OF that(1,2)] that(3) e(3) [OF that(3)] by auto
    have "cpn_inv env (?q\<lparr>queue := ?new\<rparr>)"
      using D g e(1,2) False pre by (auto simp: cpn_inv_def split: option.splits)
    then show ?thesis
      using assms(4) False e D(3) by (simp add: Enqueue_cpn_def InternalEnqueue_def cpn_contents_def enq_window_def enq_buffer_def)
  next
    case True
    obtain old where old: "oldqueue q = Some old" using D(9) True by (cases "oldqueue q") auto
    note D10 = D(10) [OF old] and D11 = D(11) [OF old True]
    let ?o1 = "Dequeue_tqb old (Count_tqb old)"
    let ?o2 = "Enqueue_tqb ?o1 n"
    have o1: "tqb_inv ?o1" "Count_tqb ?o1 = 0" "\<And>c. contents_tqb ?o1 c = []"
      using dequeue_ok [of old "Count_tqb old"] D10 by (auto simp: contents_tqb_def)
    have ss: "same_sizes ?o1 old" "same_sizes ?o2 ?o1" by (rule same_sizes_Dequeue same_sizes_Enqueue)+
    have "n \<le> Freespace_tqb ?o1" "n \<le> maxThreshold ?o1"
      using same_sizes_free [OF ss(1)] o1(2) D11 assms(3) ss(1) by (auto simp: Freespace_tqb_def same_sizes_def)
    note e = Enqueue_window [OF o1(1) this]
    have sz: "elementSize ?o2 = 1" "numChannels ?o2 = numChannels (queue q)" "maxThreshold ?o2 = maxThreshold old"
      using ss D10 by (auto simp: same_sizes_def)
    have cont: "contents_tqb ?o2 c = enq_window q c n" if "c < numChannels (queue q)" for c
      using e(3) [of c] that sz(2) ss D10 o1(3) True old
      by (simp add: same_sizes_def enq_window_def enq_buffer_def)
    obtain old' new where cp: "copy_queue ?o2 (queue q) = Some (Inr (old', new))" "tqb_inv new"
        "Count_tqb new = Count_tqb (queue q) + Count_tqb ?o2"
        "\<forall>c<numChannels (queue q). contents_tqb new c = contents_tqb (queue q) c @ contents_tqb ?o2 c"
        "same_sizes new (queue q)"
      using copy_queue_ok [OF e(1) D(2)] sz D(3) D10 e(2) o1(2) n by auto
    have g: "growable (pageSize env) new" using same_sizes_growable [OF cp(5,2) D(1)] .
    have "cpn_inv env (?q\<lparr>queue := new, enqueueUseOld := False, oldqueue := None\<rparr>)"
      using D True g cp(3,5) by (auto simp: cpn_inv_def same_sizes_def)
    then show ?thesis
      using assms(4) True old cp e(2) o1(2) cont
      by (simp add: Enqueue_cpn_def InternalEnqueue_def cpn_contents_def Let_def same_sizes_def)
  qed
qed

lemma Dequeue_cpn_ok:
  assumes "cpn_inv env q" and "n \<le> Count_tqb (queue q)" and "\<not> readshutdown q"
  shows "\<exists>q'. Dequeue_cpn q n = Inr q' \<and> cpn_inv env q' \<and> \<not> indequeue q' \<and>
    Count_tqb (queue q') + n = Count_tqb (queue q) \<and> numChannels (queue q') = numChannels (queue q) \<and>
    (\<forall>c<numChannels (queue q). cpn_contents q' c = drop n (cpn_contents q c)) \<and>
    (inenqueue q \<longrightarrow> (\<forall>c k. enq_window q' c k = enq_window q c k)) \<and>
    inenqueue q' = inenqueue q \<and> readrequest q' = readrequest q \<and> writerequest q' = writerequest q \<and>
    enqueuethresh q' = enqueuethresh q \<and> readshutdown q' = readshutdown q \<and> writeshutdown q' = writeshutdown q"
proof -
  note D = cpn_invD [OF assms(1)]
  let ?new = "Dequeue_tqb (queue q) n"
  note d = dequeue_ok [OF D(2) assms(2)]
  have g: "growable (pageSize env) ?new" using same_sizes_growable [OF same_sizes_Dequeue d(1) D(1)] .
  have ss: "same_sizes ?new (queue q)" by (rule same_sizes_Dequeue)
  have free: "Freespace_tqb (queue q) \<le> Freespace_tqb ?new"
    using same_sizes_free [OF ss] d(2) by (simp add: Freespace_tqb_def)
  define q' where "q' = InternalDequeue (q\<lparr>dequeuethresh := 0, indequeue := False\<rparr>) n"
  have q': "queue q' = ?new" "enqueueUseOld q' = enqueueUseOld q" "dequeueUseOld q' = False"
      "oldqueue q' = (if dequeueUseOld q then None else oldqueue q)" "inenqueue q' = inenqueue q" "\<not> indequeue q'"
      "enqueuethresh q' = enqueuethresh q" "readrequest q' = readrequest q" "writerequest q' = writerequest q"
      "readshutdown q' = readshutdown q" "writeshutdown q' = writeshutdown q"
    by (auto simp: q'_def InternalDequeue_def Let_def)
  have eq: "Dequeue_cpn q n = Inr q'" using assms(3) by (simp add: Dequeue_cpn_def q'_def)
  have inv: "cpn_inv env q'"
    using D g free ss by (auto simp: cpn_inv_def q' same_sizes_def split: option.splits)
  have "enq_buffer q' = (if enqueueUseOld q then enq_buffer q else ?new)" "enqueueUseOld q \<or> enq_buffer q = queue q"
    using D(8,9) by (auto simp: enq_buffer_def q' split: option.splits)
  then have win: "enq_window q' c k = enq_window q c k" for c k by (auto simp: enq_window_def split: if_splits)
  show ?thesis
    using eq inv q' d(2,3) win ss assms(2) D(3) by (simp add: cpn_contents_def same_sizes_def)
qed

lemma client_store_ok:
  assumes "cpn_inv env q" and "inenqueue q" and "length bs \<le> enqueuethresh q" and "c < numChannels (queue q)"
  shows "cpn_inv env (client_store q c bs)"
    and "d < numChannels (queue q) \<Longrightarrow> cpn_contents (client_store q c bs) d = cpn_contents q d"
    and "d < numChannels (queue q) \<Longrightarrow> k \<le> length bs \<Longrightarrow>
      enq_window (client_store q c bs) d k = (if d = c then take k bs else enq_window q d k)"
    and "numChannels (queue (client_store q c bs)) = numChannels (queue q)"
proof -
  note D = cpn_invD [OF assms(1)]
  let ?b = "enq_buffer q"
  have b: "tqb_inv ?b" "elementSize ?b = 1" "numChannels ?b = numChannels (queue q)"
      "enqueuethresh q \<le> Freespace_tqb ?b" "enqueuethresh q \<le> maxThreshold ?b"
    using D(2,3) D(4) [OF assms(2)] D(9-11) by (auto simp: enq_buffer_def split: option.splits)
  have c: "c < numChannels ?b" "length bs \<le> enqueuethresh q * elementSize ?b" using assms(3,4) b by auto
  note s = store_window [OF b(1) c b(4,5)]
  obtain m where m: "store_tqb ?b (enq_addr ?b c) bs = ?b\<lparr>memory := m\<rparr>" using s(3) by blast
  define q' where "q' = client_store q c bs"
  have q': "q' = (if enqueueUseOld q then q\<lparr>oldqueue := Some (?b\<lparr>memory := m\<rparr>)\<rparr> else q\<lparr>queue := ?b\<lparr>memory := m\<rparr>\<rparr>)"
    by (simp add: q'_def client_store_def Let_def m)
  have buf: "enq_buffer q' = ?b\<lparr>memory := m\<rparr>" by (simp add: q' enq_buffer_def)
  have frame: "cpn_contents q' d = cpn_contents q d" if "d < numChannels (queue q)" for d
    using s(2) [of d] that b(3) m by (auto simp: q' cpn_contents_def enq_buffer_def split: if_splits)
  then show "d < numChannels (queue q) \<Longrightarrow> cpn_contents (client_store q c bs) d = cpn_contents q d"
    by (simp add: q'_def)
  have inv1: "tqb_inv (?b\<lparr>memory := m\<rparr>)" using s(1) m by simp
  show "enq_window (client_store q c bs) d k = (if d = c then take k bs else enq_window q d k)"
    if "d < numChannels (queue q)" "k \<le> length bs"
  proof -
    have "enq_addr (?b\<lparr>memory := m\<rparr>) d = enq_addr ?b d" by (simp add: enq_addr_def)
    then show ?thesis using s(4) [of d k] that b(3) m buf by (simp add: enq_window_def q'_def)
  qed
  show "cpn_inv env (client_store q c bs)"
  proof (cases "enqueueUseOld q")
    case True
    then obtain old where "oldqueue q = Some old" using D(9) by (cases "oldqueue q") auto
    then show ?thesis
      using D True b inv1 D(10) [of old] by (auto simp: cpn_inv_def q' simp flip: q'_def simp: enq_buffer_def)
  next
    case False
    then have bq: "?b = queue q" by (simp add: enq_buffer_def)
    have g: "growable (pageSize env) ((queue q)\<lparr>memory := m\<rparr>)" using D(1) inv1 bq by (simp add: growable_def)
    have cont: "\<forall>d<numChannels (queue q). contents_tqb ((queue q)\<lparr>memory := m\<rparr>) d = contents_tqb (queue q) d"
      using frame False bq by (simp add: q' cpn_contents_def)
    show ?thesis
      using D False g cont unfolding q'_def [symmetric] by (auto simp: cpn_inv_def q' bq split: option.splits)
  qed
  show "numChannels (queue (client_store q c bs)) = numChannels (queue q)"
    using b(3) unfolding q'_def [symmetric] by (simp add: q' enq_buffer_def)
qed

section \<open>The blocking operations\<close>

lemma same_user_refl [simp]: "same_user q q"
  by (simp add: same_user_def)

lemma same_user_trans: "same_user q q1 \<Longrightarrow> same_user q1 q2 \<Longrightarrow> same_user q q2"
  by (simp add: same_user_def)

lemma enq_window_flags [simp]:
  "enq_window (q\<lparr>readrequest := n\<rparr>) = enq_window q" "enq_window (q\<lparr>writerequest := n\<rparr>) = enq_window q"
  "enq_window (q\<lparr>indequeue := b\<rparr>) = enq_window q" "enq_window (q\<lparr>inenqueue := b\<rparr>) = enq_window q"
  "enq_window (q\<lparr>dequeuethresh := n\<rparr>) = enq_window q" "enq_window (q\<lparr>enqueuethresh := n\<rparr>) = enq_window q"
  "enq_window (ShutdownReader q) = enq_window q" "enq_window (ShutdownWriter q) = enq_window q"
  by (intro ext; cases "oldqueue q"; simp add: enq_window_def enq_buffer_def ShutdownReader_def ShutdownWriter_def)+

lemma same_user_flags [simp]:
  "same_user q (q'\<lparr>readrequest := n\<rparr>) = same_user q q'" "same_user q (q'\<lparr>writerequest := n\<rparr>) = same_user q q'"
  "same_user q (q'\<lparr>indequeue := b\<rparr>) = same_user q q'"
  by (simp_all add: same_user_def cpn_contents_def)

lemma same_user_inenqueue [simp]: "same_user q q' \<Longrightarrow> same_user q (q'\<lparr>inenqueue := True\<rparr>)"
  by (simp add: same_user_def cpn_contents_def)

lemma cpn_inv_requests [simp]:
  "cpn_inv env (q\<lparr>readrequest := n\<rparr>) = cpn_inv env q" "cpn_inv env (q\<lparr>writerequest := n\<rparr>) = cpn_inv env q"
  by (cases "oldqueue q"; simp add: cpn_inv_def)+

lemma grow_step:
  assumes "cpn_inv env q" and "\<not> (inenqueue q \<and> indequeue q)"
  obtains q' where "UnlockedGrow env q l t = Some (Inr q')" "cpn_inv env q'" "same_user q q'"
    "l \<le> queueLength (queue q')" "t \<le> maxThreshold (queue q')" "maxThreshold (queue q) \<le> maxThreshold (queue q')"
    "Freespace_tqb (queue q) \<le> Freespace_tqb (queue q')"
    "inenqueue q' = inenqueue q" "indequeue q' = indequeue q" "readrequest q' = readrequest q"
    "writerequest q' = writerequest q"
proof -
  obtain q' where q': "UnlockedGrow env q l t = Some (Inr q')" "cpn_inv env q'" "l \<le> queueLength (queue q')"
      "t \<le> maxThreshold (queue q')" "queueLength (queue q) \<le> queueLength (queue q')"
      "maxThreshold (queue q) \<le> maxThreshold (queue q')" "Count_tqb (queue q') = Count_tqb (queue q)"
      "numChannels (queue q') = numChannels (queue q)"
      "\<forall>c<numChannels (queue q). cpn_contents q' c = cpn_contents q c"
      "inenqueue q \<longrightarrow> (\<forall>c n. enq_window q' c n = enq_window q c n)"
      "q' = q\<lparr>queue := queue q', oldqueue := oldqueue q', enqueueUseOld := enqueueUseOld q', dequeueUseOld := dequeueUseOld q'\<rparr>"
    using UnlockedGrow_ok [OF assms, of l t] by auto
  define b o1 eu du where "b = queue q'" and "o1 = oldqueue q'" and "eu = enqueueUseOld q'" and "du = dequeueUseOld q'"
  have eq: "q' = q\<lparr>queue := b, oldqueue := o1, enqueueUseOld := eu, dequeueUseOld := du\<rparr>"
    using q'(11) by (simp add: b_def o1_def eu_def du_def)
  have same: "readshutdown q' = readshutdown q" "writeshutdown q' = writeshutdown q" "readerkey q' = readerkey q"
      "writerkey q' = writerkey q" "dequeuethresh q' = dequeuethresh q" "enqueuethresh q' = enqueuethresh q"
      "inenqueue q' = inenqueue q" "indequeue q' = indequeue q" "readrequest q' = readrequest q"
      "writerequest q' = writerequest q"
    by (simp_all add: eq)
  have "same_user q q'" using q'(7-10) same by (simp add: same_user_def)
  moreover have "Freespace_tqb (queue q) \<le> Freespace_tqb (queue q')" using q'(5,7) by (simp add: Freespace_tqb_def)
  ultimately show ?thesis using that q'(1-6) same by blast
qed

text \<open>The reader. The cases of the loop, from the last to the first.\<close>

lemma read_ptr:
  "cpn_inv env q \<Longrightarrow> \<not> indequeue q \<Longrightarrow> InternalGetRawDequeuePtr q t c = Inr (GetRawDequeuePtr_tqb (queue q) t c)"
  by (auto simp: InternalGetRawDequeuePtr_def dest: cpn_invD(7))

lemma read_loop_end:
  assumes "reader_ok env q t" and "t \<le> maxThreshold (queue q)" and "\<not> WriteBlocked q"
  shows "\<exists>r q'. GetRawDequeuePtr_loop env t c q = Some (r, q') \<and> cpn_inv env q' \<and> same_user q q' \<and>
    read_result q t r q' \<and> inenqueue q' = inenqueue q \<and> writerequest q' = writerequest q"
proof -
  have inv: "cpn_inv env q" "\<not> indequeue q" "dequeuethresh q = t" using assms(1) by (auto simp: reader_ok_def)
  show ?thesis
  proof (cases "t \<le> Count_tqb (queue q)")
    case True
    then obtain p where "GetRawDequeuePtr_tqb (queue q) t c = Some p"
      using assms(2) by (simp add: GetRawDequeuePtr_tqb_def)
    then have "GetRawDequeuePtr_loop env t c q = Some (Returned (Some p), q\<lparr>indequeue := True\<rparr>)"
      by (subst GetRawDequeuePtr_loop.simps) (simp add: read_ptr [OF inv(1,2)])
    moreover have "cpn_inv env (q\<lparr>indequeue := True\<rparr>)"
      using inv True assms(2) by (auto simp: cpn_inv_def split: option.splits)
    ultimately show ?thesis using True by (simp add: read_result_def)
  next
    case False
    then have "GetRawDequeuePtr_tqb (queue q) t c = None" by (simp add: GetRawDequeuePtr_tqb_def)
    then have "GetRawDequeuePtr_loop env t c q =
        (if writeshutdown q then Some (Returned None, q)
         else if readshutdown q then Some (Throws (BrokenQueueException (readerkey q)), q)
         else Some (Blocks, q\<lparr>readrequest := t\<rparr>))"
      using assms False
      by (subst GetRawDequeuePtr_loop.simps) (auto simp: read_ptr [OF inv(1,2)] reader_ok_def ReadBlocked_def)
    moreover have "ReadBlocked (q\<lparr>readrequest := t\<rparr>) \<longleftrightarrow> \<not> (readshutdown q \<or> writeshutdown q)"
        "WriteBlocked (q\<lparr>readrequest := t\<rparr>) = WriteBlocked q"
      using False by (simp_all add: ReadBlocked_def WriteBlocked_def)
    ultimately show ?thesis using inv assms(3) by (auto simp: read_result_def)
  qed
qed

lemma read_loop_blocked:
  assumes "reader_ok env q t" and "t \<le> maxThreshold (queue q)"
  shows "\<exists>r q'. GetRawDequeuePtr_loop env t c q = Some (r, q') \<and> cpn_inv env q' \<and> same_user q q' \<and>
    read_result q t r q' \<and> inenqueue q' = inenqueue q \<and> writerequest q' = writerequest q"
proof (cases "WriteBlocked q \<and> Count_tqb (queue q) < t")
  case True
  have ok: "cpn_inv env q" "\<not> indequeue q" using assms(1) by (auto simp: reader_ok_def)
  have sum: "u32 (writerequest q + t) = writerequest q + t" using assms(1) by (simp add: reader_ok_def u32_id)
  obtain q1 where q1: "UnlockedGrow env q (writerequest q + t) t = Some (Inr q1)" "cpn_inv env q1" "same_user q q1"
      "writerequest q + t \<le> queueLength (queue q1)" "t \<le> maxThreshold (queue q1)"
      "inenqueue q1 = inenqueue q" "indequeue q1 = indequeue q" "readrequest q1 = readrequest q"
      "writerequest q1 = writerequest q"
    using grow_step [OF ok(1), of "writerequest q + t" t] ok(2) by metis
  have "Count_tqb (queue q1) < t" using q1(3) True by (simp add: same_user_def)
  then have "\<not> WriteBlocked q1" using q1(4,9) by (auto simp: WriteBlocked_def Freespace_tqb_def)
  moreover have "reader_ok env q1 t" using assms(1) q1 by (simp add: reader_ok_def same_user_def)
  ultimately obtain r q' where q': "GetRawDequeuePtr_loop env t c q1 = Some (r, q')" "cpn_inv env q'" "same_user q1 q'"
      "read_result q1 t r q'" "inenqueue q' = inenqueue q1" "writerequest q' = writerequest q1"
    using read_loop_end q1(5) by blast
  have "GetRawDequeuePtr_tqb (queue q) t c = None" using True by (simp add: GetRawDequeuePtr_tqb_def)
  moreover have "\<not> writeshutdown q" "\<not> readshutdown q" using True by (auto simp: WriteBlocked_def)
  ultimately have "GetRawDequeuePtr_loop env t c q = GetRawDequeuePtr_loop env t c q1"
    using True assms q1(1) sum
    by (subst GetRawDequeuePtr_loop.simps) (simp add: read_ptr [OF ok] reader_ok_def)
  moreover have "read_result q t r q'"
    using q'(4) q1(3,8) by (auto simp: read_result_def same_user_def split: outcome.splits option.splits)
  ultimately show ?thesis using q' q1 same_user_trans [OF q1(3) q'(3)] by auto
next
  case False
  show ?thesis
  proof (cases "WriteBlocked q")
    case wb: True
    with False have "t \<le> Count_tqb (queue q)" by simp
    have inv: "cpn_inv env q" "\<not> indequeue q" "dequeuethresh q = t" using assms(1) by (auto simp: reader_ok_def)
    obtain p where "GetRawDequeuePtr_tqb (queue q) t c = Some p"
      using assms(2) \<open>t \<le> Count_tqb (queue q)\<close> by (simp add: GetRawDequeuePtr_tqb_def)
    then have "GetRawDequeuePtr_loop env t c q = Some (Returned (Some p), q\<lparr>indequeue := True\<rparr>)"
      by (subst GetRawDequeuePtr_loop.simps) (simp add: read_ptr [OF inv(1,2)])
    moreover have "cpn_inv env (q\<lparr>indequeue := True\<rparr>)"
      using inv \<open>t \<le> Count_tqb (queue q)\<close> assms(2) by (auto simp: cpn_inv_def split: option.splits)
    ultimately show ?thesis using \<open>t \<le> Count_tqb (queue q)\<close> by (simp add: read_result_def)
  next
    case False
    with read_loop_end [OF assms] show ?thesis by blast
  qed
qed

lemma read_loop_ok:
  assumes "reader_ok env q t"
  shows "\<exists>r q'. GetRawDequeuePtr_loop env t c q = Some (r, q') \<and> cpn_inv env q' \<and> same_user q q' \<and>
    read_result q t r q' \<and> inenqueue q' = inenqueue q \<and> writerequest q' = writerequest q"
proof (cases "t \<le> maxThreshold (queue q) \<or> readshutdown q \<or> writeshutdown q")
  case True
  have ok: "cpn_inv env q" "\<not> indequeue q" using assms by (auto simp: reader_ok_def)
  show ?thesis
  proof (cases "t \<le> maxThreshold (queue q)")
    case True
    with read_loop_blocked [OF assms] show ?thesis by blast
  next
    case False
    then have "GetRawDequeuePtr_tqb (queue q) t c = None" by (simp add: GetRawDequeuePtr_tqb_def)
    then have "GetRawDequeuePtr_loop env t c q =
        (if writeshutdown q then Some (Returned None, q)
         else Some (Throws (BrokenQueueException (readerkey q)), q))"
      using True False by (subst GetRawDequeuePtr_loop.simps) (auto simp: read_ptr [OF ok])
    with ok True False show ?thesis by (auto simp: read_result_def)
  qed
next
  case False
  have ok: "cpn_inv env q" "\<not> indequeue q" using assms by (auto simp: reader_ok_def)
  obtain q1 where q1: "UnlockedGrow env q (u32 (2 * t)) t = Some (Inr q1)" "cpn_inv env q1" "same_user q q1"
      "t \<le> maxThreshold (queue q1)" "inenqueue q1 = inenqueue q" "indequeue q1 = indequeue q"
      "readrequest q1 = readrequest q" "writerequest q1 = writerequest q"
    using grow_step [OF ok(1), of "u32 (2 * t)" t] ok(2) by metis
  have "reader_ok env q1 t" using assms q1 by (simp add: reader_ok_def same_user_def)
  then obtain r q' where q': "GetRawDequeuePtr_loop env t c q1 = Some (r, q')" "cpn_inv env q'" "same_user q1 q'"
      "read_result q1 t r q'" "inenqueue q' = inenqueue q1" "writerequest q' = writerequest q1"
    using read_loop_blocked q1(4) by blast
  have "GetRawDequeuePtr_loop env t c q = GetRawDequeuePtr_loop env t c q1"
    using False assms q1(1)
    by (subst GetRawDequeuePtr_loop.simps) (simp add: read_ptr [OF ok] reader_ok_def GetRawDequeuePtr_tqb_def)
  moreover have "read_result q t r q'"
    using q'(4) q1(3,7) by (auto simp: read_result_def same_user_def split: outcome.splits option.splits)
  ultimately show ?thesis using q' q1 same_user_trans [OF q1(3) q'(3)] by auto
qed

text \<open>The writer, in the same way.\<close>

lemma write_ptr:
  "cpn_inv env q \<Longrightarrow> \<not> inenqueue q \<Longrightarrow> InternalGetRawEnqueuePtr q t c = Inr (GetRawEnqueuePtr_tqb (queue q) t c)"
  by (auto simp: InternalGetRawEnqueuePtr_def dest: cpn_invD(6))

lemma write_loop_return:
  assumes "writer_ok env q t" and "t \<le> maxThreshold (queue q)" and "t \<le> Freespace_tqb (queue q)"
  shows "\<exists>p. GetRawEnqueuePtr_loop env t c grown q = Some (Returned p, q\<lparr>inenqueue := True\<rparr>) \<and>
    cpn_inv env (q\<lparr>inenqueue := True\<rparr>) \<and> write_result q t (Returned p) (q\<lparr>inenqueue := True\<rparr>)"
proof -
  have inv: "cpn_inv env q" "\<not> inenqueue q" "enqueuethresh q = t" using assms(1) by (auto simp: writer_ok_def)
  obtain p where "GetRawEnqueuePtr_tqb (queue q) t c = Some p"
    using assms(2,3) by (simp add: GetRawEnqueuePtr_tqb_def)
  then have "GetRawEnqueuePtr_loop env t c grown q = Some (Returned p, q\<lparr>inenqueue := True\<rparr>)"
    by (subst GetRawEnqueuePtr_loop.simps) (simp add: write_ptr [OF inv(1,2)])
  moreover have "cpn_inv env (q\<lparr>inenqueue := True\<rparr>)"
    using inv assms(2,3) by (auto simp: cpn_inv_def split: option.splits)
  ultimately show ?thesis using assms(3) by (simp add: write_result_def)
qed

lemma write_loop_blocked:
  assumes "writer_ok env q t" and "t \<le> maxThreshold (queue q)"
  shows "\<exists>r q'. GetRawEnqueuePtr_loop env t c False q = Some (r, q') \<and> cpn_inv env q' \<and> same_user q q' \<and>
    write_result q t r q' \<and> indequeue q' = indequeue q \<and> readrequest q' = readrequest q"
proof -
  have ok: "cpn_inv env q" "\<not> inenqueue q" "enqueuethresh q = t" using assms(1) by (auto simp: writer_ok_def)
  consider (ret) "t \<le> Freespace_tqb (queue q)" | (down) "Freespace_tqb (queue q) < t" "readshutdown q \<or> writeshutdown q"
    | (grow) "Freespace_tqb (queue q) < t" "\<not> (readshutdown q \<or> writeshutdown q)" "ReadBlocked q"
    | (wait) "Freespace_tqb (queue q) < t" "\<not> (readshutdown q \<or> writeshutdown q)" "\<not> ReadBlocked q"
    by linarith
  then show ?thesis
  proof cases
    case ret
    from write_loop_return [OF assms ret, of c False] obtain p where
      "GetRawEnqueuePtr_loop env t c False q = Some (Returned p, q\<lparr>inenqueue := True\<rparr>)"
      "cpn_inv env (q\<lparr>inenqueue := True\<rparr>)" "write_result q t (Returned p) (q\<lparr>inenqueue := True\<rparr>)" by blast
    then show ?thesis by (intro exI conjI) (assumption | simp)+
  next
    case down
    then have "GetRawEnqueuePtr_tqb (queue q) t c = None" by (simp add: GetRawEnqueuePtr_tqb_def)
    then have "GetRawEnqueuePtr_loop env t c False q = Some (Throws (BrokenQueueException (writerkey q)), q)"
      using down by (subst GetRawEnqueuePtr_loop.simps) (auto simp: write_ptr [OF ok(1,2)])
    with ok down show ?thesis by (intro exI conjI) (assumption | simp add: write_result_def)+
  next
    case wait
    then have "GetRawEnqueuePtr_tqb (queue q) t c = None" by (simp add: GetRawEnqueuePtr_tqb_def)
    then have "GetRawEnqueuePtr_loop env t c False q = Some (Blocks, q\<lparr>writerequest := t\<rparr>)"
      using wait assms
      by (subst GetRawEnqueuePtr_loop.simps) (auto simp: write_ptr [OF ok(1,2)] writer_ok_def WriteBlocked_def)
    moreover have "write_result q t Blocks (q\<lparr>writerequest := t\<rparr>)"
      using wait ok by (simp add: write_result_def WriteBlocked_def ReadBlocked_def)
    ultimately show ?thesis using ok by (intro exI conjI) (assumption | simp)+
  next
    case grow
    have sum: "u32 (readrequest q + t) = readrequest q + t" using assms(1) by (simp add: writer_ok_def u32_id)
    obtain q1 where q1: "UnlockedGrow env q (readrequest q + t) t = Some (Inr q1)" "cpn_inv env q1" "same_user q q1"
        "readrequest q + t \<le> queueLength (queue q1)" "t \<le> maxThreshold (queue q1)"
        "inenqueue q1 = inenqueue q" "indequeue q1 = indequeue q" "readrequest q1 = readrequest q"
        "writerequest q1 = writerequest q"
      using grow_step [OF ok(1), of "readrequest q + t" t] ok(2) by metis
    have "Count_tqb (queue q1) < readrequest q" using q1(3) grow(3) by (simp add: same_user_def ReadBlocked_def)
    then have free: "t \<le> Freespace_tqb (queue q1)" using q1(4) by (simp add: Freespace_tqb_def)
    have ok1: "writer_ok env q1 t" using assms(1) q1 by (simp add: writer_ok_def same_user_def)
    obtain p where p: "GetRawEnqueuePtr_loop env t c True q1 = Some (Returned p, q1\<lparr>inenqueue := True\<rparr>)"
        "cpn_inv env (q1\<lparr>inenqueue := True\<rparr>)" "write_result q1 t (Returned p) (q1\<lparr>inenqueue := True\<rparr>)"
      using write_loop_return [OF ok1 q1(5) free] by blast
    have "GetRawEnqueuePtr_tqb (queue q) t c = None" using grow by (simp add: GetRawEnqueuePtr_tqb_def)
    then have "GetRawEnqueuePtr_loop env t c False q = GetRawEnqueuePtr_loop env t c True q1"
      using grow assms q1(1) sum
      by (subst GetRawEnqueuePtr_loop.simps) (simp add: write_ptr [OF ok(1,2)] writer_ok_def)
    with p q1 show ?thesis
      by (intro exI [of _ "Returned p"] exI [of _ "q1\<lparr>inenqueue := True\<rparr>"]) (simp add: write_result_def)
  qed
qed

lemma write_loop_ok:
  assumes "writer_ok env q t"
  shows "\<exists>r q'. GetRawEnqueuePtr_loop env t c False q = Some (r, q') \<and> cpn_inv env q' \<and> same_user q q' \<and>
    write_result q t r q' \<and> indequeue q' = indequeue q \<and> readrequest q' = readrequest q"
proof (cases "t \<le> maxThreshold (queue q)")
  case True
  with write_loop_blocked [OF assms] show ?thesis by blast
next
  case False
  have ok: "cpn_inv env q" "\<not> inenqueue q" using assms by (auto simp: writer_ok_def)
  have none: "GetRawEnqueuePtr_tqb (queue q) t c = None" using False by (simp add: GetRawEnqueuePtr_tqb_def)
  show ?thesis
  proof (cases "readshutdown q \<or> writeshutdown q")
    case True
    then have "GetRawEnqueuePtr_loop env t c False q = Some (Throws (BrokenQueueException (writerkey q)), q)"
      using none by (subst GetRawEnqueuePtr_loop.simps) (auto simp: write_ptr [OF ok])
    with ok True show ?thesis by (intro exI conjI) (assumption | simp add: write_result_def)+
  next
    case up: False
    obtain q1 where q1: "UnlockedGrow env q (u32 (2 * t)) t = Some (Inr q1)" "cpn_inv env q1" "same_user q q1"
        "t \<le> maxThreshold (queue q1)" "inenqueue q1 = inenqueue q" "indequeue q1 = indequeue q"
        "readrequest q1 = readrequest q" "writerequest q1 = writerequest q"
      using grow_step [OF ok(1), of "u32 (2 * t)" t] ok(2) by metis
    have "writer_ok env q1 t" using assms q1 by (simp add: writer_ok_def same_user_def)
    then obtain r q' where q': "GetRawEnqueuePtr_loop env t c False q1 = Some (r, q')" "cpn_inv env q'" "same_user q1 q'"
        "write_result q1 t r q'" "indequeue q' = indequeue q1" "readrequest q' = readrequest q1"
      using write_loop_blocked q1(4) by blast
    have "GetRawEnqueuePtr_loop env t c False q = GetRawEnqueuePtr_loop env t c False q1"
      using False up none assms q1(1)
      by (subst GetRawEnqueuePtr_loop.simps) (simp add: write_ptr [OF ok] writer_ok_def)
    moreover have "write_result q t r q'"
      using q'(4) q1(3,8) by (auto simp: write_result_def same_user_def split: outcome.splits)
    ultimately show ?thesis using q' q1 same_user_trans [OF q1(3) q'(3)] by auto
  qed
qed

section \<open>The two threads keep the invariant\<close>

lemma cpn_inv_thresh:
  assumes "cpn_inv env q"
  shows "\<not> indequeue q \<Longrightarrow> cpn_inv env (q\<lparr>dequeuethresh := t\<rparr>)"
    and "\<not> inenqueue q \<Longrightarrow> cpn_inv env (q\<lparr>enqueuethresh := t\<rparr>)"
proof -
  note D = cpn_invD [OF assms]
  show "cpn_inv env (q\<lparr>dequeuethresh := t\<rparr>)" if "\<not> indequeue q"
    using that D(1,3,4,6,7,9,10,11) by (cases "oldqueue q") (auto simp: cpn_inv_def)
  show "cpn_inv env (q\<lparr>enqueuethresh := t\<rparr>)" if "\<not> inenqueue q"
    using that D(1,3,5,6,7,9,10,12) by (cases "oldqueue q") (auto simp: cpn_inv_def)
qed

lemma mon_read_loop:
  assumes "mon_inv env q" and "\<not> terminated env" and "GrowQueueMaxThreshold env" and "\<not> indequeue q"
    and "t < 2 ^ 31" and "GetRawDequeuePtr_loop env t c (q\<lparr>dequeuethresh := t, readrequest := 0\<rparr>) = Some (r, q')"
  shows "mon_inv env q'"
proof -
  let ?q = "q\<lparr>dequeuethresh := t, readrequest := 0\<rparr>"
  have inv: "cpn_inv env ?q" using assms(1,4) cpn_inv_thresh(1) [of env q t] by (simp add: mon_inv_def)
  have "reader_ok env ?q t" using inv assms by (auto simp: reader_ok_def mon_inv_def)
  from read_loop_ok [OF this, of c] assms(6) have res: "cpn_inv env q'" "same_user ?q q'" "read_result ?q t r q'"
      "inenqueue q' = inenqueue q" "writerequest q' = writerequest q" by auto
  have su: "dequeuethresh q' = t" "enqueuethresh q' = enqueuethresh q" using res(2) by (simp_all add: same_user_def)
  have old: "writerequest q < 2 ^ 31" "writerequest q \<noteq> 0 \<longrightarrow> \<not> inenqueue q \<and> enqueuethresh q = writerequest q"
    using assms(1) by (auto simp: mon_inv_def)
  have "(readrequest q' = 0 \<or> readrequest q' = t \<and> \<not> indequeue q' \<and> \<not> WriteBlocked q')"
    using res(3) by (cases r) (auto simp: read_result_def split: option.splits)
  then show ?thesis using res(1,4,5) su old assms(5) by (auto simp: mon_inv_def ReadBlocked_def)
qed

lemma mon_write_loop:
  assumes "mon_inv env q" and "\<not> terminated env" and "GrowQueueMaxThreshold env" and "\<not> inenqueue q"
    and "t < 2 ^ 31" and "GetRawEnqueuePtr_loop env t c False (q\<lparr>enqueuethresh := t, writerequest := 0\<rparr>) = Some (r, q')"
  shows "mon_inv env q'"
proof -
  let ?q = "q\<lparr>enqueuethresh := t, writerequest := 0\<rparr>"
  have inv: "cpn_inv env ?q" using assms(1,4) cpn_inv_thresh(2) [of env q t] by (simp add: mon_inv_def)
  have "writer_ok env ?q t" using inv assms by (auto simp: writer_ok_def mon_inv_def)
  from write_loop_ok [OF this, of c] assms(6) have res: "cpn_inv env q'" "same_user ?q q'" "write_result ?q t r q'"
      "indequeue q' = indequeue q" "readrequest q' = readrequest q" by auto
  have su: "enqueuethresh q' = t" "dequeuethresh q' = dequeuethresh q" using res(2) by (simp_all add: same_user_def)
  have old: "readrequest q < 2 ^ 31" "readrequest q \<noteq> 0 \<longrightarrow> \<not> indequeue q \<and> dequeuethresh q = readrequest q"
    using assms(1) by (auto simp: mon_inv_def)
  have "(writerequest q' = 0 \<or> writerequest q' = t \<and> \<not> inenqueue q' \<and> \<not> ReadBlocked q')"
    using res(3) by (cases r) (auto simp: write_result_def)
  then show ?thesis using res(1,4,5) su old assms(5) by (auto simp: mon_inv_def WriteBlocked_def)
qed

lemma mon_step_inv:
  assumes "mon_step env ev q q'" and "mon_inv env q" and "\<not> terminated env" and "GrowQueueMaxThreshold env"
  shows "mon_inv env q'"
  using assms(1)
proof (cases rule: mon_step.cases)
  case (mon_get_read t c r)
  have eq: "q\<lparr>dequeuethresh := t, readrequest := 0\<rparr> = q\<lparr>dequeuethresh := t\<rparr>" using mon_get_read(2) by simp
  have "GetRawDequeuePtr_loop env t c (q\<lparr>dequeuethresh := t, readrequest := 0\<rparr>) = Some (r, q')"
    unfolding eq using mon_get_read assms(3) by (simp add: GetRawDequeuePtr_cpn_def)
  then show ?thesis using mon_read_loop [OF assms(2-4)] mon_get_read by blast
next
  case (mon_resume_read c r)
  have m: "\<not> indequeue q" "readrequest q < 2 ^ 31" "dequeuethresh q = readrequest q"
    using assms(2) mon_resume_read(2) by (auto simp: mon_inv_def)
  have eq: "q\<lparr>dequeuethresh := readrequest q, readrequest := 0\<rparr> = q\<lparr>readrequest := 0\<rparr>"
    using m(3) [symmetric] by simp
  have "ReadBlocked q \<and> q' = q \<or>
      GetRawDequeuePtr_loop env (readrequest q) c (q\<lparr>dequeuethresh := readrequest q, readrequest := 0\<rparr>) = Some (r, q')"
    unfolding eq using mon_resume_read(3) assms(3) by (auto simp: resume_read_def split: if_splits)
  then show ?thesis using assms(2) mon_read_loop [OF assms(2-4) m(1,2)] by blast
next
  case (mon_dequeue n)
  have c: "cpn_inv env q" "readrequest q = 0" using assms(2) mon_dequeue(2) by (auto simp: mon_inv_def)
  have "\<not> readshutdown q" using mon_dequeue(4) by (auto simp: Dequeue_cpn_def Let_def split: if_splits)
  moreover have "n \<le> Count_tqb (queue q)" using cpn_invD(5) [OF c(1) mon_dequeue(2)] mon_dequeue(3) by simp
  ultimately have "cpn_inv env q' \<and> \<not> indequeue q' \<and> inenqueue q' = inenqueue q \<and> readrequest q' = readrequest q \<and>
      writerequest q' = writerequest q \<and> enqueuethresh q' = enqueuethresh q"
    using Dequeue_cpn_ok [OF c(1), of n] mon_dequeue(4) by auto
  then show ?thesis using assms(2) c(2) by (simp add: mon_inv_def ReadBlocked_def)
next
  case (mon_get_write t c r)
  have eq: "q\<lparr>enqueuethresh := t, writerequest := 0\<rparr> = q\<lparr>enqueuethresh := t\<rparr>" using mon_get_write(2) by simp
  have "GetRawEnqueuePtr_loop env t c False (q\<lparr>enqueuethresh := t, writerequest := 0\<rparr>) = Some (r, q')"
    unfolding eq using mon_get_write assms(3) by (simp add: GetRawEnqueuePtr_cpn_def)
  then show ?thesis using mon_write_loop [OF assms(2-4)] mon_get_write by blast
next
  case (mon_resume_write c r)
  have m: "\<not> inenqueue q" "writerequest q < 2 ^ 31" "enqueuethresh q = writerequest q"
    using assms(2) mon_resume_write(2) by (auto simp: mon_inv_def)
  have eq: "q\<lparr>enqueuethresh := writerequest q, writerequest := 0\<rparr> = q\<lparr>writerequest := 0\<rparr>"
    using m(3) [symmetric] by simp
  have "WriteBlocked q \<and> q' = q \<or>
      GetRawEnqueuePtr_loop env (writerequest q) c False (q\<lparr>enqueuethresh := writerequest q, writerequest := 0\<rparr>) = Some (r, q')"
    unfolding eq using mon_resume_write(3) assms(3) by (auto simp: resume_write_def split: if_splits)
  then show ?thesis using assms(2) mon_write_loop [OF assms(2-4) m(1,2)] by blast
next
  case (mon_store c bs)
  have c: "cpn_inv env q" "writerequest q = 0" using assms(2) mon_store(3) by (auto simp: mon_inv_def)
  have "cpn_inv env q'" using client_store_ok(1) [OF c(1)] mon_store by simp
  then show ?thesis
    using assms(2) c(2) mon_store(2) by (simp add: mon_inv_def client_store_def Let_def WriteBlocked_def)
next
  case (mon_enqueue n)
  have c: "cpn_inv env q" "writerequest q = 0" using assms(2) mon_enqueue(2) by (auto simp: mon_inv_def)
  have "\<not> writeshutdown q" using mon_enqueue(4) by (auto simp: Enqueue_cpn_def Let_def split: if_splits)
  then have "cpn_inv env q' \<and> \<not> inenqueue q' \<and> indequeue q' = indequeue q \<and> readrequest q' = readrequest q \<and>
      writerequest q' = writerequest q \<and> dequeuethresh q' = dequeuethresh q"
    using Enqueue_cpn_ok [OF c(1) mon_enqueue(2,3)] mon_enqueue(4) by auto
  then show ?thesis using assms(2) c(2) by (simp add: mon_inv_def WriteBlocked_def)
next
  case mon_shutdown_reader
  have "cpn_inv env q'" using assms(2) by (cases "oldqueue q") (simp_all add: mon_inv_def cpn_inv_def ShutdownReader_def mon_shutdown_reader)
  then show ?thesis using assms(2) by (simp add: mon_inv_def ShutdownReader_def mon_shutdown_reader ReadBlocked_def)
next
  case mon_shutdown_writer
  have "cpn_inv env q'" using assms(2) by (cases "oldqueue q") (simp_all add: mon_inv_def cpn_inv_def ShutdownWriter_def mon_shutdown_writer)
  then show ?thesis using assms(2) by (simp add: mon_inv_def ShutdownWriter_def mon_shutdown_writer ReadBlocked_def)
qed

lemma mon_run_inv:
  assumes "mon_run env c q s r q'" and "mon_inv env q" and "\<not> terminated env" and "GrowQueueMaxThreshold env"
  shows "mon_inv env q'"
  using assms(1,2) by (induction rule: mon_run.induct) (auto intro: mon_step_inv [OF _ _ assms(3,4)])

lemma new_ThresholdQueue_inv:
  assumes "0 < pageSize env"
  shows "mon_inv env (new_ThresholdQueue env rk wk len thr nc hint)"
proof -
  have "growable (pageSize env) (queue (new_ThresholdQueue env rk wk len thr nc hint))"
    using assms by (simp add: new_ThresholdQueue_def new_tqb_attr_growable)
  moreover have "elementSize (queue (new_ThresholdQueue env rk wk len thr nc hint)) = 1"
    by (simp add: new_ThresholdQueue_def new_tqb_attr_def Let_def Reset_tqb_def clamp_sizes_eq tqb_init_def)
  ultimately show ?thesis
    by (simp add: mon_inv_def cpn_inv_def) (simp add: new_ThresholdQueue_def ReadBlocked_def)
qed

lemma read_loop_same:
  assumes "mon_inv env q" and "\<not> terminated env" and "GrowQueueMaxThreshold env" and "\<not> indequeue q"
    and "t < 2 ^ 31" and "GetRawDequeuePtr_loop env t c (q\<lparr>dequeuethresh := t, readrequest := 0\<rparr>) = Some (r, q')"
  shows "same_user (q\<lparr>dequeuethresh := t, readrequest := 0\<rparr>) q'"
proof -
  have "cpn_inv env (q\<lparr>dequeuethresh := t, readrequest := 0\<rparr>)"
    using assms(1,4) cpn_inv_thresh(1) [of env q t] by (simp add: mon_inv_def)
  then have "reader_ok env (q\<lparr>dequeuethresh := t, readrequest := 0\<rparr>) t"
    using assms by (auto simp: reader_ok_def mon_inv_def)
  from read_loop_ok [OF this, of c] assms(6) show ?thesis by auto
qed

lemma write_loop_same:
  assumes "mon_inv env q" and "\<not> terminated env" and "GrowQueueMaxThreshold env" and "\<not> inenqueue q"
    and "t < 2 ^ 31" and "GetRawEnqueuePtr_loop env t c False (q\<lparr>enqueuethresh := t, writerequest := 0\<rparr>) = Some (r, q')"
  shows "same_user (q\<lparr>enqueuethresh := t, writerequest := 0\<rparr>) q'"
proof -
  have "cpn_inv env (q\<lparr>enqueuethresh := t, writerequest := 0\<rparr>)"
    using assms(1,4) cpn_inv_thresh(2) [of env q t] by (simp add: mon_inv_def)
  then have "writer_ok env (q\<lparr>enqueuethresh := t, writerequest := 0\<rparr>) t"
    using assms by (auto simp: writer_ok_def mon_inv_def)
  from write_loop_ok [OF this, of c] assms(6) show ?thesis by auto
qed

lemma same_user_contents:
  "same_user (q\<lparr>dequeuethresh := t, readrequest := n\<rparr>) q' \<Longrightarrow> numChannels (queue q') = numChannels (queue q) \<and>
     (\<forall>c<numChannels (queue q). cpn_contents q' c = cpn_contents q c) \<and>
     (inenqueue q \<longrightarrow> (\<forall>c n. enq_window q' c n = enq_window q c n))"
  "same_user (q\<lparr>enqueuethresh := t, writerequest := n\<rparr>) q' \<Longrightarrow> numChannels (queue q') = numChannels (queue q) \<and>
     (\<forall>c<numChannels (queue q). cpn_contents q' c = cpn_contents q c)"
  by (simp_all add: same_user_def cpn_contents_def)

text \<open>What one step does to the contents of a channel, and to what the writer has behind its pointer.\<close>

lemma mon_step_stream:
  assumes "mon_step env ev q q'" and "mon_inv env q" and "\<not> terminated env" and "GrowQueueMaxThreshold env"
    and "c < numChannels (queue q)"
  shows "numChannels (queue q') = numChannels (queue q) \<and>
    cpn_contents q c @ sent_by ev q c = received_by ev q c @ cpn_contents q' c \<and>
    (inenqueue q \<longrightarrow> (\<forall>d bs. ev \<noteq> Stored d bs) \<longrightarrow> (\<forall>n. ev \<noteq> Enqueued n) \<longrightarrow> (\<forall>n. enq_window q' c n = enq_window q c n))"
  using assms(1)
proof (cases rule: mon_step.cases)
  case (mon_get_read t d r)
  have eq: "q\<lparr>dequeuethresh := t, readrequest := 0\<rparr> = q\<lparr>dequeuethresh := t\<rparr>" using mon_get_read(2) by simp
  have "GetRawDequeuePtr_loop env t d (q\<lparr>dequeuethresh := t, readrequest := 0\<rparr>) = Some (r, q')"
    unfolding eq using mon_get_read assms(3) by (simp add: GetRawDequeuePtr_cpn_def)
  from read_loop_same [OF assms(2-4) mon_get_read(3,5) this] show ?thesis
    using same_user_contents(1) assms(5) mon_get_read(1) by (simp add: sent_by_def received_by_def)
next
  case (mon_resume_read d r)
  have m: "\<not> indequeue q" "readrequest q < 2 ^ 31" "dequeuethresh q = readrequest q"
    using assms(2) mon_resume_read(2) by (auto simp: mon_inv_def)
  have eq: "q\<lparr>dequeuethresh := readrequest q, readrequest := 0\<rparr> = q\<lparr>readrequest := 0\<rparr>"
    using m(3) [symmetric] by simp
  have "q' = q \<or>
      GetRawDequeuePtr_loop env (readrequest q) d (q\<lparr>dequeuethresh := readrequest q, readrequest := 0\<rparr>) = Some (r, q')"
    unfolding eq using mon_resume_read(3) assms(3) by (auto simp: resume_read_def split: if_splits)
  then show ?thesis
  proof
    assume "GetRawDequeuePtr_loop env (readrequest q) d (q\<lparr>dequeuethresh := readrequest q, readrequest := 0\<rparr>) = Some (r, q')"
    from read_loop_same [OF assms(2-4) m(1,2) this] show ?thesis
      using same_user_contents(1) assms(5) mon_resume_read(1) by (simp add: sent_by_def received_by_def)
  qed (simp add: mon_resume_read(1) sent_by_def received_by_def)
next
  case (mon_dequeue n)
  have inv: "cpn_inv env q" using assms(2) by (simp add: mon_inv_def)
  have "\<not> readshutdown q" using mon_dequeue(4) by (auto simp: Dequeue_cpn_def Let_def split: if_splits)
  moreover have "n \<le> Count_tqb (queue q)" using cpn_invD(5) [OF inv mon_dequeue(2)] mon_dequeue(3) by simp
  ultimately show ?thesis
    using Dequeue_cpn_ok [OF inv, of n] mon_dequeue assms(5) deq_window_contents [OF inv mon_dequeue(2,3) assms(5)]
    by (auto simp: sent_by_def received_by_def)
next
  case (mon_get_write t d r)
  have eq: "q\<lparr>enqueuethresh := t, writerequest := 0\<rparr> = q\<lparr>enqueuethresh := t\<rparr>" using mon_get_write(2) by simp
  have "GetRawEnqueuePtr_loop env t d False (q\<lparr>enqueuethresh := t, writerequest := 0\<rparr>) = Some (r, q')"
    unfolding eq using mon_get_write assms(3) by (simp add: GetRawEnqueuePtr_cpn_def)
  from write_loop_same [OF assms(2-4) mon_get_write(3,5) this] show ?thesis
    using same_user_contents(2) assms(5) mon_get_write(1,3) by (simp add: sent_by_def received_by_def)
next
  case (mon_resume_write d r)
  have m: "\<not> inenqueue q" "writerequest q < 2 ^ 31" "enqueuethresh q = writerequest q"
    using assms(2) mon_resume_write(2) by (auto simp: mon_inv_def)
  have eq: "q\<lparr>enqueuethresh := writerequest q, writerequest := 0\<rparr> = q\<lparr>writerequest := 0\<rparr>"
    using m(3) [symmetric] by simp
  have "q' = q \<or>
      GetRawEnqueuePtr_loop env (writerequest q) d False (q\<lparr>enqueuethresh := writerequest q, writerequest := 0\<rparr>) = Some (r, q')"
    unfolding eq using mon_resume_write(3) assms(3) by (auto simp: resume_write_def split: if_splits)
  then show ?thesis
  proof
    assume "GetRawEnqueuePtr_loop env (writerequest q) d False
      (q\<lparr>enqueuethresh := writerequest q, writerequest := 0\<rparr>) = Some (r, q')"
    from write_loop_same [OF assms(2-4) m(1,2) this] show ?thesis
      using same_user_contents(2) assms(5) mon_resume_write(1) m(1) by (simp add: sent_by_def received_by_def)
  qed (simp add: mon_resume_write(1) m(1) sent_by_def received_by_def)
next
  case (mon_store d bs)
  have inv: "cpn_inv env q" using assms(2) by (simp add: mon_inv_def)
  show ?thesis
    using client_store_ok(2) [OF inv mon_store(3,5,4) assms(5)] client_store_ok(4) [OF inv mon_store(3,5,4)] mon_store
    by (simp add: sent_by_def received_by_def)
next
  case (mon_enqueue n)
  have inv: "cpn_inv env q" using assms(2) by (simp add: mon_inv_def)
  have "\<not> writeshutdown q" using mon_enqueue(4) by (auto simp: Enqueue_cpn_def Let_def split: if_splits)
  then show ?thesis
    using Enqueue_cpn_ok [OF inv mon_enqueue(2,3)] mon_enqueue assms(5)
    by (auto simp: sent_by_def received_by_def)
next
  case mon_shutdown_reader
  then show ?thesis by (simp add: sent_by_def received_by_def cpn_contents_def) (simp add: ShutdownReader_def)
next
  case mon_shutdown_writer
  then show ?thesis by (simp add: sent_by_def received_by_def cpn_contents_def) (simp add: ShutdownWriter_def)
qed

lemma mon_run_stream:
  assumes "mon_run env c q s r q'" and "mon_inv env q" and "\<not> terminated env" and "GrowQueueMaxThreshold env"
    and "c < numChannels (queue q)"
  shows "numChannels (queue q') = numChannels (queue q) \<and> cpn_contents q c @ s = r @ cpn_contents q' c"
  using assms(1)
proof (induction rule: mon_run.induct)
  case (mon_run_step s r q1 ev q2)
  have "mon_inv env q1" by (rule mon_run_inv [OF mon_run_step.hyps(1) assms(2-4)])
  from mon_step_stream [OF mon_run_step.hyps(2) this assms(3,4), of c] mon_run_step.IH assms(5)
  show ?case by (metis append.assoc)
qed simp

lemma new_ThresholdQueue_empty:
  assumes "0 < pageSize env"
  shows "numChannels (queue (new_ThresholdQueue env rk wk len thr nc hint)) = nc"
    and "cpn_contents (new_ThresholdQueue env rk wk len thr nc hint) c = []"
proof -
  let ?q0 = "(tqb_init 1 len thr nc (fresh env))\<lparr>maxThreshold := max 1 thr, queueLength := max len (max 1 thr)\<rparr>"
  have new: "queue (new_ThresholdQueue env rk wk len thr nc hint) =
      AllocateBuf (pageSize env) (fresh env) ?q0 (max len (max 1 thr)) (max 1 thr) nc hint"
    by (simp add: new_ThresholdQueue_def new_tqb_attr_def clamp_sizes_eq Let_def tqb_init_def Reset_tqb_def)
  show "numChannels (queue (new_ThresholdQueue env rk wk len thr nc hint)) = nc"
    unfolding new by (simp add: AllocateBuf_def Let_def Reset_tqb_def)
  have "0 < elementSize ?q0" "hint \<Longrightarrow> mbs_fits (pageSize env) ?q0 (max len (max 1 thr)) (max 1 thr) nc"
    using assms by (auto simp: tqb_init_def mbs_fits_def)
  note ok = AllocateBuf_ok [OF this refl, where fresh = "fresh env"]
  show "cpn_contents (new_ThresholdQueue env rk wk len thr nc hint) c = []"
    unfolding cpn_contents_def new using ok(3) by simp
qed

lemma mon_inv_get_read:
  assumes "mon_inv env q" and "readrequest q = 0" and "\<not> indequeue q" and "t < 2 ^ 31"
    and "\<not> terminated env" and "GrowQueueMaxThreshold env"
  shows "reader_ok env (q\<lparr>dequeuethresh := t\<rparr>) t"
  using assms cpn_inv_thresh(1) [of env q t] by (auto simp: reader_ok_def mon_inv_def)

lemma mon_inv_get_write:
  assumes "mon_inv env q" and "writerequest q = 0" and "\<not> inenqueue q" and "t < 2 ^ 31"
    and "\<not> terminated env" and "GrowQueueMaxThreshold env"
  shows "writer_ok env (q\<lparr>enqueuethresh := t\<rparr>) t"
  using assms cpn_inv_thresh(2) [of env q t] by (auto simp: writer_ok_def mon_inv_def)

lemma results_thresh [simp]:
  "read_result (q\<lparr>dequeuethresh := t\<rparr>) = read_result q" "write_result (q\<lparr>enqueuethresh := t\<rparr>) = write_result q"
  by (intro ext; simp add: read_result_def write_result_def split: outcome.split option.split)+

lemma event_bytes [simp]:
  "sent_by Moved q c = []" "sent_by (Stored d bs) q c = []" "sent_by (Dequeued n) q c = []"
  "sent_by (Enqueued n) q c = enq_window q c n" "received_by Moved q c = []" "received_by (Stored d bs) q c = []"
  "received_by (Enqueued n) q c = []" "received_by (Dequeued n) q c = deq_window q c n"
  by (simp_all add: sent_by_def received_by_def)

lemma demo_simps [simp]:
  "pageSize demo_env = 8" "GrowQueueMaxThreshold demo_env" "\<not> terminated demo_env"
  "readrequest demo_q = 0" "writerequest demo_q = 0" "\<not> indequeue demo_q" "\<not> inenqueue demo_q"
  "\<not> readshutdown demo_q" "\<not> writeshutdown demo_q"
  "queueLength (queue demo_q) = 4" "maxThreshold (queue demo_q) = 2" "Count_tqb (queue demo_q) = 0"
  "Freespace_tqb (queue demo_q) = 4"
  by (simp_all add: demo_env_def demo_q_def new_ThresholdQueue_def new_tqb_attr_def Let_def tqb_init_def
      clamp_sizes_def Reset_tqb_def AllocateBuf_def Count_tqb_def Freespace_tqb_def)

lemma demo_inv: "mon_inv demo_env demo_q" "numChannels (queue demo_q) = 1" "cpn_contents demo_q c = []"
  using new_ThresholdQueue_inv [of demo_env] new_ThresholdQueue_empty [of demo_env]
  by (simp_all add: demo_q_def)

lemma demo_write:
  "\<exists>p. GetRawEnqueuePtr_cpn demo_env demo_q 2 0 = Some (Returned p, demo_q\<lparr>enqueuethresh := 2, inenqueue := True\<rparr>)"
  "cpn_inv demo_env (demo_q\<lparr>enqueuethresh := 2, inenqueue := True\<rparr>)"
  using write_loop_return [OF mon_inv_get_write [OF demo_inv(1), of 2], of 0 False]
  by (auto simp: GetRawEnqueuePtr_cpn_def)

lemma demo_sent:
  "\<exists>q. mon_run demo_env 0 demo_q [7, 9] [] q \<and> mon_inv demo_env q \<and> cpn_contents q 0 = [7, 9] \<and> \<not> indequeue q \<and>
     readrequest q = 0"
proof -
  let ?q1 = "demo_q\<lparr>enqueuethresh := 2, inenqueue := True\<rparr>"
  obtain p where p: "GetRawEnqueuePtr_cpn demo_env demo_q 2 0 = Some (Returned p, ?q1)" using demo_write(1) by blast
  have s1: "mon_step demo_env Moved demo_q ?q1" by (rule mon_get_write [OF _ _ _ _ p]) simp_all
  have r1: "mon_run demo_env 0 demo_q [] [] ?q1" using mon_run_step [OF mon_run_start s1] by simp
  let ?q2 = "client_store ?q1 0 [7, 9]"
  note st = client_store_ok [OF demo_write(2), of "[7, 9]" 0]
  have s2: "mon_step demo_env (Stored 0 [7, 9]) ?q1 ?q2" by (rule mon_store) (simp_all add: demo_inv)
  have r2: "mon_run demo_env 0 demo_q [] [] ?q2" using mon_run_step [OF r1 s2] by simp
  have q2: "inenqueue ?q2" "enqueuethresh ?q2 = 2" "\<not> writeshutdown ?q2" "\<not> indequeue ?q2" "readrequest ?q2 = 0"
    by (simp_all add: client_store_def Let_def)
  have "cpn_inv demo_env ?q2" using st(1) demo_inv(2) by simp
  then obtain q3 where q3: "Enqueue_cpn ?q2 2 = Some (Inr q3)" "\<not> indequeue q3" "readrequest q3 = 0"
    using Enqueue_cpn_ok [OF _ q2(1), of demo_env 2] q2 by auto
  have s3: "mon_step demo_env (Enqueued 2) ?q2 q3" by (rule mon_enqueue [OF q2(1) _ q3(1)]) (simp add: q2)
  have "enq_window ?q2 0 2 = [7, 9]" using st(3) [of 0 2] demo_inv(2) by simp
  then have r3: "mon_run demo_env 0 demo_q [7, 9] [] q3" using mon_run_step [OF r2 s3] by simp
  then have "mon_inv demo_env q3" using mon_run_inv [OF r3 demo_inv(1)] by simp
  moreover have "cpn_contents q3 0 = [7, 9]" using mon_run_stream [OF r3 demo_inv(1)] demo_inv(2,3) by simp
  ultimately show ?thesis using r3 q3 by blast
qed

lemma read_spin_no_result:
  "GetRawDequeuePtr_loop env t c q = Some y \<Longrightarrow>
   \<not> (\<not> GrowQueueMaxThreshold env \<and> \<not> terminated env \<and> \<not> readshutdown q \<and> \<not> writeshutdown q \<and> \<not> dequeueUseOld q \<and>
      maxThreshold (queue q) < t \<and> t \<le> Count_tqb (queue q))"
proof (induction rule: GetRawDequeuePtr_loop.raw_induct [rotated 1, consumes 1])
  case (1 loop env t c q y)
  show ?case
  proof
    assume stuck: "\<not> GrowQueueMaxThreshold env \<and> \<not> terminated env \<and> \<not> readshutdown q \<and> \<not> writeshutdown q \<and>
      \<not> dequeueUseOld q \<and> maxThreshold (queue q) < t \<and> t \<le> Count_tqb (queue q)"
    then have "loop env t c (q\<lparr>readrequest := 0\<rparr>) = Some y"
      using 1(2) by (simp add: InternalGetRawDequeuePtr_def GetRawDequeuePtr_tqb_def ReadBlocked_def)
    from 1(1) [OF this] stuck show False by simp
  qed
qed

section \<open>Properties\<close>



text \<open>C2: with growing of queues enabled, a reader and a writer never wait for each other on one queue:
  no reachable state has the reader blocked for data and the writer blocked for space.\<close>

theorem cpn_no_mutual_block:
  assumes "0 < pageSize env" and "\<not> terminated env" and "GrowQueueMaxThreshold env"
    and "mon_run env c (new_ThresholdQueue env rkey wkey len maxThresh numChans hintThreshold) s r q"
  shows "\<not> (ReadBlocked q \<and> WriteBlocked q)"
  using mon_run_inv [OF assms(4) new_ThresholdQueue_inv [OF assms(1)] assms(2,3)] by (simp add: mon_inv_def)

theorem cpn_no_mutual_block_witness:
  "\<exists>q. mon_run demo_env 0 (new_ThresholdQueue demo_env 1 2 4 2 1 False) [7, 9] [] q \<and> \<not> (ReadBlocked q \<and> WriteBlocked q)"
  using demo_sent cpn_no_mutual_block [of demo_env 0 1 2 4 2 1 False "[7, 9]" "[]"] by (auto simp: demo_q_def)

text \<open>a call of \<open>GetRawDequeuePtr\<close> always comes to an end: with a pointer and the data behind it,
  with the null pointer when the writer has shut down, with an exception when the reader has, or
  waiting for data with the writer not waiting. The contents do not change.\<close>

theorem cpn_get_dequeue_ends:
  assumes "mon_inv env q" and "readrequest q = 0" and "\<not> indequeue q" and "thresh < 2 ^ 31"
    and "\<not> terminated env" and "GrowQueueMaxThreshold env"
  shows "\<exists>r q'. GetRawDequeuePtr_cpn env q thresh chan = Some (r, q') \<and> read_result q thresh r q' \<and>
    cpn_inv env q' \<and> (\<forall>c<numChannels (queue q). cpn_contents q' c = cpn_contents q c)"
proof -
  have "GetRawDequeuePtr_cpn env q thresh chan = GetRawDequeuePtr_loop env thresh chan (q\<lparr>dequeuethresh := thresh\<rparr>)"
    using assms(3,5) by (simp add: GetRawDequeuePtr_cpn_def)
  with read_loop_ok [OF mon_inv_get_read [OF assms], of chan] show ?thesis
    by (auto simp: same_user_def cpn_contents_def)
qed

text \<open>a call of \<open>GetRawEnqueuePtr\<close> always comes to an end: with a pointer and the space behind it,
  with an exception when either side has shut down, or waiting for space with the reader not
  waiting. The contents do not change.\<close>

theorem cpn_get_enqueue_ends:
  assumes "mon_inv env q" and "writerequest q = 0" and "\<not> inenqueue q" and "thresh < 2 ^ 31"
    and "\<not> terminated env" and "GrowQueueMaxThreshold env"
  shows "\<exists>r q'. GetRawEnqueuePtr_cpn env q thresh chan = Some (r, q') \<and> write_result q thresh r q' \<and>
    cpn_inv env q' \<and> (\<forall>c<numChannels (queue q). cpn_contents q' c = cpn_contents q c)"
proof -
  have "GetRawEnqueuePtr_cpn env q thresh chan = GetRawEnqueuePtr_loop env thresh chan False (q\<lparr>enqueuethresh := thresh\<rparr>)"
    using assms(3,5) by (simp add: GetRawEnqueuePtr_cpn_def)
  with write_loop_ok [OF mon_inv_get_write [OF assms], of chan] show ?thesis
    by (auto simp: same_user_def cpn_contents_def)
qed

text \<open>C16: growing a queue while the writer or the reader holds a pointer (not both) succeeds, reaches the
  asked size, and changes neither the contents nor the block the outstanding pointer shows.\<close>

theorem cpn_grow_outstanding:
  assumes "cpn_inv env q" and "\<not> (inenqueue q \<and> indequeue q)"
  shows "\<exists>q'. UnlockedGrow env q len thr = Some (Inr q') \<and> cpn_inv env q' \<and>
    max len (queueLength (queue q)) \<le> queueLength (queue q') \<and>
    max thr (maxThreshold (queue q)) \<le> maxThreshold (queue q') \<and>
    (\<forall>c<numChannels (queue q). cpn_contents q' c = cpn_contents q c \<and>
       (inenqueue q \<longrightarrow> (\<forall>n. enq_window q' c n = enq_window q c n)) \<and>
       (indequeue q \<longrightarrow> (\<forall>n\<le>dequeuethresh q. deq_window q' c n = deq_window q c n)))"
proof -
  obtain q' where q': "UnlockedGrow env q len thr = Some (Inr q')" "cpn_inv env q'"
      "same_user q q'" "indequeue q' = indequeue q"
      "len \<le> queueLength (queue q')" "thr \<le> maxThreshold (queue q')" "maxThreshold (queue q) \<le> maxThreshold (queue q')"
      "Freespace_tqb (queue q) \<le> Freespace_tqb (queue q')"
    by (rule grow_step [OF assms, of len thr])
  have "queueLength (queue q) \<le> queueLength (queue q')"
    using UnlockedGrow_ok [OF assms, of len thr] q'(1) by auto
  moreover have "indequeue q \<Longrightarrow> c < numChannels (queue q) \<Longrightarrow> n \<le> dequeuethresh q \<Longrightarrow> deq_window q' c n = deq_window q c n" for c n
    using deq_window_contents [OF q'(2), of n c] deq_window_contents [OF assms(1), of n c] q'(3,4)
    by (simp add: same_user_def)
  ultimately show ?thesis using q' by (auto simp: same_user_def)
qed

theorem cpn_grow_outstanding_witness:
  "inenqueue (demo_q\<lparr>enqueuethresh := 2, inenqueue := True\<rparr>) \<and>
   (\<exists>q'. UnlockedGrow demo_env (demo_q\<lparr>enqueuethresh := 2, inenqueue := True\<rparr>) 100 7 = Some (Inr q') \<and>
     100 \<le> queueLength (queue q'))"
  using cpn_grow_outstanding [OF demo_write(2), of 100 7] by auto

text \<open>whatever the reader does between the writer's stores and its \<open>Enqueue\<close>, also when it makes the
  queue grow, the writer finds behind its pointer what it stored there.\<close>

theorem cpn_writer_block_kept:
  assumes "mon_step env ev q q'" and "ev = Moved \<or> ev = Dequeued n" and "inenqueue q" and "c < numChannels (queue q)"
    and "mon_inv env q" and "\<not> terminated env" and "GrowQueueMaxThreshold env"
  shows "enq_window q' c k = enq_window q c k"
  using mon_step_stream [OF assms(1,5,6,7,4)] assms(2,3) by auto

text \<open>C22: with growing disabled, a reader that asks for more than the largest threshold while that much data
  is in the queue never returns: it does not wait either, but goes round its loop with the lock held.\<close>

theorem cpn_read_spins:
  assumes "\<not> GrowQueueMaxThreshold env" and "\<not> terminated env" and "\<not> readshutdown q" and "\<not> writeshutdown q"
    and "\<not> indequeue q" and "\<not> dequeueUseOld q" and "maxThreshold (queue q) < thresh" and "thresh \<le> Count_tqb (queue q)"
  shows "GetRawDequeuePtr_cpn env q thresh chan = None"
proof -
  have "GetRawDequeuePtr_cpn env q thresh chan = GetRawDequeuePtr_loop env thresh chan (q\<lparr>dequeuethresh := thresh\<rparr>)"
    using assms(2,5) by (simp add: GetRawDequeuePtr_cpn_def)
  with read_spin_no_result [of env thresh chan "q\<lparr>dequeuethresh := thresh\<rparr>"] assms show ?thesis
    by (cases "GetRawDequeuePtr_loop env thresh chan (q\<lparr>dequeuethresh := thresh\<rparr>)") auto
qed

theorem cpn_read_spins_witness:
  "GetRawDequeuePtr_cpn (demo_env\<lparr>GrowQueueMaxThreshold := False\<rparr>)
     (demo_q\<lparr>queue := Enqueue_tqb (Enqueue_tqb (queue demo_q) 2) 1\<rparr>) 3 0 = None"
proof -
  have inv: "tqb_inv (queue demo_q)" using demo_inv(1) cpn_invD(2) by (auto simp: mon_inv_def)
  have ss: "same_sizes (Enqueue_tqb (queue demo_q) 2) (queue demo_q)"
      "same_sizes (Enqueue_tqb (Enqueue_tqb (queue demo_q) 2) 1) (Enqueue_tqb (queue demo_q) 2)"
    by (rule same_sizes_Enqueue)+
  have c2: "tqb_inv (Enqueue_tqb (queue demo_q) 2)" "Count_tqb (Enqueue_tqb (queue demo_q) 2) = 2"
    using Enqueue_window(1,2) [OF inv, of 2] by simp_all
  have "Count_tqb (Enqueue_tqb (Enqueue_tqb (queue demo_q) 2) 1) = 3"
    using Enqueue_window(2) [OF c2(1), of 1] c2(2) ss(1) by (simp add: same_sizes_def Freespace_tqb_def)
  moreover have "maxThreshold (Enqueue_tqb (Enqueue_tqb (queue demo_q) 2) 1) = 2" using ss by (simp add: same_sizes_def)
  moreover have "\<not> dequeueUseOld demo_q" by (simp add: demo_q_def new_ThresholdQueue_def)
  ultimately show ?thesis
    using cpn_read_spins [of "demo_env\<lparr>GrowQueueMaxThreshold := False\<rparr>"
        "demo_q\<lparr>queue := Enqueue_tqb (Enqueue_tqb (queue demo_q) 2) 1\<rparr>" 3 0] by simp
qed

end
