(* ===== verification/Packet.thy ===== *)
theory Packet
  imports CircQueue
begin

text \<open>
  The wire protocol of remote queues: packet headers (libraries/CPN/PacketHeader.h, .cc), the
  buffered encoder (PacketEncoder.h, .cc) and the decoder (PacketDecoder.h, .cc). A header is 64
  bytes in memory order on the little-endian machines the library is built for; the unions of
  the C++ struct are one field here, read under several names. The virtual packet handlers are
  an argument of the functions that call them.
\<close>

section \<open>Little-endian bytes\<close>

primrec le_bytes :: "nat \<Rightarrow> nat \<Rightarrow> byte list" where
  "le_bytes 0 x = []"
| "le_bytes (Suc n) x = of_nat (x mod 256) # le_bytes n (x div 256)"

primrec of_le :: "byte list \<Rightarrow> nat" where
  "of_le [] = 0"
| "of_le (b # bs) = unat b + 256 * of_le bs"

section \<open>Packet headers\<close>

datatype PacketType_t =
    PACKET_ENQUEUE | PACKET_DEQUEUE | PACKET_READBLOCK | PACKET_WRITEBLOCK | PACKET_ENDOFWRITE
  | PACKET_ENDOFREAD | PACKET_GROW | PACKET_D4RTAG | PACKET_ID_READER | PACKET_ID_WRITER

definition PACKET_SYNCWORD :: "32 word" where "PACKET_SYNCWORD = 0xF1F0C0DE"
definition PACKET_HEADERLENGTH :: nat where "PACKET_HEADERLENGTH = 64"

fun type_code :: "PacketType_t \<Rightarrow> 32 word" where
  "type_code PACKET_ENQUEUE = 0" | "type_code PACKET_DEQUEUE = 1" | "type_code PACKET_READBLOCK = 2"
| "type_code PACKET_WRITEBLOCK = 3" | "type_code PACKET_ENDOFWRITE = 4" | "type_code PACKET_ENDOFREAD = 5"
| "type_code PACKET_GROW = 6" | "type_code PACKET_D4RTAG = 7" | "type_code PACKET_ID_READER = 8"
| "type_code PACKET_ID_WRITER = 9"

record PacketHeader =
  syncWord :: "32 word"
  dataLength :: "32 word"
  dataType :: "32 word"
  requested :: "32 word"
  readclock :: "64 word"
  writeclock :: "64 word"
  queueSize :: "32 word"
  pad :: "byte list"

text \<open>The other names of the union members.\<close>

definition maxThresh :: "PacketHeader \<Rightarrow> 32 word" where "maxThresh = requested"
definition pkt_count :: "PacketHeader \<Rightarrow> 32 word" where "pkt_count = requested"
definition srckey :: "PacketHeader \<Rightarrow> 64 word" where "srckey = readclock"
definition dstkey :: "PacketHeader \<Rightarrow> 64 word" where "dstkey = writeclock"

definition ValidPacket :: "PacketHeader \<Rightarrow> bool" where
  "ValidPacket ph \<longleftrightarrow> syncWord ph = PACKET_SYNCWORD"

definition InitPacket :: "32 word \<Rightarrow> PacketType_t \<Rightarrow> PacketHeader" where
  "InitPacket datalen type =
     \<lparr>syncWord = PACKET_SYNCWORD, dataLength = datalen, dataType = type_code type, requested = 0,
      readclock = 0, writeclock = 0, queueSize = 0, pad = replicate 28 0\<rparr>"

text \<open>The 64 bytes of a header, and a header read from 64 bytes.\<close>

definition header_bytes :: "PacketHeader \<Rightarrow> byte list" where
  "header_bytes ph =
     le_bytes 4 (unat (syncWord ph)) @ le_bytes 4 (unat (dataLength ph)) @ le_bytes 4 (unat (dataType ph)) @
     le_bytes 4 (unat (requested ph)) @ le_bytes 8 (unat (readclock ph)) @ le_bytes 8 (unat (writeclock ph)) @
     le_bytes 4 (unat (queueSize ph)) @ pad ph"

definition header_of :: "byte list \<Rightarrow> PacketHeader" where
  "header_of bs =
     \<lparr>syncWord = of_nat (of_le (take 4 bs)), dataLength = of_nat (of_le (take 4 (drop 4 bs))),
      dataType = of_nat (of_le (take 4 (drop 8 bs))), requested = of_nat (of_le (take 4 (drop 12 bs))),
      readclock = of_nat (of_le (take 8 (drop 16 bs))), writeclock = of_nat (of_le (take 8 (drop 24 bs))),
      queueSize = of_nat (of_le (take 4 (drop 32 bs))), pad = drop 36 bs\<rparr>"

section \<open>Dispatch\<close>

definition type_of_code :: "32 word \<Rightarrow> PacketType_t option" where
  "type_of_code t =
    (if t = 0 then Some PACKET_ENQUEUE else if t = 1 then Some PACKET_DEQUEUE
     else if t = 2 then Some PACKET_READBLOCK else if t = 3 then Some PACKET_WRITEBLOCK
     else if t = 4 then Some PACKET_ENDOFWRITE else if t = 5 then Some PACKET_ENDOFREAD
     else if t = 6 then Some PACKET_GROW else if t = 7 then Some PACKET_D4RTAG
     else if t = 8 then Some PACKET_ID_READER else if t = 9 then Some PACKET_ID_WRITER else None)"

type_synonym 's handlers = "PacketType_t \<Rightarrow> PacketHeader \<Rightarrow> 's \<Rightarrow> cpn_error + 's"

definition FirePacket :: "'s handlers \<Rightarrow> PacketHeader \<Rightarrow> 's \<Rightarrow> cpn_error + 's" where
  "FirePacket h ph s =
     ASSERT (ValidPacket ph)
       (case type_of_code (dataType ph) of
          Some t \<Rightarrow> h t ph s
        | None \<Rightarrow> Inl AssertException)"

section \<open>Decoder\<close>

record PacketDecoder =
  dec_header :: "byte list"
  numbytes :: nat

definition new_PacketDecoder :: PacketDecoder where
  "new_PacketDecoder = \<lparr>dec_header = replicate 64 0, numbytes = 0\<rparr>"

text \<open>The number of bytes wanted; they go to position \<open>numbytes\<close> of the header.\<close>

definition GetDecoderBytes :: "PacketDecoder \<Rightarrow> cpn_error + nat" where
  "GetDecoderBytes d = (let amount = PACKET_HEADERLENGTH - numbytes d in ASSERT (amount \<noteq> 0) (Inr amount))"

text \<open>The result is the decoder, the state of the handlers and what was thrown, if anything.\<close>

definition ReleaseDecoderBytes ::
  "'s handlers \<Rightarrow> PacketDecoder \<Rightarrow> nat \<Rightarrow> 's \<Rightarrow> PacketDecoder \<times> 's \<times> cpn_error option" where
  "ReleaseDecoderBytes h d amount s =
    (if \<not> numbytes d + amount \<le> PACKET_HEADERLENGTH then (d, s, Some AssertException)
     else
       let d1 = d\<lparr>numbytes := numbytes d + amount\<rparr>
       in if numbytes d1 = PACKET_HEADERLENGTH then
            (if ValidPacket (header_of (dec_header d1))
             then (case FirePacket h (header_of (dec_header d1)) s of
                     Inl e \<Rightarrow> (d1, s, Some e)
                   | Inr s' \<Rightarrow> (d1\<lparr>numbytes := 0\<rparr>, s', None))
             else let n = numbytes d1 - 1
                  in (d1\<lparr>numbytes := n, dec_header := take n (drop 1 (dec_header d1)) @ drop n (dec_header d1)\<rparr>,
                      s, None))
          else (d1, s, None))"

definition Reset_decoder :: "PacketDecoder \<Rightarrow> PacketDecoder" where
  "Reset_decoder d = d\<lparr>numbytes := 0\<rparr>"

text \<open>
  A client that receives \<open>bs\<close>: it stores the block where \<open>GetDecoderBytes\<close> points to, then
  releases it. \<open>decode_chunks\<close> feeds a stream in blocks of the given sizes, each cut to what the
  decoder wants, until all sizes are used.
\<close>

definition receive :: "'s handlers \<Rightarrow> PacketDecoder \<Rightarrow> byte list \<Rightarrow> 's \<Rightarrow> PacketDecoder \<times> 's \<times> cpn_error option" where
  "receive h d bs s =
     ReleaseDecoderBytes h (d\<lparr>dec_header := take (numbytes d) (dec_header d) @ bs @
        drop (numbytes d + length bs) (dec_header d)\<rparr>) (length bs) s"

fun decode_chunks ::
  "'s handlers \<Rightarrow> nat list \<Rightarrow> PacketDecoder \<Rightarrow> byte list \<Rightarrow> 's \<Rightarrow> (cpn_error + PacketDecoder \<times> 's) \<times> byte list" where
  "decode_chunks h [] d bs s = (Inr (d, s), bs)"
| "decode_chunks h (n # ns) d bs s =
    (case GetDecoderBytes d of
       Inl e \<Rightarrow> (Inl e, bs)
     | Inr amount \<Rightarrow>
        let k = min n amount
        in (case receive h d (take k bs) s of
              (d', s', Some e) \<Rightarrow> (Inl e, drop k bs)
            | (d', s', None) \<Rightarrow> decode_chunks h ns d' (drop k bs) s'))"

section \<open>Encoder\<close>

type_synonym iovec = "byte list"

text \<open>The blocks \<open>SendPacket\<close> passes to \<open>WriteBytes\<close>, without and with data.\<close>

definition SendPacket_iov :: "PacketHeader \<Rightarrow> iovec list" where
  "SendPacket_iov ph = [header_bytes ph]"

definition SendPacket_data_iov :: "PacketHeader \<Rightarrow> byte mem \<Rightarrow> iovec list" where
  "SendPacket_data_iov ph data = [header_bytes ph, read_block id data 0 (unat (dataLength ph))]"

definition new_BufferedPacketEncoder :: cqueue where
  "new_BufferedPacketEncoder = new_CircularQueue 4092 4092 1"

definition BytesReady :: "cqueue \<Rightarrow> bool" where
  "BytesReady cbuff \<longleftrightarrow> Count_cq cbuff > 0"

definition bytes_mem :: "byte list \<Rightarrow> byte mem" where
  "bytes_mem bs = (\<lambda>i. if i < length bs then bs ! i else 0)"

text \<open>The retry loop for one block of \<open>WriteBytes\<close>: \<open>None\<close> when it does not end.\<close>

partial_function (option) write_iov :: "iovec \<Rightarrow> cqueue \<Rightarrow> (cpn_error + cqueue) option" where
  "write_iov bs cbuff =
    (case RawEnqueue_cq (bytes_mem bs) (length bs) 1 0 cbuff of
       None \<Rightarrow> None
     | Some (Inl e) \<Rightarrow> Some (Inl e)
     | Some (Inr (ok, cbuff')) \<Rightarrow>
        if ok then Some (Inr cbuff')
        else (case Grow_cq cbuff' (Count_cq cbuff' + length bs) (length bs) of
           None \<Rightarrow> None
         | Some (Inl e) \<Rightarrow> Some (Inl e)
         | Some (Inr cbuff'') \<Rightarrow> write_iov bs cbuff''))"

fun WriteBytes :: "iovec list \<Rightarrow> cqueue \<Rightarrow> (cpn_error + cqueue) option" where
  "WriteBytes [] cbuff = Some (Inr cbuff)"
| "WriteBytes (bs # iovs) cbuff =
    (case write_iov bs cbuff of
       None \<Rightarrow> None
     | Some (Inl e) \<Rightarrow> Some (Inl e)
     | Some (Inr cbuff') \<Rightarrow> WriteBytes iovs cbuff')"

text \<open>The encoded bytes offered to the transport: the amount, the block and the encoder.\<close>

definition GetEncodedBytes :: "cqueue \<Rightarrow> nat \<Rightarrow> (cpn_error + nat \<times> byte list \<times> cqueue) option" where
  "GetEncodedBytes cbuff amount0 =
    (let amount1 = (if amount0 = 0 then cq_maxThreshold cbuff else amount0);
         amount = (if Count_cq cbuff < amount1 then Count_cq cbuff else amount1)
     in case (if cq_maxThreshold cbuff < amount then Grow_cq cbuff 0 amount else Some (Inr cbuff)) of
          None \<Rightarrow> None
        | Some (Inl e) \<Rightarrow> Some (Inl e)
        | Some (Inr q) \<Rightarrow>
           (case GetRawDequeuePtr_cq q amount 0 of
              (None, q') \<Rightarrow> Some (Inr (amount, [], q'))
            | (Some p, q') \<Rightarrow> Some (Inr (amount, read_block id (cq_buffer q') p amount, q'))))"

definition ReleaseEncodedBytes :: "cqueue \<Rightarrow> nat \<Rightarrow> cpn_error + cqueue" where
  "ReleaseEncodedBytes cbuff amount = Dequeue_cq cbuff amount"

section \<open>What the decoder does to a byte stream\<close>

text \<open>
  The abstract decoder: at the front of the stream either a valid header is a packet, or one byte
  is skipped; less than a header is left over.
\<close>

function scan :: "byte list \<Rightarrow> PacketHeader list \<times> byte list" where
  "scan bs =
    (if length bs < 64 then ([], bs)
     else if ValidPacket (header_of (take 64 bs)) then map_prod (Cons (header_of (take 64 bs))) id (scan (drop 64 bs))
     else scan (drop 1 bs))"
  by pat_completeness auto
termination
  by (relation "measure length") auto

declare scan.simps [simp del]

fun fire_all :: "'s handlers \<Rightarrow> PacketHeader list \<Rightarrow> 's \<Rightarrow> cpn_error + 's" where
  "fire_all h [] s = Inr s"
| "fire_all h (p # ps) s = (case FirePacket h p s of Inl e \<Rightarrow> Inl e | Inr s' \<Rightarrow> fire_all h ps s')"

text \<open>The bytes the decoder holds.\<close>

definition held :: "PacketDecoder \<Rightarrow> byte list" where
  "held d = take (numbytes d) (dec_header d)"

definition decoder_inv :: "PacketDecoder \<Rightarrow> bool" where
  "decoder_inv d \<longleftrightarrow> length (dec_header d) = 64 \<and> numbytes d < 64"

definition header_ok :: "PacketHeader \<Rightarrow> bool" where
  "header_ok ph \<longleftrightarrow> ValidPacket ph \<and> length (pad ph) = 28"

definition enc_inv :: "cqueue \<Rightarrow> bool" where
  "enc_inv q \<longleftrightarrow> cq_inv q \<and> cq_numChannels q = 1"

text \<open>The one case in which the retry loop grows the buffer in vain.\<close>

definition stuck :: "cqueue \<Rightarrow> nat \<Rightarrow> bool" where
  "stuck q len \<longleftrightarrow> Count_cq q + len = cq_queueLength q \<and> len \<le> cq_maxThreshold q"

section \<open>Header round trips\<close>

lemma length_le_bytes [simp]: "length (le_bytes n x) = n"
  by (induction n arbitrary: x) auto

lemma of_le_le_bytes: "of_le (le_bytes n x) = x mod 256 ^ n"
proof (induction n arbitrary: x)
  case (Suc n)
  have "unat (of_nat (x mod 256) :: byte) = x mod 256"
    by (simp add: unat_of_nat)
  with Suc show ?case by (simp add: mod_mult2_eq)
qed simp

lemma of_le_less: "of_le bs < 256 ^ length bs"
proof (induction bs)
  case (Cons b bs)
  have "unat b < 256" using unsigned_less [of b] by simp
  with Cons show ?case by simp
qed simp

lemma le_bytes_of_le: "length bs = n \<Longrightarrow> le_bytes n (of_le bs) = bs"
proof (induction bs arbitrary: n)
  case (Cons b bs)
  have b: "unat b < 256" using unsigned_less [of b] by simp
  with Cons show ?case by (cases n) (auto simp: mod_mult_self3)
qed simp

lemma le_word_roundtrip:
  "of_nat (of_le (le_bytes 4 (unat (w :: 32 word)))) = w" "of_nat (of_le (le_bytes 8 (unat (v :: 64 word)))) = v"
proof -
  have "unat w < 2 ^ 32" "unat v < 2 ^ 64" using unsigned_less [of w] unsigned_less [of v] by simp_all
  then show "of_nat (of_le (le_bytes 4 (unat w))) = w" "of_nat (of_le (le_bytes 8 (unat v))) = v"
    by (simp_all add: of_le_le_bytes)
qed

lemma le_bytes_word:
  assumes "length bs = n"
  shows "n = 4 \<Longrightarrow> le_bytes 4 (unat (of_nat (of_le bs) :: 32 word)) = bs"
    and "n = 8 \<Longrightarrow> le_bytes 8 (unat (of_nat (of_le bs) :: 64 word)) = bs"
  using of_le_less [of bs] le_bytes_of_le [of bs] assms by (simp_all add: unat_of_nat)

lemma header_of_header_bytes: "length (pad ph) = 28 \<Longrightarrow> header_of (header_bytes ph) = ph"
  by (simp add: header_of_def header_bytes_def le_word_roundtrip)

lemma length_header_bytes: "length (pad ph) = 28 \<Longrightarrow> length (header_bytes ph) = 64"
  by (simp add: header_bytes_def)

lemma header_bytes_header_of:
  assumes "length bs = 64"
  shows "header_bytes (header_of bs) = bs"
proof -
  have parts: "take 4 bs @ take 4 (drop 4 bs) @ take 4 (drop 8 bs) @ take 4 (drop 12 bs) @ take 8 (drop 16 bs) @
      take 8 (drop 24 bs) @ take 4 (drop 32 bs) @ drop 36 bs = bs"
    using append_take_drop_id [of 4 bs] append_take_drop_id [of 4 "drop 4 bs"] append_take_drop_id [of 4 "drop 8 bs"]
      append_take_drop_id [of 4 "drop 12 bs"] append_take_drop_id [of 8 "drop 16 bs"]
      append_take_drop_id [of 8 "drop 24 bs"] append_take_drop_id [of 4 "drop 32 bs"]
    by (simp only: drop_drop) simp
  show ?thesis
    using assms parts by (simp add: header_of_def header_bytes_def le_bytes_word)
qed

section \<open>Scanning a stream\<close>

lemma scan_short: "length bs < 64 \<Longrightarrow> scan bs = ([], bs)"
  by (subst scan.simps) simp

lemma scan_valid:
  "length xs = 64 \<Longrightarrow> ValidPacket (header_of xs) \<Longrightarrow> scan (xs @ ys) = map_prod (Cons (header_of xs)) id (scan ys)"
  by (subst scan.simps) simp

lemma scan_invalid:
  "64 \<le> length bs \<Longrightarrow> \<not> ValidPacket (header_of (take 64 bs)) \<Longrightarrow> scan bs = scan (drop 1 bs)"
  by (subst scan.simps) simp

lemma scan_left_short: "length (snd (scan bs)) < 64"
  by (induction bs rule: scan.induct) (subst scan.simps, auto)

lemma scan_append:
  "scan (xs @ ys) = map_prod (append (fst (scan xs))) id (scan (snd (scan xs) @ ys))"
proof (induction xs rule: scan.induct)
  case (1 xs)
  show ?case
  proof (cases "length xs < 64")
    case True
    then show ?thesis by (simp add: scan_short map_prod_def split: prod.split)
  next
    case False
    let ?a = "take 64 xs" and ?b = "drop 64 xs"
    have ab: "xs = ?a @ ?b" "length ?a = 64" using False by auto
    show ?thesis
    proof (cases "ValidPacket (header_of ?a)")
      case True
      have "scan (xs @ ys) = map_prod (Cons (header_of ?a)) id (scan (?b @ ys))"
        using scan_valid [OF ab(2) True, of "?b @ ys"] ab(1) by (metis append.assoc)
      moreover have "scan xs = map_prod (Cons (header_of ?a)) id (scan ?b)"
        using scan_valid [OF ab(2) True, of ?b] ab(1) by metis
      ultimately show ?thesis
        using 1(1) [OF False True] by (simp add: map_prod_def split: prod.split)
    next
      case invalid: False
      have "scan xs = scan (drop 1 xs)" "scan (xs @ ys) = scan (drop 1 xs @ ys)"
        using scan_invalid [of xs] scan_invalid [of "xs @ ys"] False invalid by simp_all
      then show ?thesis using 1(2) [OF False invalid] by simp
    qed
  qed
qed

lemma fire_all_append:
  "fire_all h (ps @ qs) s = (case fire_all h ps s of Inl e \<Rightarrow> Inl e | Inr s' \<Rightarrow> fire_all h qs s')"
  by (induction ps arbitrary: s) (auto split: sum.split)

section \<open>The decoder implements the scanner\<close>

lemma GetDecoderBytes_ok: "decoder_inv d \<Longrightarrow> GetDecoderBytes d = Inr (64 - numbytes d)"
  by (simp add: GetDecoderBytes_def decoder_inv_def PACKET_HEADERLENGTH_def Let_def)

lemma receive_ok:
  assumes "decoder_inv d" and "numbytes d + length bs \<le> 64" and "receive h d bs s = (d', s', r)"
  shows "(case r of None \<Rightarrow> decoder_inv d' \<and> fire_all h (fst (scan (held d @ bs))) s = Inr s' \<and>
                    held d' = snd (scan (held d @ bs))
          | Some e \<Rightarrow> fire_all h (fst (scan (held d @ bs))) s = Inl e)"
proof -
  define B where "B = held d @ bs"
  define hb where "hb = B @ drop (length B) (dec_header d)"
  have len: "length B = numbytes d + length bs" "length hb = 64" "length B \<le> 64"
    using assms(1,2) by (auto simp: B_def hb_def held_def decoder_inv_def)
  have rel: "receive h d bs s = ReleaseDecoderBytes h (d\<lparr>dec_header := hb\<rparr>) (length bs) s"
    using assms(1) len(1) by (simp add: receive_def hb_def B_def held_def decoder_inv_def)
  have "case r of None \<Rightarrow> decoder_inv d' \<and> fire_all h (fst (scan B)) s = Inr s' \<and> held d' = snd (scan B)
        | Some e \<Rightarrow> fire_all h (fst (scan B)) s = Inl e"
  proof (cases "length B < 64")
    case True
    then have "d' = d\<lparr>dec_header := hb, numbytes := length B\<rparr>" "s' = s" "r = None"
      using assms(3) rel len by (auto simp: ReleaseDecoderBytes_def PACKET_HEADERLENGTH_def Let_def)
    with True len scan_short [OF True] show ?thesis
      by (simp add: decoder_inv_def held_def hb_def)
  next
    case False
    then have hb: "hb = B" "length B = 64" "numbytes d + length bs = 64"
      using len assms(1) by (auto simp: hb_def decoder_inv_def)
    show ?thesis
    proof (cases "ValidPacket (header_of B)")
      case True
      have "scan B = ([header_of B], [])"
        using scan_valid [OF hb(2) True, of "[]"] by (simp add: scan_short)
      then show ?thesis
        using assms(3) rel True hb len
        by (auto simp: ReleaseDecoderBytes_def PACKET_HEADERLENGTH_def Let_def decoder_inv_def held_def
            split: sum.splits)
    next
      case invalid: False
      have "scan B = ([], drop 1 B)"
        using scan_invalid [of B] invalid hb(2) by (simp add: scan_short)
      then show ?thesis
        using assms(3) rel invalid hb len
        by (auto simp: ReleaseDecoderBytes_def PACKET_HEADERLENGTH_def Let_def decoder_inv_def held_def)
    qed
  qed
  then show ?thesis by (simp only: B_def)
qed

lemma decode_chunks_scan:
  assumes "decoder_inv d" and "decode_chunks h ns d bs s = (r, rest)"
  shows "\<exists>bs0. bs = bs0 @ rest \<and>
    (case r of Inl e \<Rightarrow> fire_all h (fst (scan (held d @ bs0))) s = Inl e
     | Inr (d', s') \<Rightarrow> decoder_inv d' \<and> fire_all h (fst (scan (held d @ bs0))) s = Inr s' \<and>
                      held d' = snd (scan (held d @ bs0)) \<and>
                      (bs0 = bs \<or> \<not> (\<forall>n\<in>set ns. 1 \<le> n) \<or> length ns \<le> length bs0))"
  using assms
proof (induction ns arbitrary: d bs s)
  case Nil
  have "length (held d) < 64" using Nil(1) by (simp add: held_def decoder_inv_def)
  with Nil show ?case by (auto intro!: exI [of _ "[]"] simp: scan_short)
next
  case (Cons n ns)
  let ?k = "min n (64 - numbytes d)"
  let ?b = "take ?k bs"
  obtain d1 s1 r1 where rcv: "receive h d ?b s = (d1, s1, r1)" by (metis prod_cases3)
  have fits: "numbytes d + length ?b \<le> 64" using Cons.prems(1) by (auto simp: decoder_inv_def)
  note step = receive_ok [OF Cons.prems(1) fits rcv]
  show ?case
  proof (cases r1)
    case (Some e)
    then have "r = Inl e" "rest = drop ?k bs"
      using Cons.prems rcv by (auto simp: GetDecoderBytes_ok Let_def)
    with step Some show ?thesis by (intro exI [of _ ?b]) simp
  next
    case None
    then have run: "decode_chunks h ns d1 (drop ?k bs) s1 = (r, rest)"
      using Cons.prems rcv by (auto simp: GetDecoderBytes_ok Let_def)
    have s: "decoder_inv d1" "fire_all h (fst (scan (held d @ ?b))) s = Inr s1" "held d1 = snd (scan (held d @ ?b))"
      using step None by auto
    obtain bs1 where IH: "drop ?k bs = bs1 @ rest"
      "case r of Inl e \<Rightarrow> fire_all h (fst (scan (held d1 @ bs1))) s1 = Inl e
       | Inr (d', s') \<Rightarrow> decoder_inv d' \<and> fire_all h (fst (scan (held d1 @ bs1))) s1 = Inr s' \<and>
           held d' = snd (scan (held d1 @ bs1)) \<and>
           (bs1 = drop ?k bs \<or> \<not> (\<forall>n\<in>set ns. 1 \<le> n) \<or> length ns \<le> length bs1)"
      using Cons.IH [OF s(1) run] by blast
    have bs: "bs = (?b @ bs1) @ rest" using IH(1) by (metis append.assoc append_take_drop_id)
    have sc: "scan (held d @ ?b @ bs1) = map_prod (append (fst (scan (held d @ ?b)))) id (scan (held d1 @ bs1))"
      using scan_append [of "held d @ ?b" bs1] s(3) by simp
    have fire: "fire_all h (fst (scan (held d @ ?b @ bs1))) s = fire_all h (fst (scan (held d1 @ bs1))) s1"
      using sc s(2) by (simp add: fire_all_append)
    have prog: "?b @ bs1 = bs \<or> \<not> (\<forall>n\<in>set (n # ns). 1 \<le> n) \<or> length (n # ns) \<le> length (?b @ bs1)"
      if "bs1 = drop ?k bs \<or> \<not> (\<forall>n\<in>set ns. 1 \<le> n) \<or> length ns \<le> length bs1"
    proof (cases "bs1 = drop ?k bs")
      case False
      then have "bs1 @ rest \<noteq> []" using IH(1) by auto
      then have "?k \<le> length bs" using IH(1) by (metis drop_all nat_le_linear)
      then have "1 \<le> n \<Longrightarrow> 1 \<le> length ?b" using Cons.prems(1) by (auto simp: decoder_inv_def)
      with False that show ?thesis by auto
    qed simp
    have "snd (scan (held d @ ?b @ bs1)) = snd (scan (held d1 @ bs1))" using sc by simp
    with IH(2) fire prog bs show ?thesis
      by (intro exI [of _ "?b @ bs1"]) (auto split: sum.splits)
  qed
qed

lemma scan_packets:
  "\<forall>p\<in>set ps. header_ok p \<Longrightarrow> scan (concat (map header_bytes ps)) = (ps, [])"
proof (induction ps)
  case Nil
  then show ?case by (simp add: scan_short)
next
  case (Cons p ps)
  then have "header_ok p" by simp
  then have "length (header_bytes p) = 64" "header_of (header_bytes p) = p" "ValidPacket p"
    by (auto simp: header_ok_def length_header_bytes header_of_header_bytes)
  with Cons show ?case by (simp add: scan_valid)
qed

text \<open>Garbage before the first packet is skipped when it does not imitate the start of a header.\<close>

lemma scan_garbage:
  assumes "\<And>i. i < length g \<Longrightarrow> 64 \<le> length (drop i g @ bs) \<Longrightarrow> \<not> ValidPacket (header_of (take 64 (drop i g @ bs)))"
    and "64 \<le> length bs"
  shows "scan (g @ bs) = scan bs"
  using assms
proof (induction g)
  case (Cons x g)
  have "\<not> ValidPacket (header_of (take 64 ((x # g) @ bs)))" using Cons.prems(1) [of 0] Cons.prems(2) by simp
  then have "scan ((x # g) @ bs) = scan (g @ bs)" using scan_invalid [of "(x # g) @ bs"] Cons.prems(2) by simp
  moreover have "scan (g @ bs) = scan bs"
    using Cons.prems(1) [of "Suc _"] Cons.prems(2) by (intro Cons.IH) (metis Suc_less_eq drop_Suc_Cons length_Cons)+
  ultimately show ?case by simp
qed simp

section \<open>The encoder\<close>

lemma read_bytes_mem: "read_block id (bytes_mem bs) 0 (length bs) = bs"
  by (rule nth_equalityI) (simp_all add: bytes_mem_def)

lemma RawEnqueue_enc:
  assumes "enc_inv q" and "length bs \<le> Freespace_cq q"
  shows "\<exists>q'. RawEnqueue_cq (bytes_mem bs) (length bs) 1 0 q = Some (Inr (True, q')) \<and> enc_inv q' \<and>
    Count_cq q' = Count_cq q + length bs \<and> cq_contents q' 0 = cq_contents q 0 @ bs \<and>
    cq_queueLength q' = cq_queueLength q \<and> cq_maxThreshold q' = cq_maxThreshold q"
proof -
  have inv: "cq_inv q" "(1::nat) = cq_numChannels q" using assms(1) by (auto simp: enc_inv_def)
  obtain q' where "RawEnqueue_loop (bytes_mem bs) (length bs) 1 0 0 q = Some (Inr q')" "cq_inv q'"
      "Count_cq q' = Count_cq q + (length bs - 0)" "cq_numChannels q' = cq_numChannels q"
      "cq_queueLength q' = cq_queueLength q" "cq_maxThreshold q' = cq_maxThreshold q"
      "\<forall>c<cq_numChannels q. cq_contents q' c = cq_contents q c @ read_block id (bytes_mem bs) (0 * c + 0) (length bs - 0)"
    using RawEnqueue_loop_ok [OF inv(1) _ _ inv(2), of 0 "length bs" "bytes_mem bs" 0] assms(2) by auto
  then show ?thesis
    using inv(2) [symmetric] assms(2) by (auto simp: RawEnqueue_cq_def enc_inv_def read_bytes_mem)
qed

lemma write_iov_ok:
  assumes "enc_inv q" and "\<not> stuck q (length bs)"
  shows "\<exists>q'. write_iov bs q = Some (Inr q') \<and> enc_inv q' \<and> Count_cq q' = Count_cq q + length bs \<and>
    cq_contents q' 0 = cq_contents q 0 @ bs \<and> (length bs \<le> Freespace_cq q \<longrightarrow>
      cq_queueLength q' = cq_queueLength q \<and> cq_maxThreshold q' = cq_maxThreshold q)"
proof (cases "length bs \<le> Freespace_cq q")
  case True
  from RawEnqueue_enc [OF assms(1) True] obtain q' where
    "RawEnqueue_cq (bytes_mem bs) (length bs) 1 0 q = Some (Inr (True, q'))" "enc_inv q'"
    "Count_cq q' = Count_cq q + length bs" "cq_contents q' 0 = cq_contents q 0 @ bs"
    "cq_queueLength q' = cq_queueLength q" "cq_maxThreshold q' = cq_maxThreshold q" by blast
  then show ?thesis by (subst write_iov.simps) simp
next
  case False
  have inv: "cq_inv q" "cq_numChannels q = 1" using assms(1) by (auto simp: enc_inv_def)
  have raw: "RawEnqueue_cq (bytes_mem bs) (length bs) 1 0 q = Some (Inr (False, q))"
    using False inv by (simp add: RawEnqueue_cq_def)
  obtain q1 where q1: "Grow_cq q (Count_cq q + length bs) (length bs) = Some (Inr q1)" "cq_inv q1"
      "Count_cq q1 = Count_cq q" "cq_numChannels q1 = cq_numChannels q"
      "Count_cq q + length bs \<noteq> cq_queueLength q \<or> length bs > cq_maxThreshold q
         \<longrightarrow> Count_cq q + length bs \<le> QueueLength_cq q1"
      "\<forall>c<cq_numChannels q. cq_contents q1 c = cq_contents q c"
    using Grow_cq_ok [OF inv(1), of "Count_cq q + length bs" "length bs"] by auto
  have "length bs \<le> Freespace_cq q1"
    using q1(3,5) assms(2) Count_cq_free [OF q1(2)] by (auto simp: QueueLength_cq_def stuck_def)
  from RawEnqueue_enc [OF _ this] q1(2,4) inv obtain q' where
    q': "RawEnqueue_cq (bytes_mem bs) (length bs) 1 0 q1 = Some (Inr (True, q'))" "enc_inv q'"
    "Count_cq q' = Count_cq q1 + length bs" "cq_contents q' 0 = cq_contents q1 0 @ bs" by (auto simp: enc_inv_def)
  have "write_iov bs q1 = Some (Inr q')" using q'(1) by (subst write_iov.simps) simp
  then have "write_iov bs q = Some (Inr q')" using raw q1(1) by (subst write_iov.simps) simp
  with q' q1 inv False show ?thesis by simp
qed

lemma write_iov_stuck:
  assumes "enc_inv q" and "stuck q (length bs)"
  shows "write_iov bs q = None"
proof -
  have "\<not> (enc_inv q \<and> stuck q (length bs))" if "write_iov bs q = Some r" for bs q r
  proof (rule write_iov.raw_induct [OF _ that, where P = "\<lambda>bs q r. \<not> (enc_inv q \<and> stuck q (length bs))"], goal_cases)
    case (1 f bs q r)
    show ?case
    proof
      assume a: "enc_inv q \<and> stuck q (length bs)"
      then have inv: "cq_inv q" "cq_numChannels q = 1" by (auto simp: enc_inv_def)
      have "Freespace_cq q < length bs" using Count_cq_free [OF inv(1)] a by (auto simp: stuck_def)
      then have "RawEnqueue_cq (bytes_mem bs) (length bs) 1 0 q = Some (Inr (False, q))"
        using inv by (simp add: RawEnqueue_cq_def)
      moreover have "Grow_cq q (Count_cq q + length bs) (length bs) = Some (Inr q)"
        using a by (simp add: Grow_cq_def stuck_def)
      ultimately have "f bs q = Some r" using 1(2) by simp
      with 1(1) a show False by blast
    qed
  qed
  with assms show ?thesis by (cases "write_iov bs q") auto
qed

lemma WriteBytes_contents:
  assumes "enc_inv q" and "WriteBytes iovs q = Some (Inr q')"
  shows "enc_inv q' \<and> cq_contents q' 0 = cq_contents q 0 @ concat iovs"
  using assms
proof (induction iovs arbitrary: q)
  case (Cons bs iovs)
  have ns: "\<not> stuck q (length bs)" using write_iov_stuck [OF Cons.prems(1)] Cons.prems(2) by auto
  obtain q1 where "write_iov bs q = Some (Inr q1)" "enc_inv q1" "cq_contents q1 0 = cq_contents q 0 @ bs"
    using write_iov_ok [OF Cons.prems(1) ns] by blast
  with Cons show ?case by auto
qed simp

lemma new_BufferedPacketEncoder_ok:
  "enc_inv new_BufferedPacketEncoder" "cq_contents new_BufferedPacketEncoder 0 = []"
  "Count_cq new_BufferedPacketEncoder = 0" "cq_queueLength new_BufferedPacketEncoder = 4093"
  "cq_maxThreshold new_BufferedPacketEncoder = 4092"
  "Freespace_cq new_BufferedPacketEncoder = 4092"
  using new_CircularQueue_inv [of 1 4092 4092]
  by (auto simp: new_BufferedPacketEncoder_def enc_inv_def cq_contents_empty new_CircularQueue_def Let_def)

lemma GetEncodedBytes_ok:
  assumes "enc_inv q"
  shows "\<exists>n bs q'. GetEncodedBytes q amount = Some (Inr (n, bs, q')) \<and> enc_inv q' \<and>
    bs = take n (cq_contents q 0) \<and> n \<le> Count_cq q \<and> Count_cq q' = Count_cq q \<and>
    cq_contents q' 0 = cq_contents q 0 \<and> (0 < Count_cq q \<longrightarrow> 0 < n) \<and> (amount \<noteq> 0 \<longrightarrow> n = min amount (Count_cq q))"
proof -
  have inv: "cq_inv q" "cq_numChannels q = 1" using assms by (auto simp: enc_inv_def)
  define n where "n = min (if amount = 0 then cq_maxThreshold q else amount) (Count_cq q)"
  have n: "n \<le> Count_cq q" "0 < Count_cq q \<longrightarrow> 0 < n" "amount \<noteq> 0 \<longrightarrow> n = min amount (Count_cq q)"
    using cq_invD(2) [OF inv(1)] by (auto simp: n_def)
  obtain q1 where q1: "(if cq_maxThreshold q < n then Grow_cq q 0 n else Some (Inr q)) = Some (Inr q1)"
      "cq_inv q1" "Count_cq q1 = Count_cq q" "cq_numChannels q1 = 1" "n \<le> cq_maxThreshold q1"
      "cq_contents q1 0 = cq_contents q 0"
    using Grow_cq_ok [OF inv(1), of 0 n] inv by (cases "cq_maxThreshold q < n") auto
  obtain m where "GetRawDequeuePtr_cq q1 n 0 = (Some (cq_tail q1 + cq_chanStride q1 * 0), q1\<lparr>cq_buffer := m\<rparr>)"
      "\<forall>d<cq_numChannels q1. cq_contents (q1\<lparr>cq_buffer := m\<rparr>) d = cq_contents q1 d"
      "read_block id m (cq_tail q1 + cq_chanStride q1 * 0) n = take n (cq_contents q1 0)"
    using GetRawDequeuePtr_cq_ok [OF q1(2), of n 0] q1 n by auto
  moreover have "(if Count_cq q < (if amount = 0 then cq_maxThreshold q else amount) then Count_cq q
      else (if amount = 0 then cq_maxThreshold q else amount)) = n"
    by (auto simp: n_def)
  ultimately have "GetEncodedBytes q amount = Some (Inr (n, take n (cq_contents q 0), q1\<lparr>cq_buffer := m\<rparr>))"
    unfolding GetEncodedBytes_def Let_def using q1(1,6) by (simp only:) simp
  with q1 n \<open>\<forall>d<cq_numChannels q1. _ d\<close> show ?thesis by (simp add: enc_inv_def)
qed

section \<open>Properties\<close>

text \<open>a packet header survives encoding to its 64 bytes and back, and every 64 bytes are the
  encoding of the header read from them.\<close>

theorem header_roundtrip:
  "(length (pad ph) = 28 \<longrightarrow> length (header_bytes ph) = 64 \<and> header_of (header_bytes ph) = ph) \<and>
   (length bs = 64 \<longrightarrow> header_bytes (header_of bs) = bs)"
  by (simp add: header_of_header_bytes length_header_bytes header_bytes_header_of)

text \<open>whatever the sizes of the blocks in which the bytes of a stream arrive, the decoder calls the
  packet handlers exactly for the packets the scanner finds in the bytes delivered so far, in order,
  and keeps the scanner's left-over bytes; an exception of a handler is passed on.\<close>

theorem decoder_refines_scan:
  assumes "decoder_inv d" and "decode_chunks h ns d bs s = (r, rest)"
  shows "\<exists>bs0. bs = bs0 @ rest \<and>
    (case r of Inl e \<Rightarrow> fire_all h (fst (scan (held d @ bs0))) s = Inl e
     | Inr (d', s') \<Rightarrow> decoder_inv d' \<and> fire_all h (fst (scan (held d @ bs0))) s = Inr s' \<and>
                      held d' = snd (scan (held d @ bs0)))"
  using decode_chunks_scan [OF assms] by (fastforce split: sum.splits)





end
