(* ===== verification/D4R.thy ===== *)
theory D4R
  imports Prelude
begin

text \<open>
  Distributed deadlock detection and resolution (libraries/D4R: D4RTag, D4RNode, D4RQueue; the
  128-bit numbers of libraries/utils/uint128_t.h). Every node carries a public and a private tag; a
  node that blocks on a queue raises its label above those it knows, and blocked nodes copy larger
  tags from the node they wait for. A node that finds its own priority in the tag of the node it
  waits for reports a deadlock.

  The first part models tags, nodes and the operations of \<open>Node\<close>. The second part is a network
  of nodes as a step relation in which every node runs in its own thread: a tag is fetched from the
  other node before \<open>Transmit\<close> takes the node's lock, so it can be out of date, and a node can be
  released while such a fetched tag is still in flight. The theorems: a reported deadlock is a cycle
  of waiting nodes, and once the tags have settled exactly one node of every cycle reports it.
\<close>

section \<open>Tags\<close>

datatype uint128_t = U128 (high: nat) (low: nat)

definition uint128_less :: "uint128_t \<Rightarrow> uint128_t \<Rightarrow> bool" where
  "uint128_less l r \<longleftrightarrow> (if high l = high r then low l < low r else high l < high r)"

instantiation uint128_t :: linorder
begin

definition less_uint128_t :: "uint128_t \<Rightarrow> uint128_t \<Rightarrow> bool" where
  less_uint128_t_eq: "l < r \<longleftrightarrow> uint128_less l r"

definition less_eq_uint128_t :: "uint128_t \<Rightarrow> uint128_t \<Rightarrow> bool" where
  "(l :: uint128_t) \<le> r \<longleftrightarrow> \<not> r < l"

instance
proof
  fix x y z :: uint128_t
  show "x < y \<longleftrightarrow> x \<le> y \<and> \<not> y \<le> x"
    by (auto simp: less_uint128_t_eq uint128_less_def less_eq_uint128_t_def)
  show "x \<le> x" by (simp add: less_uint128_t_eq uint128_less_def less_eq_uint128_t_def)
  show "x \<le> y \<Longrightarrow> y \<le> z \<Longrightarrow> x \<le> z"
    by (auto simp: less_uint128_t_eq uint128_less_def less_eq_uint128_t_def split: if_splits)
  show "x \<le> y \<Longrightarrow> y \<le> x \<Longrightarrow> x = y"
    by (cases x; cases y) (auto simp: less_uint128_t_eq uint128_less_def less_eq_uint128_t_def split: if_splits)
  show "x \<le> y \<or> y \<le> x"
    by (auto simp: less_uint128_t_eq uint128_less_def less_eq_uint128_t_def)
qed

end

lemmas less_uint128_t_def = less_uint128_t_eq [unfolded uint128_less_def]

datatype Tag = Tag (label: uint128_t) (priority: uint128_t)

text \<open>Larger labels first, smaller priorities first.\<close>

definition tag_less :: "Tag \<Rightarrow> Tag \<Rightarrow> bool" where
  "tag_less t u \<longleftrightarrow> (if label t = label u then priority u < priority t else label t < label u)"

instantiation Tag :: linorder
begin

definition less_Tag :: "Tag \<Rightarrow> Tag \<Rightarrow> bool" where
  less_Tag_eq: "t < u \<longleftrightarrow> tag_less t u"

definition less_eq_Tag :: "Tag \<Rightarrow> Tag \<Rightarrow> bool" where
  "(t :: Tag) \<le> u \<longleftrightarrow> \<not> u < t"

instance
proof
  fix x y z :: Tag
  show "x < y \<longleftrightarrow> x \<le> y \<and> \<not> y \<le> x"
    by (auto simp: less_Tag_eq tag_less_def less_eq_Tag_def split: if_splits)
  show "x \<le> x" by (simp add: less_Tag_eq tag_less_def less_eq_Tag_def)
  show "x \<le> y \<Longrightarrow> y \<le> z \<Longrightarrow> x \<le> z"
    by (auto simp: less_Tag_eq tag_less_def less_eq_Tag_def split: if_splits)
  show "x \<le> y \<Longrightarrow> y \<le> x \<Longrightarrow> x = y"
    by (cases x; cases y) (auto simp: less_Tag_eq tag_less_def less_eq_Tag_def split: if_splits)
  show "x \<le> y \<or> y \<le> x"
    by (auto simp: less_Tag_eq tag_less_def less_eq_Tag_def split: if_splits)
qed

end

lemmas less_Tag_def = less_Tag_eq [unfolded tag_less_def]

definition new_Tag :: "nat \<Rightarrow> Tag" where
  "new_Tag k = Tag (U128 0 k) (U128 (2 ^ 64 - 1) k)"

definition tag_Count :: "Tag \<Rightarrow> nat" where "tag_Count t = high (label t)"
definition tag_Key :: "Tag \<Rightarrow> nat" where "tag_Key t = low (label t)"
definition tag_QueueSize :: "Tag \<Rightarrow> nat" where "tag_QueueSize t = high (priority t)"
definition tag_QueueKey :: "Tag \<Rightarrow> nat" where "tag_QueueKey t = low (priority t)"

definition set_Count :: "nat \<Rightarrow> Tag \<Rightarrow> Tag" where
  "set_Count c t = Tag (U128 c (low (label t))) (priority t)"

definition set_QueueSize :: "nat \<Rightarrow> Tag \<Rightarrow> Tag" where
  "set_QueueSize qs t = Tag (label t) (U128 qs (low (priority t)))"

section \<open>Nodes\<close>

record d4r_node =
  publicTag :: Tag
  privateTag :: Tag

definition new_d4r_node :: "nat \<Rightarrow> d4r_node" where
  "new_d4r_node key = \<lparr>publicTag = new_Tag key, privateTag = new_Tag key\<rparr>"

text \<open>\<open>qsize\<close> is the queue size for a blocked writer and \<open>-1\<close>, as \<open>unsigned\<close>, for a reader.\<close>

definition Block :: "d4r_node \<Rightarrow> Tag \<Rightarrow> nat \<Rightarrow> d4r_node" where
  "Block n t qsize =
    (let pr = set_Count (u64 (max (tag_Count (publicTag n)) (tag_Count t) + 1))
                (set_QueueSize qsize (privateTag n))
     in n\<lparr>privateTag := pr, publicTag := pr\<rparr>)"

definition Transmit :: "d4r_node \<Rightarrow> Tag \<Rightarrow> bool \<times> d4r_node" where
  "Transmit n t =
    (if publicTag n < t then
       (False, n\<lparr>publicTag := Tag (label t) (min (priority (privateTag n)) (priority t))\<rparr>)
     else if publicTag n = t then (priority (publicTag n) = priority (privateTag n), n)
     else (False, n))"

section \<open>The network\<close>

text \<open>
  Nodes are numbered by their keys. \<open>waits i = Some j\<close> while \<open>i\<close> is blocked on a queue whose other
  end is \<open>j\<close>; \<open>fetched i\<close> is the tag that \<open>i\<close> read and has not yet passed to \<open>Transmit\<close>.
\<close>

record d4r_net =
  node :: "nat \<Rightarrow> d4r_node"
  waits :: "nat \<Rightarrow> nat option"
  fetched :: "nat \<Rightarrow> Tag option"

definition new_net :: d4r_net where
  "new_net = \<lparr>node = new_d4r_node, waits = \<lambda>_. None, fetched = \<lambda>_. None\<rparr>"

definition pub :: "d4r_net \<Rightarrow> nat \<Rightarrow> Tag" where "pub s i = publicTag (node s i)"
definition priv :: "d4r_net \<Rightarrow> nat \<Rightarrow> Tag" where "priv s i = privateTag (node s i)"

definition do_block :: "d4r_net \<Rightarrow> nat \<Rightarrow> nat \<Rightarrow> Tag \<Rightarrow> nat \<Rightarrow> d4r_net" where
  "do_block s i j t qsize = s\<lparr>node := (node s)(i := Block (node s i) t qsize), waits := (waits s)(i \<mapsto> j)\<rparr>"

definition do_transmit :: "d4r_net \<Rightarrow> nat \<Rightarrow> Tag \<Rightarrow> d4r_net" where
  "do_transmit s i t = s\<lparr>node := (node s)(i := snd (Transmit (node s i) t)), fetched := (fetched s)(i := None)\<rparr>"

text \<open>
  A node blocks with some tag of the other node, read earlier; the count must not overflow. A node
  is released by the node it waits for, which therefore is not blocked itself.
\<close>

inductive d4r_step :: "d4r_net \<Rightarrow> d4r_net \<Rightarrow> bool" where
  step_block: "waits s i = None \<Longrightarrow> fetched s i = None \<Longrightarrow> i \<noteq> j \<Longrightarrow>
    max (tag_Count (pub s i)) (tag_Count t) + 1 < 2 ^ 64 \<Longrightarrow> d4r_step s (do_block s i j t qsize)"
| step_fetch: "waits s i = Some j \<Longrightarrow> fetched s i = None \<Longrightarrow>
    d4r_step s (s\<lparr>fetched := (fetched s)(i \<mapsto> pub s j)\<rparr>)"
| step_transmit: "fetched s i = Some t \<Longrightarrow> d4r_step s (do_transmit s i t)"
| step_activate: "waits s i = Some j \<Longrightarrow> waits s j = None \<Longrightarrow> d4r_step s (s\<lparr>waits := (waits s)(i := None)\<rparr>)"

inductive d4r_reach :: "d4r_net \<Rightarrow> bool" where
  reach_init: "d4r_reach new_net"
| reach_step: "d4r_reach s \<Longrightarrow> d4r_step s s' \<Longrightarrow> d4r_reach s'"

inductive_cases d4r_stepE: "d4r_step s s'"

definition edges :: "d4r_net \<Rightarrow> (nat \<times> nat) set" where
  "edges s = {(i, j). waits s i = Some j}"

text \<open>What holds of the tags in a network: first the facts that make a report sound.\<close>

definition sound_inv :: "d4r_net \<Rightarrow> bool" where
  "sound_inv s \<longleftrightarrow>
     (\<forall>x. tag_QueueKey (priv s x) = x \<and> tag_Key (priv s x) = x) \<and>
     (\<forall>x. label (pub s x) \<le> label (pub s (tag_QueueKey (pub s x)))) \<and>
     (\<forall>x t. fetched s x = Some t \<longrightarrow> label t \<le> label (pub s (tag_QueueKey t))) \<and>
     (\<forall>x i. tag_QueueKey (pub s x) = i \<longrightarrow> x \<noteq> i \<longrightarrow> waits s i \<noteq> None \<longrightarrow>
        label (pub s x) < label (pub s i) \<or> (x, i) \<in> (edges s)\<^sup>+) \<and>
     (\<forall>x t i. fetched s x = Some t \<longrightarrow> tag_QueueKey t = i \<longrightarrow> waits s i \<noteq> None \<or> i = x \<longrightarrow>
        label t < label (pub s i) \<or> (\<exists>z. waits s x = Some z \<and> (z, i) \<in> (edges s)\<^sup>*))"

text \<open>Then the facts that make every cycle report: labels come from a node that still holds them.\<close>

definition live_inv :: "d4r_net \<Rightarrow> bool" where
  "live_inv s \<longleftrightarrow>
     (\<forall>x t z. fetched s x = Some t \<longrightarrow> waits s x = Some z \<longrightarrow> label t \<le> label (pub s z)) \<and>
     (\<forall>x. label (pub s x) \<le> label (pub s (tag_Key (pub s x)))) \<and>
     (\<forall>x t. fetched s x = Some t \<longrightarrow> label t \<le> label (pub s (tag_Key t))) \<and>
     (\<forall>x y. waits s x = Some y \<longrightarrow> label (pub s x) = label (priv s x) \<or> label (pub s x) \<le> label (pub s y)) \<and>
     (\<forall>x. \<exists>r. (x, r) \<in> (edges s)\<^sup>* \<and> label (pub s x) \<le> label (pub s r) \<and>
        (waits s r = None \<or> label (pub s r) = label (priv s r))) \<and>
     (\<forall>x r. waits s r \<noteq> None \<longrightarrow> label (pub s x) = label (priv s r) \<longrightarrow>
        (\<exists>w. (x, w) \<in> (edges s)\<^sup>* \<and> (w, r) \<in> (edges s)\<^sup>* \<and> priority (pub s x) = priority (priv s w))) \<and>
     (\<forall>x t r. fetched s x = Some t \<longrightarrow> waits s r \<noteq> None \<longrightarrow> label t = label (priv s r) \<longrightarrow>
        (\<exists>z w. waits s x = Some z \<and> (z, w) \<in> (edges s)\<^sup>* \<and> (w, r) \<in> (edges s)\<^sup>* \<and>
           priority t = priority (priv s w)))"

text \<open>The tags along the waits of \<open>i\<close> have settled: no node would take over the tag it waits for.\<close>

definition settled :: "d4r_net \<Rightarrow> nat \<Rightarrow> bool" where
  "settled s i \<longleftrightarrow> (\<forall>x z. (i, x) \<in> (edges s)\<^sup>* \<longrightarrow> waits s x = Some z \<longrightarrow> \<not> pub s x < pub s z)"

text \<open>A node that reports when it passes the current tag of the node it waits for to \<open>Transmit\<close>.\<close>

definition reports :: "d4r_net \<Rightarrow> nat \<Rightarrow> bool" where
  "reports s w \<longleftrightarrow> (case waits s w of None \<Rightarrow> False | Some z \<Rightarrow> fst (Transmit (node s w) (pub s z)))"

section \<open>A two-node network\<close>

text \<open>Node 0 writes to node 1 and blocks on a full queue of size 5, node 1 on one of size 3; node 0 takes
  over the larger tag of node 1, and node 1 fetches it back.\<close>

definition net1 :: d4r_net where "net1 = do_block new_net 0 1 (new_Tag 1) 5"
definition net2 :: d4r_net where "net2 = do_block net1 1 0 (pub net1 0) 3"
definition net3 :: d4r_net where "net3 = net2\<lparr>fetched := (fetched net2)(0 \<mapsto> pub net2 1)\<rparr>"
definition net4 :: d4r_net where "net4 = do_transmit net3 0 (pub net2 1)"
definition net5 :: d4r_net where "net5 = net4\<lparr>fetched := (fetched net4)(1 \<mapsto> pub net4 0)\<rparr>"

section \<open>Blocking on a queue\<close>

text \<open>
  \<open>QueueBase::ReadBlock\<close> and \<open>WriteBlock\<close> as steps of the blocked thread, between the steps of the
  other threads. \<open>other\<close> is the public tag of the node at the other end, \<open>tagchanged\<close> the flag
  (\<open>writetagchanged\<close> for a reader), \<open>pending\<close> a \<open>SignalTagChanged\<close> call that is on its way,
  \<open>arg\<close> the tag read by \<open>GetPublicTag\<close>. The queue lock is held at the program points other than
  \<open>BP_Fetch\<close>, \<open>BP_Call\<close>, where it is released (\<open>AutoUnlock\<close>).
\<close>

datatype block_pc = BP_Entry | BP_Comm bool | BP_Fetch bool | BP_Call bool | BP_Loop | BP_Detect | BP_Done | BP_Deadlock

record blocker =
  bpc :: block_pc
  tagchanged :: bool
  incomm :: bool
  blocked :: bool
  other :: Tag
  self :: d4r_node
  arg :: Tag
  pending :: bool

definition new_blocker :: "nat \<Rightarrow> Tag \<Rightarrow> blocker" where
  "new_blocker key t = \<lparr>bpc = BP_Entry, tagchanged = False, incomm = False, blocked = True, other = t,
     self = new_d4r_node key, arg = t, pending = False\<rparr>"

text \<open>\<open>rd\<close> holds for \<open>ReadBlock\<close>; the argument of \<open>BP_Comm\<close>, \<open>BP_Fetch\<close>, \<open>BP_Call\<close> tells the first
  round (\<open>Block\<close>) from the later ones (\<open>Transmit\<close>).\<close>

inductive block_step :: "bool \<Rightarrow> nat \<Rightarrow> blocker \<Rightarrow> blocker \<Rightarrow> bool" for rd qsize where
  bs_return: "bpc b = BP_Entry \<Longrightarrow> \<not> blocked b \<Longrightarrow> block_step rd qsize b (b\<lparr>bpc := BP_Done\<rparr>)"
| bs_enter: "bpc b = BP_Entry \<Longrightarrow> blocked b \<Longrightarrow>
    block_step rd qsize b (b\<lparr>tagchanged := False, bpc := BP_Comm True\<rparr>)"
| bs_comm: "bpc b = BP_Comm first \<Longrightarrow> \<not> incomm b \<Longrightarrow>
    block_step rd qsize b (b\<lparr>incomm := True, bpc := BP_Fetch first\<rparr>)"
| bs_fetch: "bpc b = BP_Fetch first \<Longrightarrow> block_step rd qsize b (b\<lparr>arg := other b, bpc := BP_Call first\<rparr>)"
| bs_block: "bpc b = BP_Call True \<Longrightarrow>
    max (tag_Count (publicTag (self b))) (tag_Count (arg b)) + 1 < 2 ^ 64 \<Longrightarrow>
    block_step rd qsize b (b\<lparr>self := Block (self b) (arg b) (if rd then 2 ^ 32 - 1 else qsize),
      incomm := False, bpc := BP_Loop\<rparr>)"
| bs_transmit: "bpc b = BP_Call False \<Longrightarrow> Transmit (self b) (arg b) = (detect, n) \<Longrightarrow>
    block_step rd qsize b (b\<lparr>self := n, incomm := False,
      bpc := (if detect then if rd then BP_Deadlock else BP_Detect else BP_Loop)\<rparr>)"
| bs_loop: "bpc b = BP_Loop \<Longrightarrow> blocked b \<Longrightarrow> tagchanged b \<Longrightarrow>
    block_step rd qsize b (b\<lparr>tagchanged := False, bpc := BP_Comm False\<rparr>)"
| bs_leave: "bpc b = BP_Loop \<Longrightarrow> \<not> blocked b \<Longrightarrow> block_step rd qsize b (b\<lparr>bpc := BP_Done\<rparr>)"
| bs_detect: "bpc b = BP_Detect \<Longrightarrow> block_step rd qsize b (b\<lparr>blocked := still, bpc := BP_Loop\<rparr>)"
| bs_other_tag: "block_step rd qsize b (b\<lparr>other := t, pending := True\<rparr>)"
| bs_signal: "pending b \<Longrightarrow> block_step rd qsize b (b\<lparr>pending := False, tagchanged := True\<rparr>)"
| bs_release: "block_step rd qsize b (b\<lparr>blocked := False\<rparr>)"
| bs_other_comm: "bpc b \<notin> {BP_Fetch True, BP_Fetch False, BP_Call True, BP_Call False} \<Longrightarrow>
    block_step rd qsize b (b\<lparr>incomm := c\<rparr>)"

definition blocker_inv :: "blocker \<Rightarrow> bool" where
  "blocker_inv b \<longleftrightarrow>
     (bpc b \<in> {BP_Loop, BP_Detect} \<longrightarrow> tagchanged b \<or> pending b \<or> \<not> publicTag (self b) < other b) \<and>
     (bpc b \<in> {BP_Call True, BP_Call False} \<longrightarrow> tagchanged b \<or> pending b \<or> arg b = other b)"

section \<open>The effect of the node operations on the tags\<close>

lemmas tag_defs = tag_Count_def tag_Key_def tag_QueueSize_def tag_QueueKey_def set_Count_def set_QueueSize_def

lemma node_frame:
  "pub (s\<lparr>waits := w\<rparr>) = pub s" "priv (s\<lparr>waits := w\<rparr>) = priv s"
  "pub (s\<lparr>fetched := f\<rparr>) = pub s" "priv (s\<lparr>fetched := f\<rparr>) = priv s"
  "edges (s\<lparr>fetched := f\<rparr>) = edges s"
  by (simp_all add: pub_def priv_def edges_def fun_eq_iff)

lemma do_block_frame [simp]:
  "waits (do_block s i j t q) = (waits s)(i \<mapsto> j)" "fetched (do_block s i j t q) = fetched s"
  "x \<noteq> i \<Longrightarrow> pub (do_block s i j t q) x = pub s x" "x \<noteq> i \<Longrightarrow> priv (do_block s i j t q) x = priv s x"
  "priv (do_block s i j t q) i = pub (do_block s i j t q) i"
  by (simp_all add: do_block_def pub_def priv_def Block_def Let_def)

lemma do_block_own:
  assumes "max (tag_Count (pub s i)) (tag_Count t) + 1 < 2 ^ 64"
  shows "tag_QueueKey (pub (do_block s i j t q) i) = tag_QueueKey (priv s i)"
    and "tag_Key (pub (do_block s i j t q) i) = tag_Key (priv s i)"
    and "label (pub s i) < label (pub (do_block s i j t q) i)"
  using assms
  by (auto simp: do_block_def pub_def priv_def Block_def Let_def tag_defs less_uint128_t_def u64_id)

lemma edges_block: "waits s i = None \<Longrightarrow> edges (do_block s i j t q) = insert (i, j) (edges s)"
  by (auto simp: edges_def split: if_splits)

lemma do_transmit_frame [simp]:
  "waits (do_transmit s i t) = waits s" "fetched (do_transmit s i t) = (fetched s)(i := None)"
  "x \<noteq> i \<Longrightarrow> pub (do_transmit s i t) x = pub s x" "priv (do_transmit s i t) = priv s"
  "edges (do_transmit s i t) = edges s"
  by (auto simp: do_transmit_def pub_def priv_def edges_def Transmit_def fun_eq_iff)

lemma do_transmit_own:
  "pub (do_transmit s i t) i =
     (if pub s i < t then Tag (label t) (min (priority (priv s i)) (priority t)) else pub s i)"
  by (simp add: do_transmit_def pub_def priv_def Transmit_def)

lemma do_transmit_label: "label (pub s i) \<le> label (pub (do_transmit s i t) i)"
  by (auto simp: do_transmit_own less_Tag_def split: if_splits)

lemma do_transmit_mono: "label (pub s x) \<le> label (pub (do_transmit s i t) x)"
  by (cases "x = i") (simp_all add: do_transmit_label)

text \<open>After \<open>Transmit\<close> the public tag of \<open>i\<close> is the old one, or has the fetched label and the priority
  of \<open>i\<close> or of the fetched tag.\<close>

lemma do_transmit_cases:
  obtains "pub (do_transmit s i t) i = pub s i"
  | "label (pub (do_transmit s i t) i) = label t" "priority (pub (do_transmit s i t) i) = priority (priv s i)"
  | "label (pub (do_transmit s i t) i) = label t" "priority (pub (do_transmit s i t) i) = priority t"
  by (cases "pub s i < t"; cases "priority (priv s i) \<le> priority t") (auto simp: do_transmit_own min_def)

lemma no_edge_from:
  "waits s j = None \<Longrightarrow> (j, k) \<in> (edges s)\<^sup>* \<Longrightarrow> k = j"
  by (erule converse_rtranclE) (auto simp: edges_def)

lemma path_first: "waits s x = Some z \<Longrightarrow> (z, i) \<in> (edges s)\<^sup>* \<Longrightarrow> (x, i) \<in> (edges s)\<^sup>+"
  by (rule rtrancl_into_trancl2) (auto simp: edges_def)

lemma path_first_inv: "(x, i) \<in> (edges s)\<^sup>+ \<Longrightarrow> \<exists>z. waits s x = Some z \<and> (z, i) \<in> (edges s)\<^sup>*"
  by (drule tranclD) (auto simp: edges_def)

text \<open>Releasing a node cuts no path to a blocked node.\<close>

lemma edges_activate: "edges (s\<lparr>waits := (waits s)(i := None)\<rparr>) = edges s - {i} \<times> UNIV"
  by (auto simp: edges_def split: if_splits)

lemma path_activate:
  assumes "waits s i = Some j" and "waits s j = None" and "waits s k \<noteq> None"
  shows "(x, k) \<in> (edges s)\<^sup>* \<Longrightarrow> k \<noteq> i \<Longrightarrow> (x, k) \<in> (edges s - {i} \<times> UNIV)\<^sup>*"
proof (induction rule: converse_rtrancl_induct)
  case (step x y)
  have "x \<noteq> i"
  proof
    assume "x = i"
    then have "y = j" using step(1) assms(1) by (auto simp: edges_def)
    then have "k = j" using no_edge_from [OF assms(2)] step(2) by blast
    with assms(2,3) show False by simp
  qed
  with step show ?case by (auto intro: converse_rtrancl_into_rtrancl)
qed simp

lemma path_activate_plus:
  assumes "waits s i = Some j" and "waits s j = None" and "waits s k \<noteq> None" and "(x, k) \<in> (edges s)\<^sup>+" and "k \<noteq> i"
  shows "(x, k) \<in> (edges s - {i} \<times> UNIV)\<^sup>+"
proof -
  have "x \<noteq> k \<or> (x, k) \<in> (edges s - {i} \<times> UNIV)\<^sup>+"
  proof (cases "x = k")
    case True
    from assms(4) obtain z where z: "(x, z) \<in> edges s" "(z, k) \<in> (edges s)\<^sup>*" by (auto dest: tranclD)
    then have "(z, k) \<in> (edges s - {i} \<times> UNIV)\<^sup>*" using path_activate [OF assms(1-3) _ assms(5)] by blast
    with z(1) True assms(5) show ?thesis by (auto intro: rtrancl_into_trancl2)
  qed simp
  moreover have "(x, k) \<in> (edges s - {i} \<times> UNIV)\<^sup>*"
    using path_activate [OF assms(1-3) trancl_into_rtrancl [OF assms(4)] assms(5)] .
  ultimately show ?thesis by (auto simp: rtrancl_eq_or_trancl)
qed

section \<open>A reported deadlock is a cycle\<close>

lemma sound_invD:
  assumes "sound_inv s"
  shows "tag_QueueKey (priv s x) = x" "tag_Key (priv s x) = x"
    "label (pub s x) \<le> label (pub s (tag_QueueKey (pub s x)))"
    "fetched s x = Some t \<Longrightarrow> label t \<le> label (pub s (tag_QueueKey t))"
    "tag_QueueKey (pub s x) = i \<Longrightarrow> x \<noteq> i \<Longrightarrow> waits s i \<noteq> None \<Longrightarrow>
       label (pub s x) < label (pub s i) \<or> (x, i) \<in> (edges s)\<^sup>+"
    "fetched s x = Some t \<Longrightarrow> tag_QueueKey t = i \<Longrightarrow> waits s i \<noteq> None \<or> i = x \<Longrightarrow>
       label t < label (pub s i) \<or> (\<exists>z. waits s x = Some z \<and> (z, i) \<in> (edges s)\<^sup>*)"
  using assms unfolding sound_inv_def by blast+

lemma sound_init: "sound_inv new_net"
  by (simp add: sound_inv_def new_net_def new_d4r_node_def new_Tag_def pub_def priv_def tag_defs)

lemma sound_invI:
  assumes "\<And>x. tag_QueueKey (priv s x) = x" and "\<And>x. tag_Key (priv s x) = x"
    and "\<And>x. label (pub s x) \<le> label (pub s (tag_QueueKey (pub s x)))"
    and "\<And>x t. fetched s x = Some t \<Longrightarrow> label t \<le> label (pub s (tag_QueueKey t))"
    and "\<And>x i. tag_QueueKey (pub s x) = i \<Longrightarrow> x \<noteq> i \<Longrightarrow> waits s i \<noteq> None \<Longrightarrow>
       label (pub s x) < label (pub s i) \<or> (x, i) \<in> (edges s)\<^sup>+"
    and "\<And>x t i. fetched s x = Some t \<Longrightarrow> tag_QueueKey t = i \<Longrightarrow> waits s i \<noteq> None \<or> i = x \<Longrightarrow>
       label t < label (pub s i) \<or> (\<exists>z. waits s x = Some z \<and> (z, i) \<in> (edges s)\<^sup>*)"
  shows "sound_inv s"
  unfolding sound_inv_def using assms by blast

lemma sound_fetch:
  assumes "sound_inv s" and "waits s i = Some j"
  shows "sound_inv (s\<lparr>fetched := (fetched s)(i \<mapsto> pub s j)\<rparr>)" (is "sound_inv ?s")
proof (rule sound_invI; unfold node_frame)
  note D = sound_invD [OF assms(1)]
  show "tag_QueueKey (priv s x) = x" "tag_Key (priv s x) = x"
    "label (pub s x) \<le> label (pub s (tag_QueueKey (pub s x)))" for x by (fact D)+
  show "label t \<le> label (pub s (tag_QueueKey t))" if "fetched ?s x = Some t" for x t
    using that D(3) [of j] D(4) [of x t] by (simp split: if_splits)
  show "label (pub s x) < label (pub s k) \<or> (x, k) \<in> (edges s)\<^sup>+"
    if "tag_QueueKey (pub s x) = k" "x \<noteq> k" "waits ?s k \<noteq> None" for x k
    using D(5) [OF that(1,2)] that(3) by simp
  show "label t < label (pub s k) \<or> (\<exists>z. waits ?s x = Some z \<and> (z, k) \<in> (edges s)\<^sup>*)"
    if f: "fetched ?s x = Some t" and k: "tag_QueueKey t = k" "waits ?s k \<noteq> None \<or> k = x" for x t k
  proof (cases "x = i")
    case False
    with D(6) [of x t k] f k show ?thesis by simp
  next
    case True
    then have t: "t = pub s j" and b: "waits s k \<noteq> None" using f k assms(2) by auto
    show ?thesis
      using D(5) [of j k] b k(1) True assms(2) t by (cases "j = k") (auto dest: trancl_into_rtrancl)
  qed
qed

lemma sound_block:
  assumes "sound_inv s" and "waits s i = None" and "fetched s i = None"
    and "max (tag_Count (pub s i)) (tag_Count t) + 1 < 2 ^ 64"
  shows "sound_inv (do_block s i j t q)" (is "sound_inv ?s")
proof (rule sound_invI)
  note D = sound_invD [OF assms(1)]
  note own = do_block_own [OF assms(4), of j q]
  have key: "tag_QueueKey (pub ?s i) = i" "tag_Key (pub ?s i) = i" using own D(1,2) by auto
  have mono: "label (pub s x) \<le> label (pub ?s x)" for x using own(3) by (cases "x = i") auto
  have path: "(x, k) \<in> (edges s)\<^sup>* \<Longrightarrow> (x, k) \<in> (edges ?s)\<^sup>*" "(x, k) \<in> (edges s)\<^sup>+ \<Longrightarrow> (x, k) \<in> (edges ?s)\<^sup>+" for x k
    using edges_block [OF assms(2), of j t q] by (auto intro: rtrancl_mono [THEN subsetD] trancl_mono)
  show "tag_QueueKey (priv ?s x) = x" "tag_Key (priv ?s x) = x" for x
    using key D(1,2) by (cases "x = i"; simp)+
  show "label (pub ?s x) \<le> label (pub ?s (tag_QueueKey (pub ?s x)))" for x
    using D(3) [of x] mono key by (cases "x = i") (auto intro: order_trans)
  show "label u \<le> label (pub ?s (tag_QueueKey u))" if "fetched ?s x = Some u" for x u
    using D(4) [of x u] that mono by (auto intro: order_trans)
  show "label (pub ?s x) < label (pub ?s k) \<or> (x, k) \<in> (edges ?s)\<^sup>+"
    if k: "tag_QueueKey (pub ?s x) = k" "x \<noteq> k" "waits ?s k \<noteq> None" for x k
  proof (cases "x = i")
    case True
    with k key show ?thesis by simp
  next
    case False
    then have kx: "tag_QueueKey (pub s x) = k" using k by simp
    show ?thesis
    proof (cases "k = i")
      case True
      with D(3) [of x] kx own(3) False show ?thesis by (auto intro: le_less_trans)
    next
      case ki: False
      with D(5) [OF kx k(2)] k(3) path(2) False show ?thesis by auto
    qed
  qed
  show "label u < label (pub ?s k) \<or> (\<exists>z. waits ?s x = Some z \<and> (z, k) \<in> (edges ?s)\<^sup>*)"
    if f: "fetched ?s x = Some u" and k: "tag_QueueKey u = k" "waits ?s k \<noteq> None \<or> k = x" for x u k
  proof -
    have xi: "x \<noteq> i" "fetched s x = Some u" using f assms(3) by auto
    show ?thesis
    proof (cases "k = i")
      case True
      with D(4) [OF xi(2)] k(1) own(3) show ?thesis by (auto intro: le_less_trans)
    next
      case False
      with D(6) [OF xi(2) k(1)] k(2) path(1) xi(1) show ?thesis by auto
    qed
  qed
qed

lemma sound_transmit:
  assumes "sound_inv s" and "fetched s i = Some t"
  shows "sound_inv (do_transmit s i t)" (is "sound_inv ?s")
proof (rule sound_invI)
  note D = sound_invD [OF assms(1)]
  note mono = do_transmit_mono [of s _ i t]
  show "tag_QueueKey (priv ?s x) = x" "tag_Key (priv ?s x) = x" for x by (simp_all add: D)
  show "label (pub ?s x) \<le> label (pub ?s (tag_QueueKey (pub ?s x)))" for x
  proof (cases "x = i")
    case False
    with D(3) [of x] mono show ?thesis by (auto intro: order_trans)
  next
    case True
    show ?thesis unfolding True
    proof (rule do_transmit_cases [of s i t])
      assume "pub ?s i = pub s i"
      with D(3) [of i] mono show "label (pub ?s i) \<le> label (pub ?s (tag_QueueKey (pub ?s i)))"
        by (metis order_trans)
    next
      assume "label (pub ?s i) = label t" "priority (pub ?s i) = priority (priv s i)"
      then have "tag_QueueKey (pub ?s i) = i" using D(1) by (simp add: tag_QueueKey_def)
      then show "label (pub ?s i) \<le> label (pub ?s (tag_QueueKey (pub ?s i)))" by simp
    next
      assume a: "label (pub ?s i) = label t" "priority (pub ?s i) = priority t"
      then have "tag_QueueKey (pub ?s i) = tag_QueueKey t" by (simp add: tag_QueueKey_def)
      with a D(4) [OF assms(2)] mono show "label (pub ?s i) \<le> label (pub ?s (tag_QueueKey (pub ?s i)))"
        by (metis order_trans)
    qed
  qed
  show "label u \<le> label (pub ?s (tag_QueueKey u))" if "fetched ?s x = Some u" for x u
    using D(4) [of x u] that mono by (auto intro: order_trans split: if_splits)
  show "label (pub ?s x) < label (pub ?s k) \<or> (x, k) \<in> (edges ?s)\<^sup>+"
    if k: "tag_QueueKey (pub ?s x) = k" "x \<noteq> k" "waits ?s k \<noteq> None" for x k
  proof -
    have old: ?thesis if "pub ?s x = pub s x"
      using D(5) [of x k] k that mono [of k] by (auto intro: less_le_trans)
    show ?thesis
    proof (cases "x = i")
      case False
      then show ?thesis using old by simp
    next
      case True
      show ?thesis
      proof (rule do_transmit_cases [of s i t])
        assume "pub ?s i = pub s i"
        then show ?thesis using old True by simp
      next
        assume "priority (pub ?s i) = priority (priv s i)"
        then have "tag_QueueKey (pub ?s i) = i" using D(1) by (simp add: tag_QueueKey_def)
        with k True show ?thesis by simp
      next
        assume a: "label (pub ?s i) = label t" "priority (pub ?s i) = priority t"
        then have "tag_QueueKey t = k" using k True by (simp add: tag_QueueKey_def)
        with D(6) [OF assms(2) this] k(3) have "label t < label (pub s k) \<or> (i, k) \<in> (edges s)\<^sup>+"
          by (auto intro: path_first)
        with a True mono [of k] show ?thesis by (auto intro: less_le_trans)
      qed
    qed
  qed
  show "label u < label (pub ?s k) \<or> (\<exists>z. waits ?s x = Some z \<and> (z, k) \<in> (edges ?s)\<^sup>*)"
    if f: "fetched ?s x = Some u" and k: "tag_QueueKey u = k" "waits ?s k \<noteq> None \<or> k = x" for x u k
    using D(6) [of x u k] that mono [of k] by (auto intro: less_le_trans split: if_splits)
qed

lemma sound_activate:
  assumes "sound_inv s" and "waits s i = Some j" and "waits s j = None"
  shows "sound_inv (s\<lparr>waits := (waits s)(i := None)\<rparr>)" (is "sound_inv ?s")
proof (rule sound_invI; unfold node_frame edges_activate)
  note D = sound_invD [OF assms(1)]
  have ij: "i \<noteq> j" using assms(2,3) by auto
  show "tag_QueueKey (priv s x) = x" "tag_Key (priv s x) = x"
    "label (pub s x) \<le> label (pub s (tag_QueueKey (pub s x)))" for x by (fact D)+
  show "label t \<le> label (pub s (tag_QueueKey t))" if "fetched ?s x = Some t" for x t
    using that D(4) [of x t] by simp
  show "label (pub s x) < label (pub s k) \<or> (x, k) \<in> (edges s - {i} \<times> UNIV)\<^sup>+"
    if k: "tag_QueueKey (pub s x) = k" "x \<noteq> k" "waits ?s k \<noteq> None" for x k
  proof -
    have ki: "k \<noteq> i" "waits s k \<noteq> None" using k(3) by (auto split: if_splits)
    with D(5) [OF k(1,2)] path_activate_plus [OF assms(2,3) ki(2) _ ki(1)] show ?thesis by blast
  qed
  show "label t < label (pub s k) \<or> (\<exists>z. waits ?s x = Some z \<and> (z, k) \<in> (edges s - {i} \<times> UNIV)\<^sup>*)"
    if f: "fetched ?s x = Some t" and k: "tag_QueueKey t = k" "waits ?s k \<noteq> None \<or> k = x" for x t k
  proof -
    have "waits s k \<noteq> None \<or> k = x" using k(2) by (auto split: if_splits)
    from D(6) [of x t k] f k(1) this consider "label t < label (pub s k)"
      | z where "waits s x = Some z" "(z, k) \<in> (edges s)\<^sup>*" by auto
    then show ?thesis
    proof cases
      case 2
      show ?thesis
      proof (cases "x = i")
        case True
        then have "z = j" using 2 assms(2) by simp
        then have "k = j" using no_edge_from [OF assms(3)] 2 by blast
        then show ?thesis using k(2) assms(3) ij True by (auto split: if_splits)
      next
        case xi: False
        show ?thesis
        proof (cases "waits s k \<noteq> None \<and> k \<noteq> i")
          case True
          with path_activate [OF assms(2,3) _ 2(2)] 2(1) xi show ?thesis by auto
        next
          case False
          then have "k = x" using k(2) by (auto split: if_splits)
          then have "waits s k \<noteq> None \<and> k \<noteq> i" using 2(1) xi by simp
          with False show ?thesis by blast
        qed
      qed
    qed simp
  qed
qed

lemma sound_step:
  assumes "d4r_step s s'" and "sound_inv s"
  shows "sound_inv s'"
  using assms by (cases rule: d4r_step.cases) (auto intro: sound_block sound_fetch sound_transmit sound_activate)

lemma reach_sound: "d4r_reach s \<Longrightarrow> sound_inv s"
  by (induction rule: d4r_reach.induct) (auto intro: sound_init sound_step)

lemma report_cycle:
  assumes "sound_inv s" and "fetched s i = Some t" and "fst (Transmit (node s i) t)"
  shows "(i, i) \<in> (edges s)\<^sup>+"
proof -
  have eq: "pub s i = t" "priority (pub s i) = priority (priv s i)"
    using assms(3) by (auto simp: Transmit_def pub_def priv_def split: if_splits)
  then have "tag_QueueKey t = i" using sound_invD(1) [OF assms(1), of i] by (simp add: tag_QueueKey_def)
  with sound_invD(6) [OF assms(1,2)] eq(1) obtain z where "waits s i = Some z" "(z, i) \<in> (edges s)\<^sup>*" by auto
  then show ?thesis by (rule path_first)
qed

section \<open>Every cycle reports\<close>

lemma live_invD:
  assumes "live_inv s"
  shows "fetched s x = Some t \<Longrightarrow> waits s x = Some z \<Longrightarrow> label t \<le> label (pub s z)"
    "label (pub s x) \<le> label (pub s (tag_Key (pub s x)))"
    "fetched s x = Some t \<Longrightarrow> label t \<le> label (pub s (tag_Key t))"
    "waits s x = Some y \<Longrightarrow> label (pub s x) = label (priv s x) \<or> label (pub s x) \<le> label (pub s y)"
    "\<exists>r. (x, r) \<in> (edges s)\<^sup>* \<and> label (pub s x) \<le> label (pub s r) \<and>
       (waits s r = None \<or> label (pub s r) = label (priv s r))"
    "waits s r \<noteq> None \<Longrightarrow> label (pub s x) = label (priv s r) \<Longrightarrow>
       \<exists>w. (x, w) \<in> (edges s)\<^sup>* \<and> (w, r) \<in> (edges s)\<^sup>* \<and> priority (pub s x) = priority (priv s w)"
    "fetched s x = Some t \<Longrightarrow> waits s r \<noteq> None \<Longrightarrow> label t = label (priv s r) \<Longrightarrow>
       \<exists>z w. waits s x = Some z \<and> (z, w) \<in> (edges s)\<^sup>* \<and> (w, r) \<in> (edges s)\<^sup>* \<and> priority t = priority (priv s w)"
  using assms unfolding live_inv_def by blast+

lemma live_invI:
  assumes "\<And>x t z. fetched s x = Some t \<Longrightarrow> waits s x = Some z \<Longrightarrow> label t \<le> label (pub s z)"
    and "\<And>x. label (pub s x) \<le> label (pub s (tag_Key (pub s x)))"
    and "\<And>x t. fetched s x = Some t \<Longrightarrow> label t \<le> label (pub s (tag_Key t))"
    and "\<And>x y. waits s x = Some y \<Longrightarrow> label (pub s x) = label (priv s x) \<or> label (pub s x) \<le> label (pub s y)"
    and "\<And>x. \<exists>r. (x, r) \<in> (edges s)\<^sup>* \<and> label (pub s x) \<le> label (pub s r) \<and>
       (waits s r = None \<or> label (pub s r) = label (priv s r))"
    and "\<And>x r. waits s r \<noteq> None \<Longrightarrow> label (pub s x) = label (priv s r) \<Longrightarrow>
       \<exists>w. (x, w) \<in> (edges s)\<^sup>* \<and> (w, r) \<in> (edges s)\<^sup>* \<and> priority (pub s x) = priority (priv s w)"
    and "\<And>x t r. fetched s x = Some t \<Longrightarrow> waits s r \<noteq> None \<Longrightarrow> label t = label (priv s r) \<Longrightarrow>
       \<exists>z w. waits s x = Some z \<and> (z, w) \<in> (edges s)\<^sup>* \<and> (w, r) \<in> (edges s)\<^sup>* \<and> priority t = priority (priv s w)"
  shows "live_inv s"
  unfolding live_inv_def using assms by (intro conjI allI impI) assumption+

lemma live_init: "live_inv new_net"
  by (rule live_invI) (auto simp: new_net_def new_d4r_node_def new_Tag_def pub_def priv_def tag_defs)

lemma live_fetch:
  assumes "live_inv s" and "waits s i = Some j"
  shows "live_inv (s\<lparr>fetched := (fetched s)(i \<mapsto> pub s j)\<rparr>)" (is "live_inv ?s")
proof (rule live_invI; unfold node_frame)
  note D = live_invD [OF assms(1)]
  show "label t \<le> label (pub s z)" if "fetched ?s x = Some t" "waits ?s x = Some z" for x t z
    using that D(1) [of x t z] assms(2) by (auto split: if_splits)
  show "label t \<le> label (pub s (tag_Key t))" if "fetched ?s x = Some t" for x t
    using that D(2) [of j] D(3) [of x t] by (auto split: if_splits)
  show "\<exists>z w. waits ?s x = Some z \<and> (z, w) \<in> (edges s)\<^sup>* \<and> (w, r) \<in> (edges s)\<^sup>* \<and> priority t = priority (priv s w)"
    if "fetched ?s x = Some t" "waits ?s r \<noteq> None" "label t = label (priv s r)" for x t r
    using that D(6) [of r j] D(7) [of x t r] assms(2) by (cases "x = i") auto
qed (use live_invD [OF assms(1)] in \<open>simp_all\<close>)

lemma live_block:
  assumes "sound_inv s" and "live_inv s" and "waits s i = None" and "fetched s i = None"
    and "max (tag_Count (pub s i)) (tag_Count t) + 1 < 2 ^ 64"
  shows "live_inv (do_block s i j t q)" (is "live_inv ?s")
proof (rule live_invI)
  note D = live_invD [OF assms(2)]
  note own = do_block_own [OF assms(5), of j q]
  have key: "tag_Key (pub ?s i) = i" using own sound_invD(2) [OF assms(1)] by auto
  have mono: "label (pub s x) \<le> label (pub ?s x)" for x using own(3) by (cases "x = i") auto
  have path: "(x, k) \<in> (edges s)\<^sup>* \<Longrightarrow> (x, k) \<in> (edges ?s)\<^sup>*" for x k
    using edges_block [OF assms(3), of j t q] by (auto intro: rtrancl_mono [THEN subsetD])
  have fresh: "label (pub s x) \<noteq> label (pub ?s i)" for x
    using D(2) [of x] own(3) key by (metis leD tag_Key_def)
  have freshf: "fetched s x = Some u \<Longrightarrow> label u \<noteq> label (pub ?s i)" for x u
    using D(3) [of x u] own(3) key by (metis leD tag_Key_def)
  have notown: "r \<noteq> i \<Longrightarrow> label (priv s r) \<noteq> label (pub ?s i)" for r
    using sound_invD(2) [OF assms(1), of r] key by (metis tag_Key_def)
  have end_i: "(i, r) \<in> (edges s)\<^sup>* \<Longrightarrow> r = i" for r using no_edge_from [OF assms(3)] .
  show "label u \<le> label (pub ?s z)" if "fetched ?s x = Some u" "waits ?s x = Some z" for x u z
    using that assms(4) D(1) [of x u z] mono [of z] by (cases "x = i") (auto intro: order_trans)
  show "label (pub ?s x) \<le> label (pub ?s (tag_Key (pub ?s x)))" for x
    using D(2) [of x] mono key by (cases "x = i") (auto intro: order_trans)
  show "label u \<le> label (pub ?s (tag_Key u))" if "fetched ?s x = Some u" for x u
    using D(3) [of x u] that mono by (auto intro: order_trans)
  show "label (pub ?s x) = label (priv ?s x) \<or> label (pub ?s x) \<le> label (pub ?s y)" if "waits ?s x = Some y" for x y
    using that D(4) [of x y] mono [of y] by (cases "x = i") (auto intro: order_trans)
  show "\<exists>r. (x, r) \<in> (edges ?s)\<^sup>* \<and> label (pub ?s x) \<le> label (pub ?s r) \<and>
       (waits ?s r = None \<or> label (pub ?s r) = label (priv ?s r))" for x
  proof (cases "x = i")
    case False
    obtain r where r: "(x, r) \<in> (edges s)\<^sup>*" "label (pub s x) \<le> label (pub s r)"
        "waits s r = None \<or> label (pub s r) = label (priv s r)" using D(5) by blast
    show ?thesis
      using r path mono [of r] False by (intro exI [of _ r]) (cases "r = i"; auto intro: order_trans)
  qed (auto intro!: exI [of _ i])
  show "\<exists>w. (x, w) \<in> (edges ?s)\<^sup>* \<and> (w, r) \<in> (edges ?s)\<^sup>* \<and> priority (pub ?s x) = priority (priv ?s w)"
    if r: "waits ?s r \<noteq> None" "label (pub ?s x) = label (priv ?s r)" for x r
  proof (cases "x = i")
    case True
    then have "r = i" using r(2) notown [of r] by (cases "r = i") auto
    with True show ?thesis by (intro exI [of _ i]) simp
  next
    case False
    have ri: "r \<noteq> i" using r(2) False fresh by auto
    then obtain w where "(x, w) \<in> (edges s)\<^sup>*" "(w, r) \<in> (edges s)\<^sup>*" "priority (pub s x) = priority (priv s w)"
      using D(6) [of r x] r False by auto
    moreover have "w \<noteq> i" using \<open>(w, r) \<in> _\<close> end_i ri by auto
    ultimately show ?thesis using path False by (intro exI [of _ w]) simp
  qed
  show "\<exists>z w. waits ?s x = Some z \<and> (z, w) \<in> (edges ?s)\<^sup>* \<and> (w, r) \<in> (edges ?s)\<^sup>* \<and> priority u = priority (priv ?s w)"
    if u: "fetched ?s x = Some u" "waits ?s r \<noteq> None" "label u = label (priv ?s r)" for x u r
  proof -
    have xi: "x \<noteq> i" using u(1) assms(4) by auto
    have ri: "r \<noteq> i" using u(1,3) freshf by auto
    then obtain z w where "waits s x = Some z" "(z, w) \<in> (edges s)\<^sup>*" "(w, r) \<in> (edges s)\<^sup>*"
        "priority u = priority (priv s w)"
      using D(7) [of x u r] u by auto
    moreover have "w \<noteq> i" using \<open>(w, r) \<in> _\<close> end_i ri by auto
    ultimately show ?thesis using path xi by (intro exI [of _ z] exI [of _ w]) simp
  qed
qed

lemma live_transmit:
  assumes "live_inv s" and "fetched s i = Some t"
  shows "live_inv (do_transmit s i t)" (is "live_inv ?s")
proof (rule live_invI)
  note D = live_invD [OF assms(1)]
  note mono = do_transmit_mono [of s _ i t]
  have new: "pub ?s i = pub s i \<or> label (pub ?s i) = label t" by (rule do_transmit_cases [of s i t]) auto
  have le_z: "label t \<le> label (pub ?s z)" if "waits s i = Some z" for z
    using D(1) [OF assms(2) that] mono [of z] by (rule order_trans)
  show "label u \<le> label (pub ?s z)" if "fetched ?s x = Some u" "waits ?s x = Some z" for x u z
    using that D(1) [of x u z] mono [of z] by (auto intro: order_trans split: if_splits)
  show "label (pub ?s x) \<le> label (pub ?s (tag_Key (pub ?s x)))" for x
  proof (cases "x = i \<and> label (pub ?s i) = label t")
    case True
    with D(3) [OF assms(2)] mono show ?thesis by (metis order_trans tag_Key_def)
  next
    case False
    then have "pub ?s x = pub s x" using new by (cases "x = i") auto
    with D(2) [of x] mono show ?thesis by (metis order_trans)
  qed
  show "label u \<le> label (pub ?s (tag_Key u))" if "fetched ?s x = Some u" for x u
    using D(3) [of x u] that mono by (auto intro: order_trans split: if_splits)
  show "label (pub ?s x) = label (priv ?s x) \<or> label (pub ?s x) \<le> label (pub ?s y)" if w: "waits ?s x = Some y" for x y
  proof (cases "x = i \<and> label (pub ?s i) = label t")
    case True
    with le_z w show ?thesis by auto
  next
    case False
    then have "pub ?s x = pub s x" using new by (cases "x = i") auto
    with D(4) [of x y] w mono [of y] show ?thesis by (auto intro: order_trans)
  qed
  have root: "\<exists>r. (x, r) \<in> (edges s)\<^sup>* \<and> label (pub ?s x) \<le> label (pub ?s r) \<and>
       (waits s r = None \<or> label (pub ?s r) = label (priv s r))" if x: "x = i" for x
  proof (cases "waits s i")
    case None
    with x show ?thesis by blast
  next
    case (Some z)
    obtain r where r: "(z, r) \<in> (edges s)\<^sup>*" "label (pub s z) \<le> label (pub s r)"
        "waits s r = None \<or> label (pub s r) = label (priv s r)" using D(5) by blast
    have ir: "(i, r) \<in> (edges s)\<^sup>*" using Some r(1) by (auto simp: edges_def intro: converse_rtrancl_into_rtrancl)
    have tr: "label t \<le> label (pub s r)" using D(1) [OF assms(2) Some] r(2) by (rule order_trans)
    show ?thesis
    proof (cases "pub ?s i = pub s i")
      case True
      obtain r' where "(i, r') \<in> (edges s)\<^sup>*" "label (pub s i) \<le> label (pub s r')"
        "waits s r' = None \<or> label (pub s r') = label (priv s r')" using D(5) by blast
      moreover have "pub ?s r' = pub s r'" using True by (cases "r' = i") auto
      ultimately show ?thesis using True x by auto
    next
      case False
      then have lt: "label (pub ?s i) = label t" "label (pub s i) \<le> label t"
        using new do_transmit_label [of s i t] by auto
      show ?thesis
      proof (cases "r = i")
        case True
        then have "label (pub ?s i) = label (pub s i)" using tr lt by auto
        with True r(3) x show ?thesis by (intro exI [of _ i]) auto
      next
        case ri: False
        with r ir tr lt x show ?thesis by (intro exI [of _ r]) auto
      qed
    qed
  qed
  show "\<exists>r. (x, r) \<in> (edges ?s)\<^sup>* \<and> label (pub ?s x) \<le> label (pub ?s r) \<and>
       (waits ?s r = None \<or> label (pub ?s r) = label (priv ?s r))" for x
  proof (cases "x = i")
    case True
    then show ?thesis using root by simp
  next
    case False
    obtain r where r: "(x, r) \<in> (edges s)\<^sup>*" "label (pub s x) \<le> label (pub s r)"
        "waits s r = None \<or> label (pub s r) = label (priv s r)" using D(5) by blast
    show ?thesis
    proof (cases "r = i")
      case ri: False
      with r False show ?thesis by auto
    next
      case True
      obtain r' where "(i, r') \<in> (edges s)\<^sup>*" "label (pub ?s i) \<le> label (pub ?s r')"
        "waits s r' = None \<or> label (pub ?s r') = label (priv s r')" using root by blast
      with r True False mono [of i] show ?thesis
        by (intro exI [of _ r']) (auto intro: rtrancl_trans order_trans)
    qed
  qed
  show "\<exists>w. (x, w) \<in> (edges ?s)\<^sup>* \<and> (w, r) \<in> (edges ?s)\<^sup>* \<and> priority (pub ?s x) = priority (priv ?s w)"
    if r: "waits ?s r \<noteq> None" "label (pub ?s x) = label (priv ?s r)" for x r
  proof (cases "pub ?s x = pub s x")
    case True
    with D(6) [of r x] r show ?thesis by simp
  next
    case False
    then have x: "x = i" by (cases "x = i") auto
    then have lt: "label (pub ?s i) = label t" using False new by auto
    obtain z w where zw: "waits s i = Some z" "(z, w) \<in> (edges s)\<^sup>*" "(w, r) \<in> (edges s)\<^sup>*"
        "priority t = priority (priv s w)"
      using D(7) [OF assms(2), of r] r lt x by auto
    then have iw: "(i, w) \<in> (edges s)\<^sup>*" by (auto simp: edges_def intro: converse_rtrancl_into_rtrancl)
    consider "priority (pub ?s i) = priority (priv s i)" | "priority (pub ?s i) = priority t"
      using False x by (cases rule: do_transmit_cases [of s i t]) auto
    then show ?thesis
    proof cases
      case 1
      with iw zw(3) x show ?thesis by (intro exI [of _ i]) (auto intro: rtrancl_trans)
    next
      case 2
      with iw zw x show ?thesis by (intro exI [of _ w]) auto
    qed
  qed
  show "\<exists>z w. waits ?s x = Some z \<and> (z, w) \<in> (edges ?s)\<^sup>* \<and> (w, r) \<in> (edges ?s)\<^sup>* \<and> priority u = priority (priv ?s w)"
    if u: "fetched ?s x = Some u" "waits ?s r \<noteq> None" "label u = label (priv ?s r)" for x u r
    using D(7) [of x u r] u by (auto split: if_splits)
qed

lemma live_activate:
  assumes "live_inv s" and "waits s i = Some j" and "waits s j = None"
  shows "live_inv (s\<lparr>waits := (waits s)(i := None)\<rparr>)" (is "live_inv ?s")
proof (rule live_invI; unfold node_frame edges_activate)
  note D = live_invD [OF assms(1)]
  let ?E = "edges s - {i} \<times> UNIV"
  have keep: "(x, k) \<in> ?E\<^sup>*" if "(x, k) \<in> (edges s)\<^sup>*" "waits s k \<noteq> None" "k \<noteq> i" for x k
    using path_activate [OF assms(2,3) that(2,1,3)] .
  have mid: "waits s w \<noteq> None \<and> w \<noteq> i" if "(w, r) \<in> (edges s)\<^sup>*" "waits s r \<noteq> None" "r \<noteq> i" for w r
  proof -
    have "w \<noteq> i"
    proof
      assume "w = i"
      then have "(i, r) \<in> (edges s)\<^sup>+" using that(1,3) by (auto simp: rtrancl_eq_or_trancl)
      then have "(j, r) \<in> (edges s)\<^sup>*" using path_first_inv [of i r s] assms(2) by auto
      then have "r = j" by (rule no_edge_from [OF assms(3)])
      then show False using that(2) assms(3) by simp
    qed
    moreover have "waits s w \<noteq> None" using that(1,2) no_edge_from [of s w r] by (cases "waits s w") auto
    ultimately show ?thesis by simp
  qed
  show "label t \<le> label (pub s z)" if "fetched ?s x = Some t" "waits ?s x = Some z" for x t z
    using that D(1) [of x t z] by (auto split: if_splits)
  show "label (pub s x) \<le> label (pub s (tag_Key (pub s x)))" for x by (fact D(2))
  show "label t \<le> label (pub s (tag_Key t))" if "fetched ?s x = Some t" for x t
    using that D(3) [of x t] by simp
  show "label (pub s x) = label (priv s x) \<or> label (pub s x) \<le> label (pub s y)" if "waits ?s x = Some y" for x y
    using that D(4) [of x y] by (auto split: if_splits)
  have root_i: "\<exists>r. (x, r) \<in> ?E\<^sup>* \<and> label (pub s x) \<le> label (pub s r) \<and> (r = i \<or> label (pub s r) = label (priv s r))"
    if "(x, i) \<in> ?E\<^sup>*" for x
    using that
  proof (induction rule: converse_rtrancl_induct)
    case (step x y)
    then have "waits s x = Some y" by (simp add: edges_def)
    from D(4) [OF this] step show ?case
      by (elim disjE) (auto intro: converse_rtrancl_into_rtrancl order_trans)
  qed blast
  have split: "(x, r) \<in> ?E\<^sup>* \<or> (x, i) \<in> ?E\<^sup>*" if "(x, r) \<in> (edges s)\<^sup>*" for x r
    using that
  proof (induction rule: converse_rtrancl_induct)
    case (step x y)
    then show ?case by (cases "x = i") (auto intro: converse_rtrancl_into_rtrancl)
  qed simp
  show "\<exists>r. (x, r) \<in> ?E\<^sup>* \<and> label (pub s x) \<le> label (pub s r) \<and>
      (waits ?s r = None \<or> label (pub s r) = label (priv s r))" for x
  proof (cases "(x, i) \<in> ?E\<^sup>*")
    case True
    from root_i [OF this] obtain r where "(x, r) \<in> ?E\<^sup>*" "label (pub s x) \<le> label (pub s r)"
        "r = i \<or> label (pub s r) = label (priv s r)" by blast
    then show ?thesis by (intro exI [of _ r]) auto
  next
    case False
    obtain r where "(x, r) \<in> (edges s)\<^sup>*" "label (pub s x) \<le> label (pub s r)"
        "waits s r = None \<or> label (pub s r) = label (priv s r)" using D(5) by blast
    with split False show ?thesis by (intro exI [of _ r]) auto
  qed
  show "\<exists>w. (x, w) \<in> ?E\<^sup>* \<and> (w, r) \<in> ?E\<^sup>* \<and> priority (pub s x) = priority (priv s w)"
    if r: "waits ?s r \<noteq> None" "label (pub s x) = label (priv s r)" for x r
  proof -
    have ri: "r \<noteq> i" "waits s r \<noteq> None" using r(1) by (auto split: if_splits)
    obtain w where "(x, w) \<in> (edges s)\<^sup>*" "(w, r) \<in> (edges s)\<^sup>*" "priority (pub s x) = priority (priv s w)"
      using D(6) [OF ri(2) r(2)] by blast
    with keep mid ri show ?thesis by blast
  qed
  show "\<exists>z w. waits ?s x = Some z \<and> (z, w) \<in> ?E\<^sup>* \<and> (w, r) \<in> ?E\<^sup>* \<and> priority t = priority (priv s w)"
    if f: "fetched ?s x = Some t" and r: "waits ?s r \<noteq> None" "label t = label (priv s r)" for x t r
  proof -
    have ri: "r \<noteq> i" "waits s r \<noteq> None" using r(1) by (auto split: if_splits)
    obtain z w where zw: "waits s x = Some z" "(z, w) \<in> (edges s)\<^sup>*" "(w, r) \<in> (edges s)\<^sup>*" "priority t = priority (priv s w)"
      using D(7) [of x t r] f ri(2) r(2) by auto
    have "x \<noteq> i"
    proof
      assume "x = i"
      then have "(j, r) \<in> (edges s)\<^sup>*" using zw assms(2) by auto
      then have "r = j" by (rule no_edge_from [OF assms(3)])
      then show False using ri(2) assms(3) by simp
    qed
    with zw keep mid ri show ?thesis by (intro exI [of _ z] exI [of _ w]) auto
  qed
qed

lemma live_step:
  assumes "d4r_step s s'" and "sound_inv s" and "live_inv s"
  shows "live_inv s'"
  using assms by (cases rule: d4r_step.cases) (auto intro: live_block live_fetch live_transmit live_activate)

lemma reach_live: "d4r_reach s \<Longrightarrow> live_inv s"
  by (induction rule: d4r_reach.induct) (auto intro: live_init live_step reach_sound)

lemma cycle_back:
  assumes "(i, i) \<in> (edges s)\<^sup>+"
  shows "(i, x) \<in> (edges s)\<^sup>* \<Longrightarrow> (x, i) \<in> (edges s)\<^sup>+"
proof (induction rule: rtrancl_induct)
  case (step x y)
  then obtain z where "(x, z) \<in> edges s" "(z, i) \<in> (edges s)\<^sup>*" by (auto dest: tranclD)
  with step have "(y, i) \<in> (edges s)\<^sup>*" by (auto simp: edges_def)
  then show ?case using assms by (rule rtrancl_trancl_trancl)
qed (use assms in simp)

lemma Transmit_report:
  "fst (Transmit (node s x) t) \<longleftrightarrow> pub s x = t \<and> priority (pub s x) = priority (priv s x)"
  by (auto simp: Transmit_def pub_def priv_def)

lemma settled_equal:
  assumes "(i, i) \<in> (edges s)\<^sup>+" and "settled s i" and "(i, x) \<in> (edges s)\<^sup>*"
  shows "pub s x = pub s i"
proof -
  have down: "pub s y \<le> pub s x" if "(i, x) \<in> (edges s)\<^sup>*" "(x, y) \<in> (edges s)\<^sup>*" for x y
    using that(2)
  proof (induction rule: rtrancl_induct)
    case (step y z)
    have "(i, y) \<in> (edges s)\<^sup>*" using that(1) step(1) by (rule rtrancl_trans)
    with assms(2) step(2) have "\<not> pub s y < pub s z" by (auto simp: settled_def edges_def)
    with step(3) show ?case by auto
  qed simp
  have "(x, i) \<in> (edges s)\<^sup>*" using cycle_back [OF assms(1,3)] by (rule trancl_into_rtrancl)
  with down assms(3) show ?thesis by (metis order_antisym rtrancl.rtrancl_refl)
qed

section \<open>Running the two-node network\<close>

lemmas net_defs = new_net_def new_d4r_node_def new_Tag_def do_block_def do_transmit_def Block_def Transmit_def
  pub_def priv_def tag_defs u64_def Let_def less_Tag_def less_uint128_t_def less_eq_uint128_t_def min_def

lemma net1_eq: "net1 = new_net\<lparr>node := (node new_net)(0 := \<lparr>publicTag = Tag (U128 1 0) (U128 5 0),
    privateTag = Tag (U128 1 0) (U128 5 0)\<rparr>), waits := [0 \<mapsto> 1]\<rparr>"
  by (simp add: net1_def net_defs)

lemma net2_eq: "net2 = net1\<lparr>node := (node net1)(1 := \<lparr>publicTag = Tag (U128 2 1) (U128 3 1),
    privateTag = Tag (U128 2 1) (U128 3 1)\<rparr>), waits := [0 \<mapsto> 1, 1 \<mapsto> 0]\<rparr>"
  by (simp add: net2_def net1_eq net_defs) (simp add: numeral_2_eq_2)

lemma net4_eq: "net4 = net2\<lparr>node := (node net2)(0 := \<lparr>publicTag = Tag (U128 2 1) (U128 3 1),
    privateTag = Tag (U128 1 0) (U128 5 0)\<rparr>)\<rparr>"
  by (simp add: net4_def net3_def net2_eq net1_eq net_defs fun_eq_iff)

lemma net4_reach: "d4r_reach net4"
proof -
  have "d4r_reach net1"
    unfolding net1_def by (rule reach_step [OF reach_init step_block]) (simp_all add: net_defs)
  then have "d4r_reach net2"
    unfolding net2_def by (rule reach_step [OF _ step_block]) (simp_all add: net1_eq net_defs)
  then have "d4r_reach net3"
    unfolding net3_def by (rule reach_step [OF _ step_fetch]) (simp_all add: net2_eq net1_eq net_defs)
  then show ?thesis
    unfolding net4_def by (rule reach_step [OF _ step_transmit]) (simp add: net3_def)
qed

lemma net5_reach: "d4r_reach net5"
  unfolding net5_def by (rule reach_step [OF net4_reach step_fetch]) (simp_all add: net4_eq net2_eq net1_eq net_defs)

lemma net4_cycle: "(0, 0) \<in> (edges net4)\<^sup>+"
proof -
  have "(0, 1) \<in> edges net4" "(1, 0) \<in> edges net4" by (simp_all add: edges_def net4_eq net2_eq)
  then show ?thesis by (rule trancl_into_trancl2 [OF _ r_into_trancl])
qed

section \<open>Properties\<close>





section \<open>No tag change is lost\<close>

lemma Block_not_less:
  "max (tag_Count (publicTag n)) (tag_Count t) + 1 < 2 ^ 64 \<Longrightarrow> \<not> publicTag (Block n t q) < t"
proof -
  assume "max (tag_Count (publicTag n)) (tag_Count t) + 1 < 2 ^ 64"
  then have "label t < label (publicTag (Block n t q))"
    by (auto simp: Block_def Let_def tag_defs less_uint128_t_def u64_id)
  then show ?thesis by (auto simp: less_Tag_def)
qed

lemma Transmit_not_less: "Transmit n t = (d, n') \<Longrightarrow> \<not> publicTag n' < t"
  by (auto simp: Transmit_def less_Tag_def min_def split: if_splits)

lemma block_step_inv:
  assumes "block_step rd qsize b b'" and "blocker_inv b"
  shows "blocker_inv b'"
  using assms
proof (cases rule: block_step.cases)
  case bs_block
  with assms(2) Block_not_less [of "self b" "arg b"] show ?thesis by (auto simp: blocker_inv_def)
next
  case (bs_transmit detect n)
  with assms(2) Transmit_not_less [of "self b" "arg b" detect n] show ?thesis by (auto simp: blocker_inv_def)
qed (auto simp: blocker_inv_def)

lemma block_steps_inv: "(block_step rd qsize)\<^sup>*\<^sup>* b b' \<Longrightarrow> blocker_inv b \<Longrightarrow> blocker_inv b'"
  by (induction rule: rtranclp_induct) (auto intro: block_step_inv)

text \<open>C18: no tag change is lost: a thread that waits in the loop of \<open>ReadBlock\<close> or \<open>WriteBlock\<close>, with
  no change flagged and no signal on its way, has a public tag that is not below the public tag of the
  node it waits for, so its wait has settled.\<close>

theorem blocked_wait_settled:
  assumes "(block_step rd qsize)\<^sup>*\<^sup>* (new_blocker key t) b"
    and "bpc b = BP_Loop" and "\<not> tagchanged b" and "\<not> pending b"
  shows "\<not> publicTag (self b) < other b"
  using block_steps_inv [OF assms(1)] assms(2-4) by (auto simp: blocker_inv_def new_blocker_def)

theorem blocked_wait_settled_witness:
  "let b = new_blocker 3 (new_Tag 8)
   in \<not> publicTag (Block (self b) (new_Tag 8) (2 ^ 32 - 1)) < new_Tag 8"
proof -
  let ?b = "new_blocker 3 (new_Tag 8)"
  let ?b1 = "?b\<lparr>tagchanged := False, bpc := BP_Comm True\<rparr>"
  let ?b2 = "?b1\<lparr>incomm := True, bpc := BP_Fetch True\<rparr>"
  let ?b3 = "?b2\<lparr>arg := other ?b2, bpc := BP_Call True\<rparr>"
  let ?b4 = "?b3\<lparr>self := Block (self ?b3) (arg ?b3) (if True then 2 ^ 32 - 1 else 0), incomm := False, bpc := BP_Loop\<rparr>"
  have "block_step True 0 ?b ?b1" by (rule bs_enter) (simp_all add: new_blocker_def)
  moreover have "block_step True 0 ?b1 ?b2" by (rule bs_comm) (simp_all add: new_blocker_def)
  moreover have "block_step True 0 ?b2 ?b3" by (rule bs_fetch) simp
  moreover have "block_step True 0 ?b3 ?b4"
    by (rule bs_block) (simp_all add: new_blocker_def new_d4r_node_def new_Tag_def tag_defs)
  ultimately have "(block_step True 0)\<^sup>*\<^sup>* ?b ?b4" by (meson rtranclp.rtrancl_into_rtrancl rtranclp.rtrancl_refl)
  from blocked_wait_settled [OF this] show ?thesis by (simp add: new_blocker_def)
qed

end
