(* ===== verification/LocalCtx.thy ===== *)
theory LocalCtx
  imports Prelude
begin

text \<open>
  The context of a process network, \<open>CPN::LocalContext\<close> (libraries/CPN/LocalContext.cc): the registry of
  kernels, nodes and ports, their keys and names, the connections between ports, and the signals
  and waits on the life of kernels and nodes. Every method runs under the context's lock and is one
  function on the state; a method that waits on a condition variable is the predicate it tests, as
  \<open>Returned\<close>, \<open>Blocks\<close> or \<open>Throws\<close>. A pointer to a kernel is a number or \<open>None\<close> for null.
\<close>

section \<open>State\<close>

record KernelInfo =
  ki_name :: string
  ki_hostname :: string
  ki_servname :: string
  ki_kernel :: "nat option"
  ki_live :: bool
  ki_dead :: bool
  ki_allowremote :: bool

record NodeInfo =
  ni_name :: string
  ni_kernelkey :: nat
  ni_started :: bool
  ni_readers :: "string \<rightharpoonup> nat"
  ni_writers :: "string \<rightharpoonup> nat"
  ni_dead :: bool

record PortInfo =
  pi_name :: string
  pi_qname :: string
  pi_nodekey :: nat
  pi_opposingport :: nat
  pi_dead :: bool

record LocalContext =
  loglevel :: int
  kernelnames :: "string \<rightharpoonup> nat"
  nodenames :: "string \<rightharpoonup> nat"
  kernelmap :: "nat \<rightharpoonup> KernelInfo"
  nodemap :: "nat \<rightharpoonup> NodeInfo"
  readports :: "nat \<rightharpoonup> PortInfo"
  writeports :: "nat \<rightharpoonup> PortInfo"
  numlivenodes :: nat
  shutdown :: bool
  counter :: nat

definition new_LocalContext :: LocalContext where
  "new_LocalContext =
     \<lparr>loglevel = 75, kernelnames = Map.empty, nodenames = Map.empty, kernelmap = Map.empty, nodemap = Map.empty,
      readports = Map.empty, writeports = Map.empty, numlivenodes = 0, shutdown = False, counter = 0\<rparr>"

definition NewKey :: "LocalContext \<Rightarrow> nat" where
  "NewKey c = u64 (counter c + 1)"

text \<open>\<open>InternalCheckTerminated\<close> in front of a method.\<close>

definition checked :: "LocalContext \<Rightarrow> cpn_error + 'a \<Rightarrow> cpn_error + 'a" where
  "checked c r = (if shutdown c then Inl ShutdownException else r)"

section \<open>Kernels\<close>

definition SetupKernel_info :: "LocalContext \<Rightarrow> string \<Rightarrow> KernelInfo \<Rightarrow> cpn_error + nat \<times> LocalContext" where
  "SetupKernel_info c name hinfo = checked c
    (if ki_kernel hinfo = None then Inl InvalidArgument
     else if kernelnames c name \<noteq> None then Inl InvalidArgument
     else
       let key = NewKey c
       in Inr (key, c\<lparr>counter := key, kernelmap := (kernelmap c)(key \<mapsto> hinfo),
                       kernelnames := (kernelnames c)(name \<mapsto> key)\<rparr>))"

definition SetupKernel_remote ::
  "LocalContext \<Rightarrow> string \<Rightarrow> string \<Rightarrow> string \<Rightarrow> nat option \<Rightarrow> cpn_error + nat \<times> LocalContext" where
  "SetupKernel_remote c name hostname servname krn = SetupKernel_info c name
     \<lparr>ki_name = name, ki_hostname = hostname, ki_servname = servname, ki_kernel = krn,
      ki_live = False, ki_dead = False, ki_allowremote = True\<rparr>"

definition SetupKernel :: "LocalContext \<Rightarrow> string \<Rightarrow> nat option \<Rightarrow> cpn_error + nat \<times> LocalContext" where
  "SetupKernel c name krn = SetupKernel_info c name
     \<lparr>ki_name = name, ki_hostname = [], ki_servname = [], ki_kernel = krn,
      ki_live = False, ki_dead = False, ki_allowremote = False\<rparr>"

definition GetKernelKey :: "LocalContext \<Rightarrow> string \<Rightarrow> cpn_error + nat" where
  "GetKernelKey c kname = checked c
    (case kernelnames c kname of None \<Rightarrow> Inl InvalidArgument | Some key \<Rightarrow> Inr key)"

definition GetKernelName :: "LocalContext \<Rightarrow> nat \<Rightarrow> cpn_error + string" where
  "GetKernelName c kernelkey = checked c
    (case kernelmap c kernelkey of None \<Rightarrow> Inl InvalidArgument | Some info \<Rightarrow> Inr (ki_name info))"

definition GetKernelConnectionInfo :: "LocalContext \<Rightarrow> nat \<Rightarrow> cpn_error + string \<times> string" where
  "GetKernelConnectionInfo c kernelkey = checked c
    (case kernelmap c kernelkey of
       None \<Rightarrow> Inl InvalidArgument
     | Some info \<Rightarrow> ASSERT (ki_allowremote info) (Inr (ki_hostname info, ki_servname info)))"

definition SignalKernelEnd :: "LocalContext \<Rightarrow> nat \<Rightarrow> cpn_error + LocalContext" where
  "SignalKernelEnd c kernelkey =
    (case kernelmap c kernelkey of
       None \<Rightarrow> Inl InvalidArgument
     | Some info \<Rightarrow> Inr (c\<lparr>kernelmap := (kernelmap c)(kernelkey \<mapsto> info\<lparr>ki_dead := True\<rparr>)\<rparr>))"

definition WaitForKernelStart :: "LocalContext \<Rightarrow> string \<Rightarrow> nat outcome" where
  "WaitForKernelStart c kname =
    (if shutdown c then Throws ShutdownException
     else case kernelnames c kname of
       None \<Rightarrow> Blocks
     | Some key \<Rightarrow>
        (case kernelmap c key of
           None \<Rightarrow> Throws NullPointer
         | Some info \<Rightarrow> if ki_live info then Returned key else Blocks))"

definition SignalKernelStart :: "LocalContext \<Rightarrow> nat \<Rightarrow> cpn_error + LocalContext" where
  "SignalKernelStart c kernelkey = checked c
    (case kernelmap c kernelkey of
       None \<Rightarrow> Inl InvalidArgument
     | Some info \<Rightarrow> Inr (c\<lparr>kernelmap := (kernelmap c)(kernelkey \<mapsto> info\<lparr>ki_live := True\<rparr>)\<rparr>))"

text \<open>
  The four \<open>SendCreate\<close> methods pass a request on to the kernel. They look the kernel up with
  \<open>kernelmap[kernelkey]\<close>, which gives a null pointer for a key that is not there.
\<close>

datatype 'a remote_request =
  RemoteCreateWriter 'a | RemoteCreateReader 'a | RemoteCreateQueue 'a | RemoteCreateNode 'a

definition send_create :: "LocalContext \<Rightarrow> nat \<Rightarrow> 'a remote_request \<Rightarrow> cpn_error + nat \<times> 'a remote_request" where
  "send_create c kernelkey req = checked c
    (case kernelmap c kernelkey of
       None \<Rightarrow> Inl NullPointer
     | Some info \<Rightarrow> (case ki_kernel info of None \<Rightarrow> Inl AssertException | Some krn \<Rightarrow> Inr (krn, req)))"

definition SendCreateWriter :: "LocalContext \<Rightarrow> nat \<Rightarrow> 'a \<Rightarrow> cpn_error + nat \<times> 'a remote_request" where
  "SendCreateWriter c kernelkey attr = send_create c kernelkey (RemoteCreateWriter attr)"

definition SendCreateReader :: "LocalContext \<Rightarrow> nat \<Rightarrow> 'a \<Rightarrow> cpn_error + nat \<times> 'a remote_request" where
  "SendCreateReader c kernelkey attr = send_create c kernelkey (RemoteCreateReader attr)"

definition SendCreateQueue :: "LocalContext \<Rightarrow> nat \<Rightarrow> 'a \<Rightarrow> cpn_error + nat \<times> 'a remote_request" where
  "SendCreateQueue c kernelkey attr = send_create c kernelkey (RemoteCreateQueue attr)"

definition SendCreateNode :: "LocalContext \<Rightarrow> nat \<Rightarrow> 'a \<Rightarrow> cpn_error + nat \<times> 'a remote_request" where
  "SendCreateNode c kernelkey attr = send_create c kernelkey (RemoteCreateNode attr)"

section \<open>Nodes\<close>

definition CreateNodeKey :: "LocalContext \<Rightarrow> nat \<Rightarrow> string \<Rightarrow> cpn_error + nat \<times> LocalContext" where
  "CreateNodeKey c kernelkey nodename = checked c
    (if nodenames c nodename = None then
       let key = NewKey c;
           ninfo = \<lparr>ni_name = nodename, ni_kernelkey = kernelkey, ni_started = False, ni_readers = Map.empty,
             ni_writers = Map.empty, ni_dead = False\<rparr>
       in Inr (key, c\<lparr>counter := key, nodenames := (nodenames c)(nodename \<mapsto> key),
                       nodemap := (nodemap c)(key \<mapsto> ninfo)\<rparr>)
     else Inl InvalidArgument)"

definition GetNodeKey :: "LocalContext \<Rightarrow> string \<Rightarrow> cpn_error + nat" where
  "GetNodeKey c nodename = checked c
    (case nodenames c nodename of None \<Rightarrow> Inl InvalidArgument | Some key \<Rightarrow> Inr key)"

definition GetNodeName :: "LocalContext \<Rightarrow> nat \<Rightarrow> cpn_error + string" where
  "GetNodeName c nodekey =
    (case nodemap c nodekey of None \<Rightarrow> Inl InvalidArgument | Some info \<Rightarrow> Inr (ni_name info))"

definition SignalNodeStart :: "LocalContext \<Rightarrow> nat \<Rightarrow> cpn_error + LocalContext" where
  "SignalNodeStart c nodekey = checked c
    (case nodemap c nodekey of
       None \<Rightarrow> Inl InvalidArgument
     | Some info \<Rightarrow> Inr (c\<lparr>nodemap := (nodemap c)(nodekey \<mapsto> info\<lparr>ni_started := True\<rparr>),
                              numlivenodes := u32 (numlivenodes c + 1)\<rparr>))"

definition SignalNodeEnd :: "LocalContext \<Rightarrow> nat \<Rightarrow> cpn_error + LocalContext" where
  "SignalNodeEnd c nodekey =
    (case nodemap c nodekey of
       None \<Rightarrow> Inl InvalidArgument
     | Some info \<Rightarrow> Inr (c\<lparr>nodemap := (nodemap c)(nodekey \<mapsto> info\<lparr>ni_dead := True\<rparr>),
                              numlivenodes := sub32 (numlivenodes c) 1\<rparr>))"

definition WaitForNodeStart :: "LocalContext \<Rightarrow> string \<Rightarrow> nat outcome" where
  "WaitForNodeStart c nodename =
    (if shutdown c then Throws ShutdownException
     else case nodenames c nodename of
       None \<Rightarrow> Blocks
     | Some key \<Rightarrow>
        (case nodemap c key of
           None \<Rightarrow> Blocks
         | Some info \<Rightarrow> if ni_started info then Returned key else Blocks))"

definition WaitForNodeEnd :: "LocalContext \<Rightarrow> string \<Rightarrow> unit outcome" where
  "WaitForNodeEnd c nodename =
    (if shutdown c then Returned ()
     else case nodenames c nodename of
       None \<Rightarrow> Blocks
     | Some key \<Rightarrow>
        (case nodemap c key of
           None \<Rightarrow> Blocks
         | Some info \<Rightarrow>
            if ni_dead info then (if ni_started info then Returned () else Throws AssertException) else Blocks))"

definition WaitForAllNodeEnd :: "LocalContext \<Rightarrow> unit outcome" where
  "WaitForAllNodeEnd c = (if 0 < numlivenodes c \<and> \<not> shutdown c then Blocks else Returned ())"

definition GetNodeKernel :: "LocalContext \<Rightarrow> nat \<Rightarrow> cpn_error + nat" where
  "GetNodeKernel c nodekey = checked c
    (case nodemap c nodekey of None \<Rightarrow> Inl InvalidArgument | Some info \<Rightarrow> Inr (ni_kernelkey info))"

section \<open>Ports\<close>

definition new_port :: "nat \<Rightarrow> string \<Rightarrow> PortInfo" where
  "new_port nodekey portname =
     \<lparr>pi_name = portname, pi_qname = [], pi_nodekey = nodekey, pi_opposingport = 0, pi_dead = False\<rparr>"

definition GetCreateReaderKey :: "LocalContext \<Rightarrow> nat \<Rightarrow> string \<Rightarrow> cpn_error + nat \<times> LocalContext" where
  "GetCreateReaderKey c nodekey portname = checked c
    (case nodemap c nodekey of
       None \<Rightarrow> Inl InvalidArgument
     | Some info \<Rightarrow>
        (case ni_readers info portname of
           None \<Rightarrow>
             let key = NewKey c
             in Inr (key, c\<lparr>counter := key,
                   nodemap := (nodemap c)(nodekey \<mapsto> info\<lparr>ni_readers := (ni_readers info)(portname \<mapsto> key)\<rparr>),
                   readports := (readports c)(key \<mapsto> new_port nodekey portname)\<rparr>)
         | Some key \<Rightarrow> Inr (key, c)))"

definition GetCreateWriterKey :: "LocalContext \<Rightarrow> nat \<Rightarrow> string \<Rightarrow> cpn_error + nat \<times> LocalContext" where
  "GetCreateWriterKey c nodekey portname = checked c
    (case nodemap c nodekey of
       None \<Rightarrow> Inl InvalidArgument
     | Some info \<Rightarrow>
        (case ni_writers info portname of
           None \<Rightarrow>
             let key = NewKey c
             in Inr (key, c\<lparr>counter := key,
                   nodemap := (nodemap c)(nodekey \<mapsto> info\<lparr>ni_writers := (ni_writers info)(portname \<mapsto> key)\<rparr>),
                   writeports := (writeports c)(key \<mapsto> new_port nodekey portname)\<rparr>)
         | Some key \<Rightarrow> Inr (key, c)))"

definition GetReaderNode :: "LocalContext \<Rightarrow> nat \<Rightarrow> cpn_error + nat" where
  "GetReaderNode c portkey = checked c
    (case readports c portkey of None \<Rightarrow> Inl InvalidArgument | Some info \<Rightarrow> Inr (pi_nodekey info))"

definition GetReaderKernel :: "LocalContext \<Rightarrow> nat \<Rightarrow> cpn_error + nat" where
  "GetReaderKernel c portkey =
    (case GetReaderNode c portkey of Inl e \<Rightarrow> Inl e | Inr nodekey \<Rightarrow> GetNodeKernel c nodekey)"

definition GetReaderName :: "LocalContext \<Rightarrow> nat \<Rightarrow> cpn_error + string" where
  "GetReaderName c portkey = checked c
    (case readports c portkey of None \<Rightarrow> Inl InvalidArgument | Some info \<Rightarrow> Inr (pi_name info))"

definition GetWriterNode :: "LocalContext \<Rightarrow> nat \<Rightarrow> cpn_error + nat" where
  "GetWriterNode c portkey = checked c
    (case writeports c portkey of None \<Rightarrow> Inl InvalidArgument | Some info \<Rightarrow> Inr (pi_nodekey info))"

definition GetWriterKernel :: "LocalContext \<Rightarrow> nat \<Rightarrow> cpn_error + nat" where
  "GetWriterKernel c portkey =
    (case GetWriterNode c portkey of Inl e \<Rightarrow> Inl e | Inr nodekey \<Rightarrow> GetNodeKernel c nodekey)"

definition GetWriterName :: "LocalContext \<Rightarrow> nat \<Rightarrow> cpn_error + string" where
  "GetWriterName c portkey = checked c
    (case writeports c portkey of None \<Rightarrow> Inl InvalidArgument | Some info \<Rightarrow> Inr (pi_name info))"

definition ConnectEndpoints :: "LocalContext \<Rightarrow> nat \<Rightarrow> nat \<Rightarrow> string \<Rightarrow> cpn_error + LocalContext" where
  "ConnectEndpoints c writerkey readerkey qname = checked c
    (case writeports c writerkey of
       None \<Rightarrow> Inl InvalidArgument
     | Some w \<Rightarrow>
        (case readports c readerkey of
           None \<Rightarrow> Inl InvalidArgument
         | Some r \<Rightarrow>
            Inr (c\<lparr>writeports := (writeports c)(writerkey \<mapsto> w\<lparr>pi_opposingport := readerkey, pi_qname := qname\<rparr>),
                    readports := (readports c)(readerkey \<mapsto> r\<lparr>pi_opposingport := writerkey, pi_qname := qname\<rparr>)\<rparr>)))"

definition GetReadersWriter :: "LocalContext \<Rightarrow> nat \<Rightarrow> cpn_error + nat" where
  "GetReadersWriter c readerkey = checked c
    (case readports c readerkey of None \<Rightarrow> Inl InvalidArgument | Some info \<Rightarrow> Inr (pi_opposingport info))"

definition GetWritersReader :: "LocalContext \<Rightarrow> nat \<Rightarrow> cpn_error + nat" where
  "GetWritersReader c writerkey = checked c
    (case writeports c writerkey of None \<Rightarrow> Inl InvalidArgument | Some info \<Rightarrow> Inr (pi_opposingport info))"

text \<open>\<open>Terminate\<close> tells every kernel that is not dead; the state changes only in \<open>shutdown\<close>.\<close>

definition Terminate :: "LocalContext \<Rightarrow> LocalContext" where
  "Terminate c = c\<lparr>shutdown := True\<rparr>"

definition IsTerminated :: "LocalContext \<Rightarrow> bool" where
  "IsTerminated c = shutdown c"

definition terminate_notifies :: "LocalContext \<Rightarrow> nat \<Rightarrow> bool" where
  "terminate_notifies c k \<longleftrightarrow> (case kernelmap c k of None \<Rightarrow> False | Some info \<Rightarrow> \<not> ki_dead info)"

section \<open>Sequences of calls\<close>

datatype ctx_op =
    Op_SetupKernel_remote string string string "nat option"
  | Op_SetupKernel string "nat option"
  | Op_SignalKernelStart nat
  | Op_SignalKernelEnd nat
  | Op_CreateNodeKey nat string
  | Op_SignalNodeStart nat
  | Op_SignalNodeEnd nat
  | Op_GetCreateReaderKey nat string
  | Op_GetCreateWriterKey nat string
  | Op_ConnectEndpoints nat nat string
  | Op_Terminate

fun exec :: "ctx_op \<Rightarrow> LocalContext \<Rightarrow> cpn_error + LocalContext" where
  "exec (Op_SetupKernel_remote n h s k) c = map_sum id snd (SetupKernel_remote c n h s k)"
| "exec (Op_SetupKernel n k) c = map_sum id snd (SetupKernel c n k)"
| "exec (Op_SignalKernelStart k) c = SignalKernelStart c k"
| "exec (Op_SignalKernelEnd k) c = SignalKernelEnd c k"
| "exec (Op_CreateNodeKey k n) c = map_sum id snd (CreateNodeKey c k n)"
| "exec (Op_SignalNodeStart k) c = SignalNodeStart c k"
| "exec (Op_SignalNodeEnd k) c = SignalNodeEnd c k"
| "exec (Op_GetCreateReaderKey k p) c = map_sum id snd (GetCreateReaderKey c k p)"
| "exec (Op_GetCreateWriterKey k p) c = map_sum id snd (GetCreateWriterKey c k p)"
| "exec (Op_ConnectEndpoints w r q) c = ConnectEndpoints c w r q"
| "exec Op_Terminate c = Inr (Terminate c)"

text \<open>A call that throws has not changed the state.\<close>

definition ctx_step :: "LocalContext \<Rightarrow> ctx_op \<Rightarrow> LocalContext" where
  "ctx_step c op = (case exec op c of Inl e \<Rightarrow> c | Inr c' \<Rightarrow> c')"

definition ctx_run :: "ctx_op list \<Rightarrow> LocalContext \<Rightarrow> LocalContext" where
  "ctx_run ops c = foldl ctx_step c ops"

section \<open>Invariant\<close>

text \<open>
  A name map and the map of the objects it names: every name leads to an object of that name, and
  every object is found under its name.
\<close>

definition names_ok :: "(string \<rightharpoonup> nat) \<Rightarrow> (nat \<rightharpoonup> string) \<Rightarrow> bool" where
  "names_ok names name_of \<longleftrightarrow> (\<forall>n k. names n = Some k \<longleftrightarrow> name_of k = Some n)"

definition kernel_name :: "LocalContext \<Rightarrow> nat \<rightharpoonup> string" where
  "kernel_name c k = map_option ki_name (kernelmap c k)"

definition node_name :: "LocalContext \<Rightarrow> nat \<rightharpoonup> string" where
  "node_name c k = map_option ni_name (nodemap c k)"

text \<open>A port belongs to the node that has its key under the port's name, and to no other.\<close>

definition port_of :: "(nat \<rightharpoonup> PortInfo) \<Rightarrow> nat \<Rightarrow> (nat \<times> string) option" where
  "port_of ports k = map_option (\<lambda>p. (pi_nodekey p, pi_name p)) (ports k)"

definition node_port :: "(NodeInfo \<Rightarrow> string \<rightharpoonup> nat) \<Rightarrow> LocalContext \<Rightarrow> nat \<Rightarrow> string \<Rightarrow> nat option" where
  "node_port sel c n p = (case nodemap c n of None \<Rightarrow> None | Some info \<Rightarrow> sel info p)"

definition ports_ok :: "(nat \<Rightarrow> string \<Rightarrow> nat option) \<Rightarrow> (nat \<Rightarrow> (nat \<times> string) option) \<Rightarrow> bool" where
  "ports_ok lookup owner \<longleftrightarrow> (\<forall>n p k. lookup n p = Some k \<longleftrightarrow> owner k = Some (n, p))"

definition opposite_ok :: "(nat \<rightharpoonup> PortInfo) \<Rightarrow> (nat \<rightharpoonup> PortInfo) \<Rightarrow> bool" where
  "opposite_ok ports others \<longleftrightarrow>
     (\<forall>k p. ports k = Some p \<longrightarrow> pi_opposingport p = 0 \<or> pi_opposingport p \<in> dom others)"

definition ctx_inv :: "LocalContext \<Rightarrow> bool" where
  "ctx_inv c \<longleftrightarrow> names_ok (kernelnames c) (kernel_name c) \<and> names_ok (nodenames c) (node_name c) \<and>
     ports_ok (node_port ni_readers c) (port_of (readports c)) \<and>
     ports_ok (node_port ni_writers c) (port_of (writeports c)) \<and>
     opposite_ok (readports c) (writeports c) \<and> opposite_ok (writeports c) (readports c) \<and>
     (\<forall>k\<in>dom (kernelmap c) \<union> dom (nodemap c) \<union> dom (readports c) \<union> dom (writeports c). 0 < k \<and> k \<le> counter c) \<and>
     dom (kernelmap c) \<inter> dom (nodemap c) = {} \<and> dom (kernelmap c) \<inter> dom (readports c) = {} \<and>
     dom (kernelmap c) \<inter> dom (writeports c) = {} \<and> dom (nodemap c) \<inter> dom (readports c) = {} \<and>
     dom (nodemap c) \<inter> dom (writeports c) = {} \<and> dom (readports c) \<inter> dom (writeports c) = {}"

section \<open>The invariant holds after every call\<close>

lemma names_ok_add:
  assumes "names_ok N F" and "N n = None" and "F k = None"
  shows "names_ok (N(n \<mapsto> k)) (F(k \<mapsto> n))"
  unfolding names_ok_def
proof (intro allI)
  fix m j
  have ok: "N m = Some j \<longleftrightarrow> F j = Some m" using assms(1) by (simp add: names_ok_def)
  have none: "N n \<noteq> Some j" "F k \<noteq> Some m" using assms(2,3) by simp_all
  show "(N(n \<mapsto> k)) m = Some j \<longleftrightarrow> (F(k \<mapsto> n)) j = Some m"
    using ok none by (cases "m = n"; cases "j = k") auto
qed

lemma ports_ok_add:
  assumes "ports_ok L P" and "L n p = None" and "P k = None"
  shows "ports_ok (\<lambda>m q. if m = n \<and> q = p then Some k else L m q) (P(k \<mapsto> (n, p)))"
  unfolding ports_ok_def
proof (intro allI)
  fix m q j
  have ok: "L m q = Some j \<longleftrightarrow> P j = Some (m, q)" using assms(1) by (simp add: ports_ok_def)
  show "(if m = n \<and> q = p then Some k else L m q) = Some j \<longleftrightarrow> (P(k \<mapsto> (n, p))) j = Some (m, q)"
    using ok assms(2,3) by (cases "m = n \<and> q = p"; cases "j = k") auto
qed

lemma opposite_ok_mono: "opposite_ok A B \<Longrightarrow> dom B \<subseteq> dom B' \<Longrightarrow> opposite_ok A B'"
  unfolding opposite_ok_def by blast

lemma opposite_ok_add: "opposite_ok A B \<Longrightarrow> pi_opposingport p = 0 \<or> pi_opposingport p \<in> dom B \<Longrightarrow> opposite_ok (A(k \<mapsto> p)) B"
  by (auto simp: opposite_ok_def)

lemma ctx_invD:
  assumes "ctx_inv c"
  shows "names_ok (kernelnames c) (kernel_name c)" and "names_ok (nodenames c) (node_name c)"
    and "ports_ok (node_port ni_readers c) (port_of (readports c))"
    and "ports_ok (node_port ni_writers c) (port_of (writeports c))"
    and "opposite_ok (readports c) (writeports c)" and "opposite_ok (writeports c) (readports c)"
    and "k \<in> dom (kernelmap c) \<union> dom (nodemap c) \<union> dom (readports c) \<union> dom (writeports c) \<Longrightarrow> 0 < k \<and> k \<le> counter c"
  using assms unfolding ctx_inv_def by blast+

lemma NewKey_fresh:
  assumes "ctx_inv c" and "counter c + 1 < 2 ^ 64"
  shows "NewKey c = counter c + 1" and "kernelmap c (NewKey c) = None" and "nodemap c (NewKey c) = None"
    and "readports c (NewKey c) = None" and "writeports c (NewKey c) = None"
proof -
  show k: "NewKey c = counter c + 1" using assms(2) by (simp add: NewKey_def u64_def)
  have "NewKey c \<notin> dom (kernelmap c) \<union> dom (nodemap c) \<union> dom (readports c) \<union> dom (writeports c)"
    using ctx_invD(7) [OF assms(1), of "NewKey c"] k by auto
  then show "kernelmap c (NewKey c) = None" "nodemap c (NewKey c) = None"
    "readports c (NewKey c) = None" "writeports c (NewKey c) = None" by auto
qed

lemma dom_shown:
  "dom (kernel_name c) = dom (kernelmap c)" "dom (node_name c) = dom (nodemap c)" "dom (port_of ports) = dom ports"
  by (auto simp: kernel_name_def node_name_def port_of_def dom_def)

text \<open>A record update that keeps what the names and the ports show keeps the invariant.\<close>

lemma ctx_inv_same:
  assumes "ctx_inv c" and "kernelnames c' = kernelnames c" and "nodenames c' = nodenames c"
    and "kernel_name c' = kernel_name c" and "node_name c' = node_name c"
    and "node_port ni_readers c' = node_port ni_readers c" and "node_port ni_writers c' = node_port ni_writers c"
    and "port_of (readports c') = port_of (readports c)" and "port_of (writeports c') = port_of (writeports c)"
    and "opposite_ok (readports c') (writeports c')" and "opposite_ok (writeports c') (readports c')"
    and "counter c' = counter c"
  shows "ctx_inv c'"
proof -
  have "dom (kernelmap c') = dom (kernelmap c)" "dom (nodemap c') = dom (nodemap c)"
    "dom (readports c') = dom (readports c)" "dom (writeports c') = dom (writeports c)"
    using assms(4,5,8,9) by (metis dom_shown)+
  with assms show ?thesis by (simp add: ctx_inv_def)
qed

lemma kernel_update_inv:
  assumes "ctx_inv c" and "kernelmap c k = Some i" and "ki_name i' = ki_name i"
  shows "ctx_inv (c\<lparr>kernelmap := (kernelmap c)(k \<mapsto> i')\<rparr>)"
  by (rule ctx_inv_same [OF assms(1)])
    (use assms ctx_invD(5,6) in \<open>auto simp: fun_eq_iff kernel_name_def node_name_def node_port_def\<close>)

lemma node_update_inv:
  assumes "ctx_inv c" and "nodemap c k = Some i" and "ni_name i' = ni_name i"
    and "ni_readers i' = ni_readers i" and "ni_writers i' = ni_writers i"
  shows "ctx_inv (c\<lparr>nodemap := (nodemap c)(k \<mapsto> i'), numlivenodes := n\<rparr>)"
  by (rule ctx_inv_same [OF assms(1)])
    (use assms ctx_invD(5,6) in \<open>auto simp: fun_eq_iff kernel_name_def node_name_def node_port_def\<close>)

lemma connect_inv:
  assumes "ctx_inv c" and "writeports c w = Some wp" and "readports c r = Some rp"
  shows "ctx_inv (c\<lparr>writeports := (writeports c)(w \<mapsto> wp\<lparr>pi_opposingport := r, pi_qname := q\<rparr>),
    readports := (readports c)(r \<mapsto> rp\<lparr>pi_opposingport := w, pi_qname := q\<rparr>)\<rparr>)"
proof (rule ctx_inv_same [OF assms(1)])
  let ?W = "(writeports c)(w \<mapsto> wp\<lparr>pi_opposingport := r, pi_qname := q\<rparr>)"
    and ?R = "(readports c)(r \<mapsto> rp\<lparr>pi_opposingport := w, pi_qname := q\<rparr>)"
  have R: "opposite_ok ?R (writeports c)" by (rule opposite_ok_add [OF ctx_invD(5) [OF assms(1)]]) (use assms in auto)
  have W: "opposite_ok ?W (readports c)" by (rule opposite_ok_add [OF ctx_invD(6) [OF assms(1)]]) (use assms in auto)
  have "opposite_ok ?R ?W" "opposite_ok ?W ?R"
    by (rule opposite_ok_mono [OF R]; auto) (rule opposite_ok_mono [OF W]; auto)
  then show "opposite_ok (readports (c\<lparr>writeports := ?W, readports := ?R\<rparr>)) (writeports (c\<lparr>writeports := ?W, readports := ?R\<rparr>))"
    "opposite_ok (writeports (c\<lparr>writeports := ?W, readports := ?R\<rparr>)) (readports (c\<lparr>writeports := ?W, readports := ?R\<rparr>))"
    by simp_all
qed (use assms in \<open>auto simp: fun_eq_iff kernel_name_def node_name_def node_port_def port_of_def\<close>)

lemma add_kernel_inv:
  assumes "ctx_inv c" and "counter c + 1 < 2 ^ 64" and "kernelnames c n = None" and "ki_name i = n"
  shows "ctx_inv (c\<lparr>counter := NewKey c, kernelmap := (kernelmap c)(NewKey c \<mapsto> i),
    kernelnames := (kernelnames c)(n \<mapsto> NewKey c)\<rparr>)" (is "ctx_inv ?c")
proof -
  note fresh = NewKey_fresh [OF assms(1,2)] and D = ctx_invD [OF assms(1)]
  have "kernel_name ?c = (kernel_name c)(NewKey c \<mapsto> n)" "node_name ?c = node_name c"
      "node_port ni_readers ?c = node_port ni_readers c" "node_port ni_writers ?c = node_port ni_writers c"
    using assms(4) by (auto simp: fun_eq_iff kernel_name_def node_name_def node_port_def)
  moreover have "names_ok ((kernelnames c)(n \<mapsto> NewKey c)) ((kernel_name c)(NewKey c \<mapsto> n))"
    by (rule names_ok_add [OF D(1) assms(3)]) (simp add: kernel_name_def fresh(2))
  ultimately show ?thesis
    using assms(1) fresh unfolding ctx_inv_def by (auto simp: le_Suc_eq domIff)
qed

lemma add_node_inv:
  assumes "ctx_inv c" and "counter c + 1 < 2 ^ 64" and "nodenames c n = None" and "ni_name i = n"
    and "ni_readers i = Map.empty" and "ni_writers i = Map.empty"
  shows "ctx_inv (c\<lparr>counter := NewKey c, nodenames := (nodenames c)(n \<mapsto> NewKey c),
    nodemap := (nodemap c)(NewKey c \<mapsto> i)\<rparr>)" (is "ctx_inv ?c")
proof -
  note fresh = NewKey_fresh [OF assms(1,2)] and D = ctx_invD [OF assms(1)]
  have "kernel_name ?c = kernel_name c" "node_name ?c = (node_name c)(NewKey c \<mapsto> n)"
      "node_port ni_readers ?c = node_port ni_readers c" "node_port ni_writers ?c = node_port ni_writers c"
    using assms(4-6) fresh by (auto simp: fun_eq_iff kernel_name_def node_name_def node_port_def)
  moreover have "names_ok ((nodenames c)(n \<mapsto> NewKey c)) ((node_name c)(NewKey c \<mapsto> n))"
    by (rule names_ok_add [OF D(2) assms(3)]) (simp add: node_name_def fresh(3))
  ultimately show ?thesis
    using assms(1) fresh unfolding ctx_inv_def by (auto simp: le_Suc_eq domIff)
qed


lemma add_reader_inv:
  assumes "ctx_inv c" and "counter c + 1 < 2 ^ 64" and "nodemap c n = Some i" and "ni_readers i p = None"
  shows "ctx_inv (c\<lparr>counter := NewKey c,
    nodemap := (nodemap c)(n \<mapsto> i\<lparr>ni_readers := (ni_readers i)(p \<mapsto> NewKey c)\<rparr>),
    readports := (readports c)(NewKey c \<mapsto> new_port n p)\<rparr>)" (is "ctx_inv ?c")
proof -
  note fresh = NewKey_fresh [OF assms(1,2)] and D = ctx_invD [OF assms(1)]
  have "kernel_name ?c = kernel_name c" "node_name ?c = node_name c" "node_port ni_writers ?c = node_port ni_writers c"
      "node_port ni_readers ?c = (\<lambda>m q. if m = n \<and> q = p then Some (NewKey c) else node_port ni_readers c m q)"
      "port_of (readports ?c) = (port_of (readports c))(NewKey c \<mapsto> (n, p))"
    using assms(3) by (auto simp: fun_eq_iff kernel_name_def node_name_def node_port_def port_of_def new_port_def)
  moreover have "ports_ok (\<lambda>m q. if m = n \<and> q = p then Some (NewKey c) else node_port ni_readers c m q)
      ((port_of (readports c))(NewKey c \<mapsto> (n, p)))"
    by (rule ports_ok_add [OF D(3)]) (simp_all add: node_port_def assms(3,4) port_of_def fresh(4))
  moreover have "opposite_ok (readports ?c) (writeports c)" "opposite_ok (writeports c) (readports ?c)"
    by (auto simp: new_port_def intro: opposite_ok_add [OF D(5)] opposite_ok_mono [OF D(6)])
  moreover have "dom (nodemap ?c) = dom (nodemap c)" using assms(3) by auto
  ultimately show ?thesis
    using assms(1) fresh unfolding ctx_inv_def by (auto simp: le_Suc_eq domIff)
qed

lemma add_writer_inv:
  assumes "ctx_inv c" and "counter c + 1 < 2 ^ 64" and "nodemap c n = Some i" and "ni_writers i p = None"
  shows "ctx_inv (c\<lparr>counter := NewKey c,
    nodemap := (nodemap c)(n \<mapsto> i\<lparr>ni_writers := (ni_writers i)(p \<mapsto> NewKey c)\<rparr>),
    writeports := (writeports c)(NewKey c \<mapsto> new_port n p)\<rparr>)" (is "ctx_inv ?c")
proof -
  note fresh = NewKey_fresh [OF assms(1,2)] and D = ctx_invD [OF assms(1)]
  have "kernel_name ?c = kernel_name c" "node_name ?c = node_name c" "node_port ni_readers ?c = node_port ni_readers c"
      "node_port ni_writers ?c = (\<lambda>m q. if m = n \<and> q = p then Some (NewKey c) else node_port ni_writers c m q)"
      "port_of (writeports ?c) = (port_of (writeports c))(NewKey c \<mapsto> (n, p))"
    using assms(3) by (auto simp: fun_eq_iff kernel_name_def node_name_def node_port_def port_of_def new_port_def)
  moreover have "ports_ok (\<lambda>m q. if m = n \<and> q = p then Some (NewKey c) else node_port ni_writers c m q)
      ((port_of (writeports c))(NewKey c \<mapsto> (n, p)))"
    by (rule ports_ok_add [OF D(4)]) (simp_all add: node_port_def assms(3,4) port_of_def fresh(5))
  moreover have "opposite_ok (writeports ?c) (readports c)" "opposite_ok (readports c) (writeports ?c)"
    by (auto simp: new_port_def intro: opposite_ok_add [OF D(6)] opposite_ok_mono [OF D(5)])
  moreover have "dom (nodemap ?c) = dom (nodemap c)" using assms(3) by auto
  ultimately show ?thesis
    using assms(1) fresh unfolding ctx_inv_def by (auto simp: le_Suc_eq domIff)
qed

lemma checked_Inr [simp]: "checked c r = Inr x \<longleftrightarrow> \<not> shutdown c \<and> r = Inr x"
  by (simp add: checked_def)

lemmas ctx_op_defs = SetupKernel_remote_def SetupKernel_def SetupKernel_info_def SignalKernelStart_def
  SignalKernelEnd_def CreateNodeKey_def SignalNodeStart_def SignalNodeEnd_def GetCreateReaderKey_def
  GetCreateWriterKey_def ConnectEndpoints_def Terminate_def

lemma exec_inv:
  assumes "ctx_inv c" and "counter c + 1 < 2 ^ 64" and "exec op c = Inr c'"
  shows "ctx_inv c'"
proof -
  have tm: "ctx_inv (c\<lparr>shutdown := True\<rparr>)"
    by (rule ctx_inv_same [OF assms(1)])
      (use ctx_invD(5,6) [OF assms(1)] in \<open>auto simp: fun_eq_iff kernel_name_def node_name_def node_port_def\<close>)
  show ?thesis using assms(1,3)
    by (cases op)
      (auto simp: ctx_op_defs map_sum_Inr Let_def split: option.splits if_splits
        intro!: add_kernel_inv [OF assms(1,2)] kernel_update_inv [OF assms(1)] add_node_inv [OF assms(1,2)]
          node_update_inv [OF assms(1)] add_reader_inv [OF assms(1,2)] add_writer_inv [OF assms(1,2)]
          connect_inv [OF assms(1)] tm)
qed

lemma exec_counter: "exec op c = Inr c' \<Longrightarrow> counter c + 1 < 2 ^ 64 \<Longrightarrow> counter c' \<le> counter c + 1"
  by (cases op) (auto simp: ctx_op_defs map_sum_Inr Let_def NewKey_def u64_def split: option.splits if_splits)

lemma ctx_step_inv:
  assumes "ctx_inv c" and "counter c + 1 < 2 ^ 64"
  shows "ctx_inv (ctx_step c op)" and "counter (ctx_step c op) \<le> counter c + 1"
  using assms exec_inv [OF assms] exec_counter [of op c] by (auto simp: ctx_step_def split: sum.splits)

lemma ctx_run_inv:
  "ctx_inv c \<Longrightarrow> counter c + length ops < 2 ^ 64 \<Longrightarrow> ctx_inv (ctx_run ops c) \<and> counter (ctx_run ops c) \<le> counter c + length ops"
proof (induction ops arbitrary: c)
  case (Cons op ops)
  have le: "counter c + 1 < 2 ^ 64" using Cons.prems(2) by simp
  note step = ctx_step_inv [OF Cons.prems(1) le, of op]
  have "counter (ctx_step c op) + length ops < 2 ^ 64" using step(2) Cons.prems(2) by simp
  from Cons.IH [OF step(1) this] show ?case using step(2) by (simp add: ctx_run_def)
qed (simp add: ctx_run_def)

lemma new_ctx_inv: "ctx_inv new_LocalContext"
  by (simp add: ctx_inv_def new_LocalContext_def names_ok_def ports_ok_def kernel_name_def node_name_def
      node_port_def port_of_def opposite_ok_def)

section \<open>Registries\<close>

text \<open>
  Kernels and nodes are registered under names in the same way: a new name gets a new key, a name in
  use is refused. \<open>room\<close> is the number of keys left before the 64-bit counter wraps.
\<close>

fun register_all :: "('c \<Rightarrow> string \<Rightarrow> cpn_error + nat \<times> 'c) \<Rightarrow> 'c \<Rightarrow> string list \<Rightarrow> cpn_error + nat list \<times> 'c" where
  "register_all reg c [] = Inr ([], c)"
| "register_all reg c (n # ns) =
    (case reg c n of
       Inl e \<Rightarrow> Inl e
     | Inr (k, c') \<Rightarrow> map_sum id (\<lambda>(ks, c''). (k # ks, c'')) (register_all reg c' ns))"

locale registry =
  fixes inv :: "'c \<Rightarrow> bool"
    and closed :: "'c \<Rightarrow> bool"
    and room :: "'c \<Rightarrow> nat"
    and register :: "'c \<Rightarrow> string \<Rightarrow> cpn_error + nat \<times> 'c"
    and key_of :: "'c \<Rightarrow> string \<Rightarrow> cpn_error + nat"
    and name_of :: "'c \<Rightarrow> nat \<Rightarrow> cpn_error + string"
  assumes register_new: "inv c \<Longrightarrow> \<not> closed c \<Longrightarrow> 0 < room c \<Longrightarrow> key_of c n = Inl InvalidArgument \<Longrightarrow>
      \<exists>k c'. register c n = Inr (k, c') \<and> inv c' \<and> \<not> closed c' \<and> room c \<le> Suc (room c') \<and>
        name_of c k = Inl InvalidArgument \<and>
        (\<forall>m. key_of c' m = (if m = n then Inr k else key_of c m)) \<and>
        (\<forall>j. name_of c' j = (if j = k then Inr n else name_of c j))"
    and register_used: "\<not> closed c \<Longrightarrow> key_of c n = Inr k \<Longrightarrow> register c n = Inl InvalidArgument"
    and key_iff_name: "inv c \<Longrightarrow> \<not> closed c \<Longrightarrow> key_of c n = Inr k \<longleftrightarrow> name_of c k = Inr n"
begin

lemma register_all_distinct:
  "inv c \<Longrightarrow> \<not> closed c \<Longrightarrow> length ns \<le> room c \<Longrightarrow> distinct ns \<Longrightarrow>
   (\<forall>n\<in>set ns. key_of c n = Inl InvalidArgument) \<Longrightarrow>
   \<exists>ks c'. register_all register c ns = Inr (ks, c') \<and> inv c' \<and> \<not> closed c' \<and> length ks = length ns \<and> distinct ks \<and>
     (\<forall>k\<in>set ks. name_of c k = Inl InvalidArgument) \<and>
     (\<forall>i<length ns. key_of c' (ns ! i) = Inr (ks ! i) \<and> name_of c' (ks ! i) = Inr (ns ! i)) \<and>
     (\<forall>m. m \<notin> set ns \<longrightarrow> key_of c' m = key_of c m)"
proof (induction ns arbitrary: c)
  case (Cons n ns)
  obtain k c1 where c1: "register c n = Inr (k, c1)" "inv c1" "\<not> closed c1" "room c \<le> Suc (room c1)"
      "name_of c k = Inl InvalidArgument" "\<forall>m. key_of c1 m = (if m = n then Inr k else key_of c m)"
      "\<forall>j. name_of c1 j = (if j = k then Inr n else name_of c j)"
    using register_new [of c n] Cons.prems by auto
  have "\<forall>m\<in>set ns. key_of c1 m = Inl InvalidArgument" using c1(6) Cons.prems(4,5) by auto
  then obtain ks c' where c': "register_all register c1 ns = Inr (ks, c')" "inv c'" "\<not> closed c'" "length ks = length ns"
      "distinct ks" "\<forall>k\<in>set ks. name_of c1 k = Inl InvalidArgument"
      "\<forall>i<length ns. key_of c' (ns ! i) = Inr (ks ! i) \<and> name_of c' (ks ! i) = Inr (ns ! i)"
      "\<forall>m. m \<notin> set ns \<longrightarrow> key_of c' m = key_of c1 m"
    using Cons.IH [OF c1(2,3)] c1(4) Cons.prems(3,4) by fastforce
  have new: "k \<notin> set ks" using c'(6) c1(7) by auto
  have "key_of c' n = Inr k" using c'(8) c1(6) Cons.prems(4) by simp
  then have "name_of c' k = Inr n" using key_iff_name [OF c'(2,3)] by simp
  with \<open>key_of c' n = Inr k\<close> c'(7)
  have "\<forall>i<length (n # ns). key_of c' ((n # ns) ! i) = Inr ((k # ks) ! i) \<and> name_of c' ((k # ks) ! i) = Inr ((n # ns) ! i)"
    by (auto simp: nth_Cons split: nat.split)
  moreover have "\<forall>j\<in>set (k # ks). name_of c j = Inl InvalidArgument" using c1(5,7) c'(6) new by (auto split: if_splits)
  moreover have "register_all register c (n # ns) = Inr (k # ks, c')" using c1(1) c'(1) by simp
  moreover have "\<forall>m. m \<notin> set (n # ns) \<longrightarrow> key_of c' m = key_of c m" using c'(8) c1(6) by simp
  ultimately show ?case using c'(2-5) new by (intro exI [of _ "k # ks"] exI [of _ c']) simp
qed simp

lemma register_twice:
  assumes "inv c" and "\<not> closed c" and "0 < room c" and "key_of c n = Inl InvalidArgument"
  shows "register_all register c [n, n] = Inl InvalidArgument"
proof -
  obtain k c1 where c1: "register c n = Inr (k, c1)" "\<not> closed c1" "key_of c1 n = Inr k"
    using register_new [OF assms] by auto
  show ?thesis using register_used [OF c1(2,3)] c1(1) by simp
qed

end

lemma checked_open [simp]: "\<not> shutdown c \<Longrightarrow> checked c r = r"
  by (simp add: checked_def)

lemma kernel_lookup:
  assumes "\<not> shutdown c"
  shows "GetKernelKey c n = Inr k \<longleftrightarrow> kernelnames c n = Some k" "GetKernelName c k = Inr n \<longleftrightarrow> kernel_name c k = Some n"
    "GetKernelKey c n = Inl InvalidArgument \<longleftrightarrow> kernelnames c n = None"
  using assms by (auto simp: GetKernelKey_def GetKernelName_def kernel_name_def split: option.splits)

lemma node_lookup:
  assumes "\<not> shutdown c"
  shows "GetNodeKey c n = Inr k \<longleftrightarrow> nodenames c n = Some k" "GetNodeName c k = Inr n \<longleftrightarrow> node_name c k = Some n"
    "GetNodeKey c n = Inl InvalidArgument \<longleftrightarrow> nodenames c n = None"
  using assms by (auto simp: GetNodeKey_def GetNodeName_def node_name_def split: option.splits)

definition keys_left :: "LocalContext \<Rightarrow> nat" where
  "keys_left c = 2 ^ 64 - 1 - counter c"

interpretation kernels: registry ctx_inv shutdown keys_left "\<lambda>c n. SetupKernel c n (Some krn)" GetKernelKey GetKernelName
proof
  fix c n
  assume a: "ctx_inv c" "\<not> shutdown c" "0 < keys_left c" "GetKernelKey c n = Inl InvalidArgument"
  let ?i = "\<lparr>ki_name = n, ki_hostname = [], ki_servname = [], ki_kernel = Some krn, ki_live = False, ki_dead = False,
    ki_allowremote = False\<rparr>"
  let ?c = "c\<lparr>counter := NewKey c, kernelmap := (kernelmap c)(NewKey c \<mapsto> ?i),
    kernelnames := (kernelnames c)(n \<mapsto> NewKey c)\<rparr>"
  have room: "counter c + 1 < 2 ^ 64" using a(3) by (simp add: keys_left_def)
  have none: "kernelnames c n = None" using a(2,4) kernel_lookup(3) by blast
  note fresh = NewKey_fresh [OF a(1) room]
  have "ctx_inv ?c" by (rule add_kernel_inv [OF a(1) room none]) simp
  moreover have "SetupKernel c n (Some krn) = Inr (NewKey c, ?c)"
    using a(2) none by (simp add: SetupKernel_def SetupKernel_info_def Let_def)
  moreover have "keys_left c \<le> Suc (keys_left ?c)" using fresh(1) by (simp add: keys_left_def)
  moreover have "GetKernelName c (NewKey c) = Inl InvalidArgument" using a(2) fresh(2) by (simp add: GetKernelName_def)
  moreover have "GetKernelKey ?c m = (if m = n then Inr (NewKey c) else GetKernelKey c m)" for m
    using a(2) by (simp add: GetKernelKey_def)
  moreover have "GetKernelName ?c j = (if j = NewKey c then Inr n else GetKernelName c j)" for j
    using a(2) by (simp add: GetKernelName_def)
  ultimately show "\<exists>k c'. SetupKernel c n (Some krn) = Inr (k, c') \<and> ctx_inv c' \<and> \<not> shutdown c' \<and>
      keys_left c \<le> Suc (keys_left c') \<and> GetKernelName c k = Inl InvalidArgument \<and>
      (\<forall>m. GetKernelKey c' m = (if m = n then Inr k else GetKernelKey c m)) \<and>
      (\<forall>j. GetKernelName c' j = (if j = k then Inr n else GetKernelName c j))"
    using a(2) by (intro exI [of _ "NewKey c"] exI [of _ ?c]) simp
qed (auto simp: kernel_lookup SetupKernel_def SetupKernel_info_def dest!: ctx_invD(1) simp: names_ok_def)

interpretation nodes: registry ctx_inv shutdown keys_left "\<lambda>c n. CreateNodeKey c kk n" GetNodeKey GetNodeName
proof
  fix c n
  assume a: "ctx_inv c" "\<not> shutdown c" "0 < keys_left c" "GetNodeKey c n = Inl InvalidArgument"
  let ?i = "\<lparr>ni_name = n, ni_kernelkey = kk, ni_started = False, ni_readers = Map.empty, ni_writers = Map.empty,
    ni_dead = False\<rparr>"
  let ?c = "c\<lparr>counter := NewKey c, nodenames := (nodenames c)(n \<mapsto> NewKey c), nodemap := (nodemap c)(NewKey c \<mapsto> ?i)\<rparr>"
  have room: "counter c + 1 < 2 ^ 64" using a(3) by (simp add: keys_left_def)
  have none: "nodenames c n = None" using a(2,4) node_lookup(3) by blast
  note fresh = NewKey_fresh [OF a(1) room]
  have "ctx_inv ?c" by (rule add_node_inv [OF a(1) room none]) simp_all
  moreover have "CreateNodeKey c kk n = Inr (NewKey c, ?c)"
    using a(2) none by (simp add: CreateNodeKey_def Let_def)
  moreover have "keys_left c \<le> Suc (keys_left ?c)" using fresh(1) by (simp add: keys_left_def)
  moreover have "GetNodeName c (NewKey c) = Inl InvalidArgument" using fresh(3) by (simp add: GetNodeName_def)
  moreover have "GetNodeKey ?c m = (if m = n then Inr (NewKey c) else GetNodeKey c m)" for m
    using a(2) by (simp add: GetNodeKey_def)
  moreover have "GetNodeName ?c j = (if j = NewKey c then Inr n else GetNodeName c j)" for j
    by (simp add: GetNodeName_def)
  ultimately show "\<exists>k c'. CreateNodeKey c kk n = Inr (k, c') \<and> ctx_inv c' \<and> \<not> shutdown c' \<and>
      keys_left c \<le> Suc (keys_left c') \<and> GetNodeName c k = Inl InvalidArgument \<and>
      (\<forall>m. GetNodeKey c' m = (if m = n then Inr k else GetNodeKey c m)) \<and>
      (\<forall>j. GetNodeName c' j = (if j = k then Inr n else GetNodeName c j))"
    using a(2) by (intro exI [of _ "NewKey c"] exI [of _ ?c]) simp
qed (auto simp: node_lookup CreateNodeKey_def dest!: ctx_invD(2) simp: names_ok_def)

section \<open>Ports, connections and live nodes\<close>

lemma exec_keeps_ports:
  assumes "exec op c = Inr c'" and "sel = ni_readers \<or> sel = ni_writers" and "node_port sel c n p = Some k"
    and "nodemap c (NewKey c) = None"
  shows "node_port sel c' n p = Some k"
  using assms
  by (cases op)
    (auto simp: ctx_op_defs map_sum_Inr Let_def node_port_def split: option.splits if_splits)

lemma exec_keeps_shutdown: "exec op c = Inr c' \<Longrightarrow> shutdown c \<Longrightarrow> shutdown c'"
  by (cases op) (auto simp: ctx_op_defs map_sum_Inr Let_def split: option.splits if_splits)

lemma ctx_run_keeps_ports:
  assumes "sel = ni_readers \<or> sel = ni_writers"
  shows "ctx_inv c \<Longrightarrow> counter c + length ops < 2 ^ 64 \<Longrightarrow> node_port sel c n p = Some k \<Longrightarrow>
    node_port sel (ctx_run ops c) n p = Some k"
proof (induction ops arbitrary: c)
  case (Cons op ops)
  have le: "counter c + 1 < 2 ^ 64" using Cons.prems(2) by simp
  have "node_port sel (ctx_step c op) n p = Some k"
    using exec_keeps_ports [OF _ assms Cons.prems(3) NewKey_fresh(3) [OF Cons.prems(1) le]] Cons.prems(3)
    by (auto simp: ctx_step_def split: sum.splits)
  moreover have "counter (ctx_step c op) + length ops < 2 ^ 64"
    using ctx_step_inv(2) [OF Cons.prems(1) le, of op] Cons.prems(2) by simp
  ultimately show ?case using Cons.IH [OF ctx_step_inv(1) [OF Cons.prems(1) le]] by (simp add: ctx_run_def)
qed (simp add: ctx_run_def)

lemma reader_port_facts:
  assumes "ctx_inv c" and "\<not> shutdown c" and "node_port ni_readers c n p = Some k"
  shows "GetCreateReaderKey c n p = Inr (k, c)" and "GetReaderNode c k = Inr n" and "GetReaderName c k = Inr p"
proof -
  have "port_of (readports c) k = Some (n, p)" using ctx_invD(3) [OF assms(1)] assms(3) by (simp add: ports_ok_def)
  then show "GetReaderNode c k = Inr n" "GetReaderName c k = Inr p"
    using assms(2) by (auto simp: GetReaderNode_def GetReaderName_def port_of_def)
  show "GetCreateReaderKey c n p = Inr (k, c)"
    using assms(2,3) by (auto simp: GetCreateReaderKey_def node_port_def split: option.splits)
qed

lemma writer_port_facts:
  assumes "ctx_inv c" and "\<not> shutdown c" and "node_port ni_writers c n p = Some k"
  shows "GetCreateWriterKey c n p = Inr (k, c)" and "GetWriterNode c k = Inr n" and "GetWriterName c k = Inr p"
proof -
  have "port_of (writeports c) k = Some (n, p)" using ctx_invD(4) [OF assms(1)] assms(3) by (simp add: ports_ok_def)
  then show "GetWriterNode c k = Inr n" "GetWriterName c k = Inr p"
    using assms(2) by (auto simp: GetWriterNode_def GetWriterName_def port_of_def)
  show "GetCreateWriterKey c n p = Inr (k, c)"
    using assms(2,3) by (auto simp: GetCreateWriterKey_def node_port_def split: option.splits)
qed

lemma GetCreate_port:
  "GetCreateReaderKey c n p = Inr (k, c') \<Longrightarrow> node_port ni_readers c' n p = Some k"
  "GetCreateWriterKey c n p = Inr (k, c') \<Longrightarrow> node_port ni_writers c' n p = Some k"
  by (auto simp: GetCreateReaderKey_def GetCreateWriterKey_def node_port_def Let_def split: option.splits)

text \<open>Nodes that have started and not ended, and calls that start and end every node once.\<close>

definition live_nodes :: "LocalContext \<Rightarrow> nat set" where
  "live_nodes c = {k. \<exists>i. nodemap c k = Some i \<and> ni_started i \<and> \<not> ni_dead i}"

fun orderly :: "LocalContext \<Rightarrow> ctx_op \<Rightarrow> bool" where
  "orderly c (Op_SignalNodeStart k) = (case nodemap c k of None \<Rightarrow> True | Some i \<Rightarrow> \<not> ni_started i \<and> \<not> ni_dead i)"
| "orderly c (Op_SignalNodeEnd k) = (case nodemap c k of None \<Rightarrow> True | Some i \<Rightarrow> ni_started i \<and> \<not> ni_dead i)"
| "orderly c op = True"

fun orderly_run :: "ctx_op list \<Rightarrow> LocalContext \<Rightarrow> bool" where
  "orderly_run [] c = True"
| "orderly_run (op # ops) c = (orderly c op \<and> orderly_run ops (ctx_step c op))"

lemma live_nodes_other:
  assumes "exec op c = Inr c'" and "nodemap c (NewKey c) = None"
    and "\<And>k. op \<noteq> Op_SignalNodeStart k" and "\<And>k. op \<noteq> Op_SignalNodeEnd k"
  shows "live_nodes c' = live_nodes c \<and> numlivenodes c' = numlivenodes c"
  using assms
  by (cases op)
    (auto simp: ctx_op_defs map_sum_Inr Let_def live_nodes_def split: option.splits if_splits)

definition live_count_ok :: "LocalContext \<Rightarrow> bool" where
  "live_count_ok c \<longleftrightarrow> finite (live_nodes c) \<and> numlivenodes c = card (live_nodes c)"

lemma live_count_step:
  assumes "live_count_ok c" and "orderly c op" and "exec op c = Inr c'" and "nodemap c (NewKey c) = None"
    and "numlivenodes c + 1 < 2 ^ 32"
  shows "live_count_ok c' \<and> numlivenodes c' \<le> numlivenodes c + 1"
proof (cases op)
  case (Op_SignalNodeStart k)
  then obtain i where i: "nodemap c k = Some i" "\<not> ni_started i" "\<not> ni_dead i"
      "c' = c\<lparr>nodemap := (nodemap c)(k \<mapsto> i\<lparr>ni_started := True\<rparr>), numlivenodes := u32 (numlivenodes c + 1)\<rparr>"
    using assms(2,3) by (auto simp: SignalNodeStart_def split: option.splits)
  have "live_nodes c' = insert k (live_nodes c)" "k \<notin> live_nodes c"
    using i by (auto simp: live_nodes_def)
  then show ?thesis using assms(1,5) i(4) by (simp add: live_count_ok_def u32_id)
next
  case (Op_SignalNodeEnd k)
  then obtain i where i: "nodemap c k = Some i" "ni_started i" "\<not> ni_dead i"
      "c' = c\<lparr>nodemap := (nodemap c)(k \<mapsto> i\<lparr>ni_dead := True\<rparr>), numlivenodes := sub32 (numlivenodes c) 1\<rparr>"
    using assms(2,3) by (auto simp: SignalNodeEnd_def split: option.splits)
  have live: "live_nodes c' = live_nodes c - {k}" "k \<in> live_nodes c"
    using i by (auto simp: live_nodes_def)
  then have "1 \<le> numlivenodes c" using assms(1) by (auto simp: live_count_ok_def card_gt_0_iff Suc_le_eq)
  then have "sub32 (numlivenodes c) 1 = numlivenodes c - 1" using assms(5) by (intro sub32_le) simp_all
  with live show ?thesis using assms(1) i(4) by (simp add: live_count_ok_def)
qed (use live_nodes_other [OF assms(3,4)] assms(1) in \<open>auto simp: live_count_ok_def\<close>)

lemma live_count_run:
  "live_count_ok c \<Longrightarrow> orderly_run ops c \<Longrightarrow> ctx_inv c \<Longrightarrow> counter c + length ops < 2 ^ 64 \<Longrightarrow>
   numlivenodes c + length ops < 2 ^ 32 \<Longrightarrow> live_count_ok (ctx_run ops c)"
proof (induction ops arbitrary: c)
  case (Cons op ops)
  have le: "counter c + 1 < 2 ^ 64" "numlivenodes c + 1 < 2 ^ 32" using Cons.prems(4,5) by simp_all
  have "live_count_ok (ctx_step c op) \<and> numlivenodes (ctx_step c op) \<le> numlivenodes c + 1"
    using live_count_step [OF Cons.prems(1) _ _ NewKey_fresh(3) [OF Cons.prems(3) le(1)] le(2), of op] Cons.prems(1,2)
    by (auto simp: ctx_step_def split: sum.splits)
  then show ?case
    using Cons.IH [of "ctx_step c op"] ctx_step_inv [OF Cons.prems(3) le(1), of op] Cons.prems(2,4,5)
    by (simp add: ctx_run_def)
qed (simp add: ctx_run_def)

lemma run_new:
  assumes "length ops < 2 ^ 64"
  shows "ctx_inv (ctx_run ops new_LocalContext)" and "counter (ctx_run ops new_LocalContext) \<le> length ops"
  using ctx_run_inv [OF new_ctx_inv, of ops] assms by (simp_all add: new_LocalContext_def)

text \<open>A kernel with one node that reads its own output.\<close>

definition demo_ops :: "ctx_op list" where
  "demo_ops = [Op_SetupKernel ''k'' (Some 7), Op_CreateNodeKey 1 ''n'', Op_GetCreateReaderKey 2 ''in'',
     Op_GetCreateWriterKey 2 ''out'', Op_ConnectEndpoints 4 3 ''q'', Op_SignalNodeStart 2]"

lemma demo_ops_run:
  "nodenames (ctx_run demo_ops new_LocalContext) ''n'' = Some 2" "\<not> shutdown (ctx_run demo_ops new_LocalContext)"
  "node_port ni_readers (ctx_run demo_ops new_LocalContext) 2 ''in'' = Some 3"
  "writeports (ctx_run demo_ops new_LocalContext) 4 =
     Some \<lparr>pi_name = ''out'', pi_qname = ''q'', pi_nodekey = 2, pi_opposingport = 3, pi_dead = False\<rparr>"
  "readports (ctx_run demo_ops new_LocalContext) 3 =
     Some \<lparr>pi_name = ''in'', pi_qname = ''q'', pi_nodekey = 2, pi_opposingport = 4, pi_dead = False\<rparr>"
  "orderly_run demo_ops new_LocalContext" "live_nodes (ctx_run demo_ops new_LocalContext) = {2}"
  by (simp_all add: demo_ops_def ctx_run_def ctx_step_def ctx_op_defs new_LocalContext_def NewKey_def u64_def u32_def
      new_port_def node_port_def live_nodes_def)

section \<open>Properties\<close>

text \<open>C24: after any sequence of fewer than \<open>2 ^ 64\<close> calls, names and keys correspond one to one: the key
  found for the name of a node (of a kernel) has that name, and conversely; and no key is that of a
  node and of a kernel.\<close>

theorem ctx_names_roundtrip:
  assumes "length ops < 2 ^ 64" and "c = ctx_run ops new_LocalContext" and "\<not> shutdown c"
  shows "(GetNodeKey c n = Inr k \<longleftrightarrow> GetNodeName c k = Inr n) \<and>
    (GetKernelKey c n = Inr k \<longleftrightarrow> GetKernelName c k = Inr n) \<and>
    \<not> (GetNodeName c k = Inr n \<and> GetKernelName c k = Inr m)"
proof -
  have inv: "ctx_inv c" using run_new(1) [OF assms(1)] assms(2) by simp
  have "dom (kernelmap c) \<inter> dom (nodemap c) = {}" using inv unfolding ctx_inv_def by blast
  then have "\<not> (GetNodeName c k = Inr n \<and> GetKernelName c k = Inr m)"
    using assms(3) by (auto simp: node_lookup kernel_lookup node_name_def kernel_name_def)
  then show ?thesis using nodes.key_iff_name [OF inv assms(3)] kernels.key_iff_name [OF inv assms(3)] by blast
qed

theorem ctx_names_roundtrip_witness:
  "GetNodeName (ctx_run demo_ops new_LocalContext) 2 = Inr ''n''"
  using ctx_names_roundtrip [of demo_ops _ "''n''" 2] demo_ops_run(1,2) by (simp add: demo_ops_def node_lookup(1))

text \<open>the key of a reading port never changes: once \<open>GetCreateReaderKey\<close> has returned it, it returns
  it again after any further calls without changing anything, the port has the node and the name it
  was asked for, and another port has another key.\<close>

theorem ctx_reader_port_stable:
  assumes "c = ctx_run ops new_LocalContext" and "GetCreateReaderKey c n p = Inr (k, c1)" and "c2 = ctx_run ops2 c1"
    and "length ops + 1 + length ops2 < 2 ^ 64" and "\<not> shutdown c2"
  shows "GetCreateReaderKey c2 n p = Inr (k, c2) \<and> GetReaderNode c2 k = Inr n \<and> GetReaderName c2 k = Inr p \<and>
    (GetCreateReaderKey c2 n' p' = Inr (k', c2) \<and> (n', p') \<noteq> (n, p) \<longrightarrow> k' \<noteq> k)"
proof -
  have c1: "c1 = ctx_run (ops @ [Op_GetCreateReaderKey n p]) new_LocalContext"
    using assms(1,2) by (simp add: ctx_run_def ctx_step_def)
  have inv1: "ctx_inv c1" "counter c1 \<le> length ops + 1"
    using run_new [of "ops @ [Op_GetCreateReaderKey n p]"] assms(4) c1 by simp_all
  then have inv2: "ctx_inv c2" using ctx_run_inv [OF inv1(1), of ops2] assms(3,4) by simp
  have port: "node_port ni_readers c2 n p = Some k"
    using ctx_run_keeps_ports [of ni_readers c1 ops2] GetCreate_port(1) [OF assms(2)] inv1 assms(3,4) by simp
  have "GetCreateReaderKey c2 n' p' = Inr (k', c2) \<Longrightarrow> GetReaderNode c2 k' = Inr n' \<and> GetReaderName c2 k' = Inr p'"
    using reader_port_facts(2,3) [OF inv2 assms(5)] GetCreate_port(1) by blast
  then show ?thesis using reader_port_facts [OF inv2 assms(5) port] by auto
qed

text \<open>\<open>ConnectEndpoints\<close> connects exactly the two ports: each is then the other's opposite, and no other
  port changes. It is refused when one of them does not exist.\<close>

theorem ctx_connect:
  assumes "\<not> shutdown c"
  shows "(writeports c w = None \<or> readports c r = None \<longrightarrow> ConnectEndpoints c w r q = Inl InvalidArgument) \<and>
    (writeports c w \<noteq> None \<and> readports c r \<noteq> None \<longrightarrow>
      (\<exists>c'. ConnectEndpoints c w r q = Inr c' \<and> GetWritersReader c' w = Inr r \<and> GetReadersWriter c' r = Inr w \<and>
        GetWriterNode c' w = GetWriterNode c w \<and> GetReaderNode c' r = GetReaderNode c r \<and>
        (\<forall>w'. w' \<noteq> w \<longrightarrow> GetWritersReader c' w' = GetWritersReader c w') \<and>
        (\<forall>r'. r' \<noteq> r \<longrightarrow> GetReadersWriter c' r' = GetReadersWriter c r')))"
  using assms
  by (cases "writeports c w"; cases "readports c r")
    (simp_all add: ConnectEndpoints_def GetWritersReader_def GetReadersWriter_def GetWriterNode_def GetReaderNode_def)

text \<open>when every node signals its start once and its end once after it, \<open>numlivenodes\<close> is the number of
  nodes that have started and not ended, so that \<open>WaitForAllNodeEnd\<close> waits exactly while there is
  such a node and the network is not shut down.\<close>

theorem ctx_wait_all_exact:
  assumes "orderly_run ops new_LocalContext" and "length ops < 2 ^ 32" and "c = ctx_run ops new_LocalContext"
  shows "numlivenodes c = card (live_nodes c) \<and>
    (WaitForAllNodeEnd c = Blocks \<longleftrightarrow> live_nodes c \<noteq> {} \<and> \<not> shutdown c)"
proof -
  have "live_count_ok new_LocalContext" by (simp add: live_count_ok_def new_LocalContext_def live_nodes_def)
  then have ok: "live_count_ok c"
    using live_count_run [OF _ assms(1) new_ctx_inv] assms(2,3) by (simp add: new_LocalContext_def)
  then show ?thesis by (auto simp: live_count_ok_def WaitForAllNodeEnd_def card_gt_0_iff)
qed

text \<open>no wait is stuck once the network is shut down, the waits for a start then throw
  \<open>ShutdownException\<close>, and \<open>WaitForKernelStart\<close> never follows a name to a kernel that is not there.\<close>

theorem ctx_waits_end:
  assumes "length ops < 2 ^ 64" and "c = ctx_run ops new_LocalContext"
  shows "WaitForKernelStart c n \<noteq> Throws NullPointer \<and>
    WaitForKernelStart (Terminate c) n = Throws ShutdownException \<and>
    WaitForNodeStart (Terminate c) n = Throws ShutdownException \<and>
    WaitForNodeEnd (Terminate c) n = Returned () \<and> WaitForAllNodeEnd (Terminate c) = Returned ()"
proof -
  have "names_ok (kernelnames c) (kernel_name c)" using ctx_invD(1) run_new(1) [OF assms(1)] assms(2) by simp
  then have "kernelmap c k \<noteq> None" if "kernelnames c n = Some k" for k
    using that by (auto simp: names_ok_def kernel_name_def)
  then have "WaitForKernelStart c n \<noteq> Throws NullPointer"
    by (auto simp: WaitForKernelStart_def split: option.splits)
  then show ?thesis
    by (simp add: Terminate_def WaitForKernelStart_def WaitForNodeStart_def WaitForNodeEnd_def WaitForAllNodeEnd_def)
qed

text \<open>creating nodes under distinct new names succeeds, with distinct new keys under which the names
  are found again; a name used twice is refused.\<close>

theorem ctx_create_nodes:
  assumes "ctx_inv c" and "\<not> shutdown c" and "counter c + length ns < 2 ^ 64" and "distinct ns"
    and "\<forall>n\<in>set ns. nodenames c n = None"
  shows "(\<exists>ks c'. register_all (\<lambda>c n. CreateNodeKey c kernelkey n) c ns = Inr (ks, c') \<and> distinct ks \<and>
      (\<forall>i<length ns. GetNodeKey c' (ns ! i) = Inr (ks ! i) \<and> GetNodeName c' (ks ! i) = Inr (ns ! i))) \<and>
    (\<forall>n\<in>set ns. register_all (\<lambda>c n. CreateNodeKey c kernelkey n) c [n, n] = Inl InvalidArgument)"
proof -
  have new: "\<forall>n\<in>set ns. GetNodeKey c n = Inl InvalidArgument" using assms(2,5) by (simp add: node_lookup(3))
  have room: "length ns \<le> keys_left c" using assms(3) by (simp add: keys_left_def)
  have "register_all (\<lambda>c n. CreateNodeKey c kernelkey n) c [n, n] = Inl InvalidArgument" if "n \<in> set ns" for n
  proof -
    have "0 < keys_left c" using room that by (cases ns) auto
    then show ?thesis using nodes.register_twice [OF assms(1,2)] new that by blast
  qed
  then show ?thesis using nodes.register_all_distinct [OF assms(1,2) room assms(4) new] by blast
qed

end
