(* ===== verification/Attrs.thy ===== *)
theory Attrs
  imports Prelude Complex_Main
begin

text \<open>
  The attribute classes a program describes its network with: \<open>QueueAttr\<close> and \<open>SimpleQueueAttr\<close>
  (libraries/CPN/QueueAttr.h), \<open>NodeAttr\<close> (libraries/CPN/NodeAttr.h) and \<open>KernelAttr\<close>
  (libraries/CPN/KernelAttr.h). Keys and names are as in the context; \<open>alpha\<close>, a \<open>double\<close>, is the
  rational number it stands for. The parameter map of a node is an association list in the order of
  its keys, as \<open>std::map\<close> keeps it.
\<close>

section \<open>Queues\<close>

datatype QueueHint_t = QUEUEHINT_DEFAULT | QUEUEHINT_THRESHOLD

record QueueAttr =
  qa_queuehint :: QueueHint_t
  qa_datatype :: string
  qa_queuename :: string
  qa_queueLength :: nat
  qa_maxThreshold :: nat
  qa_numChannels :: nat
  qa_alpha :: rat
  qa_readernodename :: string
  qa_readerportname :: string
  qa_writernodename :: string
  qa_writerportname :: string
  qa_readerkey :: nat
  qa_writerkey :: nat
  qa_readernodekey :: nat
  qa_writernodekey :: nat
  qa_maxwritethreshold :: nat

definition new_QueueAttr :: "nat \<Rightarrow> nat \<Rightarrow> QueueAttr" where
  "new_QueueAttr len thresh =
     \<lparr>qa_queuehint = QUEUEHINT_DEFAULT, qa_datatype = ''void'', qa_queuename = [], qa_queueLength = len,
      qa_maxThreshold = thresh, qa_numChannels = 1, qa_alpha = 1 / 2, qa_readernodename = [], qa_readerportname = [],
      qa_writernodename = [], qa_writerportname = [], qa_readerkey = 0, qa_writerkey = 0, qa_readernodekey = 0,
      qa_writernodekey = 0, qa_maxwritethreshold = 0\<rparr>"

definition SetAlpha :: "rat \<Rightarrow> QueueAttr \<Rightarrow> QueueAttr" where
  "SetAlpha a attr = attr\<lparr>qa_alpha := (if a < 0 then 0 else if a > 1 then 1 else a)\<rparr>"

definition SetMaxWriteThreshold :: "nat \<Rightarrow> QueueAttr \<Rightarrow> QueueAttr" where
  "SetMaxWriteThreshold mwt attr = attr\<lparr>qa_maxwritethreshold := mwt\<rparr>"

definition SetName :: "string \<Rightarrow> QueueAttr \<Rightarrow> QueueAttr" where
  "SetName qname attr = attr\<lparr>qa_queuename := qname\<rparr>"

definition SetReader :: "string \<Rightarrow> string \<Rightarrow> QueueAttr \<Rightarrow> QueueAttr" where
  "SetReader nodename portname attr = attr\<lparr>qa_readernodename := nodename, qa_readerportname := portname\<rparr>"

definition SetReader_key :: "nat \<Rightarrow> string \<Rightarrow> QueueAttr \<Rightarrow> QueueAttr" where
  "SetReader_key nodekey portname attr = attr\<lparr>qa_readernodekey := nodekey, qa_readerportname := portname\<rparr>"

definition SetWriter :: "string \<Rightarrow> string \<Rightarrow> QueueAttr \<Rightarrow> QueueAttr" where
  "SetWriter nodename portname attr = attr\<lparr>qa_writernodename := nodename, qa_writerportname := portname\<rparr>"

definition SetWriter_key :: "nat \<Rightarrow> string \<Rightarrow> QueueAttr \<Rightarrow> QueueAttr" where
  "SetWriter_key nodekey portname attr = attr\<lparr>qa_writernodekey := nodekey, qa_writerportname := portname\<rparr>"

definition SetEndpoints :: "string \<Rightarrow> string \<Rightarrow> string \<Rightarrow> string \<Rightarrow> QueueAttr \<Rightarrow> QueueAttr" where
  "SetEndpoints readernode readerport writernode writerport attr =
     SetWriter writernode writerport (SetReader readernode readerport attr)"

definition SetExternalReader :: "string \<Rightarrow> QueueAttr \<Rightarrow> QueueAttr" where
  "SetExternalReader readername = SetReader readername readername"

definition SetExternalWriter :: "string \<Rightarrow> QueueAttr \<Rightarrow> QueueAttr" where
  "SetExternalWriter writername = SetWriter writername writername"

definition SetHint :: "QueueHint_t \<Rightarrow> QueueAttr \<Rightarrow> QueueAttr" where
  "SetHint hint attr = attr\<lparr>qa_queuehint := hint\<rparr>"

definition SetDatatype :: "string \<Rightarrow> QueueAttr \<Rightarrow> QueueAttr" where
  "SetDatatype type attr = attr\<lparr>qa_datatype := type\<rparr>"

definition SetNumChannels :: "nat \<Rightarrow> QueueAttr \<Rightarrow> QueueAttr" where
  "SetNumChannels channels attr = attr\<lparr>qa_numChannels := channels\<rparr>"

record SimpleQueueAttr =
  sa_queuehint :: QueueHint_t
  sa_datatype :: string
  sa_queueLength :: nat
  sa_maxThreshold :: nat
  sa_numChannels :: nat
  sa_alpha :: rat
  sa_readerkey :: nat
  sa_writerkey :: nat
  sa_readernodekey :: nat
  sa_writernodekey :: nat
  sa_maxwritethreshold :: nat

definition simple_attr :: "QueueAttr \<Rightarrow> SimpleQueueAttr" where
  "simple_attr attr =
     \<lparr>sa_queuehint = qa_queuehint attr, sa_datatype = qa_datatype attr, sa_queueLength = qa_queueLength attr,
      sa_maxThreshold = qa_maxThreshold attr, sa_numChannels = qa_numChannels attr, sa_alpha = qa_alpha attr,
      sa_readerkey = qa_readerkey attr, sa_writerkey = qa_writerkey attr, sa_readernodekey = qa_readernodekey attr,
      sa_writernodekey = qa_writernodekey attr, sa_maxwritethreshold = qa_maxwritethreshold attr\<rparr>"

section \<open>Nodes and kernels\<close>

record NodeAttr =
  na_kernelname :: string
  na_kernelkey :: nat
  na_name :: string
  na_nodetype :: string
  na_params :: "(string \<times> string) list"
  na_key :: nat

definition new_NodeAttr :: "string \<Rightarrow> string \<Rightarrow> NodeAttr" where
  "new_NodeAttr name nodetype =
     \<lparr>na_kernelname = [], na_kernelkey = 0, na_name = name, na_nodetype = nodetype, na_params = [], na_key = 0\<rparr>"

record 'ctx KernelAttr =
  ka_name :: string
  ka_hostname :: string
  ka_servname :: string
  ka_context :: "'ctx option"
  ka_remote_enabled :: bool
  ka_useD4R :: bool
  ka_swallowbrokenqueue :: bool
  ka_growmaxthresh :: bool
  ka_sharedlibs :: "string list"
  ka_nodelists :: "string list"

definition new_KernelAttr :: "string \<Rightarrow> 'ctx KernelAttr" where
  "new_KernelAttr name =
     \<lparr>ka_name = name, ka_hostname = ''localhost'', ka_servname = [], ka_context = None, ka_remote_enabled = False,
      ka_useD4R = True, ka_swallowbrokenqueue = False, ka_growmaxthresh = True, ka_sharedlibs = [], ka_nodelists = []\<rparr>"

definition AddSharedLib :: "string \<Rightarrow> 'ctx KernelAttr \<Rightarrow> 'ctx KernelAttr" where
  "AddSharedLib lib attr = attr\<lparr>ka_sharedlibs := ka_sharedlibs attr @ [lib]\<rparr>"

definition AddNodeList :: "string \<Rightarrow> 'ctx KernelAttr \<Rightarrow> 'ctx KernelAttr" where
  "AddNodeList lst attr = attr\<lparr>ka_nodelists := ka_nodelists attr @ [lst]\<rparr>"

lemma SetAlpha_range: "0 \<le> qa_alpha (SetAlpha a attr) \<and> qa_alpha (SetAlpha a attr) \<le> 1"
  by (simp add: SetAlpha_def)

end
