(* ===== verification/RemoteQ.thy ===== *)
theory RemoteQ
  imports CPNQueue Packet D4R Attrs
begin

text \<open>
  The queue between two kernels, \<open>CPN::RemoteQueue\<close> (libraries/CPN/RemoteQueue.cc): a
  \<open>ThresholdQueue\<close> at the writer's and one at the reader's kernel, joined by a socket. Both ends are
  values of \<open>rqueue\<close>; the packets an end has written and the other has not read yet are its \<open>outq\<close>,
  in order, as a socket keeps them. A packet here is the header's fields with the data that follows
  the header on the socket; the theory of packets shows that headers get through unchanged.

  A handler runs under the queue's lock from its start to its end. Where the source gives the lock
  up while it copies data to or from the socket (\<open>EnqueuePacket\<close>, \<open>SendEnqueuePacket\<close>) the model takes
  the whole handler as one step. The split of a length between the two ends, the product of a length
  and the floating-point \<open>alpha\<close> rounded down, is the parameter \<open>scale\<close>.
\<close>

section \<open>State\<close>

datatype Mode_t = READ | WRITE

record packet =
  pk_type :: PacketType_t
  pk_count :: nat
  pk_requested :: nat
  pk_maxThresh :: nat
  pk_queueSize :: nat
  pk_readclock :: nat
  pk_writeclock :: nat
  pk_dataLength :: nat
  pk_data :: "byte list"
  pk_tag :: Tag

definition new_packet :: "nat \<Rightarrow> PacketType_t \<Rightarrow> packet" where
  "new_packet datalen type = \<lparr>pk_type = type, pk_count = 0, pk_requested = 0, pk_maxThresh = 0, pk_queueSize = 0,
     pk_readclock = 0, pk_writeclock = 0, pk_dataLength = datalen, pk_data = [], pk_tag = Tag (U128 0 0) (U128 0 0)\<rparr>"

record rqueue =
  tq :: cpnq
  rq_mode :: Mode_t
  rq_useD4R :: bool
  rq_alpha :: rat
  maxwritethreshold :: nat
  rq_clock :: nat
  rq_readclock :: nat
  rq_writeclock :: nat
  readerlength :: nat
  writerlength :: nat
  bytecount :: nat
  pendingBlock :: bool
  sentEnd :: bool
  pendingGrow :: bool
  pendingD4RTag :: bool
  tagUpdated :: bool
  rq_dead :: bool
  pendingAction :: bool
  sock_closed :: bool
  mocktag :: Tag
  tagchanged :: bool
  outq :: "packet list"

definition QueueLength_rq :: "(rat \<Rightarrow> nat \<Rightarrow> nat) \<Rightarrow> nat \<Rightarrow> nat \<Rightarrow> rat \<Rightarrow> Mode_t \<Rightarrow> nat" where
  "QueueLength_rq scale len maxthresh alpha mode =
    (let writerlen = scale alpha len
     in case mode of
          READ \<Rightarrow> max (sub32 len writerlen) (u32 maxthresh)
        | WRITE \<Rightarrow> max (u32 writerlen) (u32 maxthresh))"

definition new_RemoteQueue ::
  "cpn_env \<Rightarrow> (rat \<Rightarrow> nat \<Rightarrow> nat) \<Rightarrow> bool \<Rightarrow> Mode_t \<Rightarrow> SimpleQueueAttr \<Rightarrow> rqueue" where
  "new_RemoteQueue env scale useD4R mode attr =
    (let qlen = QueueLength_rq scale (sa_queueLength attr) (sa_maxThreshold attr) (sa_alpha attr)
     in \<lparr>tq = new_ThresholdQueue env (sa_readerkey attr) (sa_writerkey attr) (qlen mode) (sa_maxThreshold attr)
              (sa_numChannels attr) (sa_queuehint attr = QUEUEHINT_THRESHOLD),
         rq_mode = mode, rq_useD4R = useD4R, rq_alpha = sa_alpha attr, maxwritethreshold = sa_maxwritethreshold attr,
         rq_clock = 0, rq_readclock = 0, rq_writeclock = 0, readerlength = qlen READ, writerlength = qlen WRITE,
         bytecount = 0, pendingBlock = False, sentEnd = False, pendingGrow = False, pendingD4RTag = False,
         tagUpdated = False, rq_dead = False, pendingAction = False, sock_closed = True,
         mocktag = new_Tag (if mode = READ then sa_writernodekey attr else sa_readernodekey attr),
         tagchanged = False, outq = []\<rparr>)"

section \<open>Queue operations\<close>

definition Signal_rq :: "rqueue \<Rightarrow> rqueue" where
  "Signal_rq q = q\<lparr>pendingAction := True\<rparr>"

definition UnlockedShutdown_rq :: "rqueue \<Rightarrow> rqueue" where
  "UnlockedShutdown_rq q = Signal_rq (q\<lparr>rq_dead := True\<rparr>)"

definition UnlockedCount_rq :: "rqueue \<Rightarrow> nat" where
  "UnlockedCount_rq q = (case rq_mode q of
     READ \<Rightarrow> Count_tqb (queue (tq q)) | WRITE \<Rightarrow> u32 (Count_tqb (queue (tq q)) + bytecount q))"

definition UnlockedEmpty_rq :: "rqueue \<Rightarrow> bool" where
  "UnlockedEmpty_rq q = (case rq_mode q of
     READ \<Rightarrow> Empty_tqb (queue (tq q)) | WRITE \<Rightarrow> Empty_tqb (queue (tq q)) \<and> bytecount q = 0)"

definition UnlockedQueueLength_rq :: "rqueue \<Rightarrow> nat" where
  "UnlockedQueueLength_rq q = u32 (readerlength q + writerlength q)"

text \<open>Both ends set their lengths in the same way, from their own \<open>UnlockedGrow\<close> and from a \<open>GrowPacket\<close>.\<close>

definition set_lengths :: "cpn_env \<Rightarrow> (rat \<Rightarrow> nat \<Rightarrow> nat) \<Rightarrow> rqueue \<Rightarrow> nat \<Rightarrow> nat \<Rightarrow> (cpn_error + rqueue) option" where
  "set_lengths env scale q queueLen maxThr =
    (let maxthresh = max (u32 (maxThreshold (queue (tq q)))) (u32 maxThr);
         q1 = q\<lparr>readerlength := QueueLength_rq scale queueLen maxthresh (rq_alpha q) READ,
                writerlength := QueueLength_rq scale queueLen maxthresh (rq_alpha q) WRITE\<rparr>;
         nescale = (if rq_mode q = WRITE then writerlength q1 else readerlength q1)
     in map_option (map_sum id (\<lambda>t. q1\<lparr>tq := t\<rparr>)) (UnlockedGrow env (tq q1) nescale maxthresh))"

text \<open>\<open>UnlockedGrow\<close>; it waits (\<open>Blocks\<close>) while an earlier growth has not been sent.\<close>

definition UnlockedGrow_rq ::
  "cpn_env \<Rightarrow> (rat \<Rightarrow> nat \<Rightarrow> nat) \<Rightarrow> rqueue \<Rightarrow> nat \<Rightarrow> nat \<Rightarrow> rqueue outcome option" where
  "UnlockedGrow_rq env scale q queueLen maxThr =
    (if queueLen \<le> UnlockedQueueLength_rq q \<and> maxThr \<le> u32 (maxThreshold (queue (tq q))) then Some (Returned q)
     else if pendingGrow q \<and> \<not> rq_dead q then Some Blocks
     else map_option (\<lambda>r. case r of Inl e \<Rightarrow> Throws e | Inr q' \<Rightarrow> Returned (Signal_rq (q'\<lparr>pendingGrow := True\<rparr>)))
            (set_lengths env scale q queueLen maxThr))"

text \<open>What \<open>WaitForData\<close> and \<open>WaitForFreespace\<close> do before they wait, and the clock they wait for.\<close>

definition WaitForData_rq :: "rqueue \<Rightarrow> cpn_error + nat \<times> rqueue" where
  "WaitForData_rq q = ASSERT (rq_mode q = READ)
     (Inr (u64 (rq_clock q + 1), Signal_rq (q\<lparr>pendingBlock := True, tagUpdated := False\<rparr>)))"

definition WaitForFreespace_rq :: "rqueue \<Rightarrow> cpn_error + nat \<times> rqueue" where
  "WaitForFreespace_rq q = ASSERT (rq_mode q = WRITE)
     (Inr (u64 (rq_clock q + 1), Signal_rq (q\<lparr>pendingBlock := True, tagUpdated := False\<rparr>)))"

definition InternalDequeue_rq :: "rqueue \<Rightarrow> nat \<Rightarrow> cpn_error + rqueue" where
  "InternalDequeue_rq q count = ASSERT (rq_mode q = READ)
     (Inr (Signal_rq (q\<lparr>tq := InternalDequeue (tq q) count\<rparr>)))"

definition InternalEnqueue_rq :: "rqueue \<Rightarrow> nat \<Rightarrow> (cpn_error + rqueue) option" where
  "InternalEnqueue_rq q count =
    (if rq_mode q = WRITE then map_option (map_sum id (\<lambda>t. Signal_rq (q\<lparr>tq := t\<rparr>))) (InternalEnqueue (tq q) count)
     else Some (Inl AssertException))"

text \<open>The client's calls: \<open>QueueBase::Enqueue\<close> and \<open>QueueBase::Dequeue\<close> over the methods above.\<close>

definition Enqueue_rq :: "rqueue \<Rightarrow> nat \<Rightarrow> (cpn_error + rqueue) option" where
  "Enqueue_rq q count =
    (let q1 = q\<lparr>tq := (tq q)\<lparr>enqueuethresh := 0, inenqueue := False\<rparr>\<rparr>
     in if writeshutdown (tq q1) then Some (Inl (BrokenQueueException (writerkey (tq q1))))
        else InternalEnqueue_rq q1 count)"

definition Dequeue_rq :: "rqueue \<Rightarrow> nat \<Rightarrow> cpn_error + rqueue" where
  "Dequeue_rq q count =
    (let q1 = q\<lparr>tq := (tq q)\<lparr>dequeuethresh := 0, indequeue := False\<rparr>\<rparr>
     in if readshutdown (tq q1) then Inl (BrokenQueueException (readerkey (tq q1)))
        else InternalDequeue_rq q1 count)"

definition UnlockedSignalReaderTagChanged_rq :: "rqueue \<Rightarrow> cpn_error + rqueue" where
  "UnlockedSignalReaderTagChanged_rq q = ASSERT (rq_mode q = READ) (Inr (Signal_rq (q\<lparr>pendingD4RTag := True\<rparr>)))"

definition UnlockedSignalWriterTagChanged_rq :: "rqueue \<Rightarrow> cpn_error + rqueue" where
  "UnlockedSignalWriterTagChanged_rq q = ASSERT (rq_mode q = WRITE) (Inr (Signal_rq (q\<lparr>pendingD4RTag := True\<rparr>)))"

section \<open>Clocks and packets\<close>

definition UpdateClock :: "packet \<Rightarrow> rqueue \<Rightarrow> rqueue" where
  "UpdateClock p q =
     q\<lparr>rq_writeclock := pk_writeclock p, rq_readclock := pk_readclock p,
       rq_clock := u64 (max (case rq_mode q of READ \<Rightarrow> pk_writeclock p | WRITE \<Rightarrow> pk_readclock p) (rq_clock q) + 1)\<rparr>"

definition TickClock :: "rqueue \<Rightarrow> rqueue" where
  "TickClock q = q\<lparr>rq_clock := u64 (rq_clock q + 1)\<rparr>"

definition SetupPacket :: "rqueue \<Rightarrow> packet \<Rightarrow> packet \<times> rqueue" where
  "SetupPacket q p =
    (let q1 = TickClock q
     in (case rq_mode q of
           READ \<Rightarrow> p\<lparr>pk_readclock := rq_clock q1, pk_writeclock := rq_writeclock q1\<rparr>
         | WRITE \<Rightarrow> p\<lparr>pk_readclock := rq_readclock q1, pk_writeclock := rq_clock q1\<rparr>, q1))"

text \<open>Writing a packet to the socket, after \<open>SetupPacket\<close>.\<close>

definition send :: "rqueue \<Rightarrow> packet \<Rightarrow> rqueue" where
  "send q p = (let (p', q1) = SetupPacket q p in q1\<lparr>outq := outq q1 @ [p']\<rparr>)"

definition chan_block :: "packet \<Rightarrow> nat \<Rightarrow> byte list" where
  "chan_block p i = take (pk_count p) (drop (i * pk_count p) (pk_data p))"

text \<open>A packet larger than the free space makes the reader's buffer grow.\<close>

definition make_room :: "cpn_env \<Rightarrow> cpnq \<Rightarrow> nat \<Rightarrow> (cpn_error + cpnq) option" where
  "make_room env t count =
    (if count > Freespace_tqb (queue t) \<or> count > maxThreshold (queue t)
     then UnlockedGrow env t (u32 (Count_tqb (queue t) + count)) count else Some (Inr t))"

definition EnqueuePacket :: "cpn_env \<Rightarrow> packet \<Rightarrow> rqueue \<Rightarrow> (cpn_error + rqueue) option" where
  "EnqueuePacket env p q0 =
    (let q = UpdateClock p q0; t = tq q; numchannels = numChannels (queue t); count = pk_count p
     in if rq_mode q \<noteq> READ \<or> writeshutdown t then Some (Inl AssertException)
        else case make_room env t count of
          None \<Rightarrow> None
        | Some (Inl e) \<Rightarrow> Some (Inl e)
        | Some (Inr t1) \<Rightarrow>
           if list_all (\<lambda>i. case InternalGetRawEnqueuePtr t1 count i of Inr (Some ptr) \<Rightarrow> True | _ \<Rightarrow> False) [0..<numchannels]
           then let t2 = fold (\<lambda>i t. client_store t i (chan_block p i)) [0..<numchannels] (t1\<lparr>inenqueue := True\<rparr>)
                in if length (pk_data p) < pk_dataLength p then Some (Inr (q\<lparr>tq := t2\<rparr>))
                   else map_option (map_sum id (\<lambda>t3.
                          q\<lparr>tq := t3\<lparr>writerequest := 0\<rparr>, bytecount := u32 (bytecount q + count)\<rparr>))
                        (InternalEnqueue (t2\<lparr>inenqueue := False\<rparr>) count)
           else Some (Inl AssertException))"

definition SendEnqueue_count :: "rqueue \<Rightarrow> nat" where
  "SendEnqueue_count q =
    (let b = queue (tq q); count = u32 (Count_tqb b); maxthresh = u32 (maxThreshold b);
         expectedfree = sub32 (max (readerlength q) maxthresh) (bytecount q);
         maxwrite = (let mw = maxwritethreshold q div numChannels b in if mw = 0 then 1 else mw);
         count1 = (if maxwritethreshold q > 0 \<and> count > maxwrite then maxwrite else count);
         count2 = (if count1 > maxthresh then maxthresh else count1)
     in if count2 > expectedfree then expectedfree else count2)"

definition SendEnqueuePacket :: "rqueue \<Rightarrow> cpn_error + rqueue" where
  "SendEnqueuePacket q =
    (let t = tq q; numchannels = numChannels (queue t); count = SendEnqueue_count q
     in if count = 0 then Inr q
        else if list_all (\<lambda>i. case InternalGetRawDequeuePtr t count i of Inr (Some ptr) \<Rightarrow> True | _ \<Rightarrow> False) [0..<numchannels]
        then let block = (\<lambda>i. case InternalGetRawDequeuePtr t count i of
                               Inr (Some ptr) \<Rightarrow> load_tqb (deq_buffer t) ptr count | _ \<Rightarrow> []);
                 p = (new_packet (u32 (count * numchannels)) PACKET_ENQUEUE)
                       \<lparr>pk_count := count, pk_data := concat (map block [0..<numchannels])\<rparr>;
                 q1 = send q p
             in Inr (q1\<lparr>tq := InternalDequeue (t\<lparr>indequeue := False\<rparr>) count, bytecount := u32 (bytecount q + count)\<rparr>)
        else Inl AssertException)"

definition DequeuePacket :: "packet \<Rightarrow> rqueue \<Rightarrow> cpn_error + rqueue" where
  "DequeuePacket p q0 =
    (let q = UpdateClock p q0
     in ASSERT (rq_mode q = WRITE \<and> \<not> readshutdown (tq q))
          (Inr (q\<lparr>tq := (tq q)\<lparr>readrequest := 0\<rparr>, bytecount := sub32 (bytecount q) (pk_count p)\<rparr>)))"

definition SendDequeuePacket :: "rqueue \<Rightarrow> rqueue" where
  "SendDequeuePacket q =
    (let count = sub32 (bytecount q) (Count_tqb (queue (tq q)));
         q1 = send q ((new_packet 0 PACKET_DEQUEUE)\<lparr>pk_count := count\<rparr>)
     in q1\<lparr>bytecount := sub32 (bytecount q) count\<rparr>)"

definition ReadBlockPacket :: "packet \<Rightarrow> rqueue \<Rightarrow> cpn_error + rqueue" where
  "ReadBlockPacket p q0 =
    (let q = UpdateClock p q0
     in ASSERT (rq_mode q = WRITE \<and> \<not> readshutdown (tq q))
          (let q1 = q\<lparr>tq := (tq q)\<lparr>readrequest := pk_requested p\<rparr>\<rparr>
           in Inr (if pk_requested p > u32 (Count_tqb (queue (tq q)) + bytecount q) \<and> rq_useD4R q
                   then q1\<lparr>pendingD4RTag := True\<rparr> else q1)))"

definition SendReadBlockPacket :: "rqueue \<Rightarrow> rqueue" where
  "SendReadBlockPacket q = send q ((new_packet 0 PACKET_READBLOCK)\<lparr>pk_requested := readrequest (tq q)\<rparr>)"

definition WriteBlockPacket :: "packet \<Rightarrow> rqueue \<Rightarrow> cpn_error + rqueue" where
  "WriteBlockPacket p q0 =
    (let q = UpdateClock p q0; count = Count_tqb (queue (tq q))
     in ASSERT (rq_mode q = READ \<and> \<not> writeshutdown (tq q))
          (let q1 = q\<lparr>tq := (tq q)\<lparr>writerequest := pk_requested p\<rparr>\<rparr>
           in Inr (if (pk_requested p > sub32 (readerlength q) count \<or> count > readerlength q) \<and> rq_useD4R q
                   then q1\<lparr>pendingD4RTag := True\<rparr> else q1)))"

definition SendWriteBlockPacket :: "rqueue \<Rightarrow> rqueue" where
  "SendWriteBlockPacket q = send q ((new_packet 0 PACKET_WRITEBLOCK)\<lparr>pk_requested := writerequest (tq q)\<rparr>)"

definition EndOfWritePacket :: "packet \<Rightarrow> rqueue \<Rightarrow> cpn_error + rqueue" where
  "EndOfWritePacket p q0 =
    (let q = UpdateClock p q0
     in ASSERT (rq_mode q = READ \<and> \<not> writeshutdown (tq q))
          (Inr (Signal_rq (q\<lparr>tq := ShutdownWriter (tq q)\<rparr>))))"

definition SendEndOfWritePacket :: "rqueue \<Rightarrow> cpn_error + rqueue" where
  "SendEndOfWritePacket q = ASSERT (\<not> sentEnd q) (Inr (send q (new_packet 0 PACKET_ENDOFWRITE)))"

definition EndOfReadPacket :: "packet \<Rightarrow> rqueue \<Rightarrow> cpn_error + rqueue" where
  "EndOfReadPacket p q0 =
    (let q = UpdateClock p q0
     in ASSERT (rq_mode q = WRITE \<and> \<not> readshutdown (tq q))
          (Inr (Signal_rq (q\<lparr>tq := ShutdownReader (tq q)\<rparr>))))"

definition SendEndOfReadPacket :: "rqueue \<Rightarrow> cpn_error + rqueue" where
  "SendEndOfReadPacket q = ASSERT (\<not> sentEnd q) (Inr (send q (new_packet 0 PACKET_ENDOFREAD)))"

definition GrowPacket :: "cpn_env \<Rightarrow> (rat \<Rightarrow> nat \<Rightarrow> nat) \<Rightarrow> packet \<Rightarrow> rqueue \<Rightarrow> (cpn_error + rqueue) option" where
  "GrowPacket env scale p q0 = set_lengths env scale (UpdateClock p q0) (pk_queueSize p) (pk_maxThresh p)"

definition SendGrowPacket :: "rqueue \<Rightarrow> rqueue" where
  "SendGrowPacket q = send q ((new_packet 0 PACKET_GROW)
     \<lparr>pk_queueSize := u32 (readerlength q + writerlength q), pk_maxThresh := u32 (maxThreshold (queue (tq q)))\<rparr>)"

text \<open>A \<open>D4R::Tag\<close> is 32 bytes on the socket.\<close>

definition D4RTagPacket :: "packet \<Rightarrow> rqueue \<Rightarrow> cpn_error + rqueue" where
  "D4RTagPacket p q0 =
    (let q = UpdateClock p q0
     in ASSERT (pk_dataLength p = 32)
          (Inr (Signal_rq (q\<lparr>tagUpdated := True, mocktag := pk_tag p, tagchanged := True\<rparr>))))"

definition SendD4RTagPacket :: "Tag \<Rightarrow> rqueue \<Rightarrow> rqueue" where
  "SendD4RTagPacket mytag q = send q ((new_packet 32 PACKET_D4RTAG)\<lparr>pk_tag := mytag\<rparr>)"

text \<open>\<open>FirePacket\<close> with the handlers of this class.\<close>

definition handle :: "cpn_env \<Rightarrow> (rat \<Rightarrow> nat \<Rightarrow> nat) \<Rightarrow> packet \<Rightarrow> rqueue \<Rightarrow> (cpn_error + rqueue) option" where
  "handle env scale p q = (case pk_type p of
     PACKET_ENQUEUE \<Rightarrow> EnqueuePacket env p q
   | PACKET_DEQUEUE \<Rightarrow> Some (DequeuePacket p q)
   | PACKET_READBLOCK \<Rightarrow> Some (ReadBlockPacket p q)
   | PACKET_WRITEBLOCK \<Rightarrow> Some (WriteBlockPacket p q)
   | PACKET_ENDOFWRITE \<Rightarrow> Some (EndOfWritePacket p q)
   | PACKET_ENDOFREAD \<Rightarrow> Some (EndOfReadPacket p q)
   | PACKET_GROW \<Rightarrow> GrowPacket env scale p q
   | PACKET_D4RTAG \<Rightarrow> Some (D4RTagPacket p q)
   | PACKET_ID_READER \<Rightarrow> Some (Inl AssertException)
   | PACKET_ID_WRITER \<Rightarrow> Some (Inl AssertException))"

section \<open>The action thread\<close>

text \<open>\<open>Read\<close>: the packets that are on the socket, one after the other.\<close>

fun Read_rq :: "cpn_env \<Rightarrow> (rat \<Rightarrow> nat \<Rightarrow> nat) \<Rightarrow> packet list \<Rightarrow> rqueue \<Rightarrow> (cpn_error + rqueue) option" where
  "Read_rq env scale [] q = Some (Inr q)"
| "Read_rq env scale (p # ps) q =
    (case handle env scale p q of
       None \<Rightarrow> None | Some (Inl e) \<Rightarrow> Some (Inl e) | Some (Inr q') \<Rightarrow> Read_rq env scale ps q')"

text \<open>\<open>while (!queue->Empty() && (bytecount < readerlength) && !dead) SendEnqueuePacket();\<close>\<close>

partial_function (option) send_loop :: "rqueue \<Rightarrow> (cpn_error + rqueue) option" where
  "send_loop q =
    (if \<not> Empty_tqb (queue (tq q)) \<and> bytecount q < readerlength q \<and> \<not> rq_dead q
     then (case SendEnqueuePacket q of Inl e \<Rightarrow> Some (Inl e) | Inr q' \<Rightarrow> send_loop q')
     else Some (Inr q))"

definition check_grow :: "rqueue \<Rightarrow> rqueue" where
  "check_grow q = (if pendingGrow q \<and> \<not> sentEnd q then (SendGrowPacket q)\<lparr>pendingGrow := False\<rparr> else q)"

definition check_block :: "rqueue \<Rightarrow> rqueue" where
  "check_block q =
    (if pendingBlock q then
       (case rq_mode q of
          WRITE \<Rightarrow> if writerequest (tq q) > Freespace_tqb (queue (tq q)) then SendWriteBlockPacket q else q
        | READ \<Rightarrow> if readrequest (tq q) > Count_tqb (queue (tq q)) then SendReadBlockPacket q else q)
       \<lparr>pendingBlock := False\<rparr>
     else q)"

text \<open>The node at this end, if it is set, has the public tag \<open>mytag\<close>.\<close>

definition check_tag :: "Tag option \<Rightarrow> rqueue \<Rightarrow> rqueue" where
  "check_tag nd q =
    (let shut = (case rq_mode q of WRITE \<Rightarrow> writeshutdown (tq q) | READ \<Rightarrow> readshutdown (tq q))
     in case nd of
          Some mytag \<Rightarrow> if pendingD4RTag q \<and> \<not> shut then (SendD4RTagPacket mytag q)\<lparr>pendingD4RTag := False\<rparr> else q
        | None \<Rightarrow> q)"

definition send_end :: "rqueue \<Rightarrow> cpn_error + rqueue" where
  "send_end q = map_sum id (\<lambda>q'. q'\<lparr>sentEnd := True\<rparr>)
     (case rq_mode q of WRITE \<Rightarrow> SendEndOfWritePacket q | READ \<Rightarrow> SendEndOfReadPacket q)"

definition close_end :: "rqueue \<Rightarrow> cpn_error + rqueue" where
  "close_end q = map_sum id (\<lambda>q'. q'\<lparr>sock_closed := True, rq_dead := True\<rparr>)
     (if sentEnd q then Inr q else send_end q)"

definition check_write_end :: "bool \<Rightarrow> rqueue \<Rightarrow> cpn_error + rqueue" where
  "check_write_end stop q =
    (case (if writeshutdown (tq q) \<and> \<not> sentEnd q \<and> (Empty_tqb (queue (tq q)) \<or> stop) then send_end q else Inr q) of
       Inl e \<Rightarrow> Inl e
     | Inr q1 \<Rightarrow> if readshutdown (tq q1) then close_end q1 else Inr q1)"

definition check_write :: "bool \<Rightarrow> Tag option \<Rightarrow> rqueue \<Rightarrow> (cpn_error + rqueue) option" where
  "check_write stop nd q =
    (if sentEnd q then Some (check_write_end stop q)
     else
       let q1 = (if stop then Signal_rq (q\<lparr>tq := ShutdownWriter (tq q)\<rparr>) else q)
       in case send_loop q1 of
            None \<Rightarrow> None
          | Some (Inl e) \<Rightarrow> Some (Inl e)
          | Some (Inr q2) \<Rightarrow>
             if rq_dead q2 then Some (Inr q2) else Some (check_write_end stop (check_tag nd (check_block q2))))"

definition check_read :: "bool \<Rightarrow> Tag option \<Rightarrow> rqueue \<Rightarrow> cpn_error + rqueue" where
  "check_read stop nd q =
    (let r = (if sentEnd q then Inr q
              else
                let q1 = (if stop then Signal_rq (q\<lparr>tq := ShutdownReader (tq q)\<rparr>) else q);
                    q2 = (if bytecount q1 > Count_tqb (queue (tq q1)) then SendDequeuePacket q1 else q1);
                    q3 = check_tag nd (check_block q2)
                in if readshutdown (tq q3) then send_end q3 else Inr q3)
     in case r of Inl e \<Rightarrow> Inl e | Inr q4 \<Rightarrow> if writeshutdown (tq q4) then close_end q4 else Inr q4)"

text \<open>
  \<open>InternalCheckStatus\<close>, with the packets \<open>inp\<close> that \<open>Read\<close> finds on the socket and whether the end of
  the socket's data has been seen before.
\<close>

definition InternalCheckStatus ::
  "cpn_env \<Rightarrow> (rat \<Rightarrow> nat \<Rightarrow> nat) \<Rightarrow> Tag option \<Rightarrow> packet list \<Rightarrow> bool \<Rightarrow> rqueue \<Rightarrow> (cpn_error + rqueue) option" where
  "InternalCheckStatus env scale nd inp eof q =
    (if sock_closed q then Some (Inr q)
     else if eof \<and> \<not> (readshutdown (tq q) \<or> writeshutdown (tq q)) then
       (if terminated env then Some (Inr (UnlockedShutdown_rq (q\<lparr>sock_closed := True\<rparr>))) else Some (Inl AssertException))
     else case Read_rq env scale inp q of
       None \<Rightarrow> None
     | Some (Inl e) \<Rightarrow> Some (Inl e)
     | Some (Inr q1) \<Rightarrow>
        (case rq_mode q1 of
           WRITE \<Rightarrow> check_write (terminated env) nd (check_grow q1)
         | READ \<Rightarrow> Some (check_read (terminated env) nd (check_grow q1))))"

section \<open>The two ends\<close>

text \<open>What the node at an end does to its queue, one call or part of a call at a time.\<close>

inductive end_step :: "cpn_env \<Rightarrow> (rat \<Rightarrow> nat \<Rightarrow> nat) \<Rightarrow> mon_event \<Rightarrow> rqueue \<Rightarrow> rqueue \<Rightarrow> bool" for env scale where
  end_connect: "\<not> rq_dead q \<Longrightarrow> end_step env scale Moved q (q\<lparr>sock_closed := False\<rparr>)"
| end_get_write: "rq_mode q = WRITE \<Longrightarrow> \<not> inenqueue (tq q) \<Longrightarrow> InternalGetRawEnqueuePtr (tq q) t c = Inr (Some ptr) \<Longrightarrow>
    end_step env scale Moved q (q\<lparr>tq := (tq q)\<lparr>enqueuethresh := t, inenqueue := True\<rparr>\<rparr>)"
| end_store: "rq_mode q = WRITE \<Longrightarrow> inenqueue (tq q) \<Longrightarrow> c < numChannels (queue (tq q)) \<Longrightarrow>
    length bs \<le> enqueuethresh (tq q) \<Longrightarrow> end_step env scale (Stored c bs) q (q\<lparr>tq := client_store (tq q) c bs\<rparr>)"
| end_enqueue: "inenqueue (tq q) \<Longrightarrow> n \<le> enqueuethresh (tq q) \<Longrightarrow> Enqueue_rq q n = Some (Inr q') \<Longrightarrow>
    end_step env scale (Enqueued n) q q'"
| end_wait_write: "\<not> inenqueue (tq q) \<Longrightarrow> WaitForFreespace_rq (q\<lparr>tq := (tq q)\<lparr>writerequest := t\<rparr>\<rparr>) = Inr (saveclock, q') \<Longrightarrow>
    end_step env scale Moved q q'"
| end_wake_write: "rq_mode q = WRITE \<Longrightarrow> end_step env scale Moved q (q\<lparr>tq := (tq q)\<lparr>writerequest := 0\<rparr>\<rparr>)"
| end_get_read: "rq_mode q = READ \<Longrightarrow> \<not> indequeue (tq q) \<Longrightarrow> InternalGetRawDequeuePtr (tq q) t c = Inr (Some ptr) \<Longrightarrow>
    end_step env scale Moved q (q\<lparr>tq := (tq q)\<lparr>dequeuethresh := t, indequeue := True\<rparr>\<rparr>)"
| end_dequeue: "indequeue (tq q) \<Longrightarrow> n \<le> dequeuethresh (tq q) \<Longrightarrow> Dequeue_rq q n = Inr q' \<Longrightarrow>
    end_step env scale (Dequeued n) q q'"
| end_wait_read: "\<not> indequeue (tq q) \<Longrightarrow> WaitForData_rq (q\<lparr>tq := (tq q)\<lparr>readrequest := t\<rparr>\<rparr>) = Inr (saveclock, q') \<Longrightarrow>
    end_step env scale Moved q q'"
| end_wake_read: "rq_mode q = READ \<Longrightarrow> end_step env scale Moved q (q\<lparr>tq := (tq q)\<lparr>readrequest := 0\<rparr>\<rparr>)"
| end_grow: "UnlockedGrow_rq env scale q l t = Some (Returned q') \<Longrightarrow>
    end_step env scale Moved q q'"
| end_reader_tag: "UnlockedSignalReaderTagChanged_rq q = Inr q' \<Longrightarrow> end_step env scale Moved q q'"
| end_writer_tag: "UnlockedSignalWriterTagChanged_rq q = Inr q' \<Longrightarrow> end_step env scale Moved q q'"
| end_shutdown_reader: "rq_mode q = READ \<Longrightarrow> end_step env scale Moved q (Signal_rq (q\<lparr>tq := ShutdownReader (tq q)\<rparr>))"
| end_shutdown_writer: "rq_mode q = WRITE \<Longrightarrow> end_step env scale Moved q (Signal_rq (q\<lparr>tq := ShutdownWriter (tq q)\<rparr>))"
| end_forced: "terminated env \<Longrightarrow> end_step env scale Moved q (UnlockedShutdown_rq q)"

text \<open>
  The whole queue: the two ends and, for each channel, the bytes the writer has committed and those
  the reader has consumed. An action thread reads some of the packets the other end has sent. It may
  see the end of the data when the other end has shut its side of the socket down and everything
  before has been read. No packet carries \<open>2 ^ 32\<close> bytes or more.
\<close>

record rnet =
  wend :: rqueue
  rend :: rqueue
  committed :: "nat \<Rightarrow> byte list"
  consumed :: "nat \<Rightarrow> byte list"

definition eof_ok :: "bool \<Rightarrow> rqueue \<Rightarrow> bool" where
  "eof_ok eof peer \<longleftrightarrow> (eof \<longrightarrow> outq peer = [] \<and> (sentEnd peer \<or> rq_dead peer))"

definition wire_ok :: "packet list \<Rightarrow> bool" where
  "wire_ok ps \<longleftrightarrow> (\<forall>p\<in>set ps. length (pk_data p) < 2 ^ 32)"

inductive rnet_step :: "cpn_env \<Rightarrow> (rat \<Rightarrow> nat \<Rightarrow> nat) \<Rightarrow> rnet \<Rightarrow> rnet \<Rightarrow> bool" for env scale where
  rnet_writer: "end_step env scale ev (wend n) w' \<Longrightarrow>
    rnet_step env scale n (n\<lparr>wend := w', committed := \<lambda>c. committed n c @ sent_by ev (tq (wend n)) c\<rparr>)"
| rnet_reader: "end_step env scale ev (rend n) r' \<Longrightarrow>
    rnet_step env scale n (n\<lparr>rend := r', consumed := \<lambda>c. consumed n c @ received_by ev (tq (rend n)) c\<rparr>)"
| rnet_writer_action: "outq (rend n) = inp @ rest \<Longrightarrow> eof_ok eof (rend n) \<Longrightarrow>
    InternalCheckStatus env scale nd inp eof (wend n) = Some (Inr w') \<Longrightarrow> wire_ok (outq w') \<Longrightarrow>
    rnet_step env scale n (n\<lparr>wend := w', rend := (rend n)\<lparr>outq := (if sock_closed (wend n) then inp @ rest else rest)\<rparr>\<rparr>)"
| rnet_reader_action: "outq (wend n) = inp @ rest \<Longrightarrow> eof_ok eof (wend n) \<Longrightarrow>
    InternalCheckStatus env scale nd inp eof (rend n) = Some (Inr r') \<Longrightarrow>
    rnet_step env scale n (n\<lparr>rend := r', wend := (wend n)\<lparr>outq := (if sock_closed (rend n) then inp @ rest else rest)\<rparr>\<rparr>)"

text \<open>The two ends as the kernels make them for one queue, and what they can come to.\<close>

definition new_rnet :: "cpn_env \<Rightarrow> (rat \<Rightarrow> nat \<Rightarrow> nat) \<Rightarrow> bool \<Rightarrow> SimpleQueueAttr \<Rightarrow> rnet" where
  "new_rnet env scale useD4R attr =
     \<lparr>wend = new_RemoteQueue env scale useD4R WRITE attr, rend = new_RemoteQueue env scale useD4R READ attr,
      committed = (\<lambda>_. []), consumed = (\<lambda>_. [])\<rparr>"

inductive rnet_run :: "cpn_env \<Rightarrow> (rat \<Rightarrow> nat \<Rightarrow> nat) \<Rightarrow> rnet \<Rightarrow> rnet \<Rightarrow> bool" for env scale n0 where
  rnet_run_start: "rnet_run env scale n0 n0"
| rnet_run_step: "rnet_run env scale n0 n \<Longrightarrow> rnet_step env scale n n' \<Longrightarrow> rnet_run env scale n0 n'"

section \<open>Invariant\<close>

definition end_ok :: "cpn_env \<Rightarrow> nat \<Rightarrow> rqueue \<Rightarrow> bool" where
  "end_ok env nc q \<longleftrightarrow> cpn_inv env (tq q) \<and> numChannels (queue (tq q)) = nc \<and> readerlength q < 2 ^ 32 \<and>
     (case rq_mode q of
        WRITE \<Rightarrow> \<not> indequeue (tq q) \<and> dequeuethresh (tq q) = 0
      | READ \<Rightarrow> \<not> inenqueue (tq q) \<and> enqueuethresh (tq q) = 0)"

definition pkt_ok :: "nat \<Rightarrow> PacketType_t list \<Rightarrow> packet \<Rightarrow> bool" where
  "pkt_ok nc types p \<longleftrightarrow> pk_type p \<in> set types \<and>
     (pk_type p = PACKET_ENQUEUE \<longrightarrow> length (pk_data p) = pk_count p * nc \<and> pk_dataLength p = u32 (length (pk_data p))) \<and>
     (pk_type p = PACKET_D4RTAG \<longrightarrow> pk_dataLength p = 32)"

definition writer_types :: "PacketType_t list" where
  "writer_types = [PACKET_ENQUEUE, PACKET_WRITEBLOCK, PACKET_ENDOFWRITE, PACKET_GROW, PACKET_D4RTAG]"

definition reader_types :: "PacketType_t list" where
  "reader_types = [PACKET_DEQUEUE, PACKET_READBLOCK, PACKET_ENDOFREAD, PACKET_GROW, PACKET_D4RTAG]"

text \<open>The sum of the counts of the packets of a type, and the bytes of a channel in flight.\<close>

definition carried :: "PacketType_t \<Rightarrow> packet list \<Rightarrow> nat" where
  "carried ty ps = sum_list (map pk_count (filter (\<lambda>p. pk_type p = ty) ps))"

definition in_flight :: "nat \<Rightarrow> packet list \<Rightarrow> byte list" where
  "in_flight c ps = concat (map (\<lambda>p. if pk_type p = PACKET_ENQUEUE then chan_block p c else []) ps)"

text \<open>The packet that ends one direction is the last one sent, and nothing is left when it has been read.\<close>

definition ends_ok :: "PacketType_t \<Rightarrow> bool \<Rightarrow> bool \<Rightarrow> packet list \<Rightarrow> bool" where
  "ends_ok ty ended shut ps \<longleftrightarrow>
    (if shut then ended \<and> ps = []
     else (\<forall>p\<in>set (butlast ps). pk_type p \<noteq> ty) \<and> (ended \<longleftrightarrow> ps \<noteq> [] \<and> pk_type (last ps) = ty))"

definition transit :: "rqueue \<Rightarrow> rqueue \<Rightarrow> nat \<Rightarrow> byte list" where
  "transit w r c = cpn_contents (tq r) c @ in_flight c (outq w) @ cpn_contents (tq w) c"

definition pair_inv :: "cpn_env \<Rightarrow> nat \<Rightarrow> rqueue \<Rightarrow> rqueue \<Rightarrow> (nat \<Rightarrow> byte list) \<Rightarrow> bool" where
  "pair_inv env nc w r s \<longleftrightarrow> rq_mode w = WRITE \<and> rq_mode r = READ \<and> end_ok env nc w \<and> end_ok env nc r \<and>
     list_all (pkt_ok nc writer_types) (outq w) \<and> list_all (pkt_ok nc reader_types) (outq r) \<and>
     bytecount w = carried PACKET_ENQUEUE (outq w) + bytecount r + carried PACKET_DEQUEUE (outq r) \<and>
     Count_tqb (queue (tq r)) \<le> bytecount r \<and> bytecount w < 2 ^ 32 \<and>
     ends_ok PACKET_ENDOFWRITE (sentEnd w) (writeshutdown (tq r)) (outq w) \<and>
     ends_ok PACKET_ENDOFREAD (sentEnd r) (readshutdown (tq w)) (outq r) \<and>
     (rq_dead w \<longrightarrow> sentEnd w \<or> terminated env) \<and> (rq_dead r \<longrightarrow> sentEnd r \<or> terminated env) \<and>
     (\<forall>c<nc. transit w r c = s c)"

definition rnet_inv :: "cpn_env \<Rightarrow> nat \<Rightarrow> rnet \<Rightarrow> bool" where
  "rnet_inv env nc n \<longleftrightarrow> (\<exists>s. pair_inv env nc (wend n) (rend n) s \<and> wire_ok (outq (wend n)) \<and>
     (\<forall>c<nc. committed n c = consumed n c @ s c))"

text \<open>Storing a block into every channel, and a packet with the clocks of its sender.\<close>

definition store_all :: "(nat \<Rightarrow> byte list) \<Rightarrow> nat \<Rightarrow> cpnq \<Rightarrow> cpnq" where
  "store_all d n q = fold (\<lambda>i t. client_store t i (d i)) [0..<n] q"

definition stamped :: "rqueue \<Rightarrow> packet \<Rightarrow> packet" where
  "stamped q p = fst (SetupPacket q p)"

section \<open>A queue to evaluate\<close>

definition demo_scale :: "rat \<Rightarrow> nat \<Rightarrow> nat" where
  "demo_scale alpha len = nat \<lfloor>alpha * of_nat len\<rfloor>"

definition demo_remote_attr :: SimpleQueueAttr where
  "demo_remote_attr = simple_attr ((new_QueueAttr 8 2)\<lparr>qa_readerkey := 1, qa_writerkey := 2\<rparr>)"

definition demo_rnet :: rnet where
  "demo_rnet = new_rnet demo_env demo_scale True demo_remote_attr"

section \<open>Storing and taking blocks\<close>

lemma same_field:
  "enqueuethresh (q :: cpnq) = n \<Longrightarrow> q\<lparr>enqueuethresh := n\<rparr> = q" "dequeuethresh q = n \<Longrightarrow> q\<lparr>dequeuethresh := n\<rparr> = q"
  by (cases q; simp)+

lemma client_store_thresh [simp]:
  "client_store (q\<lparr>enqueuethresh := x\<rparr>) c b = (client_store q c b)\<lparr>enqueuethresh := x\<rparr>"
  by (cases "oldqueue q") (simp_all add: client_store_def enq_buffer_def Let_def)

lemma client_store_fields [simp]:
  "inenqueue (client_store q c b) = inenqueue q" "enqueuethresh (client_store q c b) = enqueuethresh q"
  "indequeue (client_store q c b) = indequeue q" "dequeuethresh (client_store q c b) = dequeuethresh q"
  "readrequest (client_store q c b) = readrequest q" "writerequest (client_store q c b) = writerequest q"
  "readshutdown (client_store q c b) = readshutdown q" "writeshutdown (client_store q c b) = writeshutdown q"
  "Count_tqb (queue (client_store q c b)) = Count_tqb (queue q)"
  by (simp_all add: client_store_def Let_def store_tqb_def enq_buffer_def)

lemma store_all_0 [simp]: "store_all d 0 q = q"
  by (simp add: store_all_def)

lemma store_all_Suc [simp]: "store_all d (Suc n) q = client_store (store_all d n q) n (d n)"
  by (simp add: store_all_def)

lemma store_all_fields [simp]:
  "inenqueue (store_all d n q) = inenqueue q" "enqueuethresh (store_all d n q) = enqueuethresh q"
  "indequeue (store_all d n q) = indequeue q" "dequeuethresh (store_all d n q) = dequeuethresh q"
  "readrequest (store_all d n q) = readrequest q" "writerequest (store_all d n q) = writerequest q"
  "readshutdown (store_all d n q) = readshutdown q" "writeshutdown (store_all d n q) = writeshutdown q"
  "Count_tqb (queue (store_all d n q)) = Count_tqb (queue q)"
  "store_all d n (q\<lparr>enqueuethresh := x\<rparr>) = (store_all d n q)\<lparr>enqueuethresh := x\<rparr>"
  by (induction n) simp_all

lemma store_all_ok:
  assumes "cpn_inv env q" and "inenqueue q" and "k \<le> enqueuethresh q" and "\<And>c. c < numChannels (queue q) \<Longrightarrow> length (d c) = k"
  shows "n \<le> numChannels (queue q) \<Longrightarrow> cpn_inv env (store_all d n q) \<and> numChannels (queue (store_all d n q)) = numChannels (queue q) \<and>
    (\<forall>c<numChannels (queue q). cpn_contents (store_all d n q) c = cpn_contents q c) \<and>
    (\<forall>c<n. enq_window (store_all d n q) c k = d c)"
proof (induction n)
  case (Suc n)
  then have IH: "cpn_inv env (store_all d n q)" "numChannels (queue (store_all d n q)) = numChannels (queue q)"
    "\<forall>c<numChannels (queue q). cpn_contents (store_all d n q) c = cpn_contents q c"
    "\<forall>c<n. enq_window (store_all d n q) c k = d c" "n < numChannels (queue q)" by simp_all
  note st = client_store_ok [OF IH(1), of "d n" n]
  have len: "length (d n) = k" using assms(4) IH(5) by simp
  show ?case
    using st assms(2,3) len IH by (auto simp: less_Suc_eq)
qed (simp add: assms(1))

text \<open>Filling a block of every channel and enqueueing it, without a pointer the client holds.\<close>

lemma put_block:
  assumes "cpn_inv env t" and "\<not> inenqueue t" and "enqueuethresh t = 0" and "\<not> writeshutdown t"
    and "n \<le> Freespace_tqb (queue t)" and "n \<le> maxThreshold (queue t)"
    and "\<And>c. c < numChannels (queue t) \<Longrightarrow> length (d c) = n"
  obtains t' where
    "InternalEnqueue ((store_all d (numChannels (queue t)) (t\<lparr>inenqueue := True\<rparr>))\<lparr>inenqueue := False\<rparr>) n = Some (Inr t')"
    "cpn_inv env t'" "\<not> inenqueue t'" "enqueuethresh t' = 0" "Count_tqb (queue t') = Count_tqb (queue t) + n"
    "numChannels (queue t') = numChannels (queue t)"
    "\<forall>c<numChannels (queue t). cpn_contents t' c = cpn_contents t c @ d c"
    "readshutdown t' = readshutdown t" "writeshutdown t' = writeshutdown t"
proof -
  let ?N = "numChannels (queue t)"
  let ?t = "t\<lparr>inenqueue := True, enqueuethresh := n\<rparr>"
  have inv: "cpn_inv env ?t"
    using assms(1,2,5,6) cpn_invD(6) [OF assms(1)] by (cases "oldqueue t") (auto simp: cpn_inv_def)
  have st: "cpn_inv env (store_all d ?N ?t)" "\<forall>c<?N. cpn_contents (store_all d ?N ?t) c = cpn_contents t c"
      "\<forall>c<?N. enq_window (store_all d ?N ?t) c n = d c" "numChannels (queue (store_all d ?N ?t)) = ?N"
    using store_all_ok [OF inv, of n d ?N] assms(7) by (auto simp: cpn_contents_def)
  let ?s = "store_all d ?N (t\<lparr>inenqueue := True\<rparr>)"
  have "?s\<lparr>enqueuethresh := 0\<rparr> = ?s" using same_field(1) [of ?s] assms(3) by simp
  then have eq: "Enqueue_cpn (store_all d ?N ?t) n = InternalEnqueue (?s\<lparr>inenqueue := False\<rparr>) n"
    using assms(4) by (simp add: Enqueue_cpn_def Let_def)
  obtain u where u: "Enqueue_cpn (store_all d ?N ?t) n = Some (Inr u)" "cpn_inv env u" "\<not> inenqueue u"
      "Count_tqb (queue u) = Count_tqb (queue t) + n" "numChannels (queue u) = ?N"
      "\<forall>c<?N. cpn_contents u c = cpn_contents t c @ d c" "readshutdown u = readshutdown t" "writeshutdown u = writeshutdown t"
    using Enqueue_cpn_ok [OF st(1), of n] st assms(4) by auto
  have "enqueuethresh u = 0" using u(1) unfolding eq
    by (auto simp: InternalEnqueue_def Let_def assms(3) result_iff split: if_splits option.splits)
  with u show ?thesis using that eq by metis
qed

text \<open>Taking a block of every channel off the front, also when the reading side is shut down.\<close>

lemma cpn_inv_shutdown [simp]:
  "cpn_inv env (q\<lparr>readshutdown := b\<rparr>) = cpn_inv env q" "cpn_inv env (q\<lparr>writeshutdown := b\<rparr>) = cpn_inv env q"
  "cpn_inv env (ShutdownReader q) = cpn_inv env q" "cpn_inv env (ShutdownWriter q) = cpn_inv env q"
  by (cases "oldqueue q"; simp add: cpn_inv_def ShutdownReader_def ShutdownWriter_def)+

lemma take_block:
  assumes "cpn_inv env t" and "\<not> indequeue t" and "dequeuethresh t = 0" and "n \<le> Count_tqb (queue t)"
    and t'_def: "t' = InternalDequeue (t\<lparr>indequeue := False\<rparr>) n"
  shows "cpn_inv env t'" and "\<not> indequeue t'" and "dequeuethresh t' = 0" and "Count_tqb (queue t') + n = Count_tqb (queue t)"
    and "numChannels (queue t') = numChannels (queue t)"
    and "c < numChannels (queue t) \<Longrightarrow> cpn_contents t' c = drop n (cpn_contents t c)"
    and "readshutdown t' = readshutdown t" and "writeshutdown t' = writeshutdown t"
    and "inenqueue t' = inenqueue t" and "enqueuethresh t' = enqueuethresh t"
proof -
  let ?t = "t\<lparr>readshutdown := False\<rparr>"
  obtain u where u: "Dequeue_cpn ?t n = Inr u" "cpn_inv env u" "\<not> indequeue u" "Count_tqb (queue u) + n = Count_tqb (queue t)"
      "numChannels (queue u) = numChannels (queue t)"
      "\<forall>c<numChannels (queue t). cpn_contents u c = drop n (cpn_contents t c)"
      "inenqueue u = inenqueue t" "enqueuethresh u = enqueuethresh t"
    using Dequeue_cpn_ok [of env ?t n] assms(1,4) by (auto simp: cpn_contents_def)
  have old: "\<not> dequeueUseOld t" using cpn_invD(7) [OF assms(1)] assms(2) by blast
  have t': "t' = t\<lparr>queue := Dequeue_tqb (queue t) n\<rparr>"
    using assms(2) old by (simp add: t'_def InternalDequeue_def)
  have "u = t'\<lparr>readshutdown := False\<rparr>"
    using u(1) assms(2,3) old by (cases t) (simp add: Dequeue_cpn_def InternalDequeue_def t')
  then show "cpn_inv env t'" "Count_tqb (queue t') + n = Count_tqb (queue t)"
    "numChannels (queue t') = numChannels (queue t)"
    "c < numChannels (queue t) \<Longrightarrow> cpn_contents t' c = drop n (cpn_contents t c)"
    using u by (auto simp: cpn_contents_def)
  show "\<not> indequeue t'" "dequeuethresh t' = 0" "readshutdown t' = readshutdown t" "writeshutdown t' = writeshutdown t"
    "inenqueue t' = inenqueue t" "enqueuethresh t' = enqueuethresh t" using assms(2,3) by (simp_all add: t')
qed

lemma block_at_front:
  assumes "cpn_inv env t" and "\<not> indequeue t" and "n \<le> Count_tqb (queue t)" and "n \<le> maxThreshold (queue t)"
    and "c < numChannels (queue t)"
  obtains ptr where "InternalGetRawDequeuePtr t n c = Inr (Some ptr)"
    "load_tqb (deq_buffer t) ptr n = take n (cpn_contents t c)"
proof -
  note D = cpn_invD [OF assms(1)]
  have old: "\<not> dequeueUseOld t" using D(7) assms(2) by blast
  obtain ptr where p: "GetRawDequeuePtr_tqb (queue t) n c = Some ptr" using assms(3,4) by (simp add: GetRawDequeuePtr_tqb_def)
  have "load_tqb (queue t) ptr n = take n (contents_tqb (queue t) c)"
    using deq_window_eq [OF D(2) assms(5) D(3) assms(3,4)] p by simp
  then show ?thesis using that old p by (simp add: InternalGetRawDequeuePtr_def deq_buffer_def cpn_contents_def)
qed

section \<open>Packets in flight\<close>

lemma carried_simps [simp]:
  "carried ty [] = 0" "carried ty (p # ps) = (if pk_type p = ty then pk_count p else 0) + carried ty ps"
  "carried ty (ps @ qs) = carried ty ps + carried ty qs"
  by (simp_all add: carried_def)

lemma in_flight_simps [simp]:
  "in_flight c [] = []"
  "in_flight c (p # ps) = (if pk_type p = PACKET_ENQUEUE then chan_block p c else []) @ in_flight c ps"
  "in_flight c (ps @ qs) = in_flight c ps @ in_flight c qs"
  by (simp_all add: in_flight_def)

lemma ends_ok_send: "ends_ok ty False shut ps \<Longrightarrow> pk_type p \<noteq> ty \<Longrightarrow> ends_ok ty False shut (ps @ [p])"
  by (cases ps rule: rev_cases) (auto simp: ends_ok_def butlast_append split: if_splits)

lemma ends_ok_end: "ends_ok ty False shut ps \<Longrightarrow> pk_type p = ty \<Longrightarrow> ends_ok ty True shut (ps @ [p])"
  by (cases ps rule: rev_cases) (auto simp: ends_ok_def butlast_append split: if_splits)

lemma ends_ok_read: "ends_ok ty ended shut (p # ps) \<Longrightarrow> pk_type p \<noteq> ty \<Longrightarrow> ends_ok ty ended shut ps"
  by (auto simp: ends_ok_def split: if_splits)

lemma ends_ok_read_end: "ends_ok ty ended shut (p # ps) \<Longrightarrow> pk_type p = ty \<Longrightarrow> ends_ok ty ended True ps"
  by (auto simp: ends_ok_def split: if_splits)

lemma ends_ok_open: "ends_ok ty ended shut (p # ps) \<Longrightarrow> \<not> shut" "ends_ok ty False shut ps \<Longrightarrow> \<not> shut"
  by (auto simp: ends_ok_def split: if_splits)

section \<open>Sending\<close>

lemma stamped_fields [simp]:
  "pk_type (stamped q p) = pk_type p" "pk_count (stamped q p) = pk_count p" "pk_data (stamped q p) = pk_data p"
  "pk_dataLength (stamped q p) = pk_dataLength p" "chan_block (stamped q p) c = chan_block p c"
  "pkt_ok nc types (stamped q p) = pkt_ok nc types p"
  by (cases "rq_mode q"; simp add: stamped_def SetupPacket_def Let_def chan_block_def pkt_ok_def)+

lemma send_eq: "send q p = (TickClock q)\<lparr>outq := outq q @ [stamped q p]\<rparr>"
  by (simp add: send_def stamped_def SetupPacket_def Let_def TickClock_def)

lemma send_fields [simp]:
  "tq (send q p) = tq q" "rq_mode (send q p) = rq_mode q" "readerlength (send q p) = readerlength q"
  "bytecount (send q p) = bytecount q" "sentEnd (send q p) = sentEnd q" "rq_dead (send q p) = rq_dead q"
  "outq (send q p) = outq q @ [stamped q p]" "pendingGrow (send q p) = pendingGrow q"
  "sock_closed (send q p) = sock_closed q"
  by (simp_all add: send_eq TickClock_def)

lemma new_packet_fields [simp]:
  "pk_type (new_packet n ty) = ty" "pk_count (new_packet n ty) = 0" "pk_dataLength (new_packet n ty) = n"
  "pk_data (new_packet n ty) = []"
  by (simp_all add: new_packet_def)

lemma pair_invD:
  assumes "pair_inv env nc w r s"
  shows "rq_mode w = WRITE" "rq_mode r = READ" "cpn_inv env (tq w)" "cpn_inv env (tq r)"
    "numChannels (queue (tq w)) = nc" "numChannels (queue (tq r)) = nc" "readerlength w < 2 ^ 32" "readerlength r < 2 ^ 32"
    "\<not> indequeue (tq w)" "dequeuethresh (tq w) = 0" "\<not> inenqueue (tq r)" "enqueuethresh (tq r) = 0"
    "list_all (pkt_ok nc writer_types) (outq w)" "list_all (pkt_ok nc reader_types) (outq r)"
    "bytecount w = carried PACKET_ENQUEUE (outq w) + bytecount r + carried PACKET_DEQUEUE (outq r)"
    "Count_tqb (queue (tq r)) \<le> bytecount r" "bytecount w < 2 ^ 32"
    "ends_ok PACKET_ENDOFWRITE (sentEnd w) (writeshutdown (tq r)) (outq w)"
    "ends_ok PACKET_ENDOFREAD (sentEnd r) (readshutdown (tq w)) (outq r)"
    "rq_dead w \<Longrightarrow> sentEnd w \<or> terminated env" "rq_dead r \<Longrightarrow> sentEnd r \<or> terminated env"
    "c < nc \<Longrightarrow> transit w r c = s c"
  using assms by (auto simp: pair_inv_def end_ok_def)

lemma pair_invI:
  assumes "rq_mode w = WRITE" "rq_mode r = READ" "cpn_inv env (tq w)" "cpn_inv env (tq r)"
    "numChannels (queue (tq w)) = nc" "numChannels (queue (tq r)) = nc" "readerlength w < 2 ^ 32" "readerlength r < 2 ^ 32"
    "\<not> indequeue (tq w)" "dequeuethresh (tq w) = 0" "\<not> inenqueue (tq r)" "enqueuethresh (tq r) = 0"
    "list_all (pkt_ok nc writer_types) (outq w)" "list_all (pkt_ok nc reader_types) (outq r)"
    "bytecount w = carried PACKET_ENQUEUE (outq w) + bytecount r + carried PACKET_DEQUEUE (outq r)"
    "Count_tqb (queue (tq r)) \<le> bytecount r" "bytecount w < 2 ^ 32"
    "ends_ok PACKET_ENDOFWRITE (sentEnd w) (writeshutdown (tq r)) (outq w)"
    "ends_ok PACKET_ENDOFREAD (sentEnd r) (readshutdown (tq w)) (outq r)"
    "rq_dead w \<Longrightarrow> sentEnd w \<or> terminated env" "rq_dead r \<Longrightarrow> sentEnd r \<or> terminated env"
    "\<And>c. c < nc \<Longrightarrow> transit w r c = s c"
  shows "pair_inv env nc w r s"
  using assms by (auto simp: pair_inv_def end_ok_def)

text \<open>The invariant looks only at some of the fields.\<close>

lemma pair_inv_cong:
  assumes "pair_inv env nc w r s"
    and "tq w' = tq w" "rq_mode w' = rq_mode w" "readerlength w' = readerlength w" "bytecount w' = bytecount w"
      "sentEnd w' = sentEnd w" "rq_dead w' = rq_dead w" "outq w' = outq w"
    and "tq r' = tq r" "rq_mode r' = rq_mode r" "readerlength r' = readerlength r" "bytecount r' = bytecount r"
      "sentEnd r' = sentEnd r" "rq_dead r' = rq_dead r" "outq r' = outq r"
  shows "pair_inv env nc w' r' s"
  by (rule pair_invI) (use pair_invD [OF assms(1)] assms(2-) in \<open>auto simp: transit_def\<close>)

lemma send_writer:
  assumes "pair_inv env nc w r s" and "\<not> sentEnd w" and "pkt_ok nc writer_types p" and "pk_type p \<noteq> PACKET_ENQUEUE"
    and "pk_type p \<noteq> PACKET_ENDOFWRITE"
  shows "pair_inv env nc (send w p) r s"
  by (rule pair_invI)
    (use pair_invD [OF assms(1)] assms(2-) ends_ok_send [of PACKET_ENDOFWRITE "writeshutdown (tq r)" "outq w"]
      in \<open>auto simp: transit_def\<close>)

lemma send_reader:
  assumes "pair_inv env nc w r s" and "\<not> sentEnd r" and "pkt_ok nc reader_types p" and "pk_type p \<noteq> PACKET_DEQUEUE"
    and "pk_type p \<noteq> PACKET_ENDOFREAD"
  shows "pair_inv env nc w (send r p) s"
  by (rule pair_invI)
    (use pair_invD [OF assms(1)] assms(2-) ends_ok_send [of PACKET_ENDOFREAD "readshutdown (tq w)" "outq r"]
      in \<open>auto simp: transit_def\<close>)

text \<open>One end may change its buffers as long as the contents and what the other end relies on stay.\<close>

lemma pair_inv_w:
  assumes "pair_inv env nc w r s" and "cpn_inv env (tq w')" and "numChannels (queue (tq w')) = nc"
    and "\<And>c. c < nc \<Longrightarrow> cpn_contents (tq w') c = cpn_contents (tq w) c" and "\<not> indequeue (tq w')" and "dequeuethresh (tq w') = 0"
    and "readshutdown (tq w') = readshutdown (tq w)" and "rq_mode w' = rq_mode w" and "readerlength w' < 2 ^ 32"
    and "bytecount w' = bytecount w" and "sentEnd w' = sentEnd w" and "rq_dead w' = rq_dead w" and "outq w' = outq w"
  shows "pair_inv env nc w' r s"
  by (rule pair_invI) (use pair_invD [OF assms(1)] assms(2-) in \<open>auto simp: transit_def\<close>)

lemma pair_inv_r:
  assumes "pair_inv env nc w r s" and "cpn_inv env (tq r')" and "numChannels (queue (tq r')) = nc"
    and "\<And>c. c < nc \<Longrightarrow> cpn_contents (tq r') c = cpn_contents (tq r) c" and "\<not> inenqueue (tq r')" and "enqueuethresh (tq r') = 0"
    and "writeshutdown (tq r') = writeshutdown (tq r)" and "rq_mode r' = rq_mode r" and "readerlength r' < 2 ^ 32"
    and "Count_tqb (queue (tq r')) = Count_tqb (queue (tq r))"
    and "bytecount r' = bytecount r" and "sentEnd r' = sentEnd r" and "rq_dead r' = rq_dead r" and "outq r' = outq r"
  shows "pair_inv env nc w r' s"
  by (rule pair_invI) (use pair_invD [OF assms(1)] assms(2-) in \<open>auto simp: transit_def\<close>)

lemma QueueLength_rq_less: "QueueLength_rq scale l t a m < 2 ^ 32"
  by (cases m) (simp_all add: QueueLength_rq_def sub32_def u32_def)

lemma set_lengths_ok:
  assumes "cpn_inv env (tq q)" and "\<not> (inenqueue (tq q) \<and> indequeue (tq q))"
  obtains q' where "set_lengths env scale q l t = Some (Inr q')" "cpn_inv env (tq q')" "same_user (tq q) (tq q')"
    "inenqueue (tq q') = inenqueue (tq q)" "indequeue (tq q') = indequeue (tq q)" "readerlength q' < 2 ^ 32"
    "rq_mode q' = rq_mode q" "bytecount q' = bytecount q" "sentEnd q' = sentEnd q" "rq_dead q' = rq_dead q"
    "outq q' = outq q" "sock_closed q' = sock_closed q"
proof -
  let ?m = "max (u32 (maxThreshold (queue (tq q)))) (u32 t)"
  let ?q = "q\<lparr>readerlength := QueueLength_rq scale l ?m (rq_alpha q) READ, writerlength := QueueLength_rq scale l ?m (rq_alpha q) WRITE\<rparr>"
  let ?n = "if rq_mode q = WRITE then writerlength ?q else readerlength ?q"
  obtain t' where t': "UnlockedGrow env (tq q) ?n ?m = Some (Inr t')" "cpn_inv env t'" "same_user (tq q) t'"
      "inenqueue t' = inenqueue (tq q)" "indequeue t' = indequeue (tq q)"
    using grow_step [OF assms, of ?n ?m] by metis
  have "set_lengths env scale q l t = Some (Inr (?q\<lparr>tq := t'\<rparr>))"
    using t'(1) by (simp add: set_lengths_def Let_def)
  then show ?thesis using that [of "?q\<lparr>tq := t'\<rparr>"] t' QueueLength_rq_less by simp
qed

lemma set_lengths_w:
  assumes "pair_inv env nc w r s"
  obtains w' where "set_lengths env scale w l t = Some (Inr w')" "pair_inv env nc w' r s" "sock_closed w' = sock_closed w"
    "outq w' = outq w"
proof -
  note D = pair_invD [OF assms]
  obtain w' where w': "set_lengths env scale w l t = Some (Inr w')" "cpn_inv env (tq w')" "same_user (tq w) (tq w')"
      "indequeue (tq w') = indequeue (tq w)" "readerlength w' < 2 ^ 32" "rq_mode w' = rq_mode w" "bytecount w' = bytecount w"
      "sentEnd w' = sentEnd w" "rq_dead w' = rq_dead w" "outq w' = outq w" "sock_closed w' = sock_closed w"
    using set_lengths_ok [OF D(3), of scale l t] D(9) by metis
  have "pair_inv env nc w' r s"
    by (rule pair_inv_w [OF assms]) (use w' D in \<open>auto simp: same_user_def\<close>)
  with w' that show ?thesis by blast
qed

lemma set_lengths_r:
  assumes "pair_inv env nc w r s"
  obtains r' where "set_lengths env scale r l t = Some (Inr r')" "pair_inv env nc w r' s" "sock_closed r' = sock_closed r"
    "outq r' = outq r"
proof -
  note D = pair_invD [OF assms]
  obtain r' where r': "set_lengths env scale r l t = Some (Inr r')" "cpn_inv env (tq r')" "same_user (tq r) (tq r')"
      "inenqueue (tq r') = inenqueue (tq r)" "readerlength r' < 2 ^ 32" "rq_mode r' = rq_mode r" "bytecount r' = bytecount r"
      "sentEnd r' = sentEnd r" "rq_dead r' = rq_dead r" "outq r' = outq r" "sock_closed r' = sock_closed r"
    using set_lengths_ok [OF D(4), of scale l t] D(11) by metis
  have "pair_inv env nc w r' s"
    by (rule pair_inv_r [OF assms]) (use r' D in \<open>auto simp: same_user_def\<close>)
  with r' that show ?thesis by blast
qed

section \<open>Receiving\<close>

lemma UpdateClock_fields [simp]:
  "tq (UpdateClock p q) = tq q" "rq_mode (UpdateClock p q) = rq_mode q" "readerlength (UpdateClock p q) = readerlength q"
  "bytecount (UpdateClock p q) = bytecount q" "sentEnd (UpdateClock p q) = sentEnd q" "rq_dead (UpdateClock p q) = rq_dead q"
  "outq (UpdateClock p q) = outq q" "sock_closed (UpdateClock p q) = sock_closed q" "rq_useD4R (UpdateClock p q) = rq_useD4R q"
  by (simp_all add: UpdateClock_def)

lemma chan_block_length:
  assumes "length (pk_data p) = pk_count p * nc" and "c < nc"
  shows "length (chan_block p c) = pk_count p"
proof -
  have "c * pk_count p + pk_count p \<le> nc * pk_count p" using assms(2) by (metis Suc_leI add.commute mult_Suc mult_le_mono1)
  then show ?thesis using assms(1) by (simp add: chan_block_def algebra_simps)
qed

lemma drop_packet_w:
  assumes "pair_inv env nc w r s" and "outq w = p # ps" and "pk_type p \<noteq> PACKET_ENQUEUE" and "pk_type p \<noteq> PACKET_ENDOFWRITE"
  shows "pair_inv env nc (w\<lparr>outq := ps\<rparr>) r s"
  by (rule pair_invI)
    (use pair_invD [OF assms(1)] assms(2-) ends_ok_read [of PACKET_ENDOFWRITE "sentEnd w"] in \<open>auto simp: transit_def\<close>)

lemma drop_packet_r:
  assumes "pair_inv env nc w r s" and "outq r = p # ps" and "pk_type p \<noteq> PACKET_DEQUEUE" and "pk_type p \<noteq> PACKET_ENDOFREAD"
  shows "pair_inv env nc w (r\<lparr>outq := ps\<rparr>) s"
  by (rule pair_invI)
    (use pair_invD [OF assms(1)] assms(2-) ends_ok_read [of PACKET_ENDOFREAD "sentEnd r"] in \<open>auto simp: transit_def\<close>)

lemma EnqueuePacket_ok:
  assumes "pair_inv env nc w r s" and "outq w = p # ps" and "pk_type p = PACKET_ENQUEUE" and "length (pk_data p) < 2 ^ 32"
  shows "\<exists>r'. EnqueuePacket env p r = Some (Inr r') \<and> pair_inv env nc (w\<lparr>outq := ps\<rparr>) r' s \<and> sock_closed r' = sock_closed r \<and>
    outq r' = outq r"
proof -
  note D = pair_invD [OF assms(1)]
  let ?t = "tq r" and ?n = "pk_count p"
  have len: "length (pk_data p) = ?n * nc" "pk_dataLength p = length (pk_data p)"
    using D(13) assms(2-4) by (auto simp: pkt_ok_def u32_id)
  have open_r: "\<not> writeshutdown ?t" using D(18) assms(2) ends_ok_open(1) by metis
  have room: "bytecount r + ?n \<le> bytecount w" using D(15) assms(2,3) by simp
  have "\<exists>t1. make_room env ?t ?n = Some (Inr t1) \<and>
      cpn_inv env t1 \<and> same_user ?t t1 \<and> \<not> inenqueue t1 \<and> ?n \<le> Freespace_tqb (queue t1) \<and> ?n \<le> maxThreshold (queue t1)"
  proof (cases "?n > Freespace_tqb (queue ?t) \<or> ?n > maxThreshold (queue ?t)")
    case True
    have sum: "u32 (Count_tqb (queue ?t) + ?n) = Count_tqb (queue ?t) + ?n"
      using D(16,17) room by (simp add: u32_id)
    obtain t1 where t1: "UnlockedGrow env ?t (Count_tqb (queue ?t) + ?n) ?n = Some (Inr t1)" "cpn_inv env t1" "same_user ?t t1"
        "Count_tqb (queue ?t) + ?n \<le> queueLength (queue t1)" "?n \<le> maxThreshold (queue t1)" "inenqueue t1 = inenqueue ?t"
      using grow_step [OF D(4), of "Count_tqb (queue ?t) + ?n" ?n] D(11) by metis
    then have "?n \<le> Freespace_tqb (queue t1)" by (simp add: Freespace_tqb_def same_user_def)
    with t1 True sum D(11) show ?thesis by (simp add: make_room_def)
  qed (use D(4,11) in \<open>auto simp: make_room_def\<close>)
  then obtain t1 where t1: "make_room env ?t ?n = Some (Inr t1)"
      "cpn_inv env t1" "same_user ?t t1" "\<not> inenqueue t1" "?n \<le> Freespace_tqb (queue t1)" "?n \<le> maxThreshold (queue t1)"
    by blast
  have su: "numChannels (queue t1) = nc" "Count_tqb (queue t1) = Count_tqb (queue ?t)" "enqueuethresh t1 = 0"
      "\<not> writeshutdown t1" "readshutdown t1 = readshutdown ?t" "\<forall>c<nc. cpn_contents t1 c = cpn_contents ?t c"
    using t1(3) D(6,12) open_r by (auto simp: same_user_def)
  have ptrs: "list_all (\<lambda>i. case InternalGetRawEnqueuePtr t1 ?n i of Inr (Some ptr) \<Rightarrow> True | _ \<Rightarrow> False) [0..<nc]"
    using write_ptr [OF t1(2,4)] t1(5,6) by (simp add: list_all_iff GetRawEnqueuePtr_tqb_def)
  obtain t3 where t3: "InternalEnqueue ((store_all (chan_block p) nc (t1\<lparr>inenqueue := True\<rparr>))\<lparr>inenqueue := False\<rparr>) ?n = Some (Inr t3)"
      "cpn_inv env t3" "\<not> inenqueue t3" "enqueuethresh t3 = 0" "Count_tqb (queue t3) = Count_tqb (queue ?t) + ?n"
      "numChannels (queue t3) = nc" "\<forall>c<nc. cpn_contents t3 c = cpn_contents ?t c @ chan_block p c"
      "writeshutdown t3 = writeshutdown t1"
    using put_block [OF t1(2,4) su(3,4) t1(5,6), of "chan_block p"] chan_block_length [OF len(1)] su by metis
  let ?r = "(UpdateClock p r)\<lparr>tq := t3\<lparr>writerequest := 0\<rparr>, bytecount := u32 (bytecount r + ?n)\<rparr>"
  have res: "EnqueuePacket env p r = Some (Inr ?r)"
    using t1(1) ptrs t3(1) len(2) D(2,6) open_r
    by (simp add: EnqueuePacket_def Let_def store_all_def [symmetric])
  have bc: "u32 (bytecount r + ?n) = bytecount r + ?n" using room D(17) by (simp add: u32_id)
  have "pair_inv env nc (w\<lparr>outq := ps\<rparr>) ?r s"
  proof (rule pair_invI)
    show "transit (w\<lparr>outq := ps\<rparr>) ?r c = s c" if "c < nc" for c
      using D(22) [OF that] t3(7) that assms(2,3) by (simp add: transit_def cpn_contents_def)
  qed (use D t3 bc open_r su(4) assms(2,3) ends_ok_read [of PACKET_ENDOFWRITE "sentEnd w"] in auto)
  with res show ?thesis by auto
qed

lemma Signal_rq_fields [simp]:
  "tq (Signal_rq q) = tq q" "rq_mode (Signal_rq q) = rq_mode q" "readerlength (Signal_rq q) = readerlength q"
  "bytecount (Signal_rq q) = bytecount q" "sentEnd (Signal_rq q) = sentEnd q" "rq_dead (Signal_rq q) = rq_dead q"
  "outq (Signal_rq q) = outq q" "sock_closed (Signal_rq q) = sock_closed q"
  by (simp_all add: Signal_rq_def)

lemma reader_handles:
  assumes "pair_inv env nc w r s" and "outq w = p # ps" and "length (pk_data p) < 2 ^ 32"
  shows "\<exists>r'. handle env scale p r = Some (Inr r') \<and> pair_inv env nc (w\<lparr>outq := ps\<rparr>) r' s \<and> sock_closed r' = sock_closed r \<and>
    outq r' = outq r"
proof -
  note D = pair_invD [OF assms(1)]
  have p: "pkt_ok nc writer_types p" using D(13) assms(2) by simp
  have open_r: "\<not> writeshutdown (tq r)" using D(18) assms(2) ends_ok_open(1) by metis
  from p consider "pk_type p = PACKET_ENQUEUE" | "pk_type p = PACKET_WRITEBLOCK" | "pk_type p = PACKET_ENDOFWRITE"
    | "pk_type p = PACKET_GROW" | "pk_type p = PACKET_D4RTAG" by (auto simp: pkt_ok_def writer_types_def)
  then show ?thesis
  proof cases
    case 1
    with EnqueuePacket_ok [OF assms(1,2) 1 assms(3)] show ?thesis by (simp add: handle_def)
  next
    case 2
    note inv = drop_packet_w [OF assms(1,2)]
    have "\<exists>r'. WriteBlockPacket p r = Inr r' \<and> tq r' = (tq r)\<lparr>writerequest := pk_requested p\<rparr> \<and> rq_mode r' = rq_mode r \<and>
        readerlength r' = readerlength r \<and> bytecount r' = bytecount r \<and> sentEnd r' = sentEnd r \<and> rq_dead r' = rq_dead r \<and>
        outq r' = outq r \<and> sock_closed r' = sock_closed r"
      using D(2) open_r by (auto simp: WriteBlockPacket_def Let_def)
    then obtain r' where r': "WriteBlockPacket p r = Inr r'" "tq r' = (tq r)\<lparr>writerequest := pk_requested p\<rparr>" "rq_mode r' = rq_mode r"
        "readerlength r' = readerlength r" "bytecount r' = bytecount r" "sentEnd r' = sentEnd r" "rq_dead r' = rq_dead r"
        "outq r' = outq r" "sock_closed r' = sock_closed r" by blast
    have "pair_inv env nc (w\<lparr>outq := ps\<rparr>) r' s"
      by (rule pair_inv_r [OF inv]) (use 2 r' D in \<open>auto simp: cpn_contents_def\<close>)
    with r' 2 show ?thesis by (simp add: handle_def)
  next
    case 3
    let ?r = "Signal_rq ((UpdateClock p r)\<lparr>tq := ShutdownWriter (tq r)\<rparr>)"
    have "pair_inv env nc (w\<lparr>outq := ps\<rparr>) ?r s"
      by (rule pair_invI)
        (use D 3 assms(2) ends_ok_read_end [of PACKET_ENDOFWRITE "sentEnd w"] in
          \<open>auto simp: transit_def cpn_contents_def ShutdownWriter_def\<close>)
    with 3 D(2) open_r show ?thesis by (simp add: handle_def EndOfWritePacket_def)
  next
    case 4
    have "pair_inv env nc (w\<lparr>outq := ps\<rparr>) (UpdateClock p r) s"
      by (rule pair_inv_cong [OF drop_packet_w [OF assms(1,2)]]) (use 4 in simp_all)
    from set_lengths_r [OF this, of scale "pk_queueSize p" "pk_maxThresh p"] 4 show ?thesis
      by (auto simp: handle_def GrowPacket_def)
  next
    case 5
    let ?r = "Signal_rq ((UpdateClock p r)\<lparr>tagUpdated := True, mocktag := pk_tag p, tagchanged := True\<rparr>)"
    have "pair_inv env nc (w\<lparr>outq := ps\<rparr>) ?r s"
      by (rule pair_inv_cong [OF drop_packet_w [OF assms(1,2)]]) (use 5 in simp_all)
    moreover have "handle env scale p r = Some (Inr ?r)" using p 5 by (simp add: handle_def D4RTagPacket_def pkt_ok_def)
    ultimately show ?thesis by simp
  qed
qed

lemma writer_handles:
  assumes "pair_inv env nc w r s" and "outq r = p # ps"
  shows "\<exists>w'. handle env scale p w = Some (Inr w') \<and> pair_inv env nc w' (r\<lparr>outq := ps\<rparr>) s \<and> sock_closed w' = sock_closed w \<and>
    outq w' = outq w"
proof -
  note D = pair_invD [OF assms(1)]
  have p: "pkt_ok nc reader_types p" using D(14) assms(2) by simp
  have open_w: "\<not> readshutdown (tq w)" using D(19) assms(2) ends_ok_open(1) by metis
  from p consider "pk_type p = PACKET_DEQUEUE" | "pk_type p = PACKET_READBLOCK" | "pk_type p = PACKET_ENDOFREAD"
    | "pk_type p = PACKET_GROW" | "pk_type p = PACKET_D4RTAG" by (auto simp: pkt_ok_def reader_types_def)
  then show ?thesis
  proof cases
    case 1
    let ?w = "(UpdateClock p w)\<lparr>tq := (tq w)\<lparr>readrequest := 0\<rparr>, bytecount := sub32 (bytecount w) (pk_count p)\<rparr>"
    have "pk_count p \<le> bytecount w" using D(15) assms(2) 1 by simp
    then have bc: "sub32 (bytecount w) (pk_count p) = bytecount w - pk_count p" using D(17) by (rule sub32_le)
    have "pair_inv env nc ?w (r\<lparr>outq := ps\<rparr>) s"
      by (rule pair_invI)
        (use D 1 assms(2) bc ends_ok_read [of PACKET_ENDOFREAD "sentEnd r"] in
          \<open>auto simp: transit_def cpn_contents_def\<close>)
    with 1 D(1) open_w show ?thesis by (simp add: handle_def DequeuePacket_def Let_def)
  next
    case 2
    note inv = drop_packet_r [OF assms(1,2)]
    have "\<exists>w'. ReadBlockPacket p w = Inr w' \<and> tq w' = (tq w)\<lparr>readrequest := pk_requested p\<rparr> \<and> rq_mode w' = rq_mode w \<and>
        readerlength w' = readerlength w \<and> bytecount w' = bytecount w \<and> sentEnd w' = sentEnd w \<and> rq_dead w' = rq_dead w \<and>
        outq w' = outq w \<and> sock_closed w' = sock_closed w"
      using D(1) open_w by (auto simp: ReadBlockPacket_def Let_def)
    then obtain w' where w': "ReadBlockPacket p w = Inr w'" "tq w' = (tq w)\<lparr>readrequest := pk_requested p\<rparr>" "rq_mode w' = rq_mode w"
        "readerlength w' = readerlength w" "bytecount w' = bytecount w" "sentEnd w' = sentEnd w" "rq_dead w' = rq_dead w"
        "outq w' = outq w" "sock_closed w' = sock_closed w" by blast
    have "pair_inv env nc w' (r\<lparr>outq := ps\<rparr>) s"
      by (rule pair_inv_w [OF inv]) (use 2 w' D in \<open>auto simp: cpn_contents_def\<close>)
    with w' 2 show ?thesis by (simp add: handle_def)
  next
    case 3
    let ?w = "Signal_rq ((UpdateClock p w)\<lparr>tq := ShutdownReader (tq w)\<rparr>)"
    have "pair_inv env nc ?w (r\<lparr>outq := ps\<rparr>) s"
      by (rule pair_invI)
        (use D 3 assms(2) ends_ok_read_end [of PACKET_ENDOFREAD "sentEnd r"] in
          \<open>auto simp: transit_def cpn_contents_def ShutdownReader_def\<close>)
    with 3 D(1) open_w show ?thesis by (simp add: handle_def EndOfReadPacket_def)
  next
    case 4
    have "pair_inv env nc (UpdateClock p w) (r\<lparr>outq := ps\<rparr>) s"
      by (rule pair_inv_cong [OF drop_packet_r [OF assms(1,2)]]) (use 4 in simp_all)
    from set_lengths_w [OF this, of scale "pk_queueSize p" "pk_maxThresh p"] 4 show ?thesis
      by (auto simp: handle_def GrowPacket_def)
  next
    case 5
    let ?w = "Signal_rq ((UpdateClock p w)\<lparr>tagUpdated := True, mocktag := pk_tag p, tagchanged := True\<rparr>)"
    have "pair_inv env nc ?w (r\<lparr>outq := ps\<rparr>) s"
      by (rule pair_inv_cong [OF drop_packet_r [OF assms(1,2)]]) (use 5 in simp_all)
    moreover have "handle env scale p w = Some (Inr ?w)" using p 5 by (simp add: handle_def D4RTagPacket_def pkt_ok_def)
    ultimately show ?thesis by simp
  qed
qed

lemma reader_reads:
  "pair_inv env nc w r s \<Longrightarrow> outq w = inp @ rest \<Longrightarrow> wire_ok inp \<Longrightarrow>
   \<exists>r'. Read_rq env scale inp r = Some (Inr r') \<and> pair_inv env nc (w\<lparr>outq := rest\<rparr>) r' s \<and> sock_closed r' = sock_closed r \<and>
     outq r' = outq r"
proof (induction inp arbitrary: w r)
  case Nil
  with pair_inv_cong [OF Nil(1), of "w\<lparr>outq := rest\<rparr>" r] show ?case by simp
next
  case (Cons p inp)
  obtain r1 where r1: "handle env scale p r = Some (Inr r1)" "pair_inv env nc (w\<lparr>outq := inp @ rest\<rparr>) r1 s"
      "sock_closed r1 = sock_closed r" "outq r1 = outq r"
    using reader_handles [OF Cons.prems(1), of p "inp @ rest" scale] Cons.prems(2,3) by (auto simp: wire_ok_def)
  with Cons.IH [OF r1(2)] Cons.prems(3) show ?case by (auto simp: wire_ok_def)
qed

lemma writer_reads:
  "pair_inv env nc w r s \<Longrightarrow> outq r = inp @ rest \<Longrightarrow>
   \<exists>w'. Read_rq env scale inp w = Some (Inr w') \<and> pair_inv env nc w' (r\<lparr>outq := rest\<rparr>) s \<and> sock_closed w' = sock_closed w \<and>
     outq w' = outq w"
proof (induction inp arbitrary: w r)
  case Nil
  with pair_inv_cong [OF Nil(1), of w "r\<lparr>outq := rest\<rparr>"] show ?case by simp
next
  case (Cons p inp)
  obtain w1 where w1: "handle env scale p w = Some (Inr w1)" "pair_inv env nc w1 (r\<lparr>outq := inp @ rest\<rparr>) s"
      "sock_closed w1 = sock_closed w" "outq w1 = outq w"
    using writer_handles [OF Cons.prems(1), of p "inp @ rest" scale] Cons.prems(2) by auto
  with Cons.IH [OF w1(2)] show ?case by auto
qed

section \<open>The action thread keeps the invariant\<close>

lemma length_concat_blocks: "(\<And>c. c < N \<Longrightarrow> length (b c) = n) \<Longrightarrow> length (concat (map b [0..<N])) = N * n"
  by (induction N) auto

lemma concat_blocks:
  "(\<And>c. c < N \<Longrightarrow> length (b c) = n) \<Longrightarrow> c < N \<Longrightarrow> take n (drop (c * n) (concat (map b [0..<N]))) = b c"
proof (induction N)
  case (Suc N)
  have len: "length (concat (map b [0..<N])) = N * n" using Suc.prems(1) by (intro length_concat_blocks) auto
  show ?case
  proof (cases "c = N")
    case True
    then show ?thesis using len Suc.prems(1) [of N] by simp
  next
    case False
    then have c: "c < N" using Suc.prems(2) by simp
    then have "c * n + n \<le> N * n" by (metis Suc_leI add.commute mult_Suc mult_le_mono1)
    then show ?thesis using Suc.IH [OF _ c] Suc.prems(1) len by (simp add: add.commute)
  qed
qed simp

lemma SendEnqueue_count_le:
  assumes "bytecount q < readerlength q" and "readerlength q < 2 ^ 32"
  shows "SendEnqueue_count q \<le> Count_tqb (queue (tq q))" and "SendEnqueue_count q \<le> maxThreshold (queue (tq q))"
    and "bytecount q + SendEnqueue_count q \<le> max (readerlength q) (u32 (maxThreshold (queue (tq q))))"
proof -
  let ?m = "max (readerlength q) (u32 (maxThreshold (queue (tq q))))"
  have m: "?m < 2 ^ 32" "bytecount q \<le> ?m" using assms by (simp_all add: u32_def)
  have ex: "sub32 ?m (bytecount q) = ?m - bytecount q" using m(2,1) by (rule sub32_le)
  have le: "u32 n \<le> n" for n by (simp add: u32_def)
  show "SendEnqueue_count q \<le> Count_tqb (queue (tq q))" "SendEnqueue_count q \<le> maxThreshold (queue (tq q))"
    using le [of "Count_tqb (queue (tq q))"] le [of "maxThreshold (queue (tq q))"]
    by (auto simp: SendEnqueue_count_def Let_def)
  show "bytecount q + SendEnqueue_count q \<le> ?m"
    using m(2) ex by (auto simp: SendEnqueue_count_def Let_def)
qed

lemma SendEnqueuePacket_ok:
  assumes "pair_inv env nc w r s" and "\<not> sentEnd w" and "bytecount w < readerlength w"
  shows "\<exists>w'. SendEnqueuePacket w = Inr w' \<and> pair_inv env nc w' r s \<and> \<not> sentEnd w' \<and> sock_closed w' = sock_closed w \<and>
    rq_dead w' = rq_dead w \<and> readerlength w' = readerlength w \<and> queueLength (queue (tq w')) = queueLength (queue (tq w)) \<and>
    bytecount w' = bytecount w + SendEnqueue_count w \<and>
    Count_tqb (queue (tq w')) + SendEnqueue_count w = Count_tqb (queue (tq w)) \<and>
    (\<exists>ps. outq w' = outq w @ ps)"
proof (cases "SendEnqueue_count w = 0")
  case True
  then show ?thesis using assms by (simp add: SendEnqueuePacket_def Let_def)
next
  case False
  note D = pair_invD [OF assms(1)]
  let ?t = "tq w" and ?n = "SendEnqueue_count w"
  note n = SendEnqueue_count_le [OF assms(3) D(7)]
  have "bytecount w + ?n < 2 ^ 32" using n(3) D(7) u32_less [of "maxThreshold (queue ?t)"] by linarith
  then have bc: "u32 (bytecount w + ?n) = bytecount w + ?n" by (rule u32_id)
  have ptr: "\<exists>ptr. InternalGetRawDequeuePtr ?t ?n c = Inr (Some ptr) \<and> load_tqb (deq_buffer ?t) ptr ?n = take ?n (cpn_contents ?t c)"
    if "c < nc" for c
    using block_at_front [OF D(3,9) n(1,2), of c] that D(5) by metis
  have ptrs: "list_all (\<lambda>i. case InternalGetRawDequeuePtr ?t ?n i of Inr (Some ptr) \<Rightarrow> True | _ \<Rightarrow> False) [0..<nc]"
    using ptr by (fastforce simp: list_all_iff)
  define block where "block = (\<lambda>i. case InternalGetRawDequeuePtr ?t ?n i of
      Inr (Some ptr) \<Rightarrow> load_tqb (deq_buffer ?t) ptr ?n | _ \<Rightarrow> [])"
  have block: "block c = take ?n (cpn_contents ?t c)" if "c < nc" for c using ptr [OF that] by (auto simp: block_def)
  have inv_t: "tqb_inv (queue ?t)" "elementSize (queue ?t) = 1" using cpn_invD(2,3) [OF D(3)] by auto
  have blen: "length (block c) = ?n" if "c < nc" for c
    using block [OF that] n(1) inv_t(2) by (simp add: cpn_contents_def contents_tqb_def ring_view_def)
  define p where "p = (new_packet (u32 (?n * nc)) PACKET_ENQUEUE)\<lparr>pk_count := ?n, pk_data := concat (map block [0..<nc])\<rparr>"
  let ?t' = "InternalDequeue (?t\<lparr>indequeue := False\<rparr>) ?n"
  let ?w = "(send w p)\<lparr>tq := ?t', bytecount := bytecount w + ?n\<rparr>"
  have res: "SendEnqueuePacket w = Inr ?w"
    using False ptrs D(5) bc by (simp add: SendEnqueuePacket_def Let_def p_def block_def [symmetric])
  note tk = take_block [OF D(3,9,10) n(1) refl]
  have pk: "pkt_ok nc writer_types p"
    using length_concat_blocks [of nc block ?n] blen
    by (simp add: pkt_ok_def p_def writer_types_def new_packet_def mult.commute)
  have cb: "chan_block p c = block c" if "c < nc" for c
    using concat_blocks [of nc block ?n c] blen that by (simp add: chan_block_def p_def)
  have type: "pk_type p = PACKET_ENQUEUE" "pk_count p = ?n" by (simp_all add: p_def)
  have "pair_inv env nc ?w r s"
  proof (rule pair_invI)
    show "transit ?w r c = s c" if "c < nc" for c
      using D(22) [OF that] tk(6) [of c] block [OF that] cb [OF that] that D(5) type
      by (simp add: transit_def cpn_contents_def)
    show "ends_ok PACKET_ENDOFWRITE (sentEnd ?w) (writeshutdown (tq r)) (outq ?w)"
      using D(18) assms(2) ends_ok_send [of PACKET_ENDOFWRITE "writeshutdown (tq r)" "outq w" "stamped w p"] type by simp
  qed (use D tk pk type \<open>bytecount w + ?n < 2 ^ 32\<close> in auto)
  moreover have "queueLength (queue ?t') = queueLength (queue ?t)"
    using cpn_invD(7) [OF D(3)] D(9) by (auto simp: InternalDequeue_def Dequeue_tqb_def Let_def)
  ultimately show ?thesis using res assms(2) tk(4) by simp
qed

lemma send_loop_ok:
  "send_loop w = Some res \<Longrightarrow> pair_inv env nc w r s \<Longrightarrow> \<not> sentEnd w \<Longrightarrow>
   \<exists>w' ps. res = Inr w' \<and> pair_inv env nc w' r s \<and> \<not> sentEnd w' \<and> sock_closed w' = sock_closed w \<and> outq w' = outq w @ ps"
proof (induction arbitrary: rule: send_loop.raw_induct [rotated 1, consumes 1])
  case (1 loop q y)
  show ?case
  proof (cases "\<not> Empty_tqb (queue (tq q)) \<and> bytecount q < readerlength q \<and> \<not> rq_dead q")
    case True
    then obtain w1 where w1: "SendEnqueuePacket q = Inr w1" "pair_inv env nc w1 r s" "\<not> sentEnd w1" "sock_closed w1 = sock_closed q"
        "\<exists>ps. outq w1 = outq q @ ps"
      using SendEnqueuePacket_ok [OF 1(3,4)] by metis
    with True 1(2) have "loop w1 = Some y" by simp
    from 1(1) [OF this w1(2,3)] w1(4,5) show ?thesis by auto
  next
    case False
    with 1(2) have "y = Inr q" by auto
    with 1(3,4) show ?thesis by simp
  qed
qed

lemma send_loop_ends:
  "pair_inv env nc w r s \<Longrightarrow> \<not> sentEnd w \<Longrightarrow> queueLength (queue (tq w)) < 2 ^ 32 \<Longrightarrow>
   \<exists>w'. send_loop w = Some (Inr w') \<and> (Empty_tqb (queue (tq w')) \<or> readerlength w' \<le> bytecount w' \<or> rq_dead w')"
proof (induction "Count_tqb (queue (tq w))" arbitrary: w rule: less_induct)
  case less
  show ?case
  proof (cases "\<not> Empty_tqb (queue (tq w)) \<and> bytecount w < readerlength w \<and> \<not> rq_dead w")
    case True
    obtain w1 where w1: "SendEnqueuePacket w = Inr w1" "pair_inv env nc w1 r s" "\<not> sentEnd w1"
        "queueLength (queue (tq w1)) = queueLength (queue (tq w))"
        "Count_tqb (queue (tq w1)) + SendEnqueue_count w = Count_tqb (queue (tq w))"
      using SendEnqueuePacket_ok [OF less.prems(1,2)] True by metis
    note D = pair_invD [OF less.prems(1)]
    have wf: "tqb_wf (queue (tq w))" using cpn_invD(2) [OF D(3)] by (simp add: tqb_inv_def)
    have small: "Count_tqb (queue (tq w)) < 2 ^ 32" "maxThreshold (queue (tq w)) < 2 ^ 32" "1 \<le> maxThreshold (queue (tq w))"
      using tqb_wfD [OF wf] Count_le [OF wf] less.prems(3) by linarith+
    have pos: "0 < Count_tqb (queue (tq w))" using True by (simp add: Empty_tqb_def)
    have lt: "bytecount w < max (readerlength w) (maxThreshold (queue (tq w)))" using True by (simp add: less_max_iff_disj)
    have m32: "max (readerlength w) (maxThreshold (queue (tq w))) < 2 ^ 32" using D(7) small(2) by simp
    have "sub32 (max (readerlength w) (maxThreshold (queue (tq w)))) (bytecount w)
        = max (readerlength w) (maxThreshold (queue (tq w))) - bytecount w"
      using lt m32 by (intro sub32_le) simp_all
    then have "0 < SendEnqueue_count w"
      using pos small lt by (auto simp: SendEnqueue_count_def Let_def u32_id)
    then have "Count_tqb (queue (tq w1)) < Count_tqb (queue (tq w))" using w1(5) by simp
    from less.hyps [OF this w1(2,3)] less.prems(3) w1(4) True w1(1) show ?thesis
      by (subst send_loop.simps) simp
  next
    case False
    then show ?thesis by (subst send_loop.simps) auto
  qed
qed

lemmas pkt_simps = pkt_ok_def writer_types_def reader_types_def

lemma check_grow_w: "pair_inv env nc w r s \<Longrightarrow> pair_inv env nc (check_grow w) r s"
  using send_writer [of env nc w r s] pair_inv_cong [of env nc "SendGrowPacket w" r s "(SendGrowPacket w)\<lparr>pendingGrow := False\<rparr>" r]
  by (auto simp: check_grow_def SendGrowPacket_def pkt_simps)

lemma check_grow_r: "pair_inv env nc w r s \<Longrightarrow> pair_inv env nc w (check_grow r) s"
  using send_reader [of env nc w r s] pair_inv_cong [of env nc w "SendGrowPacket r" s w "(SendGrowPacket r)\<lparr>pendingGrow := False\<rparr>"]
  by (auto simp: check_grow_def SendGrowPacket_def pkt_simps)

lemma check_block_w:
  assumes "pair_inv env nc w r s" and "\<not> sentEnd w"
  shows "pair_inv env nc (check_block w) r s"
proof -
  let ?q = "if writerequest (tq w) > Freespace_tqb (queue (tq w)) then SendWriteBlockPacket w else w"
  have "pair_inv env nc ?q r s"
    using send_writer [OF assms] assms(1) by (simp add: SendWriteBlockPacket_def pkt_simps)
  from pair_inv_cong [OF this, of "?q\<lparr>pendingBlock := False\<rparr>" r] show ?thesis
    using pair_invD(1) [OF assms(1)] assms(1) by (simp add: check_block_def)
qed

lemma check_block_r:
  assumes "pair_inv env nc w r s" and "\<not> sentEnd r"
  shows "pair_inv env nc w (check_block r) s"
proof -
  let ?q = "if readrequest (tq r) > Count_tqb (queue (tq r)) then SendReadBlockPacket r else r"
  have "pair_inv env nc w ?q s"
    using send_reader [OF assms] assms(1) by (simp add: SendReadBlockPacket_def pkt_simps)
  from pair_inv_cong [OF this, of w "?q\<lparr>pendingBlock := False\<rparr>"] show ?thesis
    using pair_invD(2) [OF assms(1)] assms(1) by (simp add: check_block_def)
qed

lemma check_tag_w:
  assumes "pair_inv env nc w r s" and "\<not> sentEnd w"
  shows "pair_inv env nc (check_tag nd w) r s"
proof -
  have "pair_inv env nc ((SendD4RTagPacket t w)\<lparr>pendingD4RTag := False\<rparr>) r s" for t
    by (rule pair_inv_cong [OF send_writer [OF assms, of "(new_packet 32 PACKET_D4RTAG)\<lparr>pk_tag := t\<rparr>"]])
      (simp_all add: SendD4RTagPacket_def pkt_simps)
  with assms(1) show ?thesis by (simp add: check_tag_def Let_def split: option.split)
qed

lemma check_tag_r:
  assumes "pair_inv env nc w r s" and "\<not> sentEnd r"
  shows "pair_inv env nc w (check_tag nd r) s"
proof -
  have "pair_inv env nc w ((SendD4RTagPacket t r)\<lparr>pendingD4RTag := False\<rparr>) s" for t
    by (rule pair_inv_cong [OF send_reader [OF assms, of "(new_packet 32 PACKET_D4RTAG)\<lparr>pk_tag := t\<rparr>"]])
      (simp_all add: SendD4RTagPacket_def pkt_simps)
  with assms(1) show ?thesis by (simp add: check_tag_def Let_def split: option.split)
qed

lemma check_fields [simp]:
  "tq (check_grow q) = tq q" "rq_mode (check_grow q) = rq_mode q" "sentEnd (check_grow q) = sentEnd q"
  "tq (check_block q) = tq q" "rq_mode (check_block q) = rq_mode q" "sentEnd (check_block q) = sentEnd q"
  "tq (check_tag nd q) = tq q" "rq_mode (check_tag nd q) = rq_mode q" "sentEnd (check_tag nd q) = sentEnd q"
  by (simp_all add: check_grow_def check_block_def check_tag_def Let_def SendGrowPacket_def SendWriteBlockPacket_def
      SendReadBlockPacket_def SendD4RTagPacket_def split: option.split Mode_t.split)

lemma send_end_w:
  assumes "pair_inv env nc w r s" and "\<not> sentEnd w"
  shows "\<exists>w'. send_end w = Inr w' \<and> pair_inv env nc w' r s \<and> sentEnd w' \<and> tq w' = tq w"
proof -
  note D = pair_invD [OF assms(1)]
  let ?w = "(send w (new_packet 0 PACKET_ENDOFWRITE))\<lparr>sentEnd := True\<rparr>"
  have "pair_inv env nc ?w r s"
    by (rule pair_invI)
      (use D assms(2) ends_ok_end [of PACKET_ENDOFWRITE "writeshutdown (tq r)" "outq w"] in \<open>auto simp: transit_def pkt_simps\<close>)
  with D(1) assms(2) show ?thesis by (simp add: send_end_def SendEndOfWritePacket_def)
qed

lemma send_end_r:
  assumes "pair_inv env nc w r s" and "\<not> sentEnd r"
  shows "\<exists>r'. send_end r = Inr r' \<and> pair_inv env nc w r' s \<and> sentEnd r' \<and> tq r' = tq r"
proof -
  note D = pair_invD [OF assms(1)]
  let ?r = "(send r (new_packet 0 PACKET_ENDOFREAD))\<lparr>sentEnd := True\<rparr>"
  have "pair_inv env nc w ?r s"
    by (rule pair_invI)
      (use D assms(2) ends_ok_end [of PACKET_ENDOFREAD "readshutdown (tq w)" "outq r"] in \<open>auto simp: transit_def pkt_simps\<close>)
  with D(2) assms(2) show ?thesis by (simp add: send_end_def SendEndOfReadPacket_def)
qed

lemma close_end_w:
  assumes "pair_inv env nc w r s"
  shows "\<exists>w'. close_end w = Inr w' \<and> pair_inv env nc w' r s"
proof -
  obtain w' where w': "(if sentEnd w then Inr w else send_end w) = Inr w'" "pair_inv env nc w' r s" "sentEnd w'"
    using send_end_w [OF assms] assms by (cases "sentEnd w") auto
  have "pair_inv env nc (w'\<lparr>sock_closed := True, rq_dead := True\<rparr>) r s"
    by (rule pair_invI) (use pair_invD [OF w'(2)] w'(3) in \<open>auto simp: transit_def\<close>)
  with w'(1) show ?thesis by (simp add: close_end_def)
qed

lemma close_end_r:
  assumes "pair_inv env nc w r s"
  shows "\<exists>r'. close_end r = Inr r' \<and> pair_inv env nc w r' s"
proof -
  obtain r' where r': "(if sentEnd r then Inr r else send_end r) = Inr r'" "pair_inv env nc w r' s" "sentEnd r'"
    using send_end_r [OF assms] assms by (cases "sentEnd r") auto
  have "pair_inv env nc w (r'\<lparr>sock_closed := True, rq_dead := True\<rparr>) s"
    by (rule pair_invI) (use pair_invD [OF r'(2)] r'(3) in \<open>auto simp: transit_def\<close>)
  with r'(1) show ?thesis by (simp add: close_end_def)
qed

lemma check_write_end_ok:
  assumes "pair_inv env nc w r s"
  shows "\<exists>w'. check_write_end stop w = Inr w' \<and> pair_inv env nc w' r s"
proof -
  obtain w1 where w1: "(if writeshutdown (tq w) \<and> \<not> sentEnd w \<and> (Empty_tqb (queue (tq w)) \<or> stop) then send_end w else Inr w) = Inr w1"
      "pair_inv env nc w1 r s"
    using send_end_w [OF assms] assms by (metis (full_types))
  with close_end_w [OF w1(2)] show ?thesis by (simp add: check_write_end_def)
qed

lemma check_write_ok:
  assumes "pair_inv env nc w r s" and "check_write stop nd w = Some res"
  shows "\<exists>w'. res = Inr w' \<and> pair_inv env nc w' r s"
proof (cases "sentEnd w")
  case True
  with assms(2) check_write_end_ok [OF assms(1), of stop] show ?thesis by (auto simp: check_write_def)
next
  case False
  let ?w = "if stop then Signal_rq (w\<lparr>tq := ShutdownWriter (tq w)\<rparr>) else w"
  have inv: "pair_inv env nc ?w r s"
    by (rule pair_inv_w [OF assms(1)])
      (use pair_invD [OF assms(1)] in \<open>auto simp: ShutdownWriter_def cpn_contents_def\<close>)
  obtain y where y: "send_loop ?w = Some y" using assms(2) False by (auto simp: check_write_def Let_def split: option.splits)
  obtain w2 where w2: "y = Inr w2" "pair_inv env nc w2 r s" "\<not> sentEnd w2"
    using send_loop_ok [OF y inv] False by (cases stop) auto
  have "pair_inv env nc (check_tag nd (check_block w2)) r s"
    by (rule check_tag_w [OF check_block_w [OF w2(2,3)]]) (use w2(3) in simp)
  then obtain w3 where w3: "check_write_end stop (check_tag nd (check_block w2)) = Inr w3" "pair_inv env nc w3 r s"
    using check_write_end_ok by blast
  have "res = (if rq_dead w2 then Inr w2 else Inr w3)"
    using assms(2) False y w2(1) w3(1) by (cases stop) (simp_all add: check_write_def Let_def split: if_splits)
  then show ?thesis using w2(2) w3(2) by auto
qed

lemma check_write_ends:
  assumes "pair_inv env nc w r s" and "queueLength (queue (tq w)) < 2 ^ 32"
  shows "\<exists>res. check_write stop nd w = Some res"
proof (cases "sentEnd w")
  case False
  let ?w = "if stop then Signal_rq (w\<lparr>tq := ShutdownWriter (tq w)\<rparr>) else w"
  have inv: "pair_inv env nc ?w r s"
    by (rule pair_inv_w [OF assms(1)])
      (use pair_invD [OF assms(1)] in \<open>auto simp: ShutdownWriter_def cpn_contents_def\<close>)
  obtain w2 where "send_loop ?w = Some (Inr w2)"
    using send_loop_ends [OF inv] False assms(2) by (cases stop) (auto simp: ShutdownWriter_def)
  with False show ?thesis by (simp add: check_write_def Let_def)
qed (simp add: check_write_def)

lemma SendDequeuePacket_ok:
  assumes "pair_inv env nc w r s" and "\<not> sentEnd r"
  shows "pair_inv env nc w (SendDequeuePacket r) s"
proof -
  note D = pair_invD [OF assms(1)]
  let ?n = "Count_tqb (queue (tq r))"
  have lt: "bytecount r < 2 ^ 32" using D(15,17) by simp
  have c: "sub32 (bytecount r) ?n = bytecount r - ?n" using D(16) lt by (rule sub32_le)
  have b: "sub32 (bytecount r) (bytecount r - ?n) = ?n" using sub32_le [of "bytecount r - ?n" "bytecount r"] D(16) lt by simp
  show ?thesis
    by (rule pair_invI)
      (use D assms(2) c b ends_ok_send [of PACKET_ENDOFREAD "readshutdown (tq w)" "outq r"] in
        \<open>auto simp: transit_def pkt_simps SendDequeuePacket_def Let_def\<close>)
qed

lemma SendDequeuePacket_fields [simp]:
  "tq (SendDequeuePacket r) = tq r" "sentEnd (SendDequeuePacket r) = sentEnd r"
  by (simp_all add: SendDequeuePacket_def Let_def)

lemma check_read_ok:
  assumes "pair_inv env nc w r s"
  shows "\<exists>r'. check_read stop nd r = Inr r' \<and> pair_inv env nc w r' s"
proof -
  define res where "res = (if sentEnd r then Inr r
              else
                let q1 = (if stop then Signal_rq (r\<lparr>tq := ShutdownReader (tq r)\<rparr>) else r);
                    q2 = (if bytecount q1 > Count_tqb (queue (tq q1)) then SendDequeuePacket q1 else q1);
                    q3 = check_tag nd (check_block q2)
                in if readshutdown (tq q3) then send_end q3 else Inr q3)"
  have "\<exists>r1. res = Inr r1 \<and> pair_inv env nc w r1 s"
  proof (cases "sentEnd r")
    case False
    let ?r = "if stop then Signal_rq (r\<lparr>tq := ShutdownReader (tq r)\<rparr>) else r"
    let ?r2 = "if bytecount ?r > Count_tqb (queue (tq ?r)) then SendDequeuePacket ?r else ?r"
    let ?r3 = "check_tag nd (check_block ?r2)"
    have r1: "pair_inv env nc w ?r s"
      by (rule pair_inv_r [OF assms]) (use pair_invD [OF assms] in \<open>auto simp: ShutdownReader_def cpn_contents_def\<close>)
    have r2: "pair_inv env nc w ?r2 s" "\<not> sentEnd ?r2"
      using SendDequeuePacket_ok [OF r1] r1 False by (auto split: if_splits)
    have r3: "pair_inv env nc w ?r3 s" "\<not> sentEnd ?r3"
      using check_tag_r [OF check_block_r [OF r2]] r2(2) by (auto split: if_splits)
    have "res = (if readshutdown (tq ?r3) then send_end ?r3 else Inr ?r3)"
      using False unfolding res_def Let_def by (simp only: if_False)
    with send_end_r [OF r3] r3(1) show ?thesis by auto
  qed (use assms in \<open>simp add: res_def\<close>)
  then obtain r1 where "res = Inr r1" "pair_inv env nc w r1 s" by blast
  moreover have "check_read stop nd r = (case res of Inl e \<Rightarrow> Inl e | Inr q4 \<Rightarrow> if writeshutdown (tq q4) then close_end q4 else Inr q4)"
    by (simp only: check_read_def res_def Let_def)
  ultimately show ?thesis using close_end_r [of env nc w r1 s] by simp
qed

lemma dead_ok_w: "pair_inv env nc w r s \<Longrightarrow> terminated env \<Longrightarrow> pair_inv env nc (UnlockedShutdown_rq w) r s"
  using pair_invD [of env nc w r s] by (intro pair_invI) (simp_all add: UnlockedShutdown_rq_def transit_def)

lemma dead_ok_r: "pair_inv env nc w r s \<Longrightarrow> terminated env \<Longrightarrow> pair_inv env nc w (UnlockedShutdown_rq r) s"
  using pair_invD [of env nc w r s] by (intro pair_invI) (simp_all add: UnlockedShutdown_rq_def transit_def)

lemma eof_shut:
  "ends_ok ty (sentEnd q) shut (outq q) \<Longrightarrow> eof_ok True q \<Longrightarrow> (rq_dead q \<Longrightarrow> sentEnd q \<or> st) \<Longrightarrow> \<not> shut \<Longrightarrow> st"
  by (auto simp: ends_ok_def eof_ok_def)

text \<open>One round of an action thread: no assertion of it fails, and the invariant is kept.\<close>

lemma writer_action:
  assumes "pair_inv env nc w r s" and "outq r = inp @ rest" and "eof_ok eof r"
    and "InternalCheckStatus env scale nd inp eof w = Some res"
  shows "\<exists>w'. res = Inr w' \<and> pair_inv env nc w' (r\<lparr>outq := (if sock_closed w then inp @ rest else rest)\<rparr>) s"
proof -
  have same: "pair_inv env nc w (r\<lparr>outq := inp @ rest\<rparr>) s"
    by (rule pair_inv_cong [OF assms(1)]) (use assms(2) in simp_all)
  consider "sock_closed w" | "\<not> sock_closed w" "eof" "\<not> readshutdown (tq w)" "\<not> writeshutdown (tq w)"
    | "\<not> sock_closed w" "eof \<longrightarrow> readshutdown (tq w) \<or> writeshutdown (tq w)" by blast
  then show ?thesis
  proof cases
    case 1
    with assms(4) same show ?thesis by (auto simp: InternalCheckStatus_def)
  next
    case 2
    note D = pair_invD [OF assms(1)]
    have st: "terminated env" using eof_shut [OF D(19) _ D(21) 2(3)] assms(3) 2(2) by simp
    have rest: "inp @ rest = []" using assms(2,3) 2(2) by (simp add: eof_ok_def)
    have "pair_inv env nc (w\<lparr>sock_closed := True\<rparr>) (r\<lparr>outq := inp @ rest\<rparr>) s"
      by (rule pair_inv_cong [OF same]) simp_all
    from dead_ok_w [OF this st] assms(4) 2 rest st show ?thesis by (auto simp: InternalCheckStatus_def)
  next
    case 3
    obtain w1 where w1: "Read_rq env scale inp w = Some (Inr w1)" "pair_inv env nc w1 (r\<lparr>outq := rest\<rparr>) s"
      using writer_reads [OF assms(1,2)] by blast
    have "rq_mode w1 = WRITE" using pair_invD(1) [OF w1(2)] .
    then have "check_write (terminated env) nd (check_grow w1) = Some res"
      using assms(4) w1(1) 3 by (auto simp: InternalCheckStatus_def split: if_splits)
    from check_write_ok [OF check_grow_w [OF w1(2)] this] 3(1) show ?thesis by simp
  qed
qed

lemma reader_action:
  assumes "pair_inv env nc w r s" and "outq w = inp @ rest" and "eof_ok eof w" and "wire_ok (outq w)"
  shows "\<exists>r'. InternalCheckStatus env scale nd inp eof r = Some (Inr r') \<and>
    pair_inv env nc (w\<lparr>outq := (if sock_closed r then inp @ rest else rest)\<rparr>) r' s"
proof -
  have same: "pair_inv env nc (w\<lparr>outq := inp @ rest\<rparr>) r s"
    by (rule pair_inv_cong [OF assms(1)]) (use assms(2) in simp_all)
  consider "sock_closed r" | "\<not> sock_closed r" "eof" "\<not> readshutdown (tq r)" "\<not> writeshutdown (tq r)"
    | "\<not> sock_closed r" "eof \<longrightarrow> readshutdown (tq r) \<or> writeshutdown (tq r)" by blast
  then show ?thesis
  proof cases
    case 1
    with same show ?thesis by (simp add: InternalCheckStatus_def)
  next
    case 2
    note D = pair_invD [OF assms(1)]
    have st: "terminated env" using eof_shut [OF D(18) _ D(20) 2(4)] assms(3) 2(2) by simp
    have rest: "inp @ rest = []" using assms(2,3) 2(2) by (simp add: eof_ok_def)
    have "pair_inv env nc (w\<lparr>outq := inp @ rest\<rparr>) (r\<lparr>sock_closed := True\<rparr>) s"
      by (rule pair_inv_cong [OF same]) simp_all
    from dead_ok_r [OF this st] 2 rest st show ?thesis by (auto simp: InternalCheckStatus_def)
  next
    case 3
    obtain r1 where r1: "Read_rq env scale inp r = Some (Inr r1)" "pair_inv env nc (w\<lparr>outq := rest\<rparr>) r1 s"
      using reader_reads [OF assms(1,2)] assms(2,4) by (auto simp: wire_ok_def)
    have "rq_mode r1 = READ" using pair_invD(2) [OF r1(2)] .
    with check_read_ok [OF check_grow_r [OF r1(2)], of "terminated env" nd] r1(1) 3 show ?thesis
      by (auto simp: InternalCheckStatus_def)
  qed
qed

text \<open>The writer's round ends, too, as long as its buffer is shorter than \<open>2 ^ 32\<close>.\<close>

lemma writer_action_ends:
  assumes "pair_inv env nc w r s" and "outq r = inp @ rest" and "eof_ok eof r"
    and "\<And>w1. Read_rq env scale inp w = Some (Inr w1) \<Longrightarrow> queueLength (queue (tq w1)) < 2 ^ 32"
  shows "\<exists>res. InternalCheckStatus env scale nd inp eof w = Some res"
proof -
  obtain w1 where w1: "Read_rq env scale inp w = Some (Inr w1)" "pair_inv env nc w1 (r\<lparr>outq := rest\<rparr>) s"
    using writer_reads [OF assms(1,2)] by blast
  have "rq_mode w1 = WRITE" using pair_invD(1) [OF w1(2)] .
  with check_write_ends [OF check_grow_w [OF w1(2)], of "terminated env" nd] assms(4) [OF w1(1)] w1(1) show ?thesis
    by (auto simp: InternalCheckStatus_def)
qed

section \<open>The nodes at the two ends\<close>

lemma Enqueue_rq_eq:
  "Enqueue_rq q n = (if rq_mode q = WRITE \<or> writeshutdown (tq q)
     then map_option (map_sum id (\<lambda>t. Signal_rq (q\<lparr>tq := t\<rparr>))) (Enqueue_cpn (tq q) n) else Some (Inl AssertException))"
  by (simp add: Enqueue_rq_def Enqueue_cpn_def InternalEnqueue_rq_def Let_def)

lemma Dequeue_rq_eq:
  "Dequeue_rq q n = (if rq_mode q = READ \<or> readshutdown (tq q)
     then map_sum id (\<lambda>t. Signal_rq (q\<lparr>tq := t\<rparr>)) (Dequeue_cpn (tq q) n) else Inl AssertException)"
  by (simp add: Dequeue_rq_def Dequeue_cpn_def InternalDequeue_rq_def Let_def)

lemma pair_inv_stream:
  assumes "pair_inv env nc w r s" and "\<And>c. c < nc \<Longrightarrow> s' c = s c"
  shows "pair_inv env nc w r s'"
  using assms by (simp add: pair_inv_def)

lemma UnlockedGrow_rq_Returned:
  assumes "UnlockedGrow_rq env scale q l t = Some (Returned q')"
  shows "q' = q \<or> (\<exists>q1. set_lengths env scale q l t = Some (Inr q1) \<and> q' = Signal_rq (q1\<lparr>pendingGrow := True\<rparr>))"
proof (cases "set_lengths env scale q l t")
  case (Some res)
  with assms show ?thesis by (cases res) (auto simp: UnlockedGrow_rq_def split: if_split_asm)
qed (use assms in \<open>auto simp: UnlockedGrow_rq_def split: if_split_asm\<close>)

lemma end_step_outq: "end_step env scale ev q q' \<Longrightarrow> outq q' = outq q"
proof (induction rule: end_step.induct)
  case (end_grow q l t q')
  from UnlockedGrow_rq_Returned [OF this] show ?case
    by (auto simp: set_lengths_def Let_def result_iff)
qed (auto simp: Enqueue_rq_eq Dequeue_rq_eq WaitForFreespace_rq_def WaitForData_rq_def UnlockedShutdown_rq_def
  UnlockedSignalReaderTagChanged_rq_def UnlockedSignalWriterTagChanged_rq_def result_iff split: if_splits)

lemma writer_step:
  assumes "end_step env scale ev w w'" and "pair_inv env nc w r s"
  shows "pair_inv env nc w' r (\<lambda>c. s c @ sent_by ev (tq w) c)"
proof -
  note D = pair_invD [OF assms(2)]
  have stay: "pair_inv env nc w' r s" if "w' = w\<lparr>tq := t\<rparr> \<or> w' = Signal_rq (w\<lparr>tq := t\<rparr>)" "cpn_inv env t"
      "numChannels (queue t) = nc" "\<And>c. c < nc \<Longrightarrow> cpn_contents t c = cpn_contents (tq w) c" "\<not> indequeue t" "dequeuethresh t = 0"
      "readshutdown t = readshutdown (tq w)" for t
    by (rule pair_inv_w [OF assms(2)]) (use that D(7) in auto)
  have flags: "pair_inv env nc w' r s" if "tq w' = tq w" "rq_mode w' = rq_mode w" "readerlength w' = readerlength w"
      "bytecount w' = bytecount w" "sentEnd w' = sentEnd w" "rq_dead w' = rq_dead w" "outq w' = outq w"
    by (rule pair_inv_cong [OF assms(2)]) (use that in simp_all)
  show ?thesis
    using assms(1)
  proof (cases rule: end_step.cases)
    case end_connect
    with flags show ?thesis by (simp add: sent_by_def)
  next
    case (end_get_write t c ptr)
    have "t \<le> Freespace_tqb (queue (tq w))" "t \<le> maxThreshold (queue (tq w))"
      using end_get_write(5) by (auto simp: GetRawEnqueuePtr_tqb_def write_ptr [OF D(3) end_get_write(4)] split: if_splits)
    then have "cpn_inv env ((tq w)\<lparr>enqueuethresh := t, inenqueue := True\<rparr>)"
      using D(3) cpn_invD(6) [OF D(3)] end_get_write(4) by (cases "oldqueue (tq w)") (auto simp: cpn_inv_def)
    with stay [of "(tq w)\<lparr>enqueuethresh := t, inenqueue := True\<rparr>"] D end_get_write(1,2) show ?thesis
      by (simp add: sent_by_def cpn_contents_def)
  next
    case (end_store c bs)
    note st = client_store_ok [OF D(3) end_store(4,6,5)]
    show ?thesis using stay [of "client_store (tq w) c bs"] st D end_store(1,2) by (simp add: sent_by_def)
  next
    case (end_enqueue n)
    have op: "\<not> writeshutdown (tq w)" using end_enqueue(4) by (auto simp: Enqueue_rq_def Let_def)
    obtain t where t: "Enqueue_cpn (tq w) n = Some (Inr t)" "cpn_inv env t" "numChannels (queue t) = nc"
        "\<forall>c<nc. cpn_contents t c = cpn_contents (tq w) c @ enq_window (tq w) c n" "indequeue t = indequeue (tq w)"
        "dequeuethresh t = dequeuethresh (tq w)" "readshutdown t = readshutdown (tq w)"
      using Enqueue_cpn_ok [OF D(3) end_enqueue(2,3) op] D(5) by metis
    have w': "w' = Signal_rq (w\<lparr>tq := t\<rparr>)" using end_enqueue(4) t(1) D(1) by (simp add: Enqueue_rq_eq)
    show ?thesis
      by (rule pair_invI) (use D t end_enqueue(1) in \<open>auto simp: w' transit_def sent_by_def\<close>)
  next
    case (end_wait_write t clk)
    have w': "w' = Signal_rq (w\<lparr>tq := (tq w)\<lparr>writerequest := t\<rparr>, pendingBlock := True, tagUpdated := False\<rparr>)"
      using end_wait_write(3) by (simp add: WaitForFreespace_rq_def result_iff)
    have "pair_inv env nc w' r s"
      by (rule pair_inv_w [OF assms(2)]) (use D in \<open>simp_all add: w' cpn_contents_def\<close>)
    with end_wait_write(1) show ?thesis by (simp add: sent_by_def)
  next
    case end_wake_write
    with stay [of "(tq w)\<lparr>writerequest := 0\<rparr>"] D show ?thesis by (simp add: sent_by_def cpn_contents_def)
  next
    case (end_dequeue n)
    with D(9) show ?thesis by simp
  next
    case (end_wait_read t clk)
    with D(1) show ?thesis by (simp add: WaitForData_rq_def)
  next
    case (end_grow l t)
    from UnlockedGrow_rq_Returned [OF end_grow(2)] show ?thesis
    proof
      assume "w' = w"
      with assms(2) end_grow(1) show ?thesis by (simp add: sent_by_def)
    next
      assume "\<exists>q1. set_lengths env scale w l t = Some (Inr q1) \<and> w' = Signal_rq (q1\<lparr>pendingGrow := True\<rparr>)"
      then obtain q1 where q1: "set_lengths env scale w l t = Some (Inr q1)" "w' = Signal_rq (q1\<lparr>pendingGrow := True\<rparr>)" by blast
      have "pair_inv env nc q1 r s" using set_lengths_w [OF assms(2), of scale l t] q1(1) by auto
      then have "pair_inv env nc w' r s" by (rule pair_inv_cong) (simp_all add: q1(2))
      with end_grow(1) show ?thesis by (simp add: sent_by_def)
    qed
  next
    case end_reader_tag
    with flags show ?thesis by (auto simp: UnlockedSignalReaderTagChanged_rq_def result_iff sent_by_def)
  next
    case end_writer_tag
    with flags show ?thesis by (auto simp: UnlockedSignalWriterTagChanged_rq_def result_iff sent_by_def)
  next
    case end_shutdown_writer
    with stay [of "ShutdownWriter (tq w)"] D show ?thesis by (simp add: sent_by_def ShutdownWriter_def cpn_contents_def)
  next
    case end_forced
    with dead_ok_w [OF assms(2)] show ?thesis by (simp add: sent_by_def)
  qed (use D(1) in simp_all)
qed

lemma reader_step:
  assumes "end_step env scale ev r r'" and "pair_inv env nc w r s"
  shows "\<exists>s'. pair_inv env nc w r' s' \<and> (\<forall>c<nc. s c = received_by ev (tq r) c @ s' c)"
proof -
  note D = pair_invD [OF assms(2)]
  have stay: "pair_inv env nc w r' s" if "r' = r\<lparr>tq := t\<rparr> \<or> r' = Signal_rq (r\<lparr>tq := t\<rparr>)" "cpn_inv env t"
      "numChannels (queue t) = nc" "\<And>c. c < nc \<Longrightarrow> cpn_contents t c = cpn_contents (tq r) c" "\<not> inenqueue t" "enqueuethresh t = 0"
      "writeshutdown t = writeshutdown (tq r)" "Count_tqb (queue t) = Count_tqb (queue (tq r))" for t
    by (rule pair_inv_r [OF assms(2)]) (use that D(8) in auto)
  have flags: "pair_inv env nc w r' s" if "tq r' = tq r" "rq_mode r' = rq_mode r" "readerlength r' = readerlength r"
      "bytecount r' = bytecount r" "sentEnd r' = sentEnd r" "rq_dead r' = rq_dead r" "outq r' = outq r"
    by (rule pair_inv_cong [OF assms(2)]) (use that in simp_all)
  have quiet: ?thesis if "pair_inv env nc w r' s" "\<And>c. received_by ev (tq r) c = []" using that by auto
  show ?thesis
    using assms(1)
  proof (cases rule: end_step.cases)
    case end_connect
    with flags show ?thesis by (intro quiet) (simp_all add: received_by_def)
  next
    case (end_enqueue n)
    with D(11) show ?thesis by simp
  next
    case (end_wait_write t clk)
    with D(2) show ?thesis by (simp add: WaitForFreespace_rq_def)
  next
    case (end_get_read t c ptr)
    have "t \<le> Count_tqb (queue (tq r))" "t \<le> maxThreshold (queue (tq r))"
      using end_get_read(5) by (auto simp: GetRawDequeuePtr_tqb_def read_ptr [OF D(4) end_get_read(4)] split: if_splits)
    then have "cpn_inv env ((tq r)\<lparr>dequeuethresh := t, indequeue := True\<rparr>)"
      using D(4) cpn_invD(7) [OF D(4)] end_get_read(4) by (cases "oldqueue (tq r)") (auto simp: cpn_inv_def)
    with stay [of "(tq r)\<lparr>dequeuethresh := t, indequeue := True\<rparr>"] D end_get_read(1,2) show ?thesis
      by (intro quiet) (simp_all add: received_by_def cpn_contents_def)
  next
    case (end_dequeue n)
    have op: "\<not> readshutdown (tq r)" using end_dequeue(4) by (auto simp: Dequeue_rq_def Let_def)
    have n: "n \<le> Count_tqb (queue (tq r))" using cpn_invD(5) [OF D(4) end_dequeue(2)] end_dequeue(3) by simp
    obtain t where t: "Dequeue_cpn (tq r) n = Inr t" "cpn_inv env t" "numChannels (queue t) = nc"
        "Count_tqb (queue t) + n = Count_tqb (queue (tq r))"
        "\<forall>c<nc. cpn_contents t c = drop n (cpn_contents (tq r) c)" "inenqueue t = inenqueue (tq r)"
        "enqueuethresh t = enqueuethresh (tq r)" "writeshutdown t = writeshutdown (tq r)"
      using Dequeue_cpn_ok [OF D(4) n op] D(6) by metis
    have r': "r' = Signal_rq (r\<lparr>tq := t\<rparr>)" using end_dequeue(4) t(1) D(2) by (simp add: Dequeue_rq_eq)
    have win: "cpn_contents (tq r) c = deq_window (tq r) c n @ cpn_contents t c" if "c < nc" for c
      using deq_window_contents [OF D(4) end_dequeue(2,3), of c] t(5) that D(6) by simp
    have "pair_inv env nc w r' (transit w r')"
      by (rule pair_invI) (use D t in \<open>auto simp: r'\<close>)
    moreover have "s c = received_by ev (tq r) c @ transit w r' c" if "c < nc" for c
      using D(22) [OF that] win [OF that] end_dequeue(1) by (simp add: transit_def r' received_by_def)
    ultimately show ?thesis by blast
  next
    case (end_wait_read t clk)
    have r': "r' = Signal_rq (r\<lparr>tq := (tq r)\<lparr>readrequest := t\<rparr>, pendingBlock := True, tagUpdated := False\<rparr>)"
      using end_wait_read(3) by (simp add: WaitForData_rq_def result_iff)
    have "pair_inv env nc w r' s"
      by (rule pair_inv_r [OF assms(2)]) (use D in \<open>simp_all add: r' cpn_contents_def\<close>)
    with end_wait_read(1) show ?thesis by (intro quiet) (simp_all add: received_by_def)
  next
    case end_wake_read
    with stay [of "(tq r)\<lparr>readrequest := 0\<rparr>"] D show ?thesis by (intro quiet) (simp_all add: received_by_def cpn_contents_def)
  next
    case (end_grow l t)
    from UnlockedGrow_rq_Returned [OF end_grow(2)] show ?thesis
    proof
      assume "r' = r"
      with assms(2) end_grow(1) show ?thesis by (intro quiet) (simp_all add: received_by_def)
    next
      assume "\<exists>q1. set_lengths env scale r l t = Some (Inr q1) \<and> r' = Signal_rq (q1\<lparr>pendingGrow := True\<rparr>)"
      then obtain q1 where q1: "set_lengths env scale r l t = Some (Inr q1)" "r' = Signal_rq (q1\<lparr>pendingGrow := True\<rparr>)" by blast
      have "pair_inv env nc w q1 s" using set_lengths_r [OF assms(2), of scale l t] q1(1) by auto
      then have "pair_inv env nc w r' s" by (rule pair_inv_cong) (simp_all add: q1(2))
      with end_grow(1) show ?thesis by (intro quiet) (simp_all add: received_by_def)
    qed
  next
    case end_reader_tag
    with flags show ?thesis by (intro quiet) (auto simp: UnlockedSignalReaderTagChanged_rq_def result_iff received_by_def)
  next
    case end_writer_tag
    with flags show ?thesis by (intro quiet) (auto simp: UnlockedSignalWriterTagChanged_rq_def result_iff received_by_def)
  next
    case end_shutdown_reader
    with stay [of "ShutdownReader (tq r)"] D show ?thesis
      by (intro quiet) (simp_all add: received_by_def ShutdownReader_def cpn_contents_def)
  next
    case end_forced
    with dead_ok_r [OF assms(2)] show ?thesis by (intro quiet) (simp_all add: received_by_def)
  qed (use D(2) in simp_all)
qed

lemma new_end_ok:
  assumes "0 < pageSize env"
  shows "end_ok env (sa_numChannels attr) (new_RemoteQueue env scale d mode attr)"
    and "cpn_contents (tq (new_RemoteQueue env scale d mode attr)) c = []"
    and "Count_tqb (queue (tq (new_RemoteQueue env scale d mode attr))) = 0"
proof -
  let ?q = "new_RemoteQueue env scale d mode attr"
  have t: "tq ?q = new_ThresholdQueue env (sa_readerkey attr) (sa_writerkey attr)
      (QueueLength_rq scale (sa_queueLength attr) (sa_maxThreshold attr) (sa_alpha attr) mode) (sa_maxThreshold attr)
      (sa_numChannels attr) (sa_queuehint attr = QUEUEHINT_THRESHOLD)"
    by (simp add: new_RemoteQueue_def Let_def)
  have inv: "cpn_inv env (tq ?q)" unfolding t using new_ThresholdQueue_inv [OF assms] by (simp add: mon_inv_def)
  have nc: "numChannels (queue (tq ?q)) = sa_numChannels attr"
    unfolding t by (rule new_ThresholdQueue_empty(1) [OF assms])
  have cls: "\<not> indequeue (tq ?q)" "dequeuethresh (tq ?q) = 0" "\<not> inenqueue (tq ?q)" "enqueuethresh (tq ?q) = 0"
    by (simp_all add: t new_ThresholdQueue_def)
  have "readerlength ?q < 2 ^ 32" using QueueLength_rq_less by (simp add: new_RemoteQueue_def Let_def)
  then show "end_ok env (sa_numChannels attr) ?q"
    unfolding end_ok_def using inv nc cls by (simp split: Mode_t.split)
  show "cpn_contents (tq ?q) c = []"
    unfolding t by (rule new_ThresholdQueue_empty(2) [OF assms])
  show "Count_tqb (queue (tq ?q)) = 0"
    using \<open>cpn_contents (tq ?q) c = []\<close> cpn_invD(3) [OF inv]
    by (simp add: cpn_contents_def contents_tqb_def ring_view_def)
qed

lemma new_RemoteQueue_fields [simp]:
  "rq_mode (new_RemoteQueue env scale d mode attr) = mode" "bytecount (new_RemoteQueue env scale d mode attr) = 0"
  "sentEnd (new_RemoteQueue env scale d mode attr) = False" "rq_dead (new_RemoteQueue env scale d mode attr) = False"
  "outq (new_RemoteQueue env scale d mode attr) = []" "sock_closed (new_RemoteQueue env scale d mode attr) = True"
  "readshutdown (tq (new_RemoteQueue env scale d mode attr)) = False"
  "writeshutdown (tq (new_RemoteQueue env scale d mode attr)) = False"
  by (simp_all add: new_RemoteQueue_def new_ThresholdQueue_def Let_def)

lemma new_rnet_inv: "0 < pageSize env \<Longrightarrow> rnet_inv env (sa_numChannels attr) (new_rnet env scale d attr)"
  using new_end_ok [where env = env and attr = attr and scale = scale and d = d]
  by (auto simp: rnet_inv_def pair_inv_def new_rnet_def wire_ok_def ends_ok_def transit_def)

lemma wire_ok_append [simp]: "wire_ok (ps @ qs) \<longleftrightarrow> wire_ok ps \<and> wire_ok qs"
  by (auto simp: wire_ok_def)

lemma rnet_step_inv:
  assumes "rnet_step env scale n n'" and "rnet_inv env nc n"
  shows "rnet_inv env nc n'"
proof -
  obtain s where s: "pair_inv env nc (wend n) (rend n) s" "wire_ok (outq (wend n))" "\<forall>c<nc. committed n c = consumed n c @ s c"
    using assms(2) by (auto simp: rnet_inv_def)
  from assms(1) show ?thesis
  proof (cases rule: rnet_step.cases)
    case (rnet_writer ev w')
    have "outq w' = outq (wend n)" using end_step_outq [OF rnet_writer(2)] .
    with writer_step [OF rnet_writer(2) s(1)] s(2,3) rnet_writer(1) show ?thesis
      by (auto simp: rnet_inv_def intro!: exI [of _ "\<lambda>c. s c @ sent_by ev (tq (wend n)) c"])
  next
    case (rnet_reader ev r')
    obtain s' where "pair_inv env nc (wend n) r' s'" "\<forall>c<nc. s c = received_by ev (tq (rend n)) c @ s' c"
      using reader_step [OF rnet_reader(2) s(1)] by blast
    with s(2,3) rnet_reader(1) show ?thesis by (auto simp: rnet_inv_def)
  next
    case (rnet_writer_action inp rest eof nd w')
    with writer_action [OF s(1) rnet_writer_action(2-4)] s(3) show ?thesis by (auto simp: rnet_inv_def)
  next
    case (rnet_reader_action inp rest eof nd r')
    have "wire_ok (if sock_closed (rend n) then inp @ rest else rest)" using s(2) rnet_reader_action(2) by simp
    with reader_action [OF s(1) rnet_reader_action(2,3) s(2), of scale nd] rnet_reader_action(1,4) s(3) show ?thesis
      by (auto simp: rnet_inv_def)
  qed
qed

lemma rnet_run_inv: "rnet_run env scale n0 n \<Longrightarrow> rnet_inv env nc n0 \<Longrightarrow> rnet_inv env nc n"
  by (induction rule: rnet_run.induct) (auto intro: rnet_step_inv)

lemma rnet_run_pair:
  assumes "rnet_run env scale (new_rnet env scale d attr) n" and "0 < pageSize env"
  obtains s where "pair_inv env (sa_numChannels attr) (wend n) (rend n) s" "wire_ok (outq (wend n))"
    "\<forall>c < sa_numChannels attr. committed n c = consumed n c @ s c"
  using rnet_run_inv [OF assms(1) new_rnet_inv [OF assms(2)]] by (auto simp: rnet_inv_def)

lemma demo_rnet_simps [simp]:
  "tq (wend demo_rnet) = demo_q" "rq_mode (wend demo_rnet) = WRITE" "committed demo_rnet c = []" "consumed demo_rnet c = []"
  "sa_numChannels demo_remote_attr = 1" "readerlength (wend demo_rnet) = 4" "bytecount (wend demo_rnet) = 0"
  "sentEnd (wend demo_rnet) = False" "rq_dead (wend demo_rnet) = False" "outq (rend demo_rnet) = []"
  "outq (wend demo_rnet) = []" "sentEnd (rend demo_rnet) = False"
  by (simp_all add: demo_rnet_def new_rnet_def demo_remote_attr_def simple_attr_def new_QueueAttr_def demo_q_def
      new_RemoteQueue_def QueueLength_rq_def demo_scale_def sub32_def u32_def)

lemma demo_enqueue_length:
  assumes "Enqueue_cpn (client_store (demo_q\<lparr>enqueuethresh := 2, inenqueue := True\<rparr>) 0 bs) 2 = Some (Inr q)"
  shows "queueLength (queue q) = 4"
proof -
  have "\<not> enqueueUseOld demo_q" "queueLength (queue (client_store (demo_q\<lparr>enqueuethresh := 2, inenqueue := True\<rparr>) 0 bs)) = 4"
    by (simp_all add: demo_q_def new_ThresholdQueue_def client_store_def enq_buffer_def store_tqb_def Let_def
        demo_simps(10) [unfolded demo_q_def new_ThresholdQueue_def, simplified])
  with assms show ?thesis
    by (auto simp: Enqueue_cpn_def InternalEnqueue_def Let_def Enqueue_tqb_def client_store_def split: if_splits option.splits)
qed

lemma demo_remote_sent:
  "\<exists>n. rnet_run demo_env demo_scale (new_rnet demo_env demo_scale True demo_remote_attr) n \<and> committed n 0 = [7, 9] \<and> consumed n 0 = [] \<and>
    rend n = rend demo_rnet \<and> outq (wend n) = [] \<and> \<not> sentEnd (wend n) \<and> readerlength (wend n) = 4 \<and> bytecount (wend n) = 0 \<and>
    queueLength (queue (tq (wend n))) = 4 \<and> \<not> rq_dead (wend n)"
proof -
  let ?q1 = "demo_q\<lparr>enqueuethresh := 2, inenqueue := True\<rparr>"
  let ?w0 = "wend demo_rnet"
  have p: "\<exists>p. InternalGetRawEnqueuePtr demo_q 2 0 = Inr (Some p)"
    using write_ptr [of demo_env demo_q 2 0] demo_inv(1) by (simp add: mon_inv_def GetRawEnqueuePtr_tqb_def)
  let ?n1 = "demo_rnet\<lparr>wend := ?w0\<lparr>tq := ?q1\<rparr>, committed := \<lambda>c. []\<rparr>"
  have e1: "end_step demo_env demo_scale Moved ?w0 (?w0\<lparr>tq := ?q1\<rparr>)"
    using p end_get_write [of ?w0 2 0] by auto
  have s1: "rnet_step demo_env demo_scale demo_rnet ?n1"
    using rnet_writer [OF e1] by simp
  let ?q2 = "client_store ?q1 0 [7, 9]"
  note st = client_store_ok [OF demo_write(2), of "[7, 9]" 0]
  let ?w2 = "?w0\<lparr>tq := ?q2\<rparr>" and ?n2 = "demo_rnet\<lparr>wend := ?w0\<lparr>tq := ?q2\<rparr>, committed := \<lambda>c. []\<rparr>"
  have e2: "end_step demo_env demo_scale (Stored 0 [7, 9]) (wend ?n1) ?w2"
    using end_store [of "wend ?n1" 0 "[7, 9]"] demo_inv(2) by simp
  have s2: "rnet_step demo_env demo_scale ?n1 ?n2" using rnet_writer [OF e2] by simp
  have inv2: "cpn_inv demo_env ?q2" using st(1) demo_inv(2) by simp
  obtain q3 where q3: "Enqueue_cpn ?q2 2 = Some (Inr q3)"
    using Enqueue_cpn_ok [OF inv2, of 2] by auto
  have len: "queueLength (queue q3) = 4" using q3 by (rule demo_enqueue_length)
  let ?w3 = "Signal_rq (?w2\<lparr>tq := q3\<rparr>)"
  let ?n3 = "?n2\<lparr>wend := ?w3, committed := \<lambda>c. enq_window ?q2 c 2\<rparr>"
  have e3: "end_step demo_env demo_scale (Enqueued 2) (wend ?n2) ?w3"
    using q3 by (intro end_enqueue) (simp_all add: Enqueue_rq_eq)
  have s3: "rnet_step demo_env demo_scale ?n2 ?n3" using rnet_writer [OF e3] by simp
  have "rnet_run demo_env demo_scale demo_rnet ?n3"
    using s1 s2 s3 by (meson rnet_run_start rnet_run_step)
  moreover have "committed ?n3 0 = [7, 9]" using st(3) [of 0 2] demo_inv(2) by simp
  ultimately show ?thesis using len unfolding demo_rnet_def [symmetric] by (intro exI [of _ ?n3]) simp
qed

section \<open>Properties\<close>







text \<open>the loop in which the writer's action thread sends data ends, provided the writer's buffer is
  shorter than \<open>2 ^ 32\<close>, and it stops only when the buffer is empty, the reader's share is used up or
  the queue is dead.\<close>

theorem remote_send_loop_ends:
  assumes "0 < pageSize env" and "rnet_run env scale (new_rnet env scale useD4R attr) n"
    and "\<not> sentEnd (wend n)" and "queueLength (queue (tq (wend n))) < 2 ^ 32"
  shows "\<exists>w'. send_loop (wend n) = Some (Inr w') \<and>
    (Empty_tqb (queue (tq w')) \<or> readerlength w' \<le> bytecount w' \<or> rq_dead w')"
proof -
  obtain s where s: "pair_inv env (sa_numChannels attr) (wend n) (rend n) s" using rnet_run_pair [OF assms(2,1)] by metis
  from send_loop_ends [OF s assms(3,4)] show ?thesis .
qed

end
