(* ===== verification/KernelSys.thy ===== *)
theory KernelSys
  imports LocalCtx RemoteQ "HOL-Library.AList"
begin

text \<open>
  Kernels and their nodes: \<open>CPN::Kernel\<close> (libraries/CPN/Kernel.cc), \<open>CPN::PseudoNode\<close> and
  \<open>CPN::NodeBase\<close> (PseudoNode.cc, NodeBase.cc), \<open>QueueReader::Release\<close> and
  \<open>RemoteQueueHolder\<close>. The state of a process is the context with the kernel objects registered in
  it; an object is named by a number that stands for its address. A kernel owns its nodes, the
  queues its nodes are connected to (\<open>k_queues\<close>, referred to by their position, as shared pointers
  refer to them) and the thread of \<open>EntryPoint\<close>, whose place in the code is \<open>k_pc\<close>.

  A method is a function from a state to an outcome and a state, so what a method has done before it
  throws or waits is kept. Methods are atomic; the thread of a kernel stops at each wait. Page size,
  fresh memory and the rounding of a scaled length are in \<open>platform\<close>, the node types the
  \<open>NodeLoader\<close> has found in \<open>k_factories\<close>. A \<open>std::map\<close> the code iterates over or asks whether it is
  empty is an association list; no result depends on its order.
\<close>

section \<open>State\<close>

record platform =
  pl_pageSize :: nat
  pl_fresh :: "byte mem"
  pl_scale :: "rat \<Rightarrow> nat \<Rightarrow> nat"

datatype queue_obj = Local_queue cpnq | Remote_queue rqueue

record kqueue =
  kq_obj :: queue_obj
  kq_reader :: "nat option"
  kq_writer :: "nat option"

text \<open>A node; \<open>pn_external\<close> is \<open>Some iswriter\<close> for an \<open>ExternalEndpoint\<close>.\<close>

record pnode =
  pn_name :: string
  pn_key :: nat
  pn_external :: "bool option"
  pn_d4rreaders :: "nat list"
  pn_d4rwriters :: "nat list"
  pn_readers :: "(nat \<times> nat) list"
  pn_writers :: "(nat \<times> nat) list"

datatype KernelStatus_t = INITIALIZED | RUNNING | TERMINATE | DONE

datatype kernel_pc = K_start | K_loop | K_loop_wait | K_closing | K_nodes | K_nodes_wait | K_end

record kernel =
  k_status :: KernelStatus_t
  k_kernelname :: string
  k_kernelkey :: nat
  k_useremote :: bool
  k_nodecond_signal :: bool
  k_nodemap :: "(nat \<times> pnode) list"
  k_garbagenodes :: "pnode list"
  k_useD4R :: bool
  k_swallowbrokenqueue :: bool
  k_growmaxthresh :: bool
  k_factories :: "string list"
  k_queues :: "kqueue list"
  k_queuemap :: "(nat \<times> nat) list"
  k_pc :: kernel_pc

record sys =
  sctx :: LocalContext
  skernels :: "nat \<rightharpoonup> kernel"

section \<open>Methods\<close>

type_synonym 'a act = "sys \<Rightarrow> 'a outcome \<times> sys"

definition ret :: "'a \<Rightarrow> 'a act" where
  "ret x s = (Returned x, s)"

definition throw :: "cpn_error \<Rightarrow> 'a act" where
  "throw e s = (Throws e, s)"

definition andthen :: "'a act \<Rightarrow> ('a \<Rightarrow> 'b act) \<Rightarrow> 'b act" where
  "andthen m f s = (case m s of
     (Returned x, s') \<Rightarrow> f x s' | (Blocks, s') \<Rightarrow> (Blocks, s') | (Throws e, s') \<Rightarrow> (Throws e, s'))"

definition require :: "bool \<Rightarrow> cpn_error \<Rightarrow> unit act" where
  "require b e = (if b then ret () else throw e)"

text \<open>Calls into the context: a question, a change, a change with a result, a wait.\<close>

definition ctx_ask :: "(LocalContext \<Rightarrow> cpn_error + 'a) \<Rightarrow> 'a act" where
  "ctx_ask f s = (case f (sctx s) of Inl e \<Rightarrow> (Throws e, s) | Inr x \<Rightarrow> (Returned x, s))"

definition ctx_do :: "(LocalContext \<Rightarrow> cpn_error + LocalContext) \<Rightarrow> unit act" where
  "ctx_do f s = (case f (sctx s) of Inl e \<Rightarrow> (Throws e, s) | Inr c \<Rightarrow> (Returned (), s\<lparr>sctx := c\<rparr>))"

definition ctx_new :: "(LocalContext \<Rightarrow> cpn_error + 'a \<times> LocalContext) \<Rightarrow> 'a act" where
  "ctx_new f s = (case f (sctx s) of Inl e \<Rightarrow> (Throws e, s) | Inr (x, c) \<Rightarrow> (Returned x, s\<lparr>sctx := c\<rparr>))"

definition ctx_wait :: "(LocalContext \<Rightarrow> 'a outcome) \<Rightarrow> 'a act" where
  "ctx_wait f s = (f (sctx s), s)"

definition get_kernel :: "nat \<Rightarrow> kernel act" where
  "get_kernel this s = (case skernels s this of None \<Rightarrow> (Throws NullPointer, s) | Some k \<Rightarrow> (Returned k, s))"

definition set_kernel :: "nat \<Rightarrow> kernel \<Rightarrow> unit act" where
  "set_kernel this k s = (Returned (), s\<lparr>skernels := (skernels s)(this \<mapsto> k)\<rparr>)"

definition get_node :: "nat \<Rightarrow> nat \<Rightarrow> cpn_error \<Rightarrow> pnode act" where
  "get_node this key e = andthen (get_kernel this) (\<lambda>k.
     case map_of (k_nodemap k) key of None \<Rightarrow> throw e | Some n \<Rightarrow> ret n)"

text \<open>\<open>std::map::insert\<close> leaves an entry that is there.\<close>

definition map_insert :: "('k \<times> 'v) list \<Rightarrow> 'k \<Rightarrow> 'v \<Rightarrow> ('k \<times> 'v) list" where
  "map_insert m k v = (case map_of m k of None \<Rightarrow> (k, v) # m | Some _ \<Rightarrow> m)"

definition kernel_env :: "platform \<Rightarrow> kernel \<Rightarrow> LocalContext \<Rightarrow> cpn_env" where
  "kernel_env pl k c = \<lparr>pageSize = pl_pageSize pl, fresh = pl_fresh pl, GrowQueueMaxThreshold = k_growmaxthresh k,
     terminated = shutdown c\<rparr>"

section \<open>Queues as the kernel sees them\<close>

fun obj_queue :: "queue_obj \<Rightarrow> cpnq" where
  "obj_queue (Local_queue q) = q"
| "obj_queue (Remote_queue q) = tq q"

definition obj_readerkey :: "queue_obj \<Rightarrow> nat" where
  "obj_readerkey o1 = readerkey (obj_queue o1)"

definition obj_writerkey :: "queue_obj \<Rightarrow> nat" where
  "obj_writerkey o1 = writerkey (obj_queue o1)"

fun obj_ShutdownReader :: "queue_obj \<Rightarrow> queue_obj" where
  "obj_ShutdownReader (Local_queue q) = Local_queue (ShutdownReader q)"
| "obj_ShutdownReader (Remote_queue q) = Remote_queue (Signal_rq (q\<lparr>tq := ShutdownReader (tq q)\<rparr>))"

fun obj_ShutdownWriter :: "queue_obj \<Rightarrow> queue_obj" where
  "obj_ShutdownWriter (Local_queue q) = Local_queue (ShutdownWriter q)"
| "obj_ShutdownWriter (Remote_queue q) = Remote_queue (Signal_rq (q\<lparr>tq := ShutdownWriter (tq q)\<rparr>))"

fun obj_SignalReaderTagChanged :: "queue_obj \<Rightarrow> cpn_error + queue_obj" where
  "obj_SignalReaderTagChanged (Local_queue q) = Inr (Local_queue q)"
| "obj_SignalReaderTagChanged (Remote_queue q) = map_sum id Remote_queue (UnlockedSignalReaderTagChanged_rq q)"

fun obj_SignalWriterTagChanged :: "queue_obj \<Rightarrow> cpn_error + queue_obj" where
  "obj_SignalWriterTagChanged (Local_queue q) = Inr (Local_queue q)"
| "obj_SignalWriterTagChanged (Remote_queue q) = map_sum id Remote_queue (UnlockedSignalWriterTagChanged_rq q)"

definition update_queue :: "(queue_obj \<Rightarrow> queue_obj) \<Rightarrow> nat \<Rightarrow> kqueue list \<Rightarrow> kqueue list" where
  "update_queue f i qs = (if i < length qs then qs[i := (qs ! i)\<lparr>kq_obj := f (kq_obj (qs ! i))\<rparr>] else qs)"

section \<open>Nodes\<close>

definition new_PseudoNode :: "string \<Rightarrow> nat \<Rightarrow> bool option \<Rightarrow> pnode" where
  "new_PseudoNode name key ext = \<lparr>pn_name = name, pn_key = key, pn_external = ext, pn_d4rreaders = [], pn_d4rwriters = [],
     pn_readers = [], pn_writers = []\<rparr>"

definition IsPurePseudo :: "pnode \<Rightarrow> bool" where
  "IsPurePseudo n = (pn_external n \<noteq> None)"

text \<open>
  \<open>CreateReader\<close> on node \<open>key\<close> of the kernel with queue \<open>i\<close>: the queue is registered with the D4R
  node and told of it before the assertion that the port is free.
\<close>

definition attach_reader :: "nat \<Rightarrow> nat \<Rightarrow> kernel \<Rightarrow> cpn_error + kernel" where
  "attach_reader key i k =
    (case map_of (k_nodemap k) key of
       None \<Rightarrow> Inl NullPointer
     | Some n \<Rightarrow>
        if i < length (k_queues k) then
          let kq = k_queues k ! i
          in map_sum id (\<lambda>o1. k\<lparr>k_nodemap := AList.update key (n\<lparr>pn_d4rreaders := pn_d4rreaders n @ [i]\<rparr>) (k_nodemap k),
                               k_queues := (k_queues k)[i := kq\<lparr>kq_obj := o1, kq_reader := Some (pn_key n)\<rparr>]\<rparr>)
               (obj_SignalReaderTagChanged (kq_obj kq))
        else Inl NullPointer)"

definition insert_reader :: "nat \<Rightarrow> nat \<Rightarrow> kernel \<Rightarrow> cpn_error + kernel" where
  "insert_reader key i k =
    (case map_of (k_nodemap k) key of
       None \<Rightarrow> Inl NullPointer
     | Some n \<Rightarrow>
        let rk = obj_readerkey (kq_obj (k_queues k ! i))
        in ASSERT (map_of (pn_readers n) rk = None)
             (Inr (k\<lparr>k_nodemap := AList.update key (n\<lparr>pn_readers := (rk, i) # pn_readers n\<rparr>) (k_nodemap k)\<rparr>)))"

definition attach_writer :: "nat \<Rightarrow> nat \<Rightarrow> kernel \<Rightarrow> cpn_error + kernel" where
  "attach_writer key i k =
    (case map_of (k_nodemap k) key of
       None \<Rightarrow> Inl NullPointer
     | Some n \<Rightarrow>
        if i < length (k_queues k) then
          let kq = k_queues k ! i
          in map_sum id (\<lambda>o1. k\<lparr>k_nodemap := AList.update key (n\<lparr>pn_d4rwriters := pn_d4rwriters n @ [i]\<rparr>) (k_nodemap k),
                               k_queues := (k_queues k)[i := kq\<lparr>kq_obj := o1, kq_writer := Some (pn_key n)\<rparr>]\<rparr>)
               (obj_SignalWriterTagChanged (kq_obj kq))
        else Inl NullPointer)"

definition insert_writer :: "nat \<Rightarrow> nat \<Rightarrow> kernel \<Rightarrow> cpn_error + kernel" where
  "insert_writer key i k =
    (case map_of (k_nodemap k) key of
       None \<Rightarrow> Inl NullPointer
     | Some n \<Rightarrow>
        let wk = obj_writerkey (kq_obj (k_queues k ! i))
        in ASSERT (map_of (pn_writers n) wk = None)
             (Inr (k\<lparr>k_nodemap := AList.update key (n\<lparr>pn_writers := (wk, i) # pn_writers n\<rparr>) (k_nodemap k)\<rparr>)))"

definition kernel_do :: "nat \<Rightarrow> (kernel \<Rightarrow> cpn_error + kernel) \<Rightarrow> unit act" where
  "kernel_do this f = andthen (get_kernel this) (\<lambda>k. case f k of Inl e \<Rightarrow> throw e | Inr k' \<Rightarrow> set_kernel this k')"

definition CreateReader :: "nat \<Rightarrow> nat \<Rightarrow> nat \<Rightarrow> unit act" where
  "CreateReader this key i = andthen (kernel_do this (attach_reader key i)) (\<lambda>_. kernel_do this (insert_reader key i))"

definition CreateWriter :: "nat \<Rightarrow> nat \<Rightarrow> nat \<Rightarrow> unit act" where
  "CreateWriter this key i = andthen (kernel_do this (attach_writer key i)) (\<lambda>_. kernel_do this (insert_writer key i))"

text \<open>\<open>PseudoNode::Shutdown\<close>: the queues of all its readers and writers are shut down on its side.\<close>

definition Shutdown_node :: "pnode \<Rightarrow> kqueue list \<Rightarrow> kqueue list" where
  "Shutdown_node n qs =
     fold (update_queue obj_ShutdownWriter) (map snd (pn_writers n))
       (fold (update_queue obj_ShutdownReader) (map snd (pn_readers n)) qs)"

text \<open>\<open>QueueReader::Release\<close> and \<open>QueueWriter::Release\<close>, which call back \<open>ReleaseReader\<close> and \<open>ReleaseWriter\<close>.\<close>

definition ReleaseReader :: "nat \<Rightarrow> pnode \<Rightarrow> pnode" where
  "ReleaseReader ekey n = n\<lparr>pn_readers := AList.delete ekey (pn_readers n)\<rparr>"

definition ReleaseWriter :: "nat \<Rightarrow> pnode \<Rightarrow> pnode" where
  "ReleaseWriter ekey n = n\<lparr>pn_writers := AList.delete ekey (pn_writers n)\<rparr>"

definition Release_reader :: "nat \<Rightarrow> nat \<Rightarrow> nat \<Rightarrow> unit act" where
  "Release_reader this key ekey = andthen (get_kernel this) (\<lambda>k. andthen (get_node this key NullPointer) (\<lambda>n.
     case map_of (pn_readers n) ekey of
       None \<Rightarrow> throw NullPointer
     | Some i \<Rightarrow> set_kernel this (k\<lparr>k_queues := update_queue obj_ShutdownReader i (k_queues k),
                                   k_nodemap := AList.update key (ReleaseReader ekey n) (k_nodemap k)\<rparr>)))"

definition Release_writer :: "nat \<Rightarrow> nat \<Rightarrow> nat \<Rightarrow> unit act" where
  "Release_writer this key ekey = andthen (get_kernel this) (\<lambda>k. andthen (get_node this key NullPointer) (\<lambda>n.
     case map_of (pn_writers n) ekey of
       None \<Rightarrow> throw NullPointer
     | Some i \<Rightarrow> set_kernel this (k\<lparr>k_queues := update_queue obj_ShutdownWriter i (k_queues k),
                                   k_nodemap := AList.update key (ReleaseWriter ekey n) (k_nodemap k)\<rparr>)))"

text \<open>\<open>GetReader\<close> and \<open>GetWriter\<close> wait until the kernel has handed the node the queue.\<close>

definition check_terminated :: "unit act" where
  "check_terminated = ctx_ask (\<lambda>c. checked c (Inr ()))"

definition GetReader :: "nat \<Rightarrow> nat \<Rightarrow> nat \<Rightarrow> nat act" where
  "GetReader this key ekey = andthen (get_node this key NullPointer) (\<lambda>n.
     case map_of (pn_readers n) ekey of
       Some i \<Rightarrow> ret i
     | None \<Rightarrow> andthen check_terminated (\<lambda>_. ctx_wait (\<lambda>c. Blocks)))"

definition GetWriter :: "nat \<Rightarrow> nat \<Rightarrow> nat \<Rightarrow> nat act" where
  "GetWriter this key ekey = andthen (get_node this key NullPointer) (\<lambda>n.
     case map_of (pn_writers n) ekey of
       Some i \<Rightarrow> ret i
     | None \<Rightarrow> andthen check_terminated (\<lambda>_. ctx_wait (\<lambda>c. Blocks)))"

definition GetIQueue :: "nat \<Rightarrow> nat \<Rightarrow> string \<Rightarrow> nat act" where
  "GetIQueue this key portname = andthen check_terminated (\<lambda>_.
     andthen (ctx_new (\<lambda>c. GetCreateReaderKey c key portname)) (GetReader this key))"

definition GetOQueue :: "nat \<Rightarrow> nat \<Rightarrow> string \<Rightarrow> nat act" where
  "GetOQueue this key portname = andthen check_terminated (\<lambda>_.
     andthen (ctx_new (\<lambda>c. GetCreateWriterKey c key portname)) (GetWriter this key))"

section \<open>The kernel's queues\<close>

text \<open>The holder of the remote queues keeps one by the key of its end.\<close>

definition AddQueue :: "nat \<Rightarrow> nat \<Rightarrow> kernel \<Rightarrow> kernel" where
  "AddQueue key i k = k\<lparr>k_queuemap := map_insert (k_queuemap k) key i\<rparr>"

definition CleanupQueue :: "nat \<Rightarrow> kernel \<Rightarrow> kernel" where
  "CleanupQueue key k = k\<lparr>k_queuemap := AList.delete key (k_queuemap k)\<rparr>"

fun obj_Shutdown :: "queue_obj \<Rightarrow> queue_obj" where
  "obj_Shutdown (Local_queue q) = Local_queue q"
| "obj_Shutdown (Remote_queue q) = Remote_queue (UnlockedShutdown_rq q)"

text \<open>\<open>RemoteQueueHolder::Shutdown\<close> before it waits for its map to become empty.\<close>

definition Shutdown_holder :: "kernel \<Rightarrow> kernel" where
  "Shutdown_holder k = k\<lparr>k_queues := fold (update_queue obj_Shutdown) (map snd (k_queuemap k)) (k_queues k)\<rparr>"

text \<open>The constructor of a \<open>RemoteQueue\<close> sets the node of the far end to a stand-in with its key.\<close>

definition remote_kqueue :: "platform \<Rightarrow> kernel \<Rightarrow> LocalContext \<Rightarrow> Mode_t \<Rightarrow> SimpleQueueAttr \<Rightarrow> kqueue" where
  "remote_kqueue pl k c mode attr =
     \<lparr>kq_obj = Remote_queue (new_RemoteQueue (kernel_env pl k c) (pl_scale pl) (k_useD4R k) mode attr),
      kq_reader = (if mode = READ then None else Some (sa_readernodekey attr)),
      kq_writer = (if mode = READ then Some (sa_writernodekey attr) else None)\<rparr>"

definition CreateReaderEndpoint :: "platform \<Rightarrow> nat \<Rightarrow> SimpleQueueAttr \<Rightarrow> unit act" where
  "CreateReaderEndpoint pl this attr = andthen (get_kernel this) (\<lambda>k. andthen (require (k_useremote k) AssertException) (\<lambda>_.
     andthen (get_node this (sa_readernodekey attr) AssertException) (\<lambda>_.
     andthen (ctx_ask (\<lambda>c. Inr (remote_kqueue pl k c READ attr))) (\<lambda>endp.
     andthen (set_kernel this (AddQueue (obj_readerkey (kq_obj endp)) (length (k_queues k)) (k\<lparr>k_queues := k_queues k @ [endp]\<rparr>)))
       (\<lambda>_. CreateReader this (sa_readernodekey attr) (length (k_queues k)))))))"

definition CreateWriterEndpoint :: "platform \<Rightarrow> nat \<Rightarrow> SimpleQueueAttr \<Rightarrow> unit act" where
  "CreateWriterEndpoint pl this attr = andthen (get_kernel this) (\<lambda>k. andthen (require (k_useremote k) AssertException) (\<lambda>_.
     andthen (get_node this (sa_writernodekey attr) AssertException) (\<lambda>_.
     andthen (ctx_ask (\<lambda>c. Inr (remote_kqueue pl k c WRITE attr))) (\<lambda>endp.
     andthen (set_kernel this (AddQueue (obj_writerkey (kq_obj endp)) (length (k_queues k)) (k\<lparr>k_queues := k_queues k @ [endp]\<rparr>)))
       (\<lambda>_. CreateWriter this (sa_writernodekey attr) (length (k_queues k)))))))"

definition local_kqueue :: "platform \<Rightarrow> kernel \<Rightarrow> LocalContext \<Rightarrow> SimpleQueueAttr \<Rightarrow> kqueue" where
  "local_kqueue pl k c attr =
     \<lparr>kq_obj = Local_queue (new_ThresholdQueue (kernel_env pl k c) (sa_readerkey attr) (sa_writerkey attr) (sa_queueLength attr)
        (sa_maxThreshold attr) (sa_numChannels attr) (sa_queuehint attr = QUEUEHINT_THRESHOLD)),
      kq_reader = None, kq_writer = None\<rparr>"

definition CreateLocalQueue :: "platform \<Rightarrow> nat \<Rightarrow> SimpleQueueAttr \<Rightarrow> unit act" where
  "CreateLocalQueue pl this attr = andthen (get_kernel this) (\<lambda>k.
     andthen (get_node this (sa_readernodekey attr) AssertException) (\<lambda>_.
     andthen (get_node this (sa_writernodekey attr) AssertException) (\<lambda>_.
     andthen (ctx_ask (\<lambda>c. Inr (local_kqueue pl k c attr))) (\<lambda>q.
     andthen (set_kernel this (k\<lparr>k_queues := k_queues k @ [q]\<rparr>)) (\<lambda>_.
     andthen (CreateWriter this (sa_writernodekey attr) (length (k_queues k))) (\<lambda>_.
       CreateReader this (sa_readernodekey attr) (length (k_queues k))))))))"

definition RemoteCreateWriter_k :: "platform \<Rightarrow> nat \<Rightarrow> SimpleQueueAttr \<Rightarrow> unit act" where
  "RemoteCreateWriter_k pl this attr = andthen (get_kernel this) (\<lambda>k.
     andthen (require (k_useremote k) AssertException) (\<lambda>_. CreateWriterEndpoint pl this attr))"

definition RemoteCreateReader_k :: "platform \<Rightarrow> nat \<Rightarrow> SimpleQueueAttr \<Rightarrow> unit act" where
  "RemoteCreateReader_k pl this attr = andthen (get_kernel this) (\<lambda>k.
     andthen (require (k_useremote k) AssertException) (\<lambda>_. CreateReaderEndpoint pl this attr))"

definition RemoteCreateQueue_k :: "platform \<Rightarrow> nat \<Rightarrow> SimpleQueueAttr \<Rightarrow> unit act" where
  "RemoteCreateQueue_k pl this attr = andthen (get_kernel this) (\<lambda>k.
     andthen (require (k_useremote k) AssertException) (\<lambda>_. CreateLocalQueue pl this attr))"

text \<open>The context calls the other kernel in the caller's thread.\<close>

fun deliver_queue :: "platform \<Rightarrow> nat \<times> SimpleQueueAttr remote_request \<Rightarrow> unit act" where
  "deliver_queue pl (krn, RemoteCreateWriter attr) = RemoteCreateWriter_k pl krn attr"
| "deliver_queue pl (krn, RemoteCreateReader attr) = RemoteCreateReader_k pl krn attr"
| "deliver_queue pl (krn, RemoteCreateQueue attr) = RemoteCreateQueue_k pl krn attr"
| "deliver_queue pl (krn, RemoteCreateNode attr) = throw AssertException"

text \<open>The two halves of the normalisation in \<open>CreateQueue\<close>: the node key and the port key of an end.\<close>

definition find_reader :: "QueueAttr \<Rightarrow> (nat \<times> nat) act" where
  "find_reader qa =
    (if qa_readerkey qa = 0 then
       andthen (if qa_readernodekey qa = 0 then
                  andthen (require (qa_readernodename qa \<noteq> []) InvalidArgument) (\<lambda>_.
                    ctx_wait (\<lambda>c. WaitForNodeStart c (qa_readernodename qa)))
                else ret (qa_readernodekey qa)) (\<lambda>nk.
       andthen (require (qa_readerportname qa \<noteq> []) InvalidArgument) (\<lambda>_.
       andthen (ctx_new (\<lambda>c. GetCreateReaderKey c nk (qa_readerportname qa))) (\<lambda>rk. ret (nk, rk))))
     else
       andthen (if qa_readernodekey qa = 0 then ctx_ask (\<lambda>c. GetReaderNode c (qa_readerkey qa)) else ret (qa_readernodekey qa))
         (\<lambda>nk. ret (nk, qa_readerkey qa)))"

definition find_writer :: "QueueAttr \<Rightarrow> (nat \<times> nat) act" where
  "find_writer qa =
    (if qa_writerkey qa = 0 then
       andthen (if qa_writernodekey qa = 0 then
                  andthen (require (qa_writernodename qa \<noteq> []) InvalidArgument) (\<lambda>_.
                    ctx_wait (\<lambda>c. WaitForNodeStart c (qa_writernodename qa)))
                else ret (qa_writernodekey qa)) (\<lambda>nk.
       andthen (require (qa_writerportname qa \<noteq> []) InvalidArgument) (\<lambda>_.
       andthen (ctx_new (\<lambda>c. GetCreateWriterKey c nk (qa_writerportname qa))) (\<lambda>wk. ret (nk, wk))))
     else
       andthen (if qa_writernodekey qa = 0 then ctx_ask (\<lambda>c. GetWriterNode c (qa_writerkey qa)) else ret (qa_writernodekey qa))
         (\<lambda>nk. ret (nk, qa_writerkey qa)))"

text \<open>Where the two ends are decides what is created here and what is asked for elsewhere.\<close>

definition place_queue :: "platform \<Rightarrow> nat \<Rightarrow> SimpleQueueAttr \<Rightarrow> nat \<Rightarrow> nat \<Rightarrow> unit act" where
  "place_queue pl this attr readerkernel writerkernel = andthen (get_kernel this) (\<lambda>k.
     if readerkernel = writerkernel then
       if readerkernel = k_kernelkey k then CreateLocalQueue pl this attr
       else andthen (require (k_useremote k) AssertException) (\<lambda>_.
              andthen (ctx_ask (\<lambda>c. SendCreateQueue c readerkernel attr)) (deliver_queue pl))
     else if readerkernel = k_kernelkey k then
       andthen (require (k_useremote k) AssertException) (\<lambda>_.
       andthen (CreateReaderEndpoint pl this attr) (\<lambda>_.
       andthen (ctx_ask (\<lambda>c. SendCreateWriter c writerkernel attr)) (deliver_queue pl)))
     else if writerkernel = k_kernelkey k then
       andthen (require (k_useremote k) AssertException) (\<lambda>_.
       andthen (CreateWriterEndpoint pl this attr) (\<lambda>_.
       andthen (ctx_ask (\<lambda>c. SendCreateReader c readerkernel attr)) (deliver_queue pl)))
     else
       andthen (require (k_useremote k) AssertException) (\<lambda>_.
       andthen (andthen (ctx_ask (\<lambda>c. SendCreateWriter c writerkernel attr)) (deliver_queue pl)) (\<lambda>_.
       andthen (ctx_ask (\<lambda>c. SendCreateReader c readerkernel attr)) (deliver_queue pl))))"

definition CreateQueue :: "platform \<Rightarrow> nat \<Rightarrow> QueueAttr \<Rightarrow> unit act" where
  "CreateQueue pl this qattr = andthen (find_reader qattr) (\<lambda>(rn, rk). andthen (find_writer qattr) (\<lambda>(wn, wk).
     andthen (ctx_do (\<lambda>c. ConnectEndpoints c wk rk (qa_queuename qattr))) (\<lambda>_.
     andthen (ctx_ask (\<lambda>c. GetNodeKernel c rn)) (\<lambda>readerkernel.
     andthen (ctx_ask (\<lambda>c. GetNodeKernel c wn)) (\<lambda>writerkernel.
       place_queue pl this
         ((simple_attr qattr)\<lparr>sa_readernodekey := rn, sa_readerkey := rk, sa_writernodekey := wn, sa_writerkey := wk\<rparr>)
         readerkernel writerkernel)))))"

section \<open>The kernel's nodes\<close>

definition InternalCreateNode :: "nat \<Rightarrow> NodeAttr \<Rightarrow> unit act" where
  "InternalCreateNode this attr = andthen (get_kernel this) (\<lambda>k.
     andthen (require (k_status k = RUNNING) AssertException) (\<lambda>_.
     andthen (require (na_nodetype attr \<in> set (k_factories k)) InvalidArgument) (\<lambda>_.
       set_kernel this (k\<lparr>k_nodemap := map_insert (k_nodemap k) (na_key attr) (new_PseudoNode (na_name attr) (na_key attr) None)\<rparr>))))"

definition RemoteCreateNode_k :: "nat \<Rightarrow> NodeAttr \<Rightarrow> unit act" where
  "RemoteCreateNode_k this attr = andthen (get_kernel this) (\<lambda>k.
     andthen (require (k_useremote k) AssertException) (\<lambda>_. InternalCreateNode this attr))"

fun deliver_node :: "nat \<times> NodeAttr remote_request \<Rightarrow> unit act" where
  "deliver_node (krn, RemoteCreateNode attr) = RemoteCreateNode_k krn attr"
| "deliver_node (krn, _) = throw AssertException"

definition CreateNode :: "nat \<Rightarrow> NodeAttr \<Rightarrow> nat act" where
  "CreateNode this attr = andthen (get_kernel this) (\<lambda>k.
     andthen (if na_kernelkey attr \<noteq> 0 then ret (na_kernelkey attr)
              else if na_kernelname attr = [] then ret (k_kernelkey k)
              else ctx_wait (\<lambda>c. WaitForKernelStart c (na_kernelname attr))) (\<lambda>kk.
     andthen (ctx_new (\<lambda>c. CreateNodeKey c kk (na_name attr))) (\<lambda>nodekey.
     let nodeattr = attr\<lparr>na_kernelkey := kk, na_key := nodekey\<rparr>
     in andthen (if kk = k_kernelkey k then InternalCreateNode this nodeattr
                 else andthen (ctx_ask (\<lambda>c. SendCreateNode c kk nodeattr)) deliver_node) (\<lambda>_. ret nodekey))))"

definition CreateExternalEndpoint :: "nat \<Rightarrow> string \<Rightarrow> bool \<Rightarrow> unit act" where
  "CreateExternalEndpoint this name iswriter = andthen (get_kernel this) (\<lambda>k.
     andthen (ctx_new (\<lambda>c. CreateNodeKey c (k_kernelkey k) name)) (\<lambda>nodekey.
     andthen (set_kernel this (k\<lparr>k_nodemap := map_insert (k_nodemap k) nodekey (new_PseudoNode name nodekey (Some iswriter))\<rparr>)) (\<lambda>_.
       ctx_do (\<lambda>c. SignalNodeStart c nodekey))))"

definition find_external :: "nat \<Rightarrow> string \<Rightarrow> (nat \<times> pnode) act" where
  "find_external this name = andthen (ctx_ask (\<lambda>c. GetNodeKey c name)) (\<lambda>key.
     andthen (get_node this key InvalidArgument) (\<lambda>n.
     andthen (require (IsPurePseudo n) InvalidArgument) (\<lambda>_. ret (key, n))))"

definition GetExternalOQueue :: "nat \<Rightarrow> string \<Rightarrow> nat act" where
  "GetExternalOQueue this name = andthen (find_external this name) (\<lambda>(key, n).
     if pn_external n = Some True then GetOQueue this key name else throw InvalidArgument)"

definition GetExternalIQueue :: "nat \<Rightarrow> string \<Rightarrow> nat act" where
  "GetExternalIQueue this name = andthen (find_external this name) (\<lambda>(key, n).
     if pn_external n = Some False then GetIQueue this key name else throw InvalidArgument)"

definition SendWakeup :: "kernel \<Rightarrow> kernel" where
  "SendWakeup k = k\<lparr>k_nodecond_signal := True\<rparr>"

definition bury_node :: "nat \<Rightarrow> kernel \<Rightarrow> cpn_error + kernel" where
  "bury_node key k =
    (case map_of (k_nodemap k) key of
       None \<Rightarrow> Inl AssertException
     | Some n \<Rightarrow> Inr (SendWakeup (k\<lparr>k_nodemap := AList.delete key (k_nodemap k),
                                     k_garbagenodes := k_garbagenodes k @ [n]\<rparr>)))"

definition NodeTerminated :: "nat \<Rightarrow> nat \<Rightarrow> unit act" where
  "NodeTerminated this key = andthen (ctx_do (\<lambda>c. SignalNodeEnd c key)) (\<lambda>_.
     kernel_do this (\<lambda>k. map_sum id (\<lambda>k'. k'\<lparr>k_nodecond_signal := True\<rparr>)
       (if k_status k = DONE then Inr k else bury_node key k)))"

definition DestroyExternalEndpoint :: "nat \<Rightarrow> string \<Rightarrow> unit act" where
  "DestroyExternalEndpoint this name = andthen (find_external this name) (\<lambda>(key, n). NodeTerminated this key)"

text \<open>\<open>NodeBase::EntryPoint\<close> around the user's \<open>Process\<close>: which exceptions end the node, which the thread.\<close>

definition node_catches :: "kernel \<Rightarrow> cpn_error \<Rightarrow> bool" where
  "node_catches k e = (case e of
     ShutdownException \<Rightarrow> True
   | BrokenQueueException key \<Rightarrow> k_swallowbrokenqueue k
   | DeadlockException \<Rightarrow> True
   | _ \<Rightarrow> False)"

definition NodeEntryPoint :: "nat \<Rightarrow> nat \<Rightarrow> unit act \<Rightarrow> unit act" where
  "NodeEntryPoint this key Process s =
    (case andthen (ctx_do (\<lambda>c. SignalNodeStart c key)) (\<lambda>_. Process) s of
       (Returned _, s1) \<Rightarrow> NodeTerminated this key s1
     | (Blocks, s1) \<Rightarrow> (Blocks, s1)
     | (Throws e, s1) \<Rightarrow>
        (case skernels s1 this of
           None \<Rightarrow> (Throws NullPointer, s1)
         | Some k \<Rightarrow> if node_catches k e then NodeTerminated this key s1 else (Throws e, s1)))"

text \<open>\<open>ClearGarbage\<close>: from the back of the list, each node is shut down and dropped.\<close>

function ClearGarbage :: "kernel \<Rightarrow> kernel" where
  "ClearGarbage k =
    (if k_garbagenodes k = [] then k
     else ClearGarbage (k\<lparr>k_queues := Shutdown_node (last (k_garbagenodes k)) (k_queues k),
                          k_garbagenodes := butlast (k_garbagenodes k)\<rparr>))"
  by pat_completeness auto
termination
  by (relation "measure (\<lambda>k. length (k_garbagenodes k))") auto

declare ClearGarbage.simps [simp del]

definition NotifyTerminate_k :: "kernel \<Rightarrow> kernel" where
  "NotifyTerminate_k k = (if k_status k = RUNNING then SendWakeup (k\<lparr>k_status := TERMINATE\<rparr>) else k)"

text \<open>\<open>Context::Terminate\<close> with the kernels it tells.\<close>

definition Terminate_sys :: "sys \<Rightarrow> sys" where
  "Terminate_sys s = \<lparr>sctx = Terminate (sctx s),
     skernels = (\<lambda>a. case skernels s a of
       None \<Rightarrow> None
     | Some k \<Rightarrow> Some (if terminate_notifies (sctx s) (k_kernelkey k) then NotifyTerminate_k k else k))\<rparr>"

section \<open>Life of a kernel\<close>

text \<open>The constructor; \<open>addr\<close> is the address its server got, \<open>libs\<close> the node types it loaded.\<close>

definition new_kernel :: "'ctx KernelAttr \<Rightarrow> string list \<Rightarrow> bool \<Rightarrow> nat \<Rightarrow> kernel" where
  "new_kernel attr libs remote key =
     \<lparr>k_status = INITIALIZED, k_kernelname = ka_name attr, k_kernelkey = key, k_useremote = remote, k_nodecond_signal = False,
      k_nodemap = [], k_garbagenodes = [], k_useD4R = ka_useD4R attr, k_swallowbrokenqueue = ka_swallowbrokenqueue attr,
      k_growmaxthresh = ka_growmaxthresh attr, k_factories = libs, k_queues = [], k_queuemap = [], k_pc = K_start\<rparr>"

definition Kernel :: "nat \<Rightarrow> 'ctx KernelAttr \<Rightarrow> bool \<Rightarrow> string list \<Rightarrow> string \<times> string \<Rightarrow> unit act" where
  "Kernel this attr ctxRequiresRemote libs addr =
    (let useremote = (ka_remote_enabled attr \<or> ctxRequiresRemote)
     in andthen (ctx_new (\<lambda>c. if useremote then SetupKernel_remote c (ka_name attr) (fst addr) (snd addr) (Some this)
                             else SetupKernel c (ka_name attr) (Some this)))
          (\<lambda>key. set_kernel this (new_kernel attr libs useremote key)))"

text \<open>What the thread does first when it has left its loop.\<close>

definition leave_loop :: "kernel \<Rightarrow> kernel" where
  "leave_loop k = (if k_useremote k then Shutdown_holder k else k)\<lparr>k_pc := K_closing\<rparr>"

text \<open>
  The thread of \<open>EntryPoint\<close>. It starts, loops while the kernel runs, then waits for the last node.
  Each loop of a kernel without remote operations waits for \<open>nodecond\<close> only if \<open>nodecond_signal\<close> is
  not set, and resets it after the wait; one with remote operations waits in \<open>server->Poll()\<close>, and
  after the loop for its remote queues to be gone.
\<close>

inductive kernel_step :: "nat \<Rightarrow> sys \<Rightarrow> sys \<Rightarrow> bool" for this where
  k_started: "skernels s this = Some k \<Longrightarrow> k_pc k = K_start \<Longrightarrow>
    k1 = (if k_status k = INITIALIZED then k\<lparr>k_status := RUNNING\<rparr> else k) \<Longrightarrow>
    SignalKernelStart (sctx s) (k_kernelkey k) = Inr c \<Longrightarrow>
    kernel_step this s \<lparr>sctx = c, skernels = (skernels s)(this \<mapsto> (ClearGarbage k1)\<lparr>k_pc := K_loop\<rparr>)\<rparr>"
| k_start_refused: "skernels s this = Some k \<Longrightarrow> k_pc k = K_start \<Longrightarrow>
    k1 = (if k_status k = INITIALIZED then k\<lparr>k_status := RUNNING\<rparr> else k) \<Longrightarrow>
    SignalKernelStart (sctx s) (k_kernelkey k) = Inl ShutdownException \<Longrightarrow>
    kernel_step this s (s\<lparr>skernels := (skernels s)(this \<mapsto> leave_loop k1)\<rparr>)"
| k_loop_blocks: "skernels s this = Some k \<Longrightarrow> k_pc k = K_loop \<Longrightarrow> k_status k = RUNNING \<Longrightarrow>
    k_useremote k \<or> \<not> k_nodecond_signal k \<Longrightarrow>
    kernel_step this s (s\<lparr>skernels := (skernels s)(this \<mapsto> k\<lparr>k_pc := K_loop_wait\<rparr>)\<rparr>)"
| k_loop_wakes: "skernels s this = Some k \<Longrightarrow> k_pc k = K_loop_wait \<Longrightarrow>
    k1 = (if k_useremote k then k else k\<lparr>k_nodecond_signal := False\<rparr>) \<Longrightarrow>
    kernel_step this s (s\<lparr>skernels := (skernels s)(this \<mapsto> (ClearGarbage k1)\<lparr>k_pc := K_loop\<rparr>)\<rparr>)"
| k_loop_again: "skernels s this = Some k \<Longrightarrow> k_pc k = K_loop \<Longrightarrow> k_status k = RUNNING \<Longrightarrow>
    \<not> k_useremote k \<Longrightarrow> k_nodecond_signal k \<Longrightarrow>
    kernel_step this s (s\<lparr>skernels := (skernels s)(this \<mapsto> ClearGarbage k)\<rparr>)"
| k_loop_ends: "skernels s this = Some k \<Longrightarrow> k_pc k = K_loop \<Longrightarrow> k_status k \<noteq> RUNNING \<Longrightarrow>
    kernel_step this s (s\<lparr>skernels := (skernels s)(this \<mapsto> leave_loop k)\<rparr>)"
| k_closes: "skernels s this = Some k \<Longrightarrow> k_pc k = K_closing \<Longrightarrow> (k_useremote k \<longrightarrow> k_queuemap k = []) \<Longrightarrow>
    kernel_step this s (s\<lparr>skernels := (skernels s)(this \<mapsto> (ClearGarbage k)\<lparr>k_pc := K_nodes\<rparr>)\<rparr>)"
| k_nodes_blocks: "skernels s this = Some k \<Longrightarrow> k_pc k = K_nodes \<Longrightarrow> k_nodemap k \<noteq> [] \<Longrightarrow> \<not> k_nodecond_signal k \<Longrightarrow>
    kernel_step this s (s\<lparr>skernels := (skernels s)(this \<mapsto> k\<lparr>k_pc := K_nodes_wait\<rparr>)\<rparr>)"
| k_nodes_wakes: "skernels s this = Some k \<Longrightarrow> k_pc k = K_nodes_wait \<Longrightarrow>
    kernel_step this s (s\<lparr>skernels := (skernels s)(this \<mapsto> (ClearGarbage (k\<lparr>k_nodecond_signal := False\<rparr>))\<lparr>k_pc := K_nodes\<rparr>)\<rparr>)"
| k_nodes_again: "skernels s this = Some k \<Longrightarrow> k_pc k = K_nodes \<Longrightarrow> k_nodemap k \<noteq> [] \<Longrightarrow> k_nodecond_signal k \<Longrightarrow>
    kernel_step this s (s\<lparr>skernels := (skernels s)(this \<mapsto> ClearGarbage k)\<rparr>)"
| k_ends: "skernels s this = Some k \<Longrightarrow> k_pc k = K_nodes \<Longrightarrow> k_nodemap k = [] \<Longrightarrow>
    SignalKernelEnd (sctx s) (k_kernelkey k) = Inr c \<Longrightarrow>
    kernel_step this s \<lparr>sctx = c, skernels = (skernels s)(this \<mapsto> (ClearGarbage k)\<lparr>k_status := DONE, k_pc := K_end\<rparr>)\<rparr>"

text \<open>
  Everything that can happen in a process: calls of the client and of the nodes, the end of a node,
  steps on a queue, the removal of a remote queue that is dead, a step of a kernel's thread, termination.
\<close>

inductive sys_step :: "platform \<Rightarrow> sys \<Rightarrow> sys \<Rightarrow> bool" for pl where
  sys_kernel: "skernels s this = None \<Longrightarrow> Kernel this (attr :: unit KernelAttr) req libs addr s = (r, s') \<Longrightarrow> sys_step pl s s'"
| sys_create_node: "CreateNode this nattr s = (r, s') \<Longrightarrow> sys_step pl s s'"
| sys_create_queue: "CreateQueue pl this qattr s = (r, s') \<Longrightarrow> sys_step pl s s'"
| sys_external: "CreateExternalEndpoint this name iswriter s = (r, s') \<Longrightarrow> sys_step pl s s'"
| sys_destroy: "DestroyExternalEndpoint this name s = (r, s') \<Longrightarrow> sys_step pl s s'"
| sys_get_external_o: "GetExternalOQueue this name s = (r1, s') \<Longrightarrow> sys_step pl s s'"
| sys_get_external_i: "GetExternalIQueue this name s = (r1, s') \<Longrightarrow> sys_step pl s s'"
| sys_get_iqueue: "GetIQueue this key name s = (r1, s') \<Longrightarrow> sys_step pl s s'"
| sys_get_oqueue: "GetOQueue this key name s = (r1, s') \<Longrightarrow> sys_step pl s s'"
| sys_release_reader: "Release_reader this key ekey s = (r, s') \<Longrightarrow> sys_step pl s s'"
| sys_release_writer: "Release_writer this key ekey s = (r, s') \<Longrightarrow> sys_step pl s s'"
| sys_node_start: "ctx_do (\<lambda>c. SignalNodeStart c key) s = (r, s') \<Longrightarrow> sys_step pl s s'"
| sys_node_end: "NodeTerminated this key s = (r, s') \<Longrightarrow> sys_step pl s s'"
| sys_thread: "kernel_step this s s' \<Longrightarrow> sys_step pl s s'"
| sys_local_queue: "skernels s this = Some k \<Longrightarrow> i < length (k_queues k) \<Longrightarrow> kq_obj (k_queues k ! i) = Local_queue q \<Longrightarrow>
    mon_step (kernel_env pl k (sctx s)) ev q q' \<Longrightarrow>
    sys_step pl s (s\<lparr>skernels := (skernels s)(this \<mapsto> k\<lparr>k_queues := update_queue (\<lambda>_. Local_queue q') i (k_queues k)\<rparr>)\<rparr>)"
| sys_remote_queue: "skernels s this = Some k \<Longrightarrow> i < length (k_queues k) \<Longrightarrow> kq_obj (k_queues k ! i) = Remote_queue rq \<Longrightarrow>
    end_step (kernel_env pl k (sctx s)) (pl_scale pl) ev rq rq' \<Longrightarrow>
    sys_step pl s (s\<lparr>skernels := (skernels s)(this \<mapsto> k\<lparr>k_queues := update_queue (\<lambda>_. Remote_queue rq') i (k_queues k)\<rparr>)\<rparr>)"
| sys_cleanup: "skernels s this = Some k \<Longrightarrow> map_of (k_queuemap k) key = Some i \<Longrightarrow> i < length (k_queues k) \<Longrightarrow>
    kq_obj (k_queues k ! i) = Remote_queue rq \<Longrightarrow> rq_dead rq \<Longrightarrow>
    sys_step pl s (s\<lparr>skernels := (skernels s)(this \<mapsto> CleanupQueue key k)\<rparr>)"
| sys_terminate: "sys_step pl s (Terminate_sys s)"

inductive sys_run :: "platform \<Rightarrow> sys \<Rightarrow> sys \<Rightarrow> bool" for pl s0 where
  sys_run_start: "sys_run pl s0 s0"
| sys_run_step: "sys_run pl s0 s \<Longrightarrow> sys_step pl s s' \<Longrightarrow> sys_run pl s0 s'"

definition new_sys :: sys where
  "new_sys = \<lparr>sctx = new_LocalContext, skernels = Map.empty\<rparr>"

section \<open>Notions for the proofs\<close>

text \<open>From a state with \<open>P\<close>, a method that returns leaves \<open>Q\<close>, and one that waits or throws leaves \<open>E\<close>.\<close>

definition valid :: "(sys \<Rightarrow> bool) \<Rightarrow> 'a act \<Rightarrow> ('a \<Rightarrow> sys \<Rightarrow> bool) \<Rightarrow> (sys \<Rightarrow> bool) \<Rightarrow> bool" where
  "valid P m Q E \<longleftrightarrow> (\<forall>s. P s \<longrightarrow> (case m s of (Returned x, s') \<Rightarrow> Q x s' | (Blocks, s') \<Rightarrow> E s' | (Throws e, s') \<Rightarrow> E s'))"

text \<open>What holds of every kernel object when the network is (\<open>sh\<close>) or is not shut down.\<close>

definition kernel_ok :: "bool \<Rightarrow> kernel \<Rightarrow> bool" where
  "kernel_ok sh k \<longleftrightarrow>
     (k_status k = TERMINATE \<or> k_status k = DONE \<or> k_pc k \<in> {K_closing, K_nodes, K_nodes_wait, K_end} \<longrightarrow> sh) \<and>
     (k_status k = DONE \<longleftrightarrow> k_pc k = K_end) \<and> (k_status k = DONE \<longrightarrow> k_nodemap k = [] \<and> k_garbagenodes k = []) \<and>
     (k_status k = INITIALIZED \<longleftrightarrow> k_pc k = K_start)"

definition sys_inv :: "sys \<Rightarrow> bool" where
  "sys_inv s \<longleftrightarrow> (\<forall>a k. skernels s a = Some k \<longrightarrow> kernel_ok (shutdown (sctx s)) k)"

definition open_sys :: "sys \<Rightarrow> bool" where
  "open_sys s \<longleftrightarrow> sys_inv s \<and> \<not> shutdown (sctx s)"

named_theorems vcg \<open>rules for the outcome of methods\<close>

definition read_shut :: "kqueue \<Rightarrow> bool" where
  "read_shut q \<longleftrightarrow> readshutdown (obj_queue (kq_obj q))"

definition write_shut :: "kqueue \<Rightarrow> bool" where
  "write_shut q \<longleftrightarrow> writeshutdown (obj_queue (kq_obj q))"

text \<open>Node \<open>n\<close> of the kernel at \<open>a\<close> reads (writes) port \<open>rk\<close> (\<open>wk\<close>) of the queue between the two ports.\<close>

definition has_reader :: "nat \<Rightarrow> nat \<Rightarrow> nat \<Rightarrow> nat \<Rightarrow> sys \<Rightarrow> bool" where
  "has_reader a n rk wk s \<longleftrightarrow> (\<exists>k nd i. skernels s a = Some k \<and> map_of (k_nodemap k) n = Some nd \<and> map_of (pn_readers nd) rk = Some i \<and>
     i < length (k_queues k) \<and> obj_readerkey (kq_obj (k_queues k ! i)) = rk \<and> obj_writerkey (kq_obj (k_queues k ! i)) = wk)"

definition has_writer :: "nat \<Rightarrow> nat \<Rightarrow> nat \<Rightarrow> nat \<Rightarrow> sys \<Rightarrow> bool" where
  "has_writer a n rk wk s \<longleftrightarrow> (\<exists>k nd i. skernels s a = Some k \<and> map_of (k_nodemap k) n = Some nd \<and> map_of (pn_writers nd) wk = Some i \<and>
     i < length (k_queues k) \<and> obj_readerkey (kq_obj (k_queues k ! i)) = rk \<and> obj_writerkey (kq_obj (k_queues k ! i)) = wk)"

text \<open>The kernel object at \<open>a\<close> is the one with key \<open>kk\<close>: the caller's own, or the one the context has for it.\<close>

definition at_kernel :: "nat \<Rightarrow> sys \<Rightarrow> nat \<Rightarrow> nat \<Rightarrow> bool" where
  "at_kernel this s kk a \<longleftrightarrow> (a = this \<and> (\<exists>k. skernels s this = Some k \<and> k_kernelkey k = kk)) \<or>
     (\<exists>info. kernelmap (sctx s) kk = Some info \<and> ki_kernel info = Some a)"

text \<open>Nodes and queues stay where they are and keep the ends they have.\<close>

definition extends :: "kernel \<Rightarrow> kernel \<Rightarrow> bool" where
  "extends k k' \<longleftrightarrow> k_kernelkey k' = k_kernelkey k \<and>
     (\<forall>i<length (k_queues k). i < length (k_queues k') \<and>
        obj_readerkey (kq_obj (k_queues k' ! i)) = obj_readerkey (kq_obj (k_queues k ! i)) \<and>
        obj_writerkey (kq_obj (k_queues k' ! i)) = obj_writerkey (kq_obj (k_queues k ! i))) \<and>
     (\<forall>n nd. map_of (k_nodemap k) n = Some nd \<longrightarrow> (\<exists>nd'. map_of (k_nodemap k') n = Some nd' \<and>
        map_of (pn_readers nd) \<subseteq>\<^sub>m map_of (pn_readers nd') \<and> map_of (pn_writers nd) \<subseteq>\<^sub>m map_of (pn_writers nd')))"

definition grows :: "sys \<Rightarrow> sys \<Rightarrow> bool" where
  "grows s s' \<longleftrightarrow> sctx s' = sctx s \<and> (\<forall>a k. skernels s a = Some k \<longrightarrow> (\<exists>k'. skernels s' a = Some k' \<and> extends k k'))"

definition demo_pl :: platform where
  "demo_pl = \<lparr>pl_pageSize = 8, pl_fresh = (\<lambda>_. 0), pl_scale = demo_scale\<rparr>"

definition demo_kernel :: kernel where
  "demo_kernel = new_kernel (new_KernelAttr ''k'' :: unit KernelAttr) [''t''] False 1"

definition demo_sys1 :: sys where
  "demo_sys1 = snd (Kernel 10 (new_KernelAttr ''k'' :: unit KernelAttr) False [''t''] ([], []) new_sys)"

definition demo_sys2 :: sys where
  "demo_sys2 = snd (CreateExternalEndpoint 10 ''w'' True (snd (CreateExternalEndpoint 10 ''r'' False demo_sys1)))"

definition demo_qattr :: QueueAttr where
  "demo_qattr = SetExternalWriter ''w'' (SetExternalReader ''r'' (new_QueueAttr 8 2))"

section \<open>Reasoning about methods\<close>

lemma validI: "(\<And>s. P s \<Longrightarrow> case m s of (Returned x, s') \<Rightarrow> Q x s' | (Blocks, s') \<Rightarrow> E s' | (Throws e, s') \<Rightarrow> E s') \<Longrightarrow> valid P m Q E"
  by (simp add: valid_def)

lemma validD: "valid P m Q E \<Longrightarrow> P s \<Longrightarrow> m s = (r, s') \<Longrightarrow> (case r of Returned x \<Rightarrow> Q x s' | _ \<Rightarrow> E s')"
  by (auto simp: valid_def split: outcome.splits)

lemma valid_andthen:
  assumes "valid P m R E" and "\<And>x. valid (R x) (f x) Q E"
  shows "valid P (andthen m f) Q E"
proof (rule validI)
  fix s assume "P s"
  obtain r s1 where m: "m s = (r, s1)" by (cases "m s")
  from validD [OF assms(1) \<open>P s\<close> m]
  show "case andthen m f s of (Returned x, s') \<Rightarrow> Q x s' | (Blocks, s') \<Rightarrow> E s' | (Throws e, s') \<Rightarrow> E s'"
    using assms(2) by (cases r) (auto simp: andthen_def m valid_def)
qed

lemma valid_weaken:
  "valid P m Q E \<Longrightarrow> (\<And>s. P' s \<Longrightarrow> P s) \<Longrightarrow> (\<And>x s. Q x s \<Longrightarrow> Q' x s) \<Longrightarrow> (\<And>s. E s \<Longrightarrow> E' s) \<Longrightarrow> valid P' m Q' E'"
  by (fastforce simp: valid_def split: outcome.splits prod.splits)

lemma valid_ret [vcg]: "(\<And>s. P s \<Longrightarrow> Q x s) \<Longrightarrow> valid P (ret x) Q E"
  by (simp add: valid_def ret_def)

lemma valid_throw [vcg]: "(\<And>s. P s \<Longrightarrow> E s) \<Longrightarrow> valid P (throw e) Q E"
  by (simp add: valid_def throw_def)

lemma valid_require [vcg]: "(\<And>s. P s \<Longrightarrow> E s) \<Longrightarrow> valid P (require b e) (\<lambda>_ s. P s \<and> b) E"
  by (simp add: require_def vcg)

lemma valid_ctx_ask [vcg]: "(\<And>s. P s \<Longrightarrow> E s) \<Longrightarrow> valid P (ctx_ask f) (\<lambda>x s. P s \<and> f (sctx s) = Inr x) E"
  by (auto simp: valid_def ctx_ask_def split: sum.split)

lemma valid_ctx_wait [vcg]: "(\<And>s. P s \<Longrightarrow> E s) \<Longrightarrow> valid P (ctx_wait f) (\<lambda>x s. P s \<and> f (sctx s) = Returned x) E"
  by (auto simp: valid_def ctx_wait_def split: outcome.split)

lemma valid_get_kernel [vcg]: "(\<And>s. P s \<Longrightarrow> E s) \<Longrightarrow> valid P (get_kernel this) (\<lambda>k s. P s \<and> skernels s this = Some k) E"
  by (auto simp: valid_def get_kernel_def split: option.split)

lemma valid_ctx_do:
  "(\<And>s. P s \<Longrightarrow> E s) \<Longrightarrow> (\<And>s c. P s \<Longrightarrow> f (sctx s) = Inr c \<Longrightarrow> Q () (s\<lparr>sctx := c\<rparr>)) \<Longrightarrow> valid P (ctx_do f) Q E"
  by (auto simp: valid_def ctx_do_def split: sum.split)

lemma valid_ctx_new:
  "(\<And>s. P s \<Longrightarrow> E s) \<Longrightarrow> (\<And>s x c. P s \<Longrightarrow> f (sctx s) = Inr (x, c) \<Longrightarrow> Q x (s\<lparr>sctx := c\<rparr>)) \<Longrightarrow> valid P (ctx_new f) Q E"
  by (auto simp: valid_def ctx_new_def split: sum.split prod.split)

lemma valid_set_kernel:
  "(\<And>s. P s \<Longrightarrow> Q () (s\<lparr>skernels := (skernels s)(this \<mapsto> k)\<rparr>)) \<Longrightarrow> valid P (set_kernel this k) Q E"
  by (simp add: valid_def set_kernel_def)

lemma valid_get_node [vcg]:
  assumes "\<And>s. P s \<Longrightarrow> E s"
  shows "valid P (get_node this key e)
    (\<lambda>n s. P s \<and> (\<exists>k. skernels s this = Some k \<and> map_of (k_nodemap k) key = Some n)) E"
  unfolding get_node_def
  by (rule valid_andthen [OF valid_get_kernel [OF assms]])
    (auto simp: assms intro!: vcg split: option.split)

lemma valid_kernel_do:
  assumes "\<And>s. P s \<Longrightarrow> E s"
    and "\<And>s k k'. P s \<Longrightarrow> skernels s this = Some k \<Longrightarrow> f k = Inr k' \<Longrightarrow> Q () (s\<lparr>skernels := (skernels s)(this \<mapsto> k')\<rparr>)"
  shows "valid P (kernel_do this f) Q E"
  using assms by (auto simp: valid_def kernel_do_def andthen_def get_kernel_def set_kernel_def throw_def split: option.split sum.split)

lemma valid_step: "valid P m (\<lambda>_. P) P \<Longrightarrow> m s = (r, s') \<Longrightarrow> P s \<Longrightarrow> P s'"
  using validD [of P m "\<lambda>_. P" P s r s'] by (cases r) auto

section \<open>A kernel that is done has no nodes\<close>

lemma sys_inv_ctx: "sys_inv s \<Longrightarrow> shutdown c = shutdown (sctx s) \<Longrightarrow> sys_inv (s\<lparr>sctx := c\<rparr>)"
  by (simp add: sys_inv_def)

lemma sys_inv_kernel: "sys_inv s \<Longrightarrow> kernel_ok (shutdown (sctx s)) k \<Longrightarrow> sys_inv (s\<lparr>skernels := (skernels s)(this \<mapsto> k)\<rparr>)"
  by (simp add: sys_inv_def)

lemma sys_invD: "sys_inv s \<Longrightarrow> skernels s this = Some k \<Longrightarrow> kernel_ok (shutdown (sctx s)) k"
  by (simp add: sys_inv_def)

lemma checked_returned [simp]: "checked c r = Inr x \<longleftrightarrow> \<not> shutdown c \<and> r = Inr x"
  by (simp add: checked_def)

lemma ctx_keeps_shutdown:
  "CreateNodeKey c kk n = Inr (x, c') \<Longrightarrow> \<not> shutdown c \<and> \<not> shutdown c'"
  "GetCreateReaderKey c nk p = Inr (x, c') \<Longrightarrow> \<not> shutdown c \<and> \<not> shutdown c'"
  "GetCreateWriterKey c nk p = Inr (x, c') \<Longrightarrow> \<not> shutdown c \<and> \<not> shutdown c'"
  "SetupKernel_remote c nm h sv kr = Inr (x, c') \<Longrightarrow> \<not> shutdown c \<and> \<not> shutdown c'"
  "SetupKernel c nm kr = Inr (x, c') \<Longrightarrow> \<not> shutdown c \<and> \<not> shutdown c'"
  by (auto simp: CreateNodeKey_def GetCreateReaderKey_def GetCreateWriterKey_def SetupKernel_remote_def SetupKernel_def
      SetupKernel_info_def Let_def split: option.splits if_splits)

lemma ctx_keeps_shutdown2:
  "ConnectEndpoints c wk rk q = Inr c' \<Longrightarrow> shutdown c' = shutdown c"
  "SignalNodeStart c k = Inr c' \<Longrightarrow> shutdown c' = shutdown c"
  "SignalNodeEnd c k = Inr c' \<Longrightarrow> shutdown c' = shutdown c"
  "SignalKernelStart c k = Inr c' \<Longrightarrow> shutdown c' = shutdown c"
  "SignalKernelEnd c k = Inr c' \<Longrightarrow> shutdown c' = shutdown c"
  by (auto simp: ConnectEndpoints_def SignalNodeStart_def SignalNodeEnd_def SignalKernelStart_def SignalKernelEnd_def
      split: option.splits)

text \<open>Methods that keep the invariant, whatever their outcome.\<close>

abbreviation keeps :: "'a act \<Rightarrow> bool" where
  "keeps m \<equiv> valid sys_inv m (\<lambda>_. sys_inv) sys_inv"

lemma keeps_andthen [intro]: "keeps m \<Longrightarrow> (\<And>x. keeps (f x)) \<Longrightarrow> keeps (andthen m f)"
  by (rule valid_andthen)

lemma valid_drop: "valid P m (\<lambda>x s. P s \<and> Q x s) E \<Longrightarrow> valid P m (\<lambda>_. P) E"
  by (erule valid_weaken) auto

lemma keeps_basic [intro, simp]:
  "keeps (ret x)" "keeps (throw e)" "keeps (require b e)" "keeps (ctx_ask g)" "keeps (ctx_wait h)" "keeps (get_kernel this)"
  "keeps (get_node this key e)" "keeps check_terminated"
proof -
  show "keeps (ret x)" "keeps (throw e)" by (simp_all add: valid_ret valid_throw)
  show "keeps (require b e)" by (rule valid_drop [OF valid_require]) simp
  show "keeps (ctx_ask g)" by (rule valid_drop [OF valid_ctx_ask]) simp
  show "keeps check_terminated" unfolding check_terminated_def by (rule valid_drop [OF valid_ctx_ask]) simp
  show "keeps (ctx_wait h)" by (rule valid_drop [OF valid_ctx_wait]) simp
  show "keeps (get_kernel this)" by (rule valid_drop [OF valid_get_kernel]) simp
  show "keeps (get_node this key e)" by (rule valid_drop [OF valid_get_node]) simp
qed

lemma keeps_ctx_new: "(\<And>c x c'. f c = Inr (x, c') \<Longrightarrow> \<not> shutdown c \<and> \<not> shutdown c') \<Longrightarrow> valid sys_inv (ctx_new f) (\<lambda>_. open_sys) sys_inv"
  by (rule valid_ctx_new) (auto simp: open_sys_def intro: sys_inv_ctx)

lemma open_sys_inv: "valid sys_inv m (\<lambda>_. open_sys) sys_inv \<Longrightarrow> keeps m"
  by (erule valid_weaken) (auto simp: open_sys_def)

lemma keeps_ctx_do: "(\<And>c c'. f c = Inr c' \<Longrightarrow> shutdown c' = shutdown c) \<Longrightarrow> keeps (ctx_do f)"
  by (rule valid_ctx_do) (auto intro: sys_inv_ctx)

lemma keeps_kernel_do: "(\<And>sh k k'. kernel_ok sh k \<Longrightarrow> f k = Inr k' \<Longrightarrow> kernel_ok sh k') \<Longrightarrow> keeps (kernel_do this f)"
  by (rule valid_kernel_do) (auto intro!: sys_inv_kernel dest: sys_invD)

text \<open>A change that leaves status and place alone and adds no node to an empty map.\<close>

lemma kernel_ok_mono:
  assumes "kernel_ok sh k" and "k_status k' = k_status k" and "k_pc k' = k_pc k" and "k_nodemap k = [] \<Longrightarrow> k_nodemap k' = []"
    and "k_nodemap k = [] \<Longrightarrow> k_garbagenodes k' = k_garbagenodes k \<or> k_garbagenodes k' = []"
  shows "kernel_ok sh k'"
  using assms by (auto simp: kernel_ok_def)

lemma node_kernel_ok:
  "kernel_ok sh k \<Longrightarrow> attach_reader key i k = Inr k' \<Longrightarrow> kernel_ok sh k'"
  "kernel_ok sh k \<Longrightarrow> insert_reader key i k = Inr k' \<Longrightarrow> kernel_ok sh k'"
  "kernel_ok sh k \<Longrightarrow> attach_writer key i k = Inr k' \<Longrightarrow> kernel_ok sh k'"
  "kernel_ok sh k \<Longrightarrow> insert_writer key i k = Inr k' \<Longrightarrow> kernel_ok sh k'"
  by (erule kernel_ok_mono;
      auto simp: attach_reader_def insert_reader_def attach_writer_def insert_writer_def Let_def result_iff
        split: option.splits if_splits)+

lemma keeps_CreateReader [intro]: "keeps (CreateReader this key i)"
  unfolding CreateReader_def by (intro keeps_andthen keeps_kernel_do) (auto intro: node_kernel_ok)

lemma keeps_CreateWriter [intro]: "keeps (CreateWriter this key i)"
  unfolding CreateWriter_def by (intro keeps_andthen keeps_kernel_do) (auto intro: node_kernel_ok)

text \<open>Setting a kernel object that was looked up before and has changed as little.\<close>

lemma keeps_set_kernel:
  assumes "\<And>sh. kernel_ok sh k \<Longrightarrow> kernel_ok sh k'"
  shows "valid (\<lambda>s. sys_inv s \<and> skernels s this = Some k) (set_kernel this k') (\<lambda>_. sys_inv) sys_inv"
  by (rule valid_set_kernel) (auto intro!: sys_inv_kernel assms dest: sys_invD)

lemma keeps_then_set:
  assumes "\<And>sh. kernel_ok sh k \<Longrightarrow> kernel_ok sh k'" and "\<And>x. keeps (f x)"
  shows "valid (\<lambda>s. sys_inv s \<and> skernels s this = Some k) (andthen (set_kernel this k') f) (\<lambda>_. sys_inv) sys_inv"
  by (rule valid_andthen [OF keeps_set_kernel]) (use assms in auto)

lemma keeps_CreateReaderEndpoint [intro]: "keeps (CreateReaderEndpoint pl this attr)"
  unfolding CreateReaderEndpoint_def
  by (rule valid_andthen [OF valid_get_kernel], simp, rule valid_andthen [OF valid_drop [OF valid_require]], simp,
      rule valid_andthen [OF valid_drop [OF valid_get_node]], simp, rule valid_andthen [OF valid_drop [OF valid_ctx_ask]], simp,
      rule keeps_then_set) (auto simp: AddQueue_def elim: kernel_ok_mono)

lemma keeps_CreateWriterEndpoint [intro]: "keeps (CreateWriterEndpoint pl this attr)"
  unfolding CreateWriterEndpoint_def
  by (rule valid_andthen [OF valid_get_kernel], simp, rule valid_andthen [OF valid_drop [OF valid_require]], simp,
      rule valid_andthen [OF valid_drop [OF valid_get_node]], simp, rule valid_andthen [OF valid_drop [OF valid_ctx_ask]], simp,
      rule keeps_then_set) (auto simp: AddQueue_def elim: kernel_ok_mono)

lemma keeps_CreateLocalQueue [intro]: "keeps (CreateLocalQueue pl this attr)"
  unfolding CreateLocalQueue_def
  by (rule valid_andthen [OF valid_get_kernel], simp, rule valid_andthen [OF valid_drop [OF valid_get_node]], simp,
      rule valid_andthen [OF valid_drop [OF valid_get_node]], simp, rule valid_andthen [OF valid_drop [OF valid_ctx_ask]], simp,
      rule keeps_then_set) (auto elim: kernel_ok_mono)

lemma keeps_deliver_queue [intro]: "keeps (deliver_queue pl req)"
  by (induction pl req rule: deliver_queue.induct)
    (auto simp: RemoteCreateWriter_k_def RemoteCreateReader_k_def RemoteCreateQueue_k_def)

lemma keeps_place_queue [intro]: "keeps (place_queue pl this attr rk wk)"
  unfolding place_queue_def by (intro keeps_andthen keeps_basic) (auto intro!: keeps_andthen)

lemma keeps_keys [intro]:
  "keeps (ctx_new (\<lambda>c. GetCreateReaderKey c nk p))" "keeps (ctx_new (\<lambda>c. GetCreateWriterKey c nk p))"
  "keeps (ctx_new (\<lambda>c. CreateNodeKey c nk p))"
  by (rule open_sys_inv [OF keeps_ctx_new], erule ctx_keeps_shutdown)+

lemma keeps_signals [intro]:
  "keeps (ctx_do (\<lambda>c. ConnectEndpoints c wk rk q))" "keeps (ctx_do (\<lambda>c. SignalNodeStart c k))"
  "keeps (ctx_do (\<lambda>c. SignalNodeEnd c k))"
  by (rule keeps_ctx_do, erule ctx_keeps_shutdown2)+

lemma keeps_CreateQueue: "keeps (CreateQueue pl this qattr)"
  unfolding CreateQueue_def find_reader_def find_writer_def
  by (intro keeps_andthen) (auto intro!: keeps_andthen split: prod.split)

text \<open>A node is only added while the network is not shut down.\<close>

lemma open_set_kernel:
  assumes "\<And>s. P s \<Longrightarrow> open_sys s \<and> skernels s this = Some k" and "k_status k' = k_status k" and "k_pc k' = k_pc k"
  shows "valid P (set_kernel this k') (\<lambda>_. sys_inv) sys_inv"
proof (rule valid_set_kernel)
  fix s assume "P s"
  then have s: "sys_inv s" "\<not> shutdown (sctx s)" "skernels s this = Some k" using assms(1) by (auto simp: open_sys_def)
  then have "kernel_ok False k'" using sys_invD [OF s(1,3)] assms(2,3) by (auto simp: kernel_ok_def)
  with s show "sys_inv (s\<lparr>skernels := (skernels s)(this \<mapsto> k')\<rparr>)" by (auto intro: sys_inv_kernel)
qed

lemma open_get_kernel: "valid open_sys (get_kernel this) (\<lambda>k s. open_sys s \<and> skernels s this = Some k) sys_inv"
  by (rule valid_weaken [OF valid_get_kernel [of open_sys open_sys]]) (auto simp: open_sys_def)

lemma open_InternalCreateNode: "valid open_sys (InternalCreateNode this attr) (\<lambda>_. sys_inv) sys_inv"
  unfolding InternalCreateNode_def
  by (rule valid_andthen [OF open_get_kernel], (rule valid_andthen [OF valid_require], simp add: open_sys_def)+,
      rule open_set_kernel) auto

lemma open_deliver_node: "valid open_sys (deliver_node req) (\<lambda>_. sys_inv) sys_inv"
proof (induction req rule: deliver_node.induct)
  case (1 krn attr)
  have req: "valid open_sys (require b e) (\<lambda>_. open_sys) sys_inv" for b e
    by (rule valid_weaken [OF valid_require [of open_sys sys_inv]]) (auto simp: open_sys_def)
  have get: "valid open_sys (get_kernel krn) (\<lambda>_. open_sys) sys_inv"
    by (rule valid_weaken [OF open_get_kernel]) auto
  show ?case
    unfolding deliver_node.simps RemoteCreateNode_k_def
    by (rule valid_andthen [OF get], rule valid_andthen [OF req], rule open_InternalCreateNode)
qed (auto intro!: valid_throw simp: open_sys_def)

lemma keeps_CreateNode: "keeps (CreateNode this attr)"
proof -
  have created: "valid open_sys (andthen (if kk = k_kernelkey k then InternalCreateNode this a
      else andthen (ctx_ask (\<lambda>c. SendCreateNode c kk a)) deliver_node) (\<lambda>_. ret x)) (\<lambda>_. sys_inv) sys_inv" for kk k a x
  proof (rule valid_andthen)
    have "valid open_sys (andthen (ctx_ask g) deliver_node) (\<lambda>_. sys_inv) sys_inv" for g :: "LocalContext \<Rightarrow> cpn_error + nat \<times> NodeAttr remote_request"
      by (rule valid_andthen [OF valid_weaken [OF valid_ctx_ask [of open_sys sys_inv]] open_deliver_node]) (auto simp: open_sys_def)
    with open_InternalCreateNode show "valid open_sys (if kk = k_kernelkey k then InternalCreateNode this a
      else andthen (ctx_ask (\<lambda>c. SendCreateNode c kk a)) deliver_node) (\<lambda>_. sys_inv) sys_inv" by simp
  qed simp
  have key: "valid sys_inv (ctx_new (\<lambda>c. CreateNodeKey c kk n)) (\<lambda>_. open_sys) sys_inv" for kk n
    by (rule keeps_ctx_new) (erule ctx_keeps_shutdown)
  show ?thesis
    unfolding CreateNode_def Let_def
    by (rule keeps_andthen [OF keeps_basic(6)], rule keeps_andthen) (simp, rule valid_andthen [OF key created])
qed

lemma keeps_CreateExternalEndpoint: "keeps (CreateExternalEndpoint this name iswriter)"
proof -
  have key: "valid (\<lambda>s. sys_inv s \<and> skernels s this = Some k) (ctx_new (\<lambda>c. CreateNodeKey c kk n))
      (\<lambda>_ s. open_sys s \<and> skernels s this = Some k) sys_inv" for kk n k
    by (rule valid_ctx_new) (auto simp: open_sys_def intro: sys_inv_ctx dest: ctx_keeps_shutdown)
  have set: "valid (\<lambda>s. open_sys s \<and> skernels s this = Some k)
      (set_kernel this (k\<lparr>k_nodemap := m\<rparr>)) (\<lambda>_. sys_inv) sys_inv" for k m
    by (rule open_set_kernel) auto
  show ?thesis
    unfolding CreateExternalEndpoint_def
    by (rule valid_andthen [OF valid_get_kernel], simp, rule valid_andthen [OF key], rule valid_andthen [OF set]) auto
qed

lemma bury_node_ok: "kernel_ok sh k \<Longrightarrow> bury_node key k = Inr k' \<Longrightarrow> kernel_ok sh k'"
  by (erule kernel_ok_mono) (auto simp: bury_node_def SendWakeup_def split: option.splits)

lemma keeps_NodeTerminated [intro]: "keeps (NodeTerminated this key)"
  unfolding NodeTerminated_def
proof (intro keeps_andthen keeps_kernel_do)
  fix sh k k'
  assume ok: "kernel_ok sh k"
    and "map_sum id (\<lambda>k'. k'\<lparr>k_nodecond_signal := True\<rparr>) (if k_status k = DONE then Inr k else bury_node key k) = Inr k'"
  then obtain k1 where "k' = k1\<lparr>k_nodecond_signal := True\<rparr>" "kernel_ok sh k1"
    by (auto simp: result_iff bury_node_ok split: if_splits)
  then show "kernel_ok sh k'" by (auto elim: kernel_ok_mono)
qed auto

lemma keeps_find_external [intro]: "keeps (find_external this name)"
  unfolding find_external_def by (intro keeps_andthen keeps_basic)

lemma keeps_DestroyExternalEndpoint: "keeps (DestroyExternalEndpoint this name)"
  unfolding DestroyExternalEndpoint_def by (intro keeps_andthen) (auto split: prod.split)

lemma keeps_GetReader [intro]: "keeps (GetReader this key ekey)" "keeps (GetWriter this key ekey)"
  unfolding GetReader_def GetWriter_def by (auto intro!: keeps_andthen split: option.split)

lemma keeps_GetQueue [intro]: "keeps (GetIQueue this key name)" "keeps (GetOQueue this key name)"
  unfolding GetIQueue_def GetOQueue_def by (auto intro!: keeps_andthen)

lemma keeps_GetExternal: "keeps (GetExternalIQueue this name)" "keeps (GetExternalOQueue this name)"
  unfolding GetExternalIQueue_def GetExternalOQueue_def by (auto intro!: keeps_andthen split: prod.split)

lemma update_Nil_iff: "map_of m k = Some v \<Longrightarrow> m \<noteq> []"
  by auto

lemma keeps_release:
  "keeps (Release_reader this key ekey)" "keeps (Release_writer this key ekey)"
proof -
  have set: "valid (\<lambda>s. sys_inv s \<and> skernels s this = Some k \<and> (\<exists>k. skernels s this = Some k \<and> map_of (k_nodemap k) key = Some n))
      (set_kernel this (k\<lparr>k_queues := qs, k_nodemap := AList.update key n' (k_nodemap k)\<rparr>)) (\<lambda>_. sys_inv) sys_inv" for k n n' qs
  proof (rule valid_set_kernel, rule sys_inv_kernel, blast)
    fix s
    assume "sys_inv s \<and> skernels s this = Some k \<and> (\<exists>k. skernels s this = Some k \<and> map_of (k_nodemap k) key = Some n)"
    then have "kernel_ok (shutdown (sctx s)) k" "map_of (k_nodemap k) key = Some n" by (auto dest: sys_invD)
    then show "kernel_ok (shutdown (sctx s)) (k\<lparr>k_queues := qs, k_nodemap := AList.update key n' (k_nodemap k)\<rparr>)"
      by (auto elim: kernel_ok_mono)
  qed
  show "keeps (Release_reader this key ekey)"
    unfolding Release_reader_def
    by (rule valid_andthen [OF valid_get_kernel], simp, rule valid_andthen [OF valid_get_node], simp)
      (auto split: option.split intro!: set valid_throw)
  show "keeps (Release_writer this key ekey)"
    unfolding Release_writer_def
    by (rule valid_andthen [OF valid_get_kernel], simp, rule valid_andthen [OF valid_get_node], simp)
      (auto split: option.split intro!: set valid_throw)
qed

lemma keeps_Kernel: "keeps (Kernel this (attr :: 'ctx KernelAttr) req libs addr)"
proof -
  have "valid sys_inv (ctx_new (\<lambda>c. if b then SetupKernel_remote c n h sv kr else SetupKernel c n kr)) (\<lambda>_. open_sys) sys_inv" for b n h sv kr
    by (rule keeps_ctx_new) (auto dest: ctx_keeps_shutdown split: if_splits)
  moreover have "valid open_sys (set_kernel this (new_kernel attr libs b key)) (\<lambda>_. sys_inv) sys_inv" for b key
    by (rule valid_set_kernel) (auto simp: open_sys_def new_kernel_def kernel_ok_def intro!: sys_inv_kernel)
  ultimately show ?thesis unfolding Kernel_def Let_def by (rule valid_andthen)
qed

lemma ClearGarbage_eq:
  "ClearGarbage k = k\<lparr>k_queues := foldr Shutdown_node (k_garbagenodes k) (k_queues k), k_garbagenodes := []\<rparr>"
proof (induction k rule: ClearGarbage.induct)
  case (1 k)
  show ?case
  proof (cases "k_garbagenodes k" rule: rev_cases)
    case Nil
    then show ?thesis by (subst ClearGarbage.simps) (cases k; simp)
  next
    case (snoc ns n)
    then show ?thesis using 1 by (subst ClearGarbage.simps) simp
  qed
qed

lemma ClearGarbage_ok: "kernel_ok sh k \<Longrightarrow> kernel_ok sh (ClearGarbage k)"
  by (erule kernel_ok_mono) (simp_all add: ClearGarbage_eq)

lemma leave_loop_fields [simp]:
  "k_status (leave_loop k) = k_status k" "k_pc (leave_loop k) = K_closing" "k_nodemap (leave_loop k) = k_nodemap k"
  "k_garbagenodes (leave_loop k) = k_garbagenodes k" "k_useremote (leave_loop k) = k_useremote k"
  by (simp_all add: leave_loop_def Shutdown_holder_def)

lemma kernel_step_inv:
  assumes "kernel_step this s s'" and "sys_inv s"
  shows "sys_inv s'"
  using assms
proof (induction rule: kernel_step.induct)
  case (k_started s k k1 c)
  then have "\<not> shutdown (sctx s)" "shutdown c = shutdown (sctx s)"
    by (auto simp: SignalKernelStart_def split: option.splits)
  with k_started show ?case by (auto simp: sys_inv_def kernel_ok_def ClearGarbage_eq split: if_splits)
next
  case (k_start_refused s k k1)
  then have "shutdown (sctx s)"
    by (auto simp: SignalKernelStart_def checked_def split: option.splits if_splits)
  with k_start_refused show ?case by (auto simp: sys_inv_def kernel_ok_def)
next
  case (k_ends s k c)
  then have "shutdown c = shutdown (sctx s)" by (auto dest: ctx_keeps_shutdown2)
  with k_ends show ?case by (auto simp: sys_inv_def kernel_ok_def ClearGarbage_eq)
next
  case (k_loop_ends s k)
  then show ?case by (cases "k_status k") (auto simp: sys_inv_def kernel_ok_def)
qed (auto simp: sys_inv_def kernel_ok_def ClearGarbage_eq split: if_splits)

lemma NotifyTerminate_ok: "kernel_ok sh k \<Longrightarrow> kernel_ok True (NotifyTerminate_k k)" "kernel_ok sh k \<Longrightarrow> kernel_ok True k"
  by (auto simp: kernel_ok_def NotifyTerminate_k_def SendWakeup_def)

lemma sys_step_inv: "sys_step pl s s' \<Longrightarrow> sys_inv s \<Longrightarrow> sys_inv s'"
proof (induction rule: sys_step.induct)
  case (sys_thread this s s')
  then show ?case by (blast intro: kernel_step_inv)
next
  case (sys_local_queue s this k i q ev q')
  then have "kernel_ok (shutdown (sctx s)) k" by (blast dest: sys_invD)
  then show ?case by (intro sys_inv_kernel sys_local_queue.prems) (auto elim: kernel_ok_mono)
next
  case (sys_remote_queue s this k i rq ev rq')
  then have "kernel_ok (shutdown (sctx s)) k" by (blast dest: sys_invD)
  then show ?case by (intro sys_inv_kernel sys_remote_queue.prems) (auto elim: kernel_ok_mono)
next
  case (sys_cleanup s this k key i rq)
  then have "kernel_ok (shutdown (sctx s)) k" by (blast dest: sys_invD)
  then show ?case by (intro sys_inv_kernel sys_cleanup.prems) (auto simp: CleanupQueue_def elim: kernel_ok_mono)
next
  case (sys_terminate s)
  then show ?case
    by (auto simp: Terminate_sys_def Terminate_def sys_inv_def intro: NotifyTerminate_ok split: option.splits)
qed (blast intro: valid_step [OF keeps_Kernel] valid_step [OF keeps_CreateNode] valid_step [OF keeps_CreateQueue]
  valid_step [OF keeps_CreateExternalEndpoint] valid_step [OF keeps_DestroyExternalEndpoint] valid_step [OF keeps_GetExternal(1)]
  valid_step [OF keeps_GetExternal(2)] valid_step [OF keeps_GetQueue(1)] valid_step [OF keeps_GetQueue(2)]
  valid_step [OF keeps_release(1)] valid_step [OF keeps_release(2)] valid_step [OF keeps_NodeTerminated]
  valid_step [OF keeps_signals(2)])+

lemma sys_run_inv: "sys_run pl s0 s \<Longrightarrow> sys_inv s0 \<Longrightarrow> sys_inv s"
  by (induction rule: sys_run.induct) (auto intro: sys_step_inv)

lemma new_sys_inv: "sys_inv new_sys"
  by (simp add: sys_inv_def new_sys_def)

section \<open>Shutting nodes down\<close>

lemma obj_shutdown [simp]:
  "readshutdown (obj_queue (obj_ShutdownReader o1))" "writeshutdown (obj_queue (obj_ShutdownReader o1)) = writeshutdown (obj_queue o1)"
  "writeshutdown (obj_queue (obj_ShutdownWriter o1))" "readshutdown (obj_queue (obj_ShutdownWriter o1)) = readshutdown (obj_queue o1)"
  by (cases o1; simp add: ShutdownReader_def ShutdownWriter_def)+

lemma update_queue_length [simp]: "length (update_queue f i qs) = length qs"
  by (simp add: update_queue_def)

lemma fold_update_length [simp]: "length (fold (update_queue f) js qs) = length qs"
  by (induction js arbitrary: qs) simp_all

lemma update_shut [simp]:
  assumes "i < length qs"
  shows "read_shut (update_queue obj_ShutdownReader j qs ! i) \<longleftrightarrow> read_shut (qs ! i) \<or> i = j"
    "write_shut (update_queue obj_ShutdownReader j qs ! i) = write_shut (qs ! i)"
    "write_shut (update_queue obj_ShutdownWriter j qs ! i) \<longleftrightarrow> write_shut (qs ! i) \<or> i = j"
    "read_shut (update_queue obj_ShutdownWriter j qs ! i) = read_shut (qs ! i)"
  using assms by (auto simp: update_queue_def nth_list_update read_shut_def write_shut_def)

lemma fold_shut [simp]:
  assumes "i < length qs"
  shows "read_shut (fold (update_queue obj_ShutdownReader) js qs ! i) \<longleftrightarrow> read_shut (qs ! i) \<or> i \<in> set js"
    "write_shut (fold (update_queue obj_ShutdownReader) js qs ! i) = write_shut (qs ! i)"
    "write_shut (fold (update_queue obj_ShutdownWriter) js qs ! i) \<longleftrightarrow> write_shut (qs ! i) \<or> i \<in> set js"
    "read_shut (fold (update_queue obj_ShutdownWriter) js qs ! i) = read_shut (qs ! i)"
  using assms by (induction js arbitrary: qs) auto

lemma Shutdown_node_shut [simp]:
  assumes "i < length qs"
  shows "length (Shutdown_node n qs) = length qs"
    "read_shut (Shutdown_node n qs ! i) \<longleftrightarrow> read_shut (qs ! i) \<or> i \<in> snd ` set (pn_readers n)"
    "write_shut (Shutdown_node n qs ! i) \<longleftrightarrow> write_shut (qs ! i) \<or> i \<in> snd ` set (pn_writers n)"
  using assms by (simp_all add: Shutdown_node_def)

lemma Shutdown_nodes_shut:
  assumes "i < length qs"
  shows "length (foldr Shutdown_node ns qs) = length qs \<and>
    (read_shut (foldr Shutdown_node ns qs ! i) \<longleftrightarrow> read_shut (qs ! i) \<or> (\<exists>n\<in>set ns. i \<in> snd ` set (pn_readers n))) \<and>
    (write_shut (foldr Shutdown_node ns qs ! i) \<longleftrightarrow> write_shut (qs ! i) \<or> (\<exists>n\<in>set ns. i \<in> snd ` set (pn_writers n)))"
proof (induction ns)
  case (Cons n ns)
  then have "i < length (foldr Shutdown_node ns qs)" using assms by simp
  note Shutdown_node_shut [OF this, of n]
  with Cons show ?case by auto
qed simp

section \<open>Connecting nodes\<close>

lemma extends_refl [simp]: "extends k k"
  by (auto simp: extends_def)

lemma extendsD:
  assumes "extends k k'"
  shows "k_kernelkey k' = k_kernelkey k"
    "i < length (k_queues k) \<Longrightarrow> i < length (k_queues k') \<and>
       obj_readerkey (kq_obj (k_queues k' ! i)) = obj_readerkey (kq_obj (k_queues k ! i)) \<and>
       obj_writerkey (kq_obj (k_queues k' ! i)) = obj_writerkey (kq_obj (k_queues k ! i))"
    "map_of (k_nodemap k) n = Some nd \<Longrightarrow> \<exists>nd'. map_of (k_nodemap k') n = Some nd' \<and>
       map_of (pn_readers nd) \<subseteq>\<^sub>m map_of (pn_readers nd') \<and> map_of (pn_writers nd) \<subseteq>\<^sub>m map_of (pn_writers nd')"
  using assms by (auto simp: extends_def)

lemma extends_trans:
  assumes "extends k1 k2" and "extends k2 k3"
  shows "extends k1 k3"
proof -
  have "\<exists>nd'. map_of (k_nodemap k3) n = Some nd' \<and>
      map_of (pn_readers nd) \<subseteq>\<^sub>m map_of (pn_readers nd') \<and> map_of (pn_writers nd) \<subseteq>\<^sub>m map_of (pn_writers nd')"
    if "map_of (k_nodemap k1) n = Some nd" for n nd
    using extendsD(3) [OF assms(1) that] extendsD(3) [OF assms(2), of n] by (fast intro: map_le_trans)
  moreover have "i < length (k_queues k3) \<and>
       obj_readerkey (kq_obj (k_queues k3 ! i)) = obj_readerkey (kq_obj (k_queues k1 ! i)) \<and>
       obj_writerkey (kq_obj (k_queues k3 ! i)) = obj_writerkey (kq_obj (k_queues k1 ! i))" if "i < length (k_queues k1)" for i
    using extendsD(2) [OF assms(1) that] extendsD(2) [OF assms(2), of i] by simp
  ultimately show ?thesis using extendsD(1) [OF assms(1)] extendsD(1) [OF assms(2)] by (auto simp: extends_def)
qed

lemma grows_refl [simp]: "grows s s"
  by (auto simp: grows_def)

lemma grows_kernel:
  "grows s0 s \<Longrightarrow> skernels s this = Some k \<Longrightarrow> extends k k' \<Longrightarrow> grows s0 (s\<lparr>skernels := (skernels s)(this \<mapsto> k')\<rparr>)"
  by (auto simp: grows_def) (metis extends_trans option.inject)

lemma has_grows: "has_reader a n rk wk s \<Longrightarrow> grows s s' \<Longrightarrow> has_reader a n rk wk s'"
  "has_writer a n rk wk s \<Longrightarrow> grows s s' \<Longrightarrow> has_writer a n rk wk s'"
  unfolding has_reader_def has_writer_def grows_def extends_def map_le_def dom_def by (clarsimp, metis)+

lemma signal_keys:
  "obj_SignalReaderTagChanged o1 = Inr o2 \<Longrightarrow> obj_readerkey o2 = obj_readerkey o1 \<and> obj_writerkey o2 = obj_writerkey o1"
  "obj_SignalWriterTagChanged o1 = Inr o2 \<Longrightarrow> obj_readerkey o2 = obj_readerkey o1 \<and> obj_writerkey o2 = obj_writerkey o1"
  by (cases o1; auto simp: obj_readerkey_def obj_writerkey_def result_iff UnlockedSignalReaderTagChanged_rq_def
      UnlockedSignalWriterTagChanged_rq_def)+

lemma extends_node:
  assumes "map_of (k_nodemap k) key = Some n" and "k_kernelkey k' = k_kernelkey k" and "k_nodemap k' = AList.update key n' (k_nodemap k)"
    and "map_of (pn_readers n) \<subseteq>\<^sub>m map_of (pn_readers n')" and "map_of (pn_writers n) \<subseteq>\<^sub>m map_of (pn_writers n')"
    and "\<And>i. i < length (k_queues k) \<Longrightarrow> i < length (k_queues k') \<and>
        obj_readerkey (kq_obj (k_queues k' ! i)) = obj_readerkey (kq_obj (k_queues k ! i)) \<and>
        obj_writerkey (kq_obj (k_queues k' ! i)) = obj_writerkey (kq_obj (k_queues k ! i))"
  shows "extends k k'"
  using assms by (auto simp: extends_def update_conv')

lemma fresh_le: "map_of m k = None \<Longrightarrow> map_of m \<subseteq>\<^sub>m map_of ((k, v) # m)"
  by (auto simp: map_le_def)

lemma attach_insert_extends:
  "attach_reader key i k = Inr k' \<Longrightarrow> extends k k'" "insert_reader key i k = Inr k' \<Longrightarrow> extends k k'"
  "attach_writer key i k = Inr k' \<Longrightarrow> extends k k'" "insert_writer key i k = Inr k' \<Longrightarrow> extends k k'"
proof -
  show "extends k k'" if "attach_reader key i k = Inr k'"
    using that by (auto simp: attach_reader_def Let_def result_iff nth_list_update dest: signal_keys intro!: extends_node
        split: option.splits if_splits)
  show "extends k k'" if "attach_writer key i k = Inr k'"
    using that by (auto simp: attach_writer_def Let_def result_iff nth_list_update dest: signal_keys intro!: extends_node
        split: option.splits if_splits)
  show "extends k k'" if ins: "insert_reader key i k = Inr k'"
  proof -
    let ?v = "obj_readerkey (kq_obj (k_queues k ! i))"
    obtain n where n: "map_of (k_nodemap k) key = Some n"
      using ins by (auto simp: insert_reader_def split: option.splits)
    then have "map_of (pn_readers n) ?v = None"
        "k' = k\<lparr>k_nodemap := AList.update key (n\<lparr>pn_readers := (?v, i) # pn_readers n\<rparr>) (k_nodemap k)\<rparr>"
      using ins by (simp_all add: insert_reader_def Let_def ASSERT_Inr)
    then show ?thesis using fresh_le [of "pn_readers n" ?v i]
      by (intro extends_node [OF n, where n' = "n\<lparr>pn_readers := (?v, i) # pn_readers n\<rparr>"]) simp_all
  qed
  show "extends k k'" if ins: "insert_writer key i k = Inr k'"
  proof -
    let ?v = "obj_writerkey (kq_obj (k_queues k ! i))"
    obtain n where n: "map_of (k_nodemap k) key = Some n"
      using ins by (auto simp: insert_writer_def split: option.splits)
    then have "map_of (pn_writers n) ?v = None"
        "k' = k\<lparr>k_nodemap := AList.update key (n\<lparr>pn_writers := (?v, i) # pn_writers n\<rparr>) (k_nodemap k)\<rparr>"
      using ins by (simp_all add: insert_writer_def Let_def ASSERT_Inr)
    then show ?thesis using fresh_le [of "pn_writers n" ?v i]
      by (intro extends_node [OF n, where n' = "n\<lparr>pn_writers := (?v, i) # pn_writers n\<rparr>"]) simp_all
  qed
qed

text \<open>What a method that returned has done, step by step.\<close>

lemma andthen_Returned: "andthen m f s = (Returned y, s') \<longleftrightarrow> (\<exists>x s1. m s = (Returned x, s1) \<and> f x s1 = (Returned y, s'))"
  by (auto simp: andthen_def split: prod.split outcome.split)

lemma step_Returned:
  "ret x s = (Returned y, s') \<longleftrightarrow> y = x \<and> s' = s"
  "\<not> throw e s = (Returned y, s')"
  "require b e s = (Returned u, s') \<longleftrightarrow> b \<and> s' = s"
  "ctx_ask g s = (Returned y, s') \<longleftrightarrow> g (sctx s) = Inr y \<and> s' = s"
  "ctx_do h s = (Returned u, s') \<longleftrightarrow> (\<exists>c. h (sctx s) = Inr c \<and> s' = s\<lparr>sctx := c\<rparr>)"
  "get_kernel this s = (Returned k, s') \<longleftrightarrow> skernels s this = Some k \<and> s' = s"
  "set_kernel this k s = (Returned u, s') \<longleftrightarrow> s' = s\<lparr>skernels := (skernels s)(this \<mapsto> k)\<rparr>"
  "kernel_do this f s = (Returned u, s') \<longleftrightarrow>
     (\<exists>k k'. skernels s this = Some k \<and> f k = Inr k' \<and> s' = s\<lparr>skernels := (skernels s)(this \<mapsto> k')\<rparr>)"
  by (auto simp: ret_def throw_def require_def ctx_ask_def ctx_do_def get_kernel_def set_kernel_def kernel_do_def andthen_def
      split: sum.splits option.splits)

lemma get_node_Returned: "get_node this key e s = (Returned n, s') \<Longrightarrow> s' = s"
  by (auto simp: get_node_def andthen_Returned step_Returned split: option.splits)

lemma CreateReader_Returned:
  assumes "CreateReader this n i s = (Returned u, s')" and "skernels s this = Some k"
    and "obj_readerkey (kq_obj (k_queues k ! i)) = rk" and "obj_writerkey (kq_obj (k_queues k ! i)) = wk"
  shows "grows s s'" "has_reader this n rk wk s'"
proof -
  obtain k1 k2 where k: "attach_reader n i k = Inr k1" "insert_reader n i k1 = Inr k2"
      "s' = s\<lparr>skernels := (skernels s)(this \<mapsto> k2)\<rparr>"
    using assms(1,2) by (auto simp: CreateReader_def andthen_Returned step_Returned)
  have "extends k k2" using attach_insert_extends(1,2) k(1,2) extends_trans by blast
  then show "grows s s'" using grows_kernel [of s s this k k2] assms(2) k(3) by simp
  have i: "i < length (k_queues k)" using k(1) by (auto simp: attach_reader_def Let_def split: option.splits if_splits)
  have "extends k k1" "extends k1 k2" using attach_insert_extends(1,2) k(1,2) by blast+
  with i assms(3,4) have keys: "i < length (k_queues k2)" "obj_readerkey (kq_obj (k_queues k1 ! i)) = rk"
      "obj_readerkey (kq_obj (k_queues k2 ! i)) = rk" "obj_writerkey (kq_obj (k_queues k2 ! i)) = wk"
    by (auto simp: extends_def)
  obtain nd where "map_of (k_nodemap k2) n = Some nd" "map_of (pn_readers nd) rk = Some i"
    using k(2) keys(2) by (auto simp: insert_reader_def Let_def result_iff update_conv' split: option.splits)
  with keys k(3) show "has_reader this n rk wk s'" by (auto simp: has_reader_def)
qed

lemma CreateWriter_Returned:
  assumes "CreateWriter this n i s = (Returned u, s')" and "skernels s this = Some k"
    and "obj_readerkey (kq_obj (k_queues k ! i)) = rk" and "obj_writerkey (kq_obj (k_queues k ! i)) = wk"
  shows "grows s s'" "has_writer this n rk wk s'"
    "\<exists>k'. skernels s' this = Some k' \<and> obj_readerkey (kq_obj (k_queues k' ! i)) = rk \<and> obj_writerkey (kq_obj (k_queues k' ! i)) = wk"
proof -
  obtain k1 k2 where k: "attach_writer n i k = Inr k1" "insert_writer n i k1 = Inr k2"
      "s' = s\<lparr>skernels := (skernels s)(this \<mapsto> k2)\<rparr>"
    using assms(1,2) by (auto simp: CreateWriter_def andthen_Returned step_Returned)
  have "extends k k2" using attach_insert_extends(3,4) k(1,2) extends_trans by blast
  then show "grows s s'" using grows_kernel [of s s this k k2] assms(2) k(3) by simp
  have i: "i < length (k_queues k)" using k(1) by (auto simp: attach_writer_def Let_def split: option.splits if_splits)
  have "extends k k1" "extends k1 k2" using attach_insert_extends(3,4) k(1,2) by blast+
  with i assms(3,4) have keys: "i < length (k_queues k2)" "obj_writerkey (kq_obj (k_queues k1 ! i)) = wk"
      "obj_readerkey (kq_obj (k_queues k2 ! i)) = rk" "obj_writerkey (kq_obj (k_queues k2 ! i)) = wk"
    by (auto simp: extends_def)
  obtain nd where "map_of (k_nodemap k2) n = Some nd" "map_of (pn_writers nd) wk = Some i"
    using k(2) keys(2) by (auto simp: insert_writer_def Let_def result_iff update_conv' split: option.splits)
  with keys k(3) show "has_writer this n rk wk s'"
    "\<exists>k'. skernels s' this = Some k' \<and> obj_readerkey (kq_obj (k_queues k' ! i)) = rk \<and> obj_writerkey (kq_obj (k_queues k' ! i)) = wk"
    by (auto simp: has_writer_def)
qed

lemma extends_append: "k_kernelkey k' = k_kernelkey k \<Longrightarrow> k_nodemap k' = k_nodemap k \<Longrightarrow> k_queues k' = k_queues k @ qs \<Longrightarrow> extends k k'"
  by (auto simp: extends_def nth_append)

lemma new_keys [simp]:
  "obj_readerkey (kq_obj (remote_kqueue pl k c mode attr)) = sa_readerkey attr"
  "obj_writerkey (kq_obj (remote_kqueue pl k c mode attr)) = sa_writerkey attr"
  "obj_readerkey (kq_obj (local_kqueue pl k c attr)) = sa_readerkey attr"
  "obj_writerkey (kq_obj (local_kqueue pl k c attr)) = sa_writerkey attr"
  by (simp_all add: remote_kqueue_def local_kqueue_def obj_readerkey_def obj_writerkey_def new_RemoteQueue_def
      new_ThresholdQueue_def Let_def)

lemma grows_trans: "grows s1 s2 \<Longrightarrow> grows s2 s3 \<Longrightarrow> grows s1 s3"
  unfolding grows_def by (metis extends_trans)

lemma CreateReaderEndpoint_Returned:
  assumes "CreateReaderEndpoint pl this attr s = (Returned u, s')"
  shows "grows s s'" "has_reader this (sa_readernodekey attr) (sa_readerkey attr) (sa_writerkey attr) s'"
proof -
  obtain k q s1 where k: "skernels s this = Some k" "q = remote_kqueue pl k (sctx s) READ attr"
      "s1 = s\<lparr>skernels := (skernels s)(this \<mapsto> AddQueue (obj_readerkey (kq_obj q)) (length (k_queues k)) (k\<lparr>k_queues := k_queues k @ [q]\<rparr>))\<rparr>"
      "CreateReader this (sa_readernodekey attr) (length (k_queues k)) s1 = (Returned u, s')"
    using assms by (auto simp: CreateReaderEndpoint_def andthen_Returned step_Returned dest!: get_node_Returned)
  have "grows s s1" unfolding k(3)
    by (rule grows_kernel [OF grows_refl k(1) extends_append [where qs = "[q]"]]) (simp_all add: AddQueue_def)
  moreover note CreateReader_Returned [OF k(4), where rk = "sa_readerkey attr" and wk = "sa_writerkey attr"]
  ultimately show "grows s s'" "has_reader this (sa_readernodekey attr) (sa_readerkey attr) (sa_writerkey attr) s'"
    by (auto simp: k(2,3) AddQueue_def intro: grows_trans)
qed

lemma CreateWriterEndpoint_Returned:
  assumes "CreateWriterEndpoint pl this attr s = (Returned u, s')"
  shows "grows s s'" "has_writer this (sa_writernodekey attr) (sa_readerkey attr) (sa_writerkey attr) s'"
proof -
  obtain k q s1 where k: "skernels s this = Some k" "q = remote_kqueue pl k (sctx s) WRITE attr"
      "s1 = s\<lparr>skernels := (skernels s)(this \<mapsto> AddQueue (obj_writerkey (kq_obj q)) (length (k_queues k)) (k\<lparr>k_queues := k_queues k @ [q]\<rparr>))\<rparr>"
      "CreateWriter this (sa_writernodekey attr) (length (k_queues k)) s1 = (Returned u, s')"
    using assms by (auto simp: CreateWriterEndpoint_def andthen_Returned step_Returned dest!: get_node_Returned)
  have "grows s s1" unfolding k(3)
    by (rule grows_kernel [OF grows_refl k(1) extends_append [where qs = "[q]"]]) (simp_all add: AddQueue_def)
  moreover note CreateWriter_Returned [OF k(4), where rk = "sa_readerkey attr" and wk = "sa_writerkey attr"]
  ultimately show "grows s s'" "has_writer this (sa_writernodekey attr) (sa_readerkey attr) (sa_writerkey attr) s'"
    by (auto simp: k(2,3) AddQueue_def intro: grows_trans)
qed

lemma CreateLocalQueue_Returned:
  assumes "CreateLocalQueue pl this attr s = (Returned u, s')"
  shows "grows s s'" "has_reader this (sa_readernodekey attr) (sa_readerkey attr) (sa_writerkey attr) s'"
    "has_writer this (sa_writernodekey attr) (sa_readerkey attr) (sa_writerkey attr) s'"
proof -
  obtain k q s1 u2 s2 where k: "skernels s this = Some k" "q = local_kqueue pl k (sctx s) attr"
      "s1 = s\<lparr>skernels := (skernels s)(this \<mapsto> k\<lparr>k_queues := k_queues k @ [q]\<rparr>)\<rparr>"
      "CreateWriter this (sa_writernodekey attr) (length (k_queues k)) s1 = (Returned u2, s2)"
      "CreateReader this (sa_readernodekey attr) (length (k_queues k)) s2 = (Returned u, s')"
    using assms by (auto simp: CreateLocalQueue_def andthen_Returned step_Returned dest!: get_node_Returned)
  have 1: "grows s s1" unfolding k(3)
    by (rule grows_kernel [OF grows_refl k(1) extends_append [where qs = "[q]"]]) simp_all
  have 2: "grows s1 s2" "has_writer this (sa_writernodekey attr) (sa_readerkey attr) (sa_writerkey attr) s2"
      "\<exists>k'. skernels s2 this = Some k' \<and> obj_readerkey (kq_obj (k_queues k' ! length (k_queues k))) = sa_readerkey attr \<and>
        obj_writerkey (kq_obj (k_queues k' ! length (k_queues k))) = sa_writerkey attr"
    using CreateWriter_Returned [OF k(4), of "k\<lparr>k_queues := k_queues k @ [q]\<rparr>" "sa_readerkey attr" "sa_writerkey attr"]
    by (simp_all add: k(2,3))
  have 3: "grows s2 s'" "has_reader this (sa_readernodekey attr) (sa_readerkey attr) (sa_writerkey attr) s'"
    using CreateReader_Returned [OF k(5)] 2(3) by blast+
  show "grows s s'" using 1 2(1) 3(1) grows_trans by blast
  show "has_reader this (sa_readernodekey attr) (sa_readerkey attr) (sa_writerkey attr) s'" by (rule 3)
  show "has_writer this (sa_writernodekey attr) (sa_readerkey attr) (sa_writerkey attr) s'" using 2(2) 3(1) has_grows(2) by blast
qed

lemma send_Returned:
  assumes "andthen (ctx_ask (\<lambda>c. send_create c kk (f attr))) (deliver_queue pl) s = (Returned u, s')"
  obtains a info where "kernelmap (sctx s) kk = Some info" "ki_kernel info = Some a" "deliver_queue pl (a, f attr) s = (Returned u, s')"
  using assms by (auto simp: andthen_Returned step_Returned send_create_def split: option.splits)

lemma remote_Returned:
  "deliver_queue pl (a, RemoteCreateWriter attr) s = (Returned u, s') \<Longrightarrow>
     grows s s' \<and> has_writer a (sa_writernodekey attr) (sa_readerkey attr) (sa_writerkey attr) s'"
  "deliver_queue pl (a, RemoteCreateReader attr) s = (Returned u, s') \<Longrightarrow>
     grows s s' \<and> has_reader a (sa_readernodekey attr) (sa_readerkey attr) (sa_writerkey attr) s'"
  "deliver_queue pl (a, RemoteCreateQueue attr) s = (Returned u, s') \<Longrightarrow>
     grows s s' \<and> has_reader a (sa_readernodekey attr) (sa_readerkey attr) (sa_writerkey attr) s' \<and>
     has_writer a (sa_writernodekey attr) (sa_readerkey attr) (sa_writerkey attr) s'"
  by (auto simp: RemoteCreateWriter_k_def RemoteCreateReader_k_def RemoteCreateQueue_k_def andthen_Returned step_Returned
      dest: CreateReaderEndpoint_Returned CreateWriterEndpoint_Returned CreateLocalQueue_Returned)

lemma at_kernel_grows: "at_kernel this s kk a \<Longrightarrow> grows s s' \<Longrightarrow> at_kernel this s' kk a"
  unfolding at_kernel_def grows_def extends_def by metis

lemma place_queue_Returned:
  assumes "place_queue pl this attr rkk wkk s = (Returned u, s')"
  shows "sctx s' = sctx s \<and>
    (\<exists>a. at_kernel this s' rkk a \<and> has_reader a (sa_readernodekey attr) (sa_readerkey attr) (sa_writerkey attr) s') \<and>
    (\<exists>b. at_kernel this s' wkk b \<and> has_writer b (sa_writernodekey attr) (sa_readerkey attr) (sa_writerkey attr) s')"
proof -
  obtain k where k: "skernels s this = Some k" using assms by (auto simp: place_queue_def andthen_Returned step_Returned)
  let ?R = "\<lambda>a. has_reader a (sa_readernodekey attr) (sa_readerkey attr) (sa_writerkey attr)"
  let ?W = "\<lambda>a. has_writer a (sa_writernodekey attr) (sa_readerkey attr) (sa_writerkey attr)"
  have here: "at_kernel this s (k_kernelkey k) this" using k by (simp add: at_kernel_def)
  have there: "at_kernel this s1 kk a" if "kernelmap (sctx s1) kk = Some info" "ki_kernel info = Some a" for s1 kk a info
    using that by (auto simp: at_kernel_def)
  have result: ?thesis if "grows s s'" "at_kernel this s rkk a" "?R a s'" "at_kernel this s wkk b" "?W b s'" for a b
    using that at_kernel_grows [OF _ that(1)] by (auto simp: grows_def)
  consider (loc) "rkk = wkk" "rkk = k_kernelkey k" | (far) "rkk = wkk" "rkk \<noteq> k_kernelkey k"
    | (read) "rkk \<noteq> wkk" "rkk = k_kernelkey k" | (wri) "rkk \<noteq> wkk" "rkk \<noteq> k_kernelkey k" "wkk = k_kernelkey k"
    | (none) "rkk \<noteq> wkk" "rkk \<noteq> k_kernelkey k" "wkk \<noteq> k_kernelkey k" by blast
  then show ?thesis
  proof cases
    case loc
    then have "CreateLocalQueue pl this attr s = (Returned u, s')" using assms k by (simp add: place_queue_def andthen_Returned step_Returned)
    from CreateLocalQueue_Returned [OF this] result here loc show ?thesis by blast
  next
    case far
    then have "andthen (ctx_ask (\<lambda>c. SendCreateQueue c rkk attr)) (deliver_queue pl) s = (Returned u, s')"
      using assms k by (auto simp: place_queue_def andthen_Returned step_Returned)
    then obtain a info where "kernelmap (sctx s) rkk = Some info" "ki_kernel info = Some a"
        "deliver_queue pl (a, RemoteCreateQueue attr) s = (Returned u, s')"
      unfolding SendCreateQueue_def by (rule send_Returned)
    with remote_Returned(3) result there far(1) show ?thesis by blast
  next
    case read
    then obtain u1 s1 where s1: "CreateReaderEndpoint pl this attr s = (Returned u1, s1)"
        "andthen (ctx_ask (\<lambda>c. SendCreateWriter c wkk attr)) (deliver_queue pl) s1 = (Returned u, s')"
      using assms k by (auto simp: place_queue_def andthen_Returned step_Returned)
    note c = CreateReaderEndpoint_Returned [OF s1(1)]
    obtain b info where b: "kernelmap (sctx s1) wkk = Some info" "ki_kernel info = Some b"
        "deliver_queue pl (b, RemoteCreateWriter attr) s1 = (Returned u, s')"
      using s1(2) unfolding SendCreateWriter_def by (rule send_Returned)
    have "at_kernel this s wkk b" using b(1,2) c(1) by (auto simp: at_kernel_def grows_def)
    with remote_Returned(1) [OF b(3)] c result [of this b] here read(2) has_grows(1) grows_trans show ?thesis by blast
  next
    case wri
    then obtain u1 s1 where s1: "CreateWriterEndpoint pl this attr s = (Returned u1, s1)"
        "andthen (ctx_ask (\<lambda>c. SendCreateReader c rkk attr)) (deliver_queue pl) s1 = (Returned u, s')"
      using assms k by (auto simp: place_queue_def andthen_Returned step_Returned)
    note c = CreateWriterEndpoint_Returned [OF s1(1)]
    obtain a info where a: "kernelmap (sctx s1) rkk = Some info" "ki_kernel info = Some a"
        "deliver_queue pl (a, RemoteCreateReader attr) s1 = (Returned u, s')"
      using s1(2) unfolding SendCreateReader_def by (rule send_Returned)
    have "at_kernel this s rkk a" using a(1,2) c(1) by (auto simp: at_kernel_def grows_def)
    with remote_Returned(2) [OF a(3)] c result [of a this] here wri(3) has_grows(2) grows_trans show ?thesis by blast
  next
    case none
    then obtain u1 s1 where s1: "andthen (ctx_ask (\<lambda>c. SendCreateWriter c wkk attr)) (deliver_queue pl) s = (Returned u1, s1)"
        "andthen (ctx_ask (\<lambda>c. SendCreateReader c rkk attr)) (deliver_queue pl) s1 = (Returned u, s')"
      using assms k by (auto simp: place_queue_def andthen_Returned [of "require _ _"] andthen_Returned [of "get_kernel _"]
          andthen_Returned [of "andthen _ _"] step_Returned)
    obtain b info where b: "kernelmap (sctx s) wkk = Some info" "ki_kernel info = Some b"
        "deliver_queue pl (b, RemoteCreateWriter attr) s = (Returned u1, s1)"
      using s1(1) unfolding SendCreateWriter_def by (rule send_Returned)
    obtain a info' where a: "kernelmap (sctx s1) rkk = Some info'" "ki_kernel info' = Some a"
        "deliver_queue pl (a, RemoteCreateReader attr) s1 = (Returned u, s')"
      using s1(2) unfolding SendCreateReader_def by (rule send_Returned)
    have "at_kernel this s rkk a" "at_kernel this s wkk b"
      using a(1,2) b(1,2) remote_Returned(1) [OF b(3)] by (auto simp: at_kernel_def grows_def)
    with remote_Returned(1) [OF b(3)] remote_Returned(2) [OF a(3)] result [of a b] has_grows(2) grows_trans show ?thesis by blast
  qed
qed

lemma ctx_Returned:
  "ctx_new f s = (Returned x, s') \<longleftrightarrow> (\<exists>c. f (sctx s) = Inr (x, c) \<and> s' = s\<lparr>sctx := c\<rparr>)"
  "ctx_wait g s = (Returned y, s') \<longleftrightarrow> g (sctx s) = Returned y \<and> s' = s"
  by (auto simp: ctx_new_def ctx_wait_def split: sum.splits)

lemma ports_kept:
  "GetCreateReaderKey c nk p = Inr (k, c') \<Longrightarrow> nodenames c' = nodenames c \<and> node_port ni_readers c' nk p = Some k"
  "GetCreateWriterKey c nk p = Inr (k, c') \<Longrightarrow> nodenames c' = nodenames c \<and> node_port ni_writers c' nk p = Some k \<and>
     node_port ni_readers c' = node_port ni_readers c"
  "ConnectEndpoints c wk rk q = Inr c' \<Longrightarrow> nodenames c' = nodenames c \<and> node_port ni_readers c' = node_port ni_readers c \<and>
     node_port ni_writers c' = node_port ni_writers c \<and> GetWritersReader c' wk = Inr rk \<and> GetReadersWriter c' rk = Inr wk"
  by (auto simp: GetCreateReaderKey_def GetCreateWriterKey_def ConnectEndpoints_def GetWritersReader_def GetReadersWriter_def
      node_port_def fun_eq_iff Let_def split: option.splits if_splits)

lemma WaitForNodeStart_name: "WaitForNodeStart c n = Returned k \<Longrightarrow> nodenames c n = Some k"
  by (auto simp: WaitForNodeStart_def split: if_splits option.splits)

lemma find_reader_Returned:
  assumes "find_reader qa s = (Returned (rn, rk), s1)"
  shows "\<exists>c. s1 = s\<lparr>sctx := c\<rparr> \<and> nodenames c = nodenames (sctx s) \<and> (qa_readerkey qa \<noteq> 0 \<longrightarrow> rk = qa_readerkey qa) \<and>
    (qa_readerkey qa = 0 \<longrightarrow> node_port ni_readers c rn (qa_readerportname qa) = Some rk) \<and>
    (qa_readernodekey qa \<noteq> 0 \<longrightarrow> rn = qa_readernodekey qa) \<and>
    (qa_readerkey qa = 0 \<and> qa_readernodekey qa = 0 \<longrightarrow> nodenames c (qa_readernodename qa) = Some rn)"
  using assms
  by (cases "qa_readerkey qa = 0"; cases "qa_readernodekey qa = 0")
    (auto simp: find_reader_def andthen_Returned step_Returned ctx_Returned dest!: ports_kept WaitForNodeStart_name
      intro!: exI [of _ "sctx s1"])

lemma find_writer_Returned:
  assumes "find_writer qa s = (Returned (wn, wk), s1)"
  shows "\<exists>c. s1 = s\<lparr>sctx := c\<rparr> \<and> nodenames c = nodenames (sctx s) \<and> (qa_writerkey qa \<noteq> 0 \<longrightarrow> wk = qa_writerkey qa) \<and>
    (qa_writerkey qa = 0 \<longrightarrow> node_port ni_writers c wn (qa_writerportname qa) = Some wk) \<and>
    (qa_writernodekey qa \<noteq> 0 \<longrightarrow> wn = qa_writernodekey qa) \<and>
    (qa_writerkey qa = 0 \<and> qa_writernodekey qa = 0 \<longrightarrow> nodenames c (qa_writernodename qa) = Some wn) \<and>
    node_port ni_readers c = node_port ni_readers (sctx s)"
  using assms
  by (cases "qa_writerkey qa = 0"; cases "qa_writernodekey qa = 0")
    (auto simp: find_writer_def andthen_Returned step_Returned ctx_Returned dest!: ports_kept WaitForNodeStart_name
      intro!: exI [of _ "sctx s1"])


lemmas kernel_eval = andthen_def ctx_new_def ctx_do_def ctx_ask_def ctx_wait_def get_kernel_def set_kernel_def ret_def throw_def
  require_def get_node_def kernel_do_def map_insert_def Let_def u64_def

lemma demo_sys1_eq:
  "demo_sys1 = \<lparr>sctx = \<lparr>loglevel = 75, kernelnames = [''k'' \<mapsto> 1], nodenames = Map.empty,
     kernelmap = [1 \<mapsto> \<lparr>ki_name = ''k'', ki_hostname = [], ki_servname = [], ki_kernel = Some 10, ki_live = False, ki_dead = False,
       ki_allowremote = False\<rparr>], nodemap = Map.empty, readports = Map.empty, writeports = Map.empty, numlivenodes = 0, shutdown = False, counter = 1\<rparr>,
     skernels = [10 \<mapsto> demo_kernel]\<rparr>"
  by (simp add: demo_sys1_def Kernel_def kernel_eval SetupKernel_def SetupKernel_info_def checked_def new_sys_def new_LocalContext_def
      NewKey_def new_KernelAttr_def demo_kernel_def)

lemma demo_created: "fst (CreateQueue demo_pl 10 demo_qattr demo_sys2) = Returned ()"
  by (simp add: demo_sys2_def demo_sys1_eq demo_qattr_def CreateExternalEndpoint_def kernel_eval CreateNodeKey_def checked_def NewKey_def
      SignalNodeStart_def new_PseudoNode_def CreateQueue_def find_reader_def find_writer_def WaitForNodeStart_def
      SetExternalWriter_def SetExternalReader_def SetReader_def SetWriter_def new_QueueAttr_def GetCreateReaderKey_def
      GetCreateWriterKey_def new_port_def ConnectEndpoints_def GetNodeKernel_def place_queue_def CreateLocalQueue_def
      CreateWriter_def CreateReader_def attach_writer_def attach_reader_def insert_writer_def insert_reader_def demo_kernel_def new_kernel_def
      local_kqueue_def)

lemma demo_started: "\<exists>s. sys_run demo_pl new_sys s \<and> skernels s 10 = Some (demo_kernel\<lparr>k_status := RUNNING, k_pc := K_loop\<rparr>) \<and>
   nodenames (sctx s) = Map.empty \<and> counter (sctx s) = 1 \<and> \<not> shutdown (sctx s) \<and>
   kernelmap (sctx s) 1 = Some \<lparr>ki_name = ''k'', ki_hostname = [], ki_servname = [], ki_kernel = Some 10, ki_live = True, ki_dead = False,
       ki_allowremote = False\<rparr>"
proof -
  have "sys_step demo_pl new_sys demo_sys1"
    unfolding demo_sys1_def by (rule sys_kernel [where this = 10]) (auto simp: new_sys_def prod_eq_iff)
  then have r1: "sys_run demo_pl new_sys demo_sys1" by (rule sys_run_step [OF sys_run_start])
  have k: "skernels demo_sys1 10 = Some demo_kernel" "k_pc demo_kernel = K_start" "k_status demo_kernel = INITIALIZED"
      "k_kernelkey demo_kernel = 1" "k_garbagenodes demo_kernel = []"
    by (simp_all add: demo_sys1_eq demo_kernel_def new_kernel_def)
  obtain c where c: "SignalKernelStart (sctx demo_sys1) 1 = Inr c" "nodenames c = Map.empty" "counter c = 1" "\<not> shutdown c"
     "kernelmap c 1 = Some \<lparr>ki_name = ''k'', ki_hostname = [], ki_servname = [], ki_kernel = Some 10, ki_live = True, ki_dead = False,
       ki_allowremote = False\<rparr>"
    by (simp add: demo_sys1_eq SignalKernelStart_def checked_def)
  have "kernel_step 10 demo_sys1 \<lparr>sctx = c, skernels = (skernels demo_sys1)(10 \<mapsto> (ClearGarbage (demo_kernel\<lparr>k_status := RUNNING\<rparr>))\<lparr>k_pc := K_loop\<rparr>)\<rparr>"
    using k_started [OF k(1,2) refl, of c] k c(1) by simp
  from sys_run_step [OF r1 sys_thread [OF this]] show ?thesis using c(2-) k(5) by (intro exI conjI) (assumption | simp add: ClearGarbage.simps)+
qed

lemma demo_busy:
  "\<exists>s k. sys_run demo_pl new_sys s \<and> skernels s 10 = Some k \<and> k_pc k = K_loop \<and> k_status k = RUNNING \<and> \<not> k_useremote k \<and>
     k_nodecond_signal k \<and> k_garbagenodes k = []"
proof -
  let ?k = "demo_kernel\<lparr>k_status := RUNNING, k_pc := K_loop\<rparr>"
  obtain s where s: "sys_run demo_pl new_sys s" "skernels s 10 = Some ?k" "nodenames (sctx s) = Map.empty" "counter (sctx s) = 1"
      "\<not> shutdown (sctx s)" using demo_started by blast
  let ?n = "new_PseudoNode ''r'' 2 (Some False)"
  have key: "NewKey (sctx s) = 2" using s(4) by (simp add: NewKey_def u64_def)
  obtain c where c: "CreateExternalEndpoint 10 ''r'' False s = (Returned (), \<lparr>sctx = c, skernels = (skernels s)(10 \<mapsto> ?k\<lparr>k_nodemap := [(2, ?n)]\<rparr>)\<rparr>)"
      "nodenames c ''r'' = Some 2" "\<not> shutdown c" "nodemap c 2 \<noteq> None"
    using s(2,3,5) key by (cases s) (simp add: CreateExternalEndpoint_def kernel_eval CreateNodeKey_def checked_def SignalNodeStart_def
        demo_kernel_def new_kernel_def)
  let ?s2 = "\<lparr>sctx = c, skernels = (skernels s)(10 \<mapsto> ?k\<lparr>k_nodemap := [(2, ?n)]\<rparr>)\<rparr>"
  have r2: "sys_run demo_pl new_sys ?s2" by (rule sys_run_step [OF s(1) sys_external [OF c(1)]])
  let ?k3 = "?k\<lparr>k_nodecond_signal := True, k_garbagenodes := [?n]\<rparr>"
  obtain info where info: "nodemap c 2 = Some info" using c(4) by blast
  have fe: "find_external 10 ''r'' ?s2 = (Returned (2, ?n), ?s2)"
    using c(2,3) by (simp add: find_external_def kernel_eval GetNodeKey_def checked_def IsPurePseudo_def new_PseudoNode_def) blast
  define c' where "c' = c\<lparr>nodemap := (nodemap c)(2 \<mapsto> info\<lparr>ni_dead := True\<rparr>), numlivenodes := sub32 (numlivenodes c) 1\<rparr>"
  have nt: "NodeTerminated 10 2 ?s2 = (Returned (), \<lparr>sctx = c', skernels = (skernels s)(10 \<mapsto> ?k3)\<rparr>)"
    using info by (simp add: NodeTerminated_def kernel_eval SignalNodeEnd_def bury_node_def SendWakeup_def demo_kernel_def new_kernel_def c'_def)
  have c': "DestroyExternalEndpoint 10 ''r'' ?s2 = (Returned (), \<lparr>sctx = c', skernels = (skernels s)(10 \<mapsto> ?k3)\<rparr>)"
    by (simp only: DestroyExternalEndpoint_def andthen_def fe nt prod.case outcome.case)
  let ?s3 = "\<lparr>sctx = c', skernels = (skernels s)(10 \<mapsto> ?k3)\<rparr>"
  have r3: "sys_run demo_pl new_sys ?s3" by (rule sys_run_step [OF r2 sys_destroy [OF c']])
  have "kernel_step 10 ?s3 (?s3\<lparr>skernels := (skernels ?s3)(10 \<mapsto> ClearGarbage ?k3)\<rparr>)"
    by (rule k_loop_again) (simp_all add: demo_kernel_def new_kernel_def)
  from sys_run_step [OF r3 sys_thread [OF this]] show ?thesis
    by (intro exI [of _ "ClearGarbage ?k3"] exI conjI, assumption) (simp_all add: ClearGarbage_eq demo_kernel_def new_kernel_def)
qed

lemma demo_done:
  "\<exists>s k. sys_run demo_pl new_sys s \<and> skernels s 10 = Some k \<and> k_status k = DONE"
proof -
  let ?k = "demo_kernel\<lparr>k_status := RUNNING, k_pc := K_loop\<rparr>"
  obtain s where s: "sys_run demo_pl new_sys s" "skernels s 10 = Some ?k"
      "kernelmap (sctx s) 1 = Some \<lparr>ki_name = ''k'', ki_hostname = [], ki_servname = [], ki_kernel = Some 10, ki_live = True, ki_dead = False,
       ki_allowremote = False\<rparr>" using demo_started by blast
  let ?s1 = "Terminate_sys s"
  have r1: "sys_run demo_pl new_sys ?s1" by (rule sys_run_step [OF s(1) sys_terminate])
  let ?k1 = "?k\<lparr>k_status := TERMINATE, k_nodecond_signal := True\<rparr>"
  have k1: "skernels ?s1 10 = Some ?k1" "kernelmap (sctx ?s1) 1 = kernelmap (sctx s) 1"
    using s(2,3) by (simp_all add: Terminate_sys_def Terminate_def terminate_notifies_def NotifyTerminate_k_def SendWakeup_def
        demo_kernel_def new_kernel_def)
  have leave: "leave_loop ?k1 = ?k1\<lparr>k_pc := K_closing\<rparr>" by (simp add: leave_loop_def demo_kernel_def new_kernel_def)
  let ?s2 = "?s1\<lparr>skernels := (skernels ?s1)(10 \<mapsto> ?k1\<lparr>k_pc := K_closing\<rparr>)\<rparr>"
  have r2: "sys_run demo_pl new_sys ?s2"
    by (rule sys_run_step [OF r1 sys_thread [OF k_loop_ends [OF k1(1), unfolded leave]]]) simp_all
  let ?s3 = "?s2\<lparr>skernels := (skernels ?s2)(10 \<mapsto> (ClearGarbage (?k1\<lparr>k_pc := K_closing\<rparr>))\<lparr>k_pc := K_nodes\<rparr>)\<rparr>"
  have r3: "sys_run demo_pl new_sys ?s3"
    by (rule sys_run_step [OF r2 sys_thread [OF k_closes]]) (simp_all add: demo_kernel_def new_kernel_def)
  obtain c where "SignalKernelEnd (sctx ?s3) 1 = Inr c" using s(3) k1(2) by (simp add: SignalKernelEnd_def)
  moreover define k4 where "k4 = (ClearGarbage ((ClearGarbage (?k1\<lparr>k_pc := K_closing\<rparr>))\<lparr>k_pc := K_nodes\<rparr>))\<lparr>k_status := DONE, k_pc := K_end\<rparr>"
  ultimately have "kernel_step 10 ?s3 \<lparr>sctx = c, skernels = (skernels ?s3)(10 \<mapsto> k4)\<rparr>"
    unfolding k4_def by (intro k_ends) (simp_all add: ClearGarbage_eq demo_kernel_def new_kernel_def)
  from sys_run_step [OF r3 sys_thread [OF this]] show ?thesis
    by (intro exI [of _ k4] exI conjI, assumption) (simp_all add: k4_def)
qed


section \<open>Properties\<close>

text \<open>C6: when \<open>CreateQueue\<close> returns, the two ports it was asked for are each other's opposite in the context,
  and the kernel of the reading node, the caller or another, has given that node a queue at the
  reading port, the kernel of the writing node has given that node a queue at the writing port, both
  with exactly these two port keys. Ends named by node and port name are the ones with these names.\<close>

theorem create_queue_connects:
  assumes "CreateQueue pl this qattr s = (Returned u, s')"
  shows "\<exists>rn rk wn wk rkk wkk a b. GetReadersWriter (sctx s') rk = Inr wk \<and> GetWritersReader (sctx s') wk = Inr rk \<and>
    GetNodeKernel (sctx s') rn = Inr rkk \<and> at_kernel this s' rkk a \<and> has_reader a rn rk wk s' \<and>
    GetNodeKernel (sctx s') wn = Inr wkk \<and> at_kernel this s' wkk b \<and> has_writer b wn rk wk s' \<and>
    (qa_readerkey qattr = 0 \<longrightarrow> node_port ni_readers (sctx s') rn (qa_readerportname qattr) = Some rk) \<and>
    (qa_writerkey qattr = 0 \<longrightarrow> node_port ni_writers (sctx s') wn (qa_writerportname qattr) = Some wk) \<and>
    (qa_readerkey qattr = 0 \<and> qa_readernodekey qattr = 0 \<longrightarrow> nodenames (sctx s') (qa_readernodename qattr) = Some rn) \<and>
    (qa_writerkey qattr = 0 \<and> qa_writernodekey qattr = 0 \<longrightarrow> nodenames (sctx s') (qa_writernodename qattr) = Some wn)"
proof -
  obtain rn rk s1 wn wk s2 c rkk wkk where
    r: "find_reader qattr s = (Returned (rn, rk), s1)" and w: "find_writer qattr s1 = (Returned (wn, wk), s2)"
    and c: "ConnectEndpoints (sctx s2) wk rk (qa_queuename qattr) = Inr c"
    and k: "GetNodeKernel c rn = Inr rkk" "GetNodeKernel c wn = Inr wkk"
    and p: "place_queue pl this ((simple_attr qattr)\<lparr>sa_readernodekey := rn, sa_readerkey := rk, sa_writernodekey := wn, sa_writerkey := wk\<rparr>)
      rkk wkk (s2\<lparr>sctx := c\<rparr>) = (Returned u, s')"
    using assms unfolding CreateQueue_def by (auto simp: andthen_Returned step_Returned)
  from place_queue_Returned [OF p] obtain a b where ab: "sctx s' = c" "at_kernel this s' rkk a" "has_reader a rn rk wk s'"
      "at_kernel this s' wkk b" "has_writer b wn rk wk s'" by auto
  note R = find_reader_Returned [OF r] and W = find_writer_Returned [OF w] and C = ports_kept(3) [OF c]
  have names: "qa_readerkey qattr = 0 \<longrightarrow> node_port ni_readers (sctx s') rn (qa_readerportname qattr) = Some rk"
    "qa_writerkey qattr = 0 \<longrightarrow> node_port ni_writers (sctx s') wn (qa_writerportname qattr) = Some wk"
    "qa_readerkey qattr = 0 \<and> qa_readernodekey qattr = 0 \<longrightarrow> nodenames (sctx s') (qa_readernodename qattr) = Some rn"
    "qa_writerkey qattr = 0 \<and> qa_writernodekey qattr = 0 \<longrightarrow> nodenames (sctx s') (qa_writernodename qattr) = Some wn"
    using R W C ab(1) by auto
  show ?thesis
    by (rule exI [of _ rn], rule exI [of _ rk], rule exI [of _ wn], rule exI [of _ wk], rule exI [of _ rkk], rule exI [of _ wkk],
        rule exI [of _ a], rule exI [of _ b]) (use C ab k names in simp)
qed

theorem create_queue_connects_witness:
  "\<exists>s' rn rk a. CreateQueue demo_pl 10 demo_qattr demo_sys2 = (Returned (), s') \<and>
     nodenames (sctx s') ''r'' = Some rn \<and> node_port ni_readers (sctx s') rn ''r'' = Some rk \<and> (\<exists>wk. has_reader a rn rk wk s')"
proof -
  obtain s' where s': "CreateQueue demo_pl 10 demo_qattr demo_sys2 = (Returned (), s')"
    using demo_created by (cases "CreateQueue demo_pl 10 demo_qattr demo_sys2") auto
  have "qa_readerkey demo_qattr = 0" "qa_readernodekey demo_qattr = 0" "qa_readernodename demo_qattr = ''r''" "qa_readerportname demo_qattr = ''r''"
    by (simp_all add: demo_qattr_def SetExternalWriter_def SetExternalReader_def SetReader_def SetWriter_def new_QueueAttr_def)
  with create_queue_connects [OF s'] s' show ?thesis by metis
qed

text \<open>an end that is described by no key and no node name, or by a node but no port, makes \<open>CreateQueue\<close>
  throw \<open>invalid_argument\<close> with nothing changed, when it is the reading end or the reading end is
  given by its keys.\<close>

theorem create_queue_rejects:
  "(qa_readerkey qa = 0 \<and> (qa_readernodekey qa = 0 \<and> qa_readernodename qa = [] \<or> qa_readernodekey qa \<noteq> 0 \<and> qa_readerportname qa = []) \<longrightarrow>
      CreateQueue pl this qa s = (Throws InvalidArgument, s)) \<and>
   (qa_readerkey qa \<noteq> 0 \<and> qa_readernodekey qa \<noteq> 0 \<and> qa_writerkey qa = 0 \<and>
      (qa_writernodekey qa = 0 \<and> qa_writernodename qa = [] \<or> qa_writernodekey qa \<noteq> 0 \<and> qa_writerportname qa = []) \<longrightarrow>
      CreateQueue pl this qa s = (Throws InvalidArgument, s))"
  by (auto simp: CreateQueue_def find_reader_def find_writer_def andthen_def require_def throw_def ret_def)



text \<open>\<open>ClearGarbage\<close> ends, empties the list, and shuts down exactly the reading side of the queues the
  ended nodes read and the writing side of those they wrote, in addition to what was shut down.\<close>

theorem clear_garbage_shuts:
  "k_garbagenodes (ClearGarbage k) = [] \<and> k_nodemap (ClearGarbage k) = k_nodemap k \<and>
   length (k_queues (ClearGarbage k)) = length (k_queues k) \<and>
   (\<forall>i<length (k_queues k).
      (read_shut (k_queues (ClearGarbage k) ! i) \<longleftrightarrow>
         read_shut (k_queues k ! i) \<or> (\<exists>n\<in>set (k_garbagenodes k). i \<in> snd ` set (pn_readers n))) \<and>
      (write_shut (k_queues (ClearGarbage k) ! i) \<longleftrightarrow>
         write_shut (k_queues k ! i) \<or> (\<exists>n\<in>set (k_garbagenodes k). i \<in> snd ` set (pn_writers n))))"
proof -
  have len: "length (foldr Shutdown_node ns qs) = length qs" for ns qs
    by (induction ns) (simp_all add: Shutdown_node_def)
  show ?thesis using Shutdown_nodes_shut len by (auto simp: ClearGarbage_eq)
qed



text \<open>C26: when the reading port of a new local queue is taken already, the assertion that refuses the queue
  comes after the writing node has been given it: that node is left with a queue nobody reads.\<close>

theorem local_queue_port_taken:
  assumes "skernels s this = Some k" and "map_of (k_nodemap k) (sa_readernodekey attr) = Some nr"
    and "map_of (k_nodemap k) (sa_writernodekey attr) = Some nw" and "map_of (pn_readers nr) (sa_readerkey attr) = Some i"
    and "map_of (pn_writers nw) (sa_writerkey attr) = None"
  shows "\<exists>s'. CreateLocalQueue pl this attr s = (Throws AssertException, s') \<and>
    has_writer this (sa_writernodekey attr) (sa_readerkey attr) (sa_writerkey attr) s' \<and>
    (\<exists>k' nr'. skernels s' this = Some k' \<and> map_of (k_nodemap k') (sa_readernodekey attr) = Some nr' \<and>
       map_of (pn_readers nr') (sa_readerkey attr) = Some i)"
proof -
  let ?rn = "sa_readernodekey attr" and ?wn = "sa_writernodekey attr" and ?rk = "sa_readerkey attr" and ?wk = "sa_writerkey attr"
  let ?q = "local_kqueue pl k (sctx s) attr" and ?n = "length (k_queues k)"
  let ?k1 = "k\<lparr>k_queues := k_queues k @ [?q]\<rparr>"
  let ?s1 = "s\<lparr>skernels := (skernels s)(this \<mapsto> ?k1)\<rparr>"
  obtain o1 where o1: "kq_obj ?q = Local_queue o1" by (simp add: local_kqueue_def)
  obtain k2 where k2: "attach_writer ?wn ?n ?k1 = Inr k2" "map_of (k_nodemap k2) ?wn = Some (nw\<lparr>pn_d4rwriters := pn_d4rwriters nw @ [?n]\<rparr>)"
      "obj_writerkey (kq_obj (k_queues k2 ! ?n)) = ?wk" "kq_obj (k_queues k2 ! ?n) = Local_queue o1"
    using assms(3) o1 new_keys(4) [of pl k "sctx s" attr] by (simp add: attach_writer_def Let_def update_conv')
  then obtain k3 where k3: "insert_writer ?wn ?n k2 = Inr k3" using assms(5) by (simp add: insert_writer_def Let_def)
  have ext: "extends ?k1 k3" using attach_insert_extends(3) [OF k2(1)] attach_insert_extends(4) [OF k3] by (rule extends_trans)
  have w: "CreateWriter this ?wn ?n ?s1 = (Returned (), s\<lparr>skernels := (skernels s)(this \<mapsto> k3)\<rparr>)"
    using k2(1) k3 by (simp add: CreateWriter_def kernel_eval)
  have len: "?n < length (k_queues k3)" "obj_readerkey (kq_obj (k_queues k3 ! ?n)) = ?rk" using extendsD(2) [OF ext, of ?n] by simp_all
  obtain nr3 where nr3: "map_of (k_nodemap k3) ?rn = Some nr3" "map_of (pn_readers nr3) ?rk = Some i"
    using extendsD(3) [OF ext, of ?rn nr] assms(2,4) by (auto simp: map_le_def dom_def)
  have o3: "kq_obj (k_queues k3 ! ?n) = Local_queue o1"
    using k2(2,4) k3 by (auto simp: insert_writer_def Let_def ASSERT_Inr)
  obtain k4 where k4: "attach_reader ?rn ?n k3 = Inr k4" "map_of (k_nodemap k4) ?rn = Some (nr3\<lparr>pn_d4rreaders := pn_d4rreaders nr3 @ [?n]\<rparr>)"
      "obj_readerkey (kq_obj (k_queues k4 ! ?n)) = ?rk"
    using nr3(1) len o3 by (simp add: attach_reader_def Let_def update_conv')
  then have fail: "insert_reader ?rn ?n k4 = Inl AssertException" using nr3(2) by (simp add: insert_reader_def)
  let ?s4 = "s\<lparr>skernels := (skernels s)(this \<mapsto> k4)\<rparr>"
  have r: "CreateReader this ?rn ?n (s\<lparr>skernels := (skernels s)(this \<mapsto> k3)\<rparr>) = (Throws AssertException, ?s4)"
    using k4(1) fail by (simp add: CreateReader_def kernel_eval)
  have "CreateLocalQueue pl this attr s = (Throws AssertException, ?s4)"
    using assms(1-3) w r by (simp add: CreateLocalQueue_def kernel_eval)
  moreover have "has_writer this ?wn ?rk ?wk (s\<lparr>skernels := (skernels s)(this \<mapsto> k3)\<rparr>)"
    by (rule CreateWriter_Returned(2) [OF w, of ?k1]) simp_all
  then have "has_writer this ?wn ?rk ?wk ?s4"
    by (rule has_grows(2)) (use grows_kernel [OF grows_refl, of "s\<lparr>skernels := (skernels s)(this \<mapsto> k3)\<rparr>" this k3 k4]
      attach_insert_extends(1) [OF k4(1)] in simp)
  ultimately show ?thesis using k4(2) nr3(2) by auto
qed

theorem local_queue_port_taken_witness:
  "\<exists>s'. CreateLocalQueue demo_pl 10 (demo_remote_attr\<lparr>sa_readernodekey := 3, sa_writernodekey := 4\<rparr>)
     (new_sys\<lparr>skernels := [10 \<mapsto> demo_kernel\<lparr>k_nodemap := [(3, (new_PseudoNode ''r'' 3 None)\<lparr>pn_readers := [(1, 0)]\<rparr>), (4, new_PseudoNode ''w'' 4 None)]\<rparr>]\<rparr>)
     = (Throws AssertException, s') \<and> has_writer 10 4 1 2 s'"
  using local_queue_port_taken [of "new_sys\<lparr>skernels := [10 \<mapsto> demo_kernel\<lparr>k_nodemap := [(3, (new_PseudoNode ''r'' 3 None)\<lparr>pn_readers := [(1, 0)]\<rparr>), (4, new_PseudoNode ''w'' 4 None)]\<rparr>]\<rparr>" 10
      "demo_kernel\<lparr>k_nodemap := [(3, (new_PseudoNode ''r'' 3 None)\<lparr>pn_readers := [(1, 0)]\<rparr>), (4, new_PseudoNode ''w'' 4 None)]\<rparr>"
      "demo_remote_attr\<lparr>sa_readernodekey := 3, sa_writernodekey := 4\<rparr>"
      "(new_PseudoNode ''r'' 3 None)\<lparr>pn_readers := [(1, 0)]\<rparr>" "new_PseudoNode ''w'' 4 None" 0 demo_pl]
  by (auto simp: demo_remote_attr_def simple_attr_def new_QueueAttr_def new_PseudoNode_def)

end
