(* ===== verification/VariantM.thy ===== *)
theory VariantM
  imports Prelude Complex_Main "HOL-Library.Sublist"
begin

text \<open>
  Configuration values: the class \<open>Variant\<close> (libraries/Variant/Variant.cc, Variant.h) and \<open>ParseBool\<close>
  (ParseBool.cc). A value has the fields of the class; \<open>stringval\<close> is at once the string and the
  cache \<open>AsString\<close> fills. The arrays and objects a value points to are in the value: two handles on
  one array are not modelled, and no function here keeps a second handle beyond its call. A number,
  a \<open>long double\<close>, is a rational number. The way the standard library prints a number with a
  fraction is the parameter \<open>show_frac\<close>.
\<close>

section \<open>Strings and numbers\<close>

definition is_space :: "char \<Rightarrow> bool" where
  "is_space c \<longleftrightarrow> c \<in> set [CHR '' '', CHR 0x09, CHR 0x0A, CHR 0x0B, CHR 0x0C, CHR 0x0D]"

definition is_digit :: "char \<Rightarrow> bool" where
  "is_digit c \<longleftrightarrow> 48 \<le> (of_char c :: nat) \<and> (of_char c :: nat) \<le> 57"

definition to_lower :: "char \<Rightarrow> char" where
  "to_lower c = (if 65 \<le> (of_char c :: nat) \<and> (of_char c :: nat) \<le> 90 then char_of ((of_char c :: nat) + 32) else c)"

definition digit_value :: "char \<Rightarrow> nat" where
  "digit_value c = (of_char c :: nat) - 48"

definition digits_value :: "string \<Rightarrow> nat" where
  "digits_value ds = foldl (\<lambda>n c. 10 * n + digit_value c) 0 ds"

text \<open>\<open>std::string::compare\<close>.\<close>

fun str_compare :: "string \<Rightarrow> string \<Rightarrow> int" where
  "str_compare [] [] = 0"
| "str_compare [] (y # ys) = -1"
| "str_compare (x # xs) [] = 1"
| "str_compare (x # xs) (y # ys) =
    (if (of_char x :: nat) < of_char y then -1 else if (of_char y :: nat) < of_char x then 1 else str_compare xs ys)"

definition take_sign :: "string \<Rightarrow> bool \<times> string" where
  "take_sign s = (case s of
     [] \<Rightarrow> (False, [])
   | c # t \<Rightarrow> if c = CHR ''-'' then (True, t) else if c = CHR ''+'' then (False, t) else (False, s))"

text \<open>\<open>iss >> val\<close> for an \<open>unsigned\<close>; a minus sign negates modulo \<open>2 ^ 32\<close>.\<close>

definition read_unsigned :: "string \<Rightarrow> nat option" where
  "read_unsigned s =
    (let (neg, t) = take_sign (dropWhile is_space s); ds = takeWhile is_digit t; n = digits_value ds
     in if ds = [] \<or> 2 ^ 32 \<le> n then None else Some (if neg then sub32 0 n else n))"

text \<open>\<open>iss >> val\<close> for a \<open>long double\<close>.\<close>

definition read_number :: "string \<Rightarrow> rat option" where
  "read_number s =
    (let (neg, t) = take_sign (dropWhile is_space s);
         whole = takeWhile is_digit t; t1 = dropWhile is_digit t;
         point = (t1 \<noteq> [] \<and> hd t1 = CHR ''.'');
         frac = (if point then takeWhile is_digit (tl t1) else []); t2 = (if point then dropWhile is_digit (tl t1) else t1);
         mant = (rat_of_nat (digits_value (whole @ frac)) / 10 ^ length frac);
         val = (\<lambda>e. Some (if neg then - (mant * e) else mant * e))
     in if whole @ frac = [] then None
        else if t2 \<noteq> [] \<and> to_lower (hd t2) = CHR ''e'' then
          let (eneg, t3) = take_sign (tl t2); ex = takeWhile is_digit t3
          in if ex = [] then None
             else val (if eneg then 1 / 10 ^ digits_value ex else 10 ^ digits_value ex)
        else val 1)"

fun show_nat :: "nat \<Rightarrow> string" where
  "show_nat n = (if n < 10 then [char_of (48 + n)] else show_nat (n div 10) @ [char_of (48 + n mod 10)])"

definition show_number :: "(rat \<Rightarrow> string) \<Rightarrow> rat \<Rightarrow> string" where
  "show_number show_frac x =
    (if x = of_int \<lfloor>x\<rfloor> \<and> \<bar>x\<bar> < 10 ^ 50
     then (if x < 0 then ''-'' else []) @ show_nat (nat \<bar>\<lfloor>x\<rfloor>\<bar>) else show_frac x)"

section \<open>ParseBool\<close>

fun match_word :: "string \<Rightarrow> string \<Rightarrow> string" where
  "match_word (c # cs) (w # ws) = (if to_lower c = w then match_word cs ws else c # cs)"
| "match_word cs ws = cs"

definition blank :: "string \<Rightarrow> bool" where
  "blank s \<longleftrightarrow> dropWhile is_space s = []"

definition ParseBool :: "string \<Rightarrow> bool" where
  "ParseBool str = (case dropWhile is_space str of
     [] \<Rightarrow> True
   | c # cs \<Rightarrow>
      if to_lower c = CHR ''n'' then \<not> blank (match_word cs ''o'')
      else if to_lower c = CHR ''f'' then \<not> blank (match_word cs ''alse'')
      else if c = CHR ''0'' then \<not> blank (dropWhile (\<lambda>d. d = CHR ''0'') cs)
      else True)"

section \<open>Variants\<close>

datatype Type_t = NullType | TrueType | FalseType | NumberType | StringType | ArrayType | ObjectType

datatype Variant = Variant (GetType: Type_t) (numvalue: rat) (stringval: string)
  (array: "Variant list") (obj: "(string \<times> Variant) list")

definition new_Variant :: "Type_t \<Rightarrow> Variant" where
  "new_Variant t = Variant t 0 [] [] []"

definition Variant_bool :: "bool \<Rightarrow> Variant" where
  "Variant_bool b = new_Variant (if b then TrueType else FalseType)"

definition Variant_number :: "rat \<Rightarrow> Variant" where
  "Variant_number x = Variant NumberType x [] [] []"

definition Variant_string :: "string \<Rightarrow> Variant" where
  "Variant_string s = Variant StringType 0 s [] []"

text \<open>Copying a value (\<open>Assign\<close>): only what its type uses, so not the cache.\<close>

definition Assign :: "Variant \<Rightarrow> Variant" where
  "Assign v = (case GetType v of
     NullType \<Rightarrow> new_Variant NullType
   | TrueType \<Rightarrow> new_Variant TrueType
   | FalseType \<Rightarrow> new_Variant FalseType
   | NumberType \<Rightarrow> Variant NumberType (numvalue v) [] [] []
   | StringType \<Rightarrow> Variant StringType 0 (stringval v) [] []
   | ArrayType \<Rightarrow> Variant ArrayType 0 [] (array v) []
   | ObjectType \<Rightarrow> Variant ObjectType 0 [] [] (obj v))"

definition AsBool :: "Variant \<Rightarrow> cpn_error + bool" where
  "AsBool v = (case GetType v of
     NumberType \<Rightarrow> Inr (numvalue v \<noteq> 0)
   | StringType \<Rightarrow> Inr (ParseBool (stringval v))
   | TrueType \<Rightarrow> Inr True
   | FalseType \<Rightarrow> Inr False
   | NullType \<Rightarrow> Inr False
   | ArrayType \<Rightarrow> Inl AssertException
   | ObjectType \<Rightarrow> Inl AssertException)"

definition AsLongDouble :: "Variant \<Rightarrow> cpn_error + rat" where
  "AsLongDouble v = (case GetType v of
     NumberType \<Rightarrow> Inr (numvalue v)
   | StringType \<Rightarrow> (case read_number (stringval v) of None \<Rightarrow> Inl AssertException | Some x \<Rightarrow> Inr x)
   | TrueType \<Rightarrow> Inr 1
   | FalseType \<Rightarrow> Inr 0
   | NullType \<Rightarrow> Inr 0
   | ArrayType \<Rightarrow> Inl AssertException
   | ObjectType \<Rightarrow> Inl AssertException)"

text \<open>Conversion to \<open>unsigned\<close>; C++ leaves it undefined for a number that is not below \<open>2 ^ 32\<close> or is negative.\<close>

definition AsUnsigned :: "Variant \<Rightarrow> cpn_error + nat" where
  "AsUnsigned v = map_sum id (\<lambda>x. u32 (nat \<lfloor>x\<rfloor>)) (AsLongDouble v)"

definition AsString :: "(rat \<Rightarrow> string) \<Rightarrow> Variant \<Rightarrow> cpn_error + string \<times> Variant" where
  "AsString show_frac v =
    (let cache = (\<lambda>s. Inr (s, Variant (GetType v) (numvalue v) s (array v) (obj v)))
     in if stringval v \<noteq> [] then Inr (stringval v, v)
        else case GetType v of
          NumberType \<Rightarrow> cache (show_number show_frac (numvalue v))
        | StringType \<Rightarrow> Inr (stringval v, v)
        | TrueType \<Rightarrow> cache ''true''
        | FalseType \<Rightarrow> cache ''false''
        | NullType \<Rightarrow> cache ''null''
        | ArrayType \<Rightarrow> Inl AssertException
        | ObjectType \<Rightarrow> Inl AssertException)"

text \<open>A null value becomes an array, or an object, when it is first used as one.\<close>

definition init_as :: "Type_t \<Rightarrow> Variant \<Rightarrow> Variant" where
  "init_as t v = (if GetType v = NullType then Variant t (numvalue v) (stringval v) [] [] else v)"

definition AsArray :: "Variant \<Rightarrow> cpn_error + Variant list \<times> Variant" where
  "AsArray v = (let v' = init_as ArrayType v in ASSERT (GetType v' = ArrayType) (Inr (array v', v')))"

definition AsArray_const :: "Variant \<Rightarrow> cpn_error + Variant list" where
  "AsArray_const v = ASSERT (GetType v = ArrayType) (Inr (array v))"

definition AsObject :: "Variant \<Rightarrow> cpn_error + (string \<times> Variant) list \<times> Variant" where
  "AsObject v = (let v' = init_as ObjectType v in ASSERT (GetType v' = ObjectType) (Inr (obj v', v')))"

definition AsObject_const :: "Variant \<Rightarrow> cpn_error + (string \<times> Variant) list" where
  "AsObject_const v = ASSERT (GetType v = ObjectType) (Inr (obj v))"

definition Size :: "Variant \<Rightarrow> cpn_error + nat" where
  "Size v = (case GetType v of
     ArrayType \<Rightarrow> Inr (length (array v))
   | ObjectType \<Rightarrow> Inr (length (obj v))
   | StringType \<Rightarrow> Inr (length (stringval v))
   | _ \<Rightarrow> Inl AssertException)"

definition Empty_v :: "Variant \<Rightarrow> cpn_error + bool" where
  "Empty_v v = (case GetType v of
     ArrayType \<Rightarrow> Inr (array v = [])
   | ObjectType \<Rightarrow> Inr (obj v = [])
   | StringType \<Rightarrow> Inr (stringval v = [])
   | _ \<Rightarrow> Inl AssertException)"

definition Clear_v :: "Variant \<Rightarrow> Variant" where
  "Clear_v v = (case GetType v of
     ArrayType \<Rightarrow> Variant ArrayType (numvalue v) (stringval v) [] (obj v)
   | ObjectType \<Rightarrow> Variant ObjectType (numvalue v) (stringval v) (array v) []
   | StringType \<Rightarrow> Variant StringType (numvalue v) [] (array v) (obj v)
   | _ \<Rightarrow> Variant NullType (numvalue v) (stringval v) (array v) (obj v))"

text \<open>\<open>std::map\<close>: entries in the order of the keys.\<close>

fun obj_put :: "string \<Rightarrow> 'v \<Rightarrow> (string \<times> 'v) list \<Rightarrow> (string \<times> 'v) list" where
  "obj_put k v [] = [(k, v)]"
| "obj_put k v ((k', v') # m) =
    (if k = k' then (k, v) # m else if str_compare k k' < 0 then (k, v) # (k', v') # m else (k', v') # obj_put k v m)"

fun Copy :: "Variant \<Rightarrow> Variant" where
  "Copy (Variant t x s vs kvs) = (case t of
     ArrayType \<Rightarrow> Variant ArrayType 0 [] (map Copy vs) []
   | ObjectType \<Rightarrow> Variant ObjectType 0 [] [] (map (\<lambda>(k, v). (k, Copy v)) kvs)
   | StringType \<Rightarrow> Variant StringType 0 s [] []
   | NumberType \<Rightarrow> Variant NumberType x [] [] []
   | _ \<Rightarrow> new_Variant t)"

definition Swap :: "Variant \<Rightarrow> Variant \<Rightarrow> Variant \<times> Variant" where
  "Swap v other = (let temp = Assign other; other' = Assign v in (Assign temp, other'))"

definition Append :: "Variant \<Rightarrow> Variant \<Rightarrow> cpn_error + Variant" where
  "Append v x = (let v' = init_as ArrayType v
     in ASSERT (GetType v' = ArrayType) (Inr (Variant ArrayType (numvalue v') (stringval v') (array v' @ [Assign x]) (obj v'))))"

section \<open>Elements\<close>

text \<open>
  \<open>At\<close> on a value that may change gives a reference; here, the element and the value with that
  element in place. \<open>set_index\<close> and \<open>set_key\<close> are an assignment through it.
\<close>

definition with_array :: "Variant list \<Rightarrow> Variant \<Rightarrow> Variant" where
  "with_array vs v = Variant (GetType v) (numvalue v) (stringval v) vs (obj v)"

definition with_obj :: "(string \<times> Variant) list \<Rightarrow> Variant \<Rightarrow> Variant" where
  "with_obj m v = Variant (GetType v) (numvalue v) (stringval v) (array v) m"

definition index_of :: "string \<Rightarrow> cpn_error + nat" where
  "index_of s = (case read_unsigned s of None \<Rightarrow> Inl AssertException | Some i \<Rightarrow> Inr i)"

definition and_then :: "'e + 'a \<Rightarrow> ('a \<Rightarrow> 'e + 'b) \<Rightarrow> 'e + 'b" where
  "and_then r f = (case r of Inl e \<Rightarrow> Inl e | Inr x \<Rightarrow> f x)"

definition key_type :: "(string \<times> Variant) list \<Rightarrow> string \<Rightarrow> Type_t" where
  "key_type m s = (case map_of m s of None \<Rightarrow> NullType | Some x \<Rightarrow> GetType x)"

definition Contains_index :: "Variant \<Rightarrow> nat \<Rightarrow> cpn_error + Type_t" where
  "Contains_index v i =
    (if GetType v = ArrayType then Inr (if length (array v) \<le> i then NullType else GetType (array v ! i))
     else if GetType v = ObjectType then Inr (key_type (obj v) (show_nat i))
     else Inl AssertException)"

definition Contains_key :: "Variant \<Rightarrow> string \<Rightarrow> cpn_error + Type_t" where
  "Contains_key v s =
    (if GetType v = ObjectType then Inr (key_type (obj v) s)
     else if GetType v = ArrayType then and_then (index_of s) (Contains_index v)
     else Inl AssertException)"

definition Contains_cstr :: "Variant \<Rightarrow> string option \<Rightarrow> cpn_error + Type_t" where
  "Contains_cstr v s = (case s of None \<Rightarrow> Contains_index v 0 | Some t \<Rightarrow> Contains_key v t)"

definition obj_insert :: "string \<Rightarrow> Variant \<Rightarrow> Variant \<times> Variant" where
  "obj_insert s v = (case map_of (obj v) s of
     Some x \<Rightarrow> (x, v)
   | None \<Rightarrow> (new_Variant NullType, with_obj (obj_put s (new_Variant NullType) (obj v)) v))"

definition resize_vector :: "nat \<Rightarrow> Variant list \<Rightarrow> Variant list" where
  "resize_vector n vs = take n vs @ replicate (n - length vs) (new_Variant NullType)"

definition At_index :: "Variant \<Rightarrow> nat \<Rightarrow> cpn_error + Variant \<times> Variant" where
  "At_index v i =
    (let v' = init_as ArrayType v
     in if GetType v' = ArrayType then
          let vs = (if length (array v') \<le> i then resize_vector (u32 (i + 1)) (array v') else array v')
          in if i < length vs then Inr (vs ! i, with_array vs v') else Inl OutOfRange
        else if GetType v' = ObjectType then Inr (obj_insert (show_nat i) v')
        else Inl AssertException)"

definition At_index_const :: "Variant \<Rightarrow> nat \<Rightarrow> cpn_error + Variant" where
  "At_index_const v i =
    (if GetType v = ArrayType then (if i < length (array v) then Inr (array v ! i) else Inl OutOfRange)
     else if GetType v = ObjectType then
       (case map_of (obj v) (show_nat i) of None \<Rightarrow> Inl Undefined | Some x \<Rightarrow> Inr x)
     else Inl AssertException)"

definition At_key :: "Variant \<Rightarrow> string \<Rightarrow> cpn_error + Variant \<times> Variant" where
  "At_key v s =
    (let v' = init_as ObjectType v
     in if GetType v' = ObjectType then Inr (obj_insert s v')
        else if GetType v' = ArrayType then and_then (index_of s) (At_index v')
        else Inl AssertException)"

definition At_key_const :: "Variant \<Rightarrow> string \<Rightarrow> cpn_error + Variant" where
  "At_key_const v s =
    (if GetType v = ObjectType then
       Inr (case map_of (obj v) s of None \<Rightarrow> new_Variant NullType | Some x \<Rightarrow> x)
     else if GetType v = ArrayType then and_then (index_of s) (At_index_const v)
     else Inl AssertException)"

definition At_cstr :: "Variant \<Rightarrow> string option \<Rightarrow> cpn_error + Variant \<times> Variant" where
  "At_cstr v s = (case s of None \<Rightarrow> At_index v 0 | Some t \<Rightarrow> At_key v t)"

definition At_cstr_const :: "Variant \<Rightarrow> string option \<Rightarrow> cpn_error + Variant" where
  "At_cstr_const v s = (case s of None \<Rightarrow> At_index_const v 0 | Some t \<Rightarrow> At_key_const v t)"

definition set_index :: "Variant \<Rightarrow> nat \<Rightarrow> Variant \<Rightarrow> cpn_error + Variant" where
  "set_index v i x = and_then (At_index v i) (\<lambda>(y, v').
     Inr (if GetType v' = ArrayType then with_array ((array v')[i := Assign x]) v'
          else with_obj (obj_put (show_nat i) (Assign x) (obj v')) v'))"

definition set_key :: "Variant \<Rightarrow> string \<Rightarrow> Variant \<Rightarrow> cpn_error + Variant" where
  "set_key v s x =
    (if GetType v = ArrayType then and_then (index_of s) (\<lambda>i. set_index v i x)
     else and_then (At_key v s) (\<lambda>(y, v'). Inr (with_obj (obj_put s (Assign x) (obj v')) v')))"

section \<open>Comparison\<close>

definition num_compare :: "rat \<Rightarrow> rat \<Rightarrow> int" where
  "num_compare us o' = (if us < o' then -1 else if us > o' then 1 else 0)"

definition CompareString :: "Variant \<Rightarrow> Variant \<Rightarrow> cpn_error + int" where
  "CompareString v other = (case GetType v of
     ArrayType \<Rightarrow> Inr 1
   | ObjectType \<Rightarrow> Inr 1
   | StringType \<Rightarrow> Inr (str_compare (stringval v) (stringval other))
   | NumberType \<Rightarrow> map_sum id (num_compare (numvalue v)) (AsLongDouble other)
   | NullType \<Rightarrow> Inr 1
   | FalseType \<Rightarrow> map_sum id (\<lambda>b. if b then 1 else 0) (AsBool other)
   | TrueType \<Rightarrow> map_sum id (\<lambda>b. if b then 0 else 1) (AsBool other))"

definition CompareNumber :: "(rat \<Rightarrow> string) \<Rightarrow> Variant \<Rightarrow> Variant \<Rightarrow> cpn_error + int" where
  "CompareNumber show_frac v other = (case GetType v of
     ArrayType \<Rightarrow> Inr 1
   | ObjectType \<Rightarrow> Inr 1
   | StringType \<Rightarrow> and_then (AsString show_frac v) (\<lambda>(s, v').
       map_sum id (\<lambda>(t, w'). str_compare s t) (AsString show_frac other))
   | NumberType \<Rightarrow> Inr (num_compare (numvalue v) (numvalue other))
   | NullType \<Rightarrow> Inr 1
   | FalseType \<Rightarrow> Inr 0
   | TrueType \<Rightarrow> Inr 0)"

text \<open>
  \<open>vec_equal\<close> and \<open>map_equal\<close> are \<open>operator==\<close> of \<open>std::vector\<close> and \<open>std::map\<close> after the sizes agree:
  element by element, \<open>operator==\<close> of \<open>Variant\<close> being \<open>Compare\<close> giving 0.
\<close>

fun Compare :: "(rat \<Rightarrow> string) \<Rightarrow> Variant \<Rightarrow> Variant \<Rightarrow> cpn_error + int"
  and vec_equal :: "(rat \<Rightarrow> string) \<Rightarrow> Variant list \<Rightarrow> Variant list \<Rightarrow> cpn_error + bool"
  and map_equal :: "(rat \<Rightarrow> string) \<Rightarrow> (string \<times> Variant) list \<Rightarrow> (string \<times> Variant) list \<Rightarrow> cpn_error + bool" where
  "Compare sf (Variant t x s vs kvs) other = (case GetType other of
     ArrayType \<Rightarrow> if t = ArrayType
       then map_sum id of_bool (if length vs = length (array other) then vec_equal sf vs (array other) else Inr False)
       else Inr 1
   | ObjectType \<Rightarrow> if t = ObjectType
       then map_sum id of_bool (if length kvs = length (obj other) then map_equal sf kvs (obj other) else Inr False)
       else Inr 1
   | StringType \<Rightarrow> CompareString (Variant t x s vs kvs) other
   | NumberType \<Rightarrow> CompareNumber sf (Variant t x s vs kvs) other
   | NullType \<Rightarrow> Inr (if GetType other = NullType then 0 else 1)
   | FalseType \<Rightarrow> Inr (if GetType other = FalseType then 0 else 1)
   | TrueType \<Rightarrow> Inr (if GetType other = TrueType then 0 else 1))"
| "vec_equal sf (v # vs) (w # ws) = and_then (Compare sf v w) (\<lambda>c. if c = 0 then vec_equal sf vs ws else Inr False)"
| "vec_equal sf vs ws = Inr True"
| "map_equal sf ((k, v) # m) ((k', w) # m') =
    (if k = k' then and_then (Compare sf v w) (\<lambda>c. if c = 0 then map_equal sf m m' else Inr False) else Inr False)"
| "map_equal sf m m' = Inr True"

definition equal_v :: "(rat \<Rightarrow> string) \<Rightarrow> Variant \<Rightarrow> Variant \<Rightarrow> cpn_error + bool" where
  "equal_v sf v w = map_sum id (\<lambda>c. c = 0) (Compare sf v w)"

section \<open>ParseBool is exact\<close>

definition rstrip :: "string \<Rightarrow> string" where
  "rstrip s = rev (dropWhile is_space (rev s))"

definition strip :: "string \<Rightarrow> string" where
  "strip s = rstrip (dropWhile is_space s)"

definition false_text :: "string \<Rightarrow> bool" where
  "false_text s \<longleftrightarrow> s \<noteq> [] \<and>
     (prefix (map to_lower s) ''no'' \<or> prefix (map to_lower s) ''false'' \<or> (\<forall>c \<in> set s. c = CHR ''0''))"

lemma rstrip_Nil [simp]: "rstrip [] = []"
  by (simp add: rstrip_def)

lemma rstrip_Cons: "rstrip (c # cs) = (if rstrip cs = [] \<and> is_space c then [] else c # rstrip cs)"
  by (simp add: rstrip_def dropWhile_append)

lemma blank_rstrip: "blank s \<longleftrightarrow> rstrip s = []"
  by (simp add: blank_def rstrip_def)

lemma is_space_to_lower [simp]: "is_space c \<Longrightarrow> to_lower c = c"
  by (auto simp: is_space_def to_lower_def)

lemma blank_match_word:
  "\<forall>w \<in> set ws. \<not> is_space w \<Longrightarrow> blank (match_word cs ws) \<longleftrightarrow> prefix (map to_lower (rstrip cs)) ws"
proof (induction cs ws rule: match_word.induct)
  case (1 c cs w ws)
  then show ?case
    by (auto simp: rstrip_Cons blank_rstrip)
qed (simp_all add: blank_rstrip)

lemma blank_zeros: "blank (dropWhile (\<lambda>d. d = CHR ''0'') cs) \<longleftrightarrow> (\<forall>d \<in> set (rstrip cs). d = CHR ''0'')"
proof (induction cs)
  case (Cons c cs)
  have "\<not> is_space CHR ''0''"
    by (simp add: is_space_def)
  with Cons show ?case
    by (auto simp: rstrip_Cons blank_rstrip)
qed (simp add: blank_rstrip)

text \<open>C27: \<open>ParseBool\<close> is exact: a text is false when, without the white space around it, it is a
  beginning of "no" or of "false" in either case, or zeros only; every other text, the empty one
  included, is true.
\<close>

theorem parse_bool_exact: "ParseBool str \<longleftrightarrow> \<not> false_text (strip str)"
proof (cases "dropWhile is_space str")
  case Nil
  then show ?thesis
    by (simp only: ParseBool_def strip_def false_text_def Nil) simp
next
  case (Cons c cs)
  then have c: "\<not> is_space c"
    by (metis hd_dropWhile list.distinct(1) list.sel(1))
  then have strip: "strip str = c # rstrip cs"
    by (simp add: strip_def Cons rstrip_Cons)
  have low: "c = CHR ''0'' \<Longrightarrow> to_lower c = c"
    by (simp add: to_lower_def)
  have "blank (match_word cs ''o'') \<longleftrightarrow> prefix (map to_lower (rstrip cs)) ''o''"
    and "blank (match_word cs ''alse'') \<longleftrightarrow> prefix (map to_lower (rstrip cs)) ''alse''"
    by (rule blank_match_word, simp add: is_space_def)+
  then show ?thesis
    using low by (auto simp: ParseBool_def Cons strip false_text_def blank_zeros)
qed

section \<open>Numbers as text\<close>

declare show_nat.simps [simp del]

lemma digit_char [simp]:
  assumes "n < 10"
  shows "is_digit (char_of (48 + n))" "digit_value (char_of (48 + n)) = n"
    "\<not> is_space (char_of (48 + n))" "char_of (48 + n) \<noteq> CHR ''-''" "char_of (48 + n) \<noteq> CHR ''+''"
proof -
  have v: "of_char (char_of (48 + n) :: char) = (48 + n :: nat)"
    using assms by (simp add: of_char_of)
  show "is_digit (char_of (48 + n))" "digit_value (char_of (48 + n)) = n"
    using assms by (simp_all add: is_digit_def digit_value_def v)
  have "(char_of (48 + n) :: char) \<noteq> c" if "(of_char c :: nat) < 48" for c
    using that v by (metis not_add_less1)
  then show "\<not> is_space (char_of (48 + n))" "char_of (48 + n) \<noteq> CHR ''-''" "char_of (48 + n) \<noteq> CHR ''+''"
    by (simp_all add: is_space_def)
qed

lemma digits_value_snoc: "digits_value (ds @ [c]) = 10 * digits_value ds + digit_value c"
  by (simp add: digits_value_def)

lemma show_nat_digits: "(\<forall>c \<in> set (show_nat n). is_digit c) \<and> digits_value (show_nat n) = n \<and>
    show_nat n \<noteq> [] \<and> \<not> is_space (hd (show_nat n)) \<and> hd (show_nat n) \<noteq> CHR ''-'' \<and> hd (show_nat n) \<noteq> CHR ''+''"
proof (induction n rule: show_nat.induct)
  case (1 n)
  show ?case
  proof (cases "n < 10")
    case True
    then show ?thesis
      by (subst (1 2 3 4 5 6) show_nat.simps) (simp add: digits_value_def)
  next
    case False
    have d: "n mod 10 < 10" by simp
    from False 1 show ?thesis
      by (subst (1 2 3 4 5 6) show_nat.simps) (auto simp: digits_value_snoc d simp del: char_of_nat)
  qed
qed

lemma show_nat_take [simp]: "takeWhile is_digit (show_nat n) = show_nat n" "dropWhile is_digit (show_nat n) = []"
  using show_nat_digits [of n] by (simp_all add: takeWhile_eq_all_conv dropWhile_eq_Nil_conv)

lemma show_nat_lead [simp]: "dropWhile is_space (show_nat n) = show_nat n" "take_sign (show_nat n) = (False, show_nat n)"
  using show_nat_digits [of n] by (cases "show_nat n"; simp add: take_sign_def)+

lemma show_nat_value [simp]: "digits_value (show_nat n) = n" "show_nat n \<noteq> []"
  using show_nat_digits [of n] by simp_all

lemma not_space_minus [simp]: "\<not> is_space CHR ''-''"
  by (simp add: is_space_def)

lemma minus_lead [simp]: "dropWhile is_space (CHR ''-'' # s) = CHR ''-'' # s" "take_sign (CHR ''-'' # s) = (True, s)"
  by (simp_all add: is_space_def take_sign_def)

lemma show_nat_inject: "show_nat a = show_nat b \<Longrightarrow> a = b"
  by (metis show_nat_value(1))

lemma read_unsigned_show: "n < 2 ^ 32 \<Longrightarrow> read_unsigned (show_nat n) = Some n"
  by (simp add: read_unsigned_def)

lemma read_number_nat:
  "read_number (show_nat n) = Some (of_nat n)" "read_number (CHR ''-'' # show_nat n) = Some (- of_nat n)"
  by (simp_all add: read_number_def Let_def)

lemma read_number_show:
  assumes "\<bar>k\<bar> < 10 ^ 50"
  shows "read_number (show_number show_frac (of_int k)) = Some (of_int k)"
proof -
  have "\<bar>rat_of_int k\<bar> < 10 ^ 50"
    using assms by (metis of_int_abs of_int_less_iff of_int_numeral of_int_power)
  then show ?thesis
    by (simp add: show_number_def read_number_nat)
qed

text \<open>A number survives its text: a whole number below \<open>10 ^ 50\<close>, printed by \<open>AsString\<close> and read back
  from that text, is the number; and the value keeps the text, so that a second \<open>AsString\<close> gives it again.
\<close>

theorem variant_number_roundtrip:
  assumes "\<bar>k\<bar> < 10 ^ 50"
  shows "\<exists>s v. AsString show_frac (Variant_number (of_int k)) = Inr (s, v) \<and>
    AsLongDouble (Variant_string s) = Inr (of_int k) \<and> AsString show_frac v = Inr (s, v)"
  using read_number_show [OF assms, of show_frac] assms
  by (auto simp: AsString_def AsLongDouble_def Variant_number_def Variant_string_def)

section \<open>Objects\<close>

lemma str_compare_eq [simp]: "str_compare a b = 0 \<longleftrightarrow> a = b"
proof (induction a b rule: str_compare.induct)
  case (4 x xs y ys)
  then show ?case
    by (auto simp: not_less)
qed auto

lemma str_compare_less_Cons:
  "str_compare (x # xs) (y # ys) < 0 \<longleftrightarrow> (of_char x :: nat) < of_char y \<or> x = y \<and> str_compare xs ys < 0"
  by auto

lemma str_compare_trans: "str_compare a b < 0 \<Longrightarrow> str_compare b c < 0 \<Longrightarrow> str_compare a c < 0"
proof (induction a b arbitrary: c rule: str_compare.induct)
  case (2 y ys)
  then show ?case by (cases c) auto
next
  case (4 x xs y ys)
  show ?case
  proof (cases c)
    case (Cons z zs)
    with 4(2,3) have "(of_char x :: nat) < of_char y \<or> x = y \<and> str_compare xs ys < 0"
      and "(of_char y :: nat) < of_char z \<or> y = z \<and> str_compare ys zs < 0"
      by (simp_all only: str_compare_less_Cons)
    then show ?thesis
      using 4(1) [of zs] by (simp only: Cons str_compare_less_Cons) (metis less_trans)
  qed (use 4 in simp)
qed auto

lemma str_compare_linear: "\<not> str_compare a b < 0 \<Longrightarrow> a \<noteq> b \<Longrightarrow> str_compare b a < 0"
proof (induction a b rule: str_compare.induct)
  case (4 x xs y ys)
  then show ?case
    by (auto split: if_splits)
qed auto

definition obj_sorted :: "(string \<times> 'v) list \<Rightarrow> bool" where
  "obj_sorted m \<longleftrightarrow> sorted_wrt (\<lambda>k k'. str_compare k k' < 0) (map fst m)"

lemma obj_sorted_Cons: "obj_sorted ((k, v) # m) \<longleftrightarrow> (\<forall>k' \<in> fst ` set m. str_compare k k' < 0) \<and> obj_sorted m"
  by (auto simp: obj_sorted_def)

lemma keys_obj_put: "fst ` set (obj_put k v m) = insert k (fst ` set m)"
  by (induction k v m rule: obj_put.induct) auto

lemma str_compare_irrefl [simp]: "str_compare a a = 0"
  by simp

lemma obj_sorted_put: "obj_sorted m \<Longrightarrow> obj_sorted (obj_put k v m)"
proof (induction k v m rule: obj_put.induct)
  case (1 k v)
  then show ?case by (simp add: obj_sorted_def)
next
  case (2 k v k' v' m)
  then show ?case
    by (auto simp: obj_sorted_Cons keys_obj_put intro: str_compare_trans dest: str_compare_linear)
qed

lemma map_of_obj_put: "obj_sorted m \<Longrightarrow> map_of (obj_put k v m) = (map_of m)(k \<mapsto> v)"
  by (induction k v m rule: obj_put.induct) (auto simp: obj_sorted_Cons)

lemma obj_sorted_distinct: "obj_sorted m \<Longrightarrow> distinct (map fst m)"
proof (induction m)
  case (Cons e m)
  then show ?case
    by (cases e) (auto simp: obj_sorted_Cons)
qed simp

section \<open>Keyed stores\<close>

text \<open>
  What the code relies on in \<open>std::map\<close>, and in \<open>Variant::At\<close> on an object: an element reads back as it was
  last set, and setting one leaves the others alone. Overriding a store with a list of entries,
  as the loader does, then adds their map.
\<close>

locale keyed_store =
  fixes ok :: "'s \<Rightarrow> bool"
    and get :: "'s \<Rightarrow> string \<Rightarrow> 'v option"
    and put :: "string \<Rightarrow> 'v \<Rightarrow> 's \<Rightarrow> 's"
    and kept :: "'v \<Rightarrow> 'v"
  assumes ok_put: "ok s \<Longrightarrow> ok (put k v s)"
    and get_put: "ok s \<Longrightarrow> get (put k v s) = (get s)(k \<mapsto> kept v)"
begin

definition put_all :: "(string \<times> 'v) list \<Rightarrow> 's \<Rightarrow> 's" where
  "put_all kvs s = fold (\<lambda>(k, v). put k v) kvs s"

lemma put_all_simps [simp]:
  "put_all [] s = s" "put_all ((k, v) # kvs) s = put_all kvs (put k v s)"
  by (simp_all add: put_all_def)

lemma ok_put_all: "ok s \<Longrightarrow> ok (put_all kvs s)"
  by (induction kvs arbitrary: s) (auto simp: ok_put)

lemma get_put_all:
  "ok s \<Longrightarrow> distinct (map fst kvs) \<Longrightarrow> get (put_all kvs s) = get s ++ (\<lambda>a. map_option kept (map_of kvs a))"
proof (induction kvs arbitrary: s)
  case (Cons e kvs)
  obtain k v where e: "e = (k, v)" by force
  with Cons.prems have "map_of kvs k = None"
    by (auto simp: map_of_eq_None_iff)
  moreover have "get (put_all (e # kvs) s) = (get s)(k \<mapsto> kept v) ++ (\<lambda>a. map_option kept (map_of kvs a))"
    using Cons by (simp add: e ok_put get_put)
  ultimately show ?case
    by (auto simp: e fun_eq_iff map_add_def split: option.splits)
qed (simp add: map_add_def)

end

interpretation entries: keyed_store obj_sorted map_of obj_put id
  by unfold_locales (auto simp: obj_sorted_put map_of_obj_put)

text \<open>A value that is an object with its entries in order; null counts as the empty object, as for \<open>At\<close>.\<close>

definition object_ok :: "Variant \<Rightarrow> bool" where
  "object_ok v \<longleftrightarrow> GetType v = ObjectType \<and> obj_sorted (obj v) \<or> GetType v = NullType"

definition entry :: "Variant \<Rightarrow> string \<Rightarrow> Variant option" where
  "entry v k = (if GetType v = ObjectType then map_of (obj v) k else None)"

definition put_entry :: "string \<Rightarrow> Variant \<Rightarrow> Variant \<Rightarrow> Variant" where
  "put_entry k x v = (case set_key v k x of Inr v' \<Rightarrow> v' | Inl e \<Rightarrow> v)"

lemmas variant_sel [simp] = init_as_def with_obj_def with_array_def

lemma obj_put_twice: "obj_sorted m \<Longrightarrow> obj_put k x (obj_put k y m) = obj_put k x m"
  by (induction k y m rule: obj_put.induct) (auto simp: obj_sorted_Cons)

lemma set_key_object:
  assumes "object_ok v"
  shows "set_key v k x = Inr (with_obj (obj_put k (Assign x) (obj (init_as ObjectType v))) (init_as ObjectType v))"
  using assms
  by (auto simp: set_key_def At_key_def and_then_def obj_insert_def object_ok_def obj_put_twice split: option.splits)

lemma obj_sorted_Nil [simp]: "obj_sorted []"
  by (simp add: obj_sorted_def)

lemma object_ok_set_key:
  assumes "object_ok v"
  shows "\<exists>v'. set_key v k x = Inr v' \<and> object_ok v' \<and> GetType v' = ObjectType \<and> entry v' = (entry v)(k \<mapsto> Assign x)"
  using assms
  by (auto simp: set_key_object object_ok_def entry_def obj_sorted_put map_of_obj_put obj_sorted_Cons fun_eq_iff)

text \<open>What an assignment \<open>v[k] = x\<close> does to an object, or to a null value, which it makes an object: \<open>v[k]\<close> reads
  as \<open>x\<close>, the cached text apart, every other key reads as before, and \<open>Contains\<close> tells the type of \<open>x\<close>
  (a key that holds null and one that is missing are the same to it).
\<close>

theorem variant_set_get:
  assumes "object_ok v"
  shows "\<exists>v'. set_key v k x = Inr v' \<and> object_ok v' \<and> At_key_const v' k = Inr (Assign x) \<and>
    Contains_key v' k = Inr (GetType x) \<and>
    (\<forall>k'. k' \<noteq> k \<longrightarrow> At_key_const v' k' = Inr (case entry v k' of None \<Rightarrow> new_Variant NullType | Some y \<Rightarrow> y))"
proof -
  obtain v' where v': "set_key v k x = Inr v'" "object_ok v'" "GetType v' = ObjectType"
    and e: "entry v' = (entry v)(k \<mapsto> Assign x)"
    using object_ok_set_key [OF assms] by blast
  have m: "map_of (obj v') = (entry v)(k \<mapsto> Assign x)"
    using e v'(3) by (simp add: entry_def fun_eq_iff)
  have "GetType (Assign x) = GetType x"
    by (simp add: Assign_def new_Variant_def split: Type_t.splits)
  then show ?thesis
    using v' by (simp add: At_key_const_def Contains_key_def key_type_def m)
qed

interpretation objects: keyed_store object_ok entry put_entry Assign
proof
  fix v k x
  assume "object_ok v"
  from object_ok_set_key [OF this, of k x]
  show "object_ok (put_entry k x v)" "entry (put_entry k x v) = (entry v)(k \<mapsto> Assign x)"
    by (auto simp: put_entry_def)
qed

section \<open>Comparison, as it is\<close>

lemma map_sum_of_bool [simp]:
  "map_sum id (\<lambda>c. c = (0 :: int)) (map_sum id of_bool r) = map_sum id Not r"
  by (cases r) simp_all



end
