(* ===== verification/Loader.thy ===== *)
theory Loader
  imports VariantM KernelSys
begin

text \<open>
  The loader that turns a configuration value into a network (libraries/VariantCPNLoader/VariantCPNLoader.cc).
  The state of the class is its \<open>config\<close>, one \<open>Variant\<close>; an operation gives the new one, or the
  exception. A value \<open>Variant nodes = config["nodes"]\<close> is a second handle on the array in
  \<open>config\<close>: what is done through it is put back. Reading a key of a value that may change enters the
  key with null; \<open>item\<close> is such a read where nothing later can tell the entry from a missing one.
  The two uses of code outside these files, resolving an address and connecting to a remote context,
  are the parameter \<open>connect\<close> of \<open>LoadContext\<close>.
\<close>

section \<open>References into the configuration\<close>

definition item :: "Variant \<Rightarrow> string \<Rightarrow> cpn_error + Variant" where
  "item v k = map_sum id fst (At_key v k)"

definition text_of :: "(rat \<Rightarrow> string) \<Rightarrow> Variant \<Rightarrow> cpn_error + string" where
  "text_of sf v = map_sum id fst (AsString sf v)"

definition put_back :: "Variant \<Rightarrow> string \<Rightarrow> Variant \<Rightarrow> Variant" where
  "put_back v k x =
    (if GetType v = ArrayType then (case index_of k of Inr i \<Rightarrow> with_array ((array v)[i := x]) v | Inl e \<Rightarrow> v)
     else with_obj (obj_put k x (obj v)) v)"

definition update_key :: "Variant \<Rightarrow> string \<Rightarrow> (Variant \<Rightarrow> cpn_error + Variant) \<Rightarrow> cpn_error + Variant" where
  "update_key v k f = and_then (At_key v k) (\<lambda>(x, v'). map_sum id (put_back v' k) (f x))"

fun fold_all :: "('a \<Rightarrow> 's \<Rightarrow> 'e + 's) \<Rightarrow> 'a list \<Rightarrow> 's \<Rightarrow> 'e + 's" where
  "fold_all f [] s = Inr s"
| "fold_all f (x # xs) s = and_then (f x s) (fold_all f xs)"

section \<open>Building a configuration\<close>

definition UseD4R :: "Variant \<Rightarrow> bool \<Rightarrow> cpn_error + Variant" where
  "UseD4R config value = set_key config ''d4r'' (Variant_bool value)"

definition GrowQueueMaxThreshold :: "Variant \<Rightarrow> bool \<Rightarrow> cpn_error + Variant" where
  "GrowQueueMaxThreshold config value = set_key config ''grow-queue-max-threshold'' (Variant_bool value)"

definition SwallowBrokenQueueExceptions :: "Variant \<Rightarrow> bool \<Rightarrow> cpn_error + Variant" where
  "SwallowBrokenQueueExceptions config value = set_key config ''swallow-broken-queue-exceptions'' (Variant_bool value)"

definition AddLib :: "Variant \<Rightarrow> string \<Rightarrow> cpn_error + Variant" where
  "AddLib config filename = update_key config ''libs'' (\<lambda>l. Append l (Variant_string filename))"

definition AddLibList :: "Variant \<Rightarrow> string \<Rightarrow> cpn_error + Variant" where
  "AddLibList config filename = update_key config ''liblist'' (\<lambda>l. Append l (Variant_string filename))"

definition ContextHost :: "Variant \<Rightarrow> string \<Rightarrow> cpn_error + Variant" where
  "ContextHost config host = update_key config ''context'' (\<lambda>c. set_key c ''host'' (Variant_string host))"

definition ContextPort :: "Variant \<Rightarrow> string \<Rightarrow> cpn_error + Variant" where
  "ContextPort config port = update_key config ''context'' (\<lambda>c. set_key c ''port'' (Variant_string port))"

definition LogLevel :: "Variant \<Rightarrow> int \<Rightarrow> cpn_error + Variant" where
  "LogLevel config i = update_key config ''context'' (\<lambda>c. set_key c ''loglevel'' (Variant_number (of_int i)))"

definition KernelName :: "Variant \<Rightarrow> string \<Rightarrow> cpn_error + Variant" where
  "KernelName config name = set_key config ''name'' (Variant_string name)"

definition KernelHost :: "Variant \<Rightarrow> string \<Rightarrow> cpn_error + Variant" where
  "KernelHost config host = set_key config ''host'' (Variant_string host)"

definition KernelPort :: "Variant \<Rightarrow> string \<Rightarrow> cpn_error + Variant" where
  "KernelPort config port = set_key config ''port'' (Variant_string port)"

text \<open>Adding a node or a queue: the first entry that is the same takes over the keys of \<open>v\<close>; else \<open>v\<close> is added.\<close>

definition with_list :: "Variant \<Rightarrow> string \<Rightarrow> cpn_error + Variant" where
  "with_list config k = and_then (At_key config k) (\<lambda>(x, c).
     if GetType x = ArrayType then Inr c else set_key c k (new_Variant ArrayType))"

definition override_all :: "Variant \<Rightarrow> Variant \<Rightarrow> cpn_error + Variant" where
  "override_all v e = and_then (AsObject v) (\<lambda>(kvs, v'). fold_all (\<lambda>(k, x) e. set_key e k (Copy x)) kvs e)"

fun merge_entry :: "(Variant \<Rightarrow> Variant \<Rightarrow> cpn_error + bool \<times> Variant \<times> Variant) \<Rightarrow> Variant \<Rightarrow> Variant list \<Rightarrow> cpn_error + Variant list" where
  "merge_entry same v [] = Inr [Assign (Copy v)]"
| "merge_entry same v (e # es) = and_then (same v e) (\<lambda>(b, v', e').
     if b then map_sum id (\<lambda>e''. e'' # es) (override_all v' e')
     else map_sum id (\<lambda>es'. e' # es') (merge_entry same v' es))"

definition field_equal :: "(rat \<Rightarrow> string) \<Rightarrow> string \<Rightarrow> Variant \<Rightarrow> Variant \<Rightarrow> cpn_error + bool \<times> Variant \<times> Variant" where
  "field_equal sf k v e = and_then (At_key v k) (\<lambda>(x, v'). and_then (At_key e k) (\<lambda>(y, e').
     map_sum id (\<lambda>b. (b, v', e')) (equal_v sf x y)))"

definition both_equal :: "(rat \<Rightarrow> string) \<Rightarrow> string \<Rightarrow> string \<Rightarrow> Variant \<Rightarrow> Variant \<Rightarrow> cpn_error + bool \<times> Variant \<times> Variant" where
  "both_equal sf k k' v e = and_then (field_equal sf k v e) (\<lambda>(b, v', e').
     if b then field_equal sf k' v' e' else Inr (False, v', e'))"

definition same_queue :: "(rat \<Rightarrow> string) \<Rightarrow> Variant \<Rightarrow> Variant \<Rightarrow> cpn_error + bool \<times> Variant \<times> Variant" where
  "same_queue sf v e = and_then (both_equal sf ''readernode'' ''readerport'' v e) (\<lambda>(b, v', e').
     if b then Inr (True, v', e') else both_equal sf ''writernode'' ''writerport'' v' e')"

definition add_entry :: "(Variant \<Rightarrow> Variant \<Rightarrow> cpn_error + bool \<times> Variant \<times> Variant) \<Rightarrow> string \<Rightarrow> Variant \<Rightarrow> Variant \<Rightarrow> cpn_error + Variant" where
  "add_entry same k config v = and_then (with_list config k) (\<lambda>c.
     update_key c k (\<lambda>es. map_sum id (\<lambda>es'. with_array es' es) (merge_entry same v (array es))))"

definition AddNode_cfg :: "(rat \<Rightarrow> string) \<Rightarrow> Variant \<Rightarrow> Variant \<Rightarrow> cpn_error + Variant" where
  "AddNode_cfg sf config v = add_entry (field_equal sf ''name'') ''nodes'' config v"

definition AddQueue_cfg :: "(rat \<Rightarrow> string) \<Rightarrow> Variant \<Rightarrow> Variant \<Rightarrow> cpn_error + Variant" where
  "AddQueue_cfg sf config v = add_entry (same_queue sf) ''queues'' config v"

definition AddNodeMapping :: "Variant \<Rightarrow> string \<Rightarrow> string \<Rightarrow> cpn_error + Variant" where
  "AddNodeMapping config noden kernn = and_then (At_key config ''nodemap'') (\<lambda>(x, c).
     and_then (if GetType x = ObjectType then Inr c else set_key c ''nodemap'' (new_Variant ObjectType)) (\<lambda>c.
     update_key c ''nodemap'' (\<lambda>nmap. set_key nmap noden (Variant_string kernn))))"

definition merge_top :: "(rat \<Rightarrow> string) \<Rightarrow> string \<times> Variant \<Rightarrow> Variant \<Rightarrow> cpn_error + Variant" where
  "merge_top sf = (\<lambda>(k, x) config.
     if k = ''context'' then and_then (AsObject x) (\<lambda>(kvs, x').
       fold_all (\<lambda>(k', y) c. update_key c ''context'' (\<lambda>ctx. set_key ctx k' y)) kvs config)
     else if k = ''nodes'' then and_then (AsArray x) (\<lambda>(vs, x'). fold_all (\<lambda>v c. AddNode_cfg sf c v) vs config)
     else if k = ''queues'' then and_then (AsArray x) (\<lambda>(vs, x'). fold_all (\<lambda>v c. AddQueue_cfg sf c v) vs config)
     else set_key config k x)"

definition MergeConfig :: "(rat \<Rightarrow> string) \<Rightarrow> Variant \<Rightarrow> Variant \<Rightarrow> cpn_error + Variant" where
  "MergeConfig sf config v = and_then (AsObject v) (\<lambda>(kvs, v'). fold_all (merge_top sf) kvs config)"

section \<open>Loading\<close>

definition AsInt :: "Variant \<Rightarrow> cpn_error + int" where
  "AsInt v = map_sum id (\<lambda>x. if x < 0 then - \<lfloor>- x\<rfloor> else \<lfloor>x\<rfloor>) (AsLongDouble v)"

text \<open>\<open>if (!args[k].IsNull()) f(args[k])\<close>.\<close>

definition when_set :: "Variant \<Rightarrow> string \<Rightarrow> (Variant \<Rightarrow> 'a \<Rightarrow> cpn_error + 'a) \<Rightarrow> 'a \<Rightarrow> cpn_error + 'a" where
  "when_set args k f attr = and_then (item args k) (\<lambda>x. if GetType x = NullType then Inr attr else f x attr)"

definition LoadContext :: "'ctx \<Rightarrow> (string \<Rightarrow> string \<Rightarrow> cpn_error + 'ctx) \<Rightarrow> (int \<Rightarrow> 'ctx \<Rightarrow> 'ctx) \<Rightarrow> (rat \<Rightarrow> string) \<Rightarrow> Variant \<Rightarrow> cpn_error + 'ctx" where
  "LoadContext local connect log_level sf v =
    (if GetType v = NullType then Inr local
     else and_then (item v ''host'') (\<lambda>host. and_then (item v ''port'') (\<lambda>port.
       and_then (if GetType host = NullType \<and> GetType port = NullType then Inr local
                 else and_then (text_of sf host) (\<lambda>h. and_then (text_of sf port) (\<lambda>p. connect h p))) (\<lambda>context.
       when_set v ''loglevel'' (\<lambda>x context. map_sum id (\<lambda>i. log_level i context) (AsInt x)) context))))"

definition each_text :: "(rat \<Rightarrow> string) \<Rightarrow> Variant \<Rightarrow> string \<Rightarrow> (string \<Rightarrow> 'a \<Rightarrow> 'a) \<Rightarrow> 'a \<Rightarrow> cpn_error + 'a" where
  "each_text sf args k f attr = and_then (item args k) (\<lambda>x.
     if GetType x = ArrayType then fold_all (\<lambda>y a. map_sum id (\<lambda>s. f s a) (text_of sf y)) (array x) attr else Inr attr)"

definition GetKernelAttr :: "'ctx \<Rightarrow> (string \<Rightarrow> string \<Rightarrow> cpn_error + 'ctx) \<Rightarrow> (int \<Rightarrow> 'ctx \<Rightarrow> 'ctx) \<Rightarrow> (rat \<Rightarrow> string) \<Rightarrow> Variant \<Rightarrow> cpn_error + 'ctx KernelAttr" where
  "GetKernelAttr local connect log_level sf args =
     and_then (and_then (item args ''name'') (text_of sf)) (\<lambda>name.
     and_then (when_set args ''context'' (\<lambda>x a. map_sum id (\<lambda>c. a\<lparr>ka_context := Some c\<rparr>) (LoadContext local connect log_level sf x)) (new_KernelAttr name)) (\<lambda>a.
     and_then (when_set args ''host'' (\<lambda>x a. map_sum id (\<lambda>s. a\<lparr>ka_hostname := s\<rparr>) (text_of sf x)) a) (\<lambda>a.
     and_then (when_set args ''port'' (\<lambda>x a. map_sum id (\<lambda>s. a\<lparr>ka_servname := s\<rparr>) (text_of sf x)) a) (\<lambda>a.
     and_then (when_set args ''d4r'' (\<lambda>x a. map_sum id (\<lambda>b. a\<lparr>ka_useD4R := b\<rparr>) (AsBool x)) a) (\<lambda>a.
     and_then (when_set args ''swallow-broken-queue-exceptions'' (\<lambda>x a. map_sum id (\<lambda>b. a\<lparr>ka_swallowbrokenqueue := b\<rparr>) (AsBool x)) a) (\<lambda>a.
     and_then (when_set args ''grow-queue-max-threshold'' (\<lambda>x a. map_sum id (\<lambda>b. a\<lparr>ka_growmaxthresh := b\<rparr>) (AsBool x)) a) (\<lambda>a.
     and_then (each_text sf args ''libs'' AddSharedLib a) (\<lambda>a.
       each_text sf args ''liblist'' AddNodeList a))))))))"

text \<open>\<open>SetParam\<close>: the parameters are a \<open>std::map\<close>.\<close>

definition SetParam :: "string \<Rightarrow> string \<Rightarrow> NodeAttr \<Rightarrow> NodeAttr" where
  "SetParam k s attr = attr\<lparr>na_params := obj_put k s (na_params attr)\<rparr>"

definition lift_result :: "cpn_error + 'a \<Rightarrow> 'a act" where
  "lift_result r = (case r of Inl e \<Rightarrow> throw e | Inr x \<Rightarrow> ret x)"

fun each :: "('a \<Rightarrow> unit act) \<Rightarrow> 'a list \<Rightarrow> unit act" where
  "each f [] = ret ()"
| "each f (x # xs) = andthen (f x) (\<lambda>_. each f xs)"

definition node_kernel :: "(rat \<Rightarrow> string) \<Rightarrow> Variant \<Rightarrow> Variant \<Rightarrow> NodeAttr \<Rightarrow> cpn_error + NodeAttr" where
  "node_kernel sf attr nmap nattr =
     and_then (if GetType nmap = ObjectType then item nmap (na_name nattr) else Inr (new_Variant NullType)) (\<lambda>m.
     if GetType m = StringType then map_sum id (\<lambda>s. nattr\<lparr>na_kernelname := s\<rparr>) (text_of sf m)
     else and_then (item attr ''kernel'') (\<lambda>k.
       if GetType k = StringType then map_sum id (\<lambda>s. nattr\<lparr>na_kernelname := s\<rparr>) (text_of sf k) else Inr nattr))"

definition node_attr :: "(rat \<Rightarrow> string) \<Rightarrow> Variant \<Rightarrow> Variant \<Rightarrow> cpn_error + NodeAttr" where
  "node_attr sf attr nmap =
     and_then (and_then (item attr ''name'') (text_of sf)) (\<lambda>name.
     and_then (and_then (item attr ''type'') (text_of sf)) (\<lambda>nodetype.
     and_then (node_kernel sf attr nmap (new_NodeAttr name nodetype)) (\<lambda>nattr.
     and_then (item attr ''param'') (\<lambda>param.
       if GetType param = ObjectType
       then fold_all (\<lambda>(k, x) a. map_sum id (\<lambda>s. SetParam k s a) (text_of sf x)) (obj param) nattr
       else Inr nattr))))"

definition LoadNode :: "(rat \<Rightarrow> string) \<Rightarrow> nat \<Rightarrow> Variant \<Rightarrow> Variant \<Rightarrow> unit act" where
  "LoadNode sf krn attr nmap =
     andthen (lift_result (node_attr sf attr nmap)) (\<lambda>nattr. andthen (CreateNode krn nattr) (\<lambda>_. ret ()))"

definition LoadNodes :: "(rat \<Rightarrow> string) \<Rightarrow> nat \<Rightarrow> Variant \<Rightarrow> Variant \<Rightarrow> unit act" where
  "LoadNodes sf krn nodelist nmap =
     (if GetType nodelist = ArrayType
      then each (\<lambda>v. if GetType v = ObjectType then LoadNode sf krn v nmap else ret ()) (array nodelist) else ret ())"

definition queue_hint :: "(rat \<Rightarrow> string) \<Rightarrow> Variant \<Rightarrow> QueueAttr \<Rightarrow> cpn_error + QueueAttr" where
  "queue_hint sf x attr =
    (if GetType x = NumberType
     then map_sum id (\<lambda>n. SetHint (if \<lfloor>n\<rfloor> = 1 then QUEUEHINT_THRESHOLD else QUEUEHINT_DEFAULT) attr) (AsLongDouble x)
     else map_sum id (\<lambda>s. SetHint (if s = ''threshold'' then QUEUEHINT_THRESHOLD else QUEUEHINT_DEFAULT) attr) (text_of sf x))"

definition queue_attr :: "(rat \<Rightarrow> string) \<Rightarrow> Variant \<Rightarrow> cpn_error + QueueAttr" where
  "queue_attr sf attr =
     and_then (and_then (item attr ''size'') AsUnsigned) (\<lambda>len.
     and_then (and_then (item attr ''threshold'') AsUnsigned) (\<lambda>thresh.
     and_then (and_then (item attr ''readernode'') (text_of sf)) (\<lambda>rn.
     and_then (and_then (item attr ''readerport'') (text_of sf)) (\<lambda>rp.
     and_then (and_then (item attr ''writernode'') (text_of sf)) (\<lambda>wn.
     and_then (and_then (item attr ''writerport'') (text_of sf)) (\<lambda>wp.
     and_then (when_set attr ''type'' (queue_hint sf) (SetWriter wn wp (SetReader rn rp (new_QueueAttr len thresh)))) (\<lambda>q.
     and_then (when_set attr ''datatype'' (\<lambda>x q. map_sum id (\<lambda>s. SetDatatype s q) (text_of sf x)) q) (\<lambda>q.
     and_then (when_set attr ''numchannels'' (\<lambda>x q. map_sum id (\<lambda>n. SetNumChannels n q) (AsUnsigned x)) q) (\<lambda>q.
     and_then (when_set attr ''alpha'' (\<lambda>x q. map_sum id (\<lambda>a. SetAlpha a q) (AsLongDouble x)) q) (\<lambda>q.
     and_then (when_set attr ''name'' (\<lambda>x q. if GetType x = StringType then map_sum id (\<lambda>s. SetName s q) (text_of sf x) else Inr q) q) (\<lambda>q.
       when_set attr ''maxwritethreshold'' (\<lambda>x q. map_sum id (\<lambda>n. SetMaxWriteThreshold n q) (AsUnsigned x)) q)))))))))))"

definition LoadQueue :: "(rat \<Rightarrow> string) \<Rightarrow> platform \<Rightarrow> nat \<Rightarrow> Variant \<Rightarrow> unit act" where
  "LoadQueue sf pl krn attr = andthen (lift_result (queue_attr sf attr)) (CreateQueue pl krn)"

definition LoadQueues :: "(rat \<Rightarrow> string) \<Rightarrow> platform \<Rightarrow> nat \<Rightarrow> Variant \<Rightarrow> unit act" where
  "LoadQueues sf pl krn queuelist =
     (if GetType queuelist = ArrayType
      then each (\<lambda>v. if GetType v = ObjectType then LoadQueue sf pl krn v else ret ()) (array queuelist) else ret ())"

definition Setup :: "(rat \<Rightarrow> string) \<Rightarrow> platform \<Rightarrow> nat \<Rightarrow> Variant \<Rightarrow> unit act" where
  "Setup sf pl krn args =
     andthen (lift_result (item args ''nodes'')) (\<lambda>nodes.
     andthen (lift_result (item args ''nodemap'')) (\<lambda>nmap.
     andthen (LoadNodes sf krn nodes nmap) (\<lambda>_.
     andthen (lift_result (item args ''queues'')) (LoadQueues sf pl krn))))"

section \<open>Validation\<close>

type_synonym verdict = "bool \<times> string"

text \<open>One element of the loops of \<open>Validate\<close>: a verdict that ends it, or the sets it goes on with.\<close>

definition unless_refused :: "(verdict \<Rightarrow> 'r) \<Rightarrow> cpn_error + verdict + 's \<Rightarrow> ('s \<Rightarrow> cpn_error + 'r) \<Rightarrow> cpn_error + 'r" where
  "unless_refused j r f = and_then r (case_sum (\<lambda>b. Inr (j b)) f)"

definition check_node :: "(rat \<Rightarrow> string) \<Rightarrow> string set \<Rightarrow> Variant \<Rightarrow> cpn_error + verdict + string set" where
  "check_node sf nodeset n =
     and_then (item n ''name'') (\<lambda>name. if GetType name \<noteq> StringType then Inr (Inl (False, ''Nodes must have a name''))
     else and_then (item n ''type'') (\<lambda>type. if GetType type \<noteq> StringType then Inr (Inl (False, ''Nodes must have a type''))
     else and_then (text_of sf name) (\<lambda>s.
       Inr (if s \<in> nodeset then Inl (False, ''Duplicate node'') else Inr (insert s nodeset)))))"

definition check_port :: "(rat \<Rightarrow> string) \<Rightarrow> string \<times> string \<Rightarrow> string \<times> string \<Rightarrow> string \<Rightarrow> (string \<Rightarrow> string set) \<Rightarrow> Variant \<Rightarrow> cpn_error + verdict + (string \<Rightarrow> string set)" where
  "check_port sf = (\<lambda>(knode, kport) (nonode, noport) taken ports q.
     and_then (item q knode) (\<lambda>node. if GetType node \<noteq> StringType then Inr (Inl (False, nonode))
     else and_then (item q kport) (\<lambda>port. if GetType port \<noteq> StringType then Inr (Inl (False, noport))
     else and_then (text_of sf node) (\<lambda>n. and_then (text_of sf port) (\<lambda>p.
       Inr (if p \<in> ports n then Inl (False, taken) else Inr (ports(n := insert p (ports n)))))))))"

definition check_queue :: "(rat \<Rightarrow> string) \<Rightarrow> (string \<Rightarrow> string set) \<times> (string \<Rightarrow> string set) \<Rightarrow> Variant \<Rightarrow> cpn_error + verdict + (string \<Rightarrow> string set) \<times> (string \<Rightarrow> string set)" where
  "check_queue sf = (\<lambda>(readports, writeports) q.
     and_then (item q ''size'') (\<lambda>x. if GetType x = NullType then Inr (Inl (False, ''Queues must have a size''))
     else and_then (item q ''threshold'') (\<lambda>x. if GetType x = NullType then Inr (Inl (False, ''Queues must have a threshold''))
     else unless_refused Inl (check_port sf (''readernode'', ''readerport'') (''Queues must have a readernode'', ''Queues must have a readerport'')
       ''Two queues connected to the same reader port.'' readports q) (\<lambda>readports.
     unless_refused Inl (check_port sf (''writernode'', ''writerport'') (''Queues must have a writernode'', ''Queues must have a writerport'')
       ''Two queues connected to the same writer port.'' writeports q) (\<lambda>writeports.
       Inr (Inr (readports, writeports)))))))"

fun check_each :: "('s \<Rightarrow> Variant \<Rightarrow> cpn_error + verdict + 's) \<Rightarrow> 's \<Rightarrow> Variant list \<Rightarrow> cpn_error + verdict + 's" where
  "check_each f s [] = Inr (Inr s)"
| "check_each f s (v # vs) = unless_refused Inl (f s v) (\<lambda>s'. check_each f s' vs)"

definition Validate :: "(rat \<Rightarrow> string) \<Rightarrow> Variant \<Rightarrow> cpn_error + verdict" where
  "Validate sf conf =
     and_then (item conf ''name'') (\<lambda>name. if GetType name \<noteq> StringType then Inr (False, ''Kernels must have a name.'')
     else and_then (and_then (item conf ''nodes'') AsArray) (\<lambda>(nodes, nv).
     unless_refused id (check_each (check_node sf) {} nodes) (\<lambda>nodeset.
     and_then (and_then (item conf ''queues'') AsArray) (\<lambda>(queues, qv).
     unless_refused id (check_each (check_queue sf) (\<lambda>_. {}, \<lambda>_. {}) queues) (\<lambda>ports.
       Inr (True, []))))))"

section \<open>What Validate accepts\<close>

definition field :: "Variant \<Rightarrow> string \<Rightarrow> Variant" where
  "field v k = (case entry v k of None \<Rightarrow> new_Variant NullType | Some x \<Rightarrow> x)"

definition has_text :: "string \<Rightarrow> Variant \<Rightarrow> bool" where
  "has_text k v \<longleftrightarrow> GetType (field v k) = StringType"

definition text_at :: "string \<Rightarrow> Variant \<Rightarrow> string" where
  "text_at k v = stringval (field v k)"

definition elements :: "Variant \<Rightarrow> Variant list" where
  "elements v = (if GetType v = ArrayType then array v else [])"

definition list_or_null :: "Variant \<Rightarrow> bool" where
  "list_or_null v \<longleftrightarrow> GetType v = ArrayType \<or> GetType v = NullType"

definition end_of :: "string \<Rightarrow> string \<Rightarrow> Variant \<Rightarrow> string \<times> string" where
  "end_of knode kport q = (text_at knode q, text_at kport q)"

definition node_ok :: "Variant \<Rightarrow> bool" where
  "node_ok n \<longleftrightarrow> has_text ''name'' n \<and> has_text ''type'' n"

definition queue_ok :: "Variant \<Rightarrow> bool" where
  "queue_ok q \<longleftrightarrow> GetType (field q ''size'') \<noteq> NullType \<and> GetType (field q ''threshold'') \<noteq> NullType \<and>
     has_text ''readernode'' q \<and> has_text ''readerport'' q \<and> has_text ''writernode'' q \<and> has_text ''writerport'' q"

definition config_ok :: "Variant \<Rightarrow> bool" where
  "config_ok conf \<longleftrightarrow> has_text ''name'' conf \<and>
     list_or_null (field conf ''nodes'') \<and> list_or_null (field conf ''queues'') \<and>
     (\<forall>n \<in> set (elements (field conf ''nodes'')). node_ok n) \<and>
     distinct (map (text_at ''name'') (elements (field conf ''nodes''))) \<and>
     (\<forall>q \<in> set (elements (field conf ''queues'')). queue_ok q) \<and>
     distinct (map (end_of ''readernode'' ''readerport'') (elements (field conf ''queues''))) \<and>
     distinct (map (end_of ''writernode'' ''writerport'') (elements (field conf ''queues'')))"

lemma and_then_Inr [result_iff]: "and_then r f = Inr y \<longleftrightarrow> (\<exists>x. r = Inr x \<and> f x = Inr y)"
  by (cases r) (simp_all add: and_then_def)

lemma and_then_simps [simp]: "and_then (Inr x) f = f x" "and_then (Inl e) f = Inl e"
  by (simp_all add: and_then_def)

text \<open>None of the keys is the number of an element.\<close>

lemma index_of_word: "w \<noteq> [] \<Longrightarrow> \<not> is_space (hd w) \<Longrightarrow> hd w \<noteq> CHR ''-'' \<Longrightarrow> hd w \<noteq> CHR ''+'' \<Longrightarrow> \<not> is_digit (hd w) \<Longrightarrow>
    index_of w = Inl AssertException"
  by (cases w) (simp_all add: index_of_def read_unsigned_def take_sign_def)

lemma index_of_keys [simp]:
  "index_of ''name'' = Inl AssertException" "index_of ''type'' = Inl AssertException"
  "index_of ''nodes'' = Inl AssertException" "index_of ''queues'' = Inl AssertException"
  "index_of ''size'' = Inl AssertException" "index_of ''threshold'' = Inl AssertException"
  "index_of ''readernode'' = Inl AssertException" "index_of ''readerport'' = Inl AssertException"
  "index_of ''writernode'' = Inl AssertException" "index_of ''writerport'' = Inl AssertException"
  by (rule index_of_word; simp add: is_space_def is_digit_def)+

lemma item_key:
  assumes "index_of k = Inl AssertException"
  shows "item v k = (if GetType v = ObjectType \<or> GetType v = NullType then Inr (field v k) else Inl AssertException)"
  using assms
  by (auto simp: item_def At_key_def obj_insert_def field_def entry_def and_then_def split: option.splits)

lemma field_null: "GetType v \<noteq> ObjectType \<Longrightarrow> field v k = new_Variant NullType"
  by (simp add: field_def entry_def)

lemma item_set:
  assumes "index_of k = Inl AssertException" "P NullType = False"
  shows "(\<exists>x. item v k = Inr x \<and> P (GetType x) \<and> Q x) \<longleftrightarrow> P (GetType (field v k)) \<and> Q (field v k)"
  using assms field_null [of v k] by (auto simp: item_key new_Variant_def)

lemma text_of_string: "GetType v = StringType \<Longrightarrow> text_of sf v = Inr (stringval v)"
  by (simp add: text_of_def AsString_def)

lemma check_node_ok:
  "check_node sf S n = Inr (Inr S') \<longleftrightarrow> node_ok n \<and> text_at ''name'' n \<notin> S \<and> S' = insert (text_at ''name'' n) S"
proof -
  have "check_node sf S n = Inr (Inr S') \<longleftrightarrow> (\<exists>name. item n ''name'' = Inr name \<and> GetType name = StringType \<and>
      (\<exists>type. item n ''type'' = Inr type \<and> GetType type = StringType \<and>
        stringval name \<notin> S \<and> S' = insert (stringval name) S))"
    by (auto simp: check_node_def result_iff text_of_string split: if_splits)
  then show ?thesis
    by (simp add: item_set [where P = "\<lambda>t. t = StringType"] node_ok_def has_text_def text_at_def)
qed

lemma check_port_ok:
  assumes "index_of kn = Inl AssertException" "index_of kp = Inl AssertException"
  shows "check_port sf (kn, kp) es taken R q = Inr (Inr R') \<longleftrightarrow>
    has_text kn q \<and> has_text kp q \<and> (case end_of kn kp q of (n, p) \<Rightarrow> p \<notin> R n \<and> R' = R(n := insert p (R n)))"
proof -
  have "check_port sf (kn, kp) es taken R q = Inr (Inr R') \<longleftrightarrow> (\<exists>n. item q kn = Inr n \<and> GetType n = StringType \<and>
      (\<exists>p. item q kp = Inr p \<and> GetType p = StringType \<and>
        stringval p \<notin> R (stringval n) \<and> R' = R(stringval n := insert (stringval p) (R (stringval n)))))"
    by (cases es) (auto simp: check_port_def result_iff text_of_string split: if_splits)
  then show ?thesis
    using assms by (simp add: item_set [where P = "\<lambda>t. t = StringType"] has_text_def text_at_def end_of_def)
qed

definition fresh_ends :: "(Variant \<Rightarrow> string \<times> string) \<Rightarrow> (string \<Rightarrow> string set) \<Rightarrow> Variant list \<Rightarrow> bool" where
  "fresh_ends g R qs \<longleftrightarrow> distinct (map g qs) \<and> (\<forall>q \<in> set qs. snd (g q) \<notin> R (fst (g q)))"

lemma unless_refused_Inr [result_iff]:
  "unless_refused j r f = Inr y \<longleftrightarrow> (\<exists>b. r = Inr (Inl b) \<and> y = j b) \<or> (\<exists>s. r = Inr (Inr s) \<and> f s = Inr y)"
  by (auto simp: unless_refused_def and_then_def split: sum.splits)

lemma not_in_insert_at: "p \<notin> (R(n := insert m (R n))) k \<longleftrightarrow> p \<notin> R k \<and> (k, p) \<noteq> (n, m)"
  by auto

lemma fresh_ends_Cons:
  "fresh_ends g R (q # qs) \<longleftrightarrow> snd (g q) \<notin> R (fst (g q)) \<and>
     fresh_ends g (R(fst (g q) := insert (snd (g q)) (R (fst (g q))))) qs"
proof -
  have "(\<forall>x \<in> set qs. (fst (g x), snd (g x)) \<noteq> (fst (g q), snd (g q))) \<longleftrightarrow> g q \<notin> g ` set qs"
    unfolding prod.collapse by (auto simp: image_iff)
  then show ?thesis
    unfolding fresh_ends_def not_in_insert_at by auto
qed

lemma check_queue_ok:
  "check_queue sf (R, W) q = Inr (Inr s) \<longleftrightarrow> queue_ok q \<and>
     (case (end_of ''readernode'' ''readerport'' q, end_of ''writernode'' ''writerport'' q) of ((rn, rp), (wn, wp)) \<Rightarrow>
       rp \<notin> R rn \<and> wp \<notin> W wn \<and> s = (R(rn := insert rp (R rn)), W(wn := insert wp (W wn))))"
proof -
  have "check_queue sf (R, W) q = Inr (Inr s) \<longleftrightarrow> (\<exists>x. item q ''size'' = Inr x \<and> GetType x \<noteq> NullType \<and>
      (\<exists>y. item q ''threshold'' = Inr y \<and> GetType y \<noteq> NullType \<and>
        (\<exists>R'. check_port sf (''readernode'', ''readerport'') (''Queues must have a readernode'', ''Queues must have a readerport'')
            ''Two queues connected to the same reader port.'' R q = Inr (Inr R') \<and>
          (\<exists>W'. check_port sf (''writernode'', ''writerport'') (''Queues must have a writernode'', ''Queues must have a writerport'')
            ''Two queues connected to the same writer port.'' W q = Inr (Inr W') \<and> s = (R', W')))))"
    by (auto simp: check_queue_def result_iff split: if_splits)
  then show ?thesis
    by (simp add: item_set [where P = "\<lambda>t. t \<noteq> NullType"] check_port_ok queue_ok_def split: prod.splits) blast
qed

lemma check_each_nodes:
  "(\<exists>S'. check_each (check_node sf) S ns = Inr (Inr S')) \<longleftrightarrow>
     (\<forall>n \<in> set ns. node_ok n) \<and> distinct (map (text_at ''name'') ns) \<and> text_at ''name'' ` set ns \<inter> S = {}"
proof (induction ns arbitrary: S)
  case (Cons n ns)
  have "(\<exists>S'. check_each (check_node sf) S (n # ns) = Inr (Inr S')) \<longleftrightarrow>
      node_ok n \<and> text_at ''name'' n \<notin> S \<and>
      (\<exists>S'. check_each (check_node sf) (insert (text_at ''name'' n) S) ns = Inr (Inr S'))"
    by (auto simp: result_iff check_node_ok)
  then show ?case
    by (auto simp: Cons.IH)
qed simp

lemma check_each_queues:
  "(\<exists>s. check_each (check_queue sf) (R, W) qs = Inr (Inr s)) \<longleftrightarrow> (\<forall>q \<in> set qs. queue_ok q) \<and>
     fresh_ends (end_of ''readernode'' ''readerport'') R qs \<and> fresh_ends (end_of ''writernode'' ''writerport'') W qs"
proof (induction qs arbitrary: R W)
  case (Cons q qs)
  obtain rn rp wn wp where e: "end_of ''readernode'' ''readerport'' q = (rn, rp)" "end_of ''writernode'' ''writerport'' q = (wn, wp)"
    by force
  have eq: "(\<exists>s. check_each (check_queue sf) (R, W) (q # qs) = Inr (Inr s)) \<longleftrightarrow>
      queue_ok q \<and> rp \<notin> R rn \<and> wp \<notin> W wn \<and>
      (\<exists>s. check_each (check_queue sf) (R(rn := insert rp (R rn)), W(wn := insert wp (W wn))) qs = Inr (Inr s))"
    by (auto simp: result_iff check_queue_ok e)
  show ?case
    unfolding eq Cons.IH fresh_ends_Cons e by auto
qed (simp add: fresh_ends_def)

text \<open>A verdict that ends a loop early is a refusal.\<close>

lemma check_each_refuses:
  assumes "\<And>s v b. f s v = Inr (Inl b) \<Longrightarrow> \<not> fst b" and "check_each f s vs = Inr (Inl b)"
  shows "\<not> fst b"
  using assms(2)
proof (induction vs arbitrary: s)
  case (Cons v vs)
  then have "f s v = Inr (Inl b) \<or> (\<exists>s'. check_each f s' vs = Inr (Inl b))"
    by (auto simp: result_iff)
  then show ?case
    using assms(1) Cons.IH by blast
qed simp

lemma check_port_refuses: "check_port sf ks es taken R q = Inr (Inl b) \<Longrightarrow> \<not> fst b"
  by (auto simp: check_port_def result_iff split: if_splits prod.splits)

lemma check_node_refuses: "check_node sf S n = Inr (Inl b) \<Longrightarrow> \<not> fst b"
  by (auto simp: check_node_def result_iff split: if_splits)

lemma check_queue_refuses: "check_queue sf s q = Inr (Inl b) \<Longrightarrow> \<not> fst b"
  by (auto simp: check_queue_def result_iff split: if_splits prod.splits dest: check_port_refuses)

lemma item_list:
  assumes "index_of k = Inl AssertException" "GetType v = ObjectType"
  shows "(\<exists>y. and_then (item v k) AsArray = Inr (xs, y)) \<longleftrightarrow> list_or_null (field v k) \<and> xs = elements (field v k)"
  using assms by (auto simp: item_key AsArray_def list_or_null_def elements_def ASSERT_Inr Let_def)

text \<open>C13: \<open>Validate\<close> accepts a configuration exactly when it is well formed: the kernel has a name, the nodes and
  the queues are lists or missing, every node has a name and a type and no two nodes the same name, every
  queue has a size, a threshold and the names of its four ends, and no two queues share a reading or a
  writing port.\<close>

theorem validate_exact: "Validate sf conf = Inr (True, []) \<longleftrightarrow> config_ok conf"
proof (cases "has_text ''name'' conf")
  case False
  then have "Validate sf conf \<noteq> Inr (True, [])"
    by (auto simp: Validate_def result_iff has_text_def item_key split: if_splits)
  with False show ?thesis
    by (simp add: config_ok_def)
next
  case True
  then have obj: "GetType conf = ObjectType"
    using field_null [of conf "''name''"] by (cases "GetType conf = ObjectType") (auto simp: has_text_def new_Variant_def)
  have refuse: "check_each (check_node sf) S ns \<noteq> Inr (Inl (True, t))"
    "check_each (check_queue sf) s qs \<noteq> Inr (Inl (True, t))" for S ns s qs t
    using check_each_refuses [OF check_node_refuses] check_each_refuses [OF check_queue_refuses] by fastforce+
  have eq: "Validate sf conf = Inr (True, []) \<longleftrightarrow>
    (\<exists>ns. (\<exists>y. and_then (item conf ''nodes'') AsArray = Inr (ns, y)) \<and>
      (\<exists>S. check_each (check_node sf) {} ns = Inr (Inr S)) \<and>
      (\<exists>qs. (\<exists>y. and_then (item conf ''queues'') AsArray = Inr (qs, y)) \<and>
        (\<exists>s. check_each (check_queue sf) (\<lambda>_. {}, \<lambda>_. {}) qs = Inr (Inr s))))"
    using True obj
    by (auto simp: Validate_def result_iff has_text_def item_key refuse)
  show ?thesis
    unfolding eq check_each_nodes check_each_queues
    using True by (auto simp: item_list obj config_ok_def fresh_ends_def)
qed

section \<open>Merging nodes\<close>

text \<open>
  The abstract view of a configuration: what it says of every node, by name. Adding a node overrides
  the keys that the view has for its name, and no other node.
\<close>

definition named_node :: "Variant \<Rightarrow> bool" where
  "named_node v \<longleftrightarrow> obj_sorted (obj v) \<and> has_text ''name'' v"

definition node_view :: "Variant list \<Rightarrow> string \<rightharpoonup> (string \<rightharpoonup> Variant)" where
  "node_view ns = map_of (map (\<lambda>n. (text_at ''name'' n, entry n)) ns)"

definition unique_names :: "Variant list \<Rightarrow> bool" where
  "unique_names ns \<longleftrightarrow> (\<forall>n \<in> set ns. named_node n) \<and> distinct (map (text_at ''name'') ns)"

definition overridden :: "Variant \<Rightarrow> (string \<rightharpoonup> Variant) option \<Rightarrow> string \<rightharpoonup> Variant" where
  "overridden v m = (case m of None \<Rightarrow> Map.empty | Some m \<Rightarrow> m) ++ (\<lambda>k. map_option Copy (entry v k))"

lemma has_text_object: "has_text k v \<Longrightarrow> GetType v = ObjectType"
  using field_null [of v k] by (cases "GetType v = ObjectType") (auto simp: has_text_def new_Variant_def)

lemma named_node_object: "named_node v \<Longrightarrow> GetType v = ObjectType \<and> object_ok v"
  using has_text_object by (auto simp: named_node_def object_ok_def)

lemma has_text_entry: "has_text k v \<longleftrightarrow> (\<exists>x. entry v k = Some x \<and> GetType x = StringType)"
  by (auto simp: has_text_def field_def new_Variant_def split: option.splits)

lemma At_key_present: "entry v k = Some x \<Longrightarrow> At_key v k = Inr (x, v)"
  by (auto simp: entry_def At_key_def obj_insert_def split: if_splits)

lemma Assign_Copy [simp]: "Assign (Copy v) = Copy v"
  by (cases v) (auto simp: Assign_def new_Variant_def split: Type_t.splits)

lemma GetType_Copy [simp]: "GetType (Copy v) = GetType v"
  by (cases v) (auto simp: new_Variant_def split: Type_t.splits)

lemma stringval_Copy: "GetType v = StringType \<Longrightarrow> stringval (Copy v) = stringval v"
  by (cases v) simp

lemma entry_Copy: "entry (Copy v) k = map_option Copy (entry v k)"
proof (cases v)
  case (Variant t x s vs kvs)
  have "map_of (map (\<lambda>(k, v). (k, Copy v)) kvs) k = map_option Copy (map_of kvs k)"
    by (induction kvs) auto
  then show ?thesis
    by (auto simp: entry_def Variant new_Variant_def split: Type_t.splits)
qed

lemma obj_sorted_Copy: "obj_sorted (obj v) \<Longrightarrow> obj_sorted (obj (Copy v))"
  by (cases v) (auto simp: obj_sorted_def new_Variant_def comp_def case_prod_unfold split: Type_t.splits)

lemma named_node_Copy: "named_node v \<Longrightarrow> named_node (Copy v) \<and> text_at ''name'' (Copy v) = text_at ''name'' v"
  by (auto simp: named_node_def obj_sorted_Copy has_text_entry entry_Copy text_at_def field_def stringval_Copy)

lemma equal_v_strings: "GetType x = StringType \<Longrightarrow> GetType y = StringType \<Longrightarrow> equal_v sf x y = Inr (stringval x = stringval y)"
  by (cases x; cases y) (simp add: equal_v_def CompareString_def)

lemma field_equal_name:
  assumes "named_node v" "named_node e"
  shows "field_equal sf ''name'' v e = Inr (text_at ''name'' v = text_at ''name'' e, v, e)"
  using assms
  by (auto simp: named_node_def has_text_entry field_equal_def At_key_present equal_v_strings text_at_def field_def)

lemma fold_set_key:
  "object_ok e \<Longrightarrow> fold_all (\<lambda>(k, x) e. set_key e k (Copy x)) kvs e =
     Inr (objects.put_all (map (\<lambda>(k, x). (k, Copy x)) kvs) e)"
proof (induction kvs arbitrary: e)
  case (Cons p kvs)
  obtain k x where p: "p = (k, x)" by force
  obtain e' where "set_key e k (Copy x) = Inr e'" "object_ok e'"
    using object_ok_set_key [OF Cons.prems] by blast
  moreover from this have "put_entry k (Copy x) e = e'"
    by (simp add: put_entry_def)
  ultimately show ?case
    using Cons.IH by (simp add: p)
qed simp

lemma override_all_named:
  assumes v: "named_node v" and e: "named_node e" and same: "text_at ''name'' v = text_at ''name'' e"
  shows "\<exists>e'. override_all v e = Inr e' \<and> named_node e' \<and> text_at ''name'' e' = text_at ''name'' v \<and>
    entry e' = overridden v (Some (entry e))"
proof -
  let ?kvs = "map (\<lambda>(k, x). (k, Copy x)) (obj v)"
  let ?e = "objects.put_all ?kvs e"
  have o: "GetType v = ObjectType" "object_ok e"
    using named_node_object v e by auto
  have "distinct (map fst ?kvs)"
    using obj_sorted_distinct [of "obj v"] v by (simp add: named_node_def comp_def case_prod_unfold)
  moreover have "map_option Assign (map_of ?kvs k) = map_option Copy (map_of (obj v) k)" for k
    by (simp add: map_of_map option.map_comp comp_def)
  ultimately have ent: "entry ?e = overridden v (Some (entry e))"
    using objects.get_put_all [OF o(2), of ?kvs] o(1) by (simp add: overridden_def entry_def)
  obtain x where x: "entry v ''name'' = Some x" "GetType x = StringType"
    using v by (auto simp: named_node_def has_text_entry)
  then have "entry ?e ''name'' = Some (Copy x)"
    by (simp add: ent overridden_def)
  moreover from this have "GetType ?e = ObjectType"
    by (simp add: entry_def split: if_splits)
  moreover have "object_ok ?e"
    by (rule objects.ok_put_all [OF o(2)])
  ultimately have "named_node ?e" "text_at ''name'' ?e = text_at ''name'' v"
    using x by (auto simp: named_node_def object_ok_def has_text_entry text_at_def field_def stringval_Copy)
  moreover have "override_all v e = Inr ?e"
    using o by (simp add: override_all_def AsObject_def fold_set_key)
  ultimately show ?thesis
    using ent by blast
qed

lemma node_view_Cons: "node_view (n # ns) = (node_view ns)(text_at ''name'' n \<mapsto> entry n)"
  by (simp add: node_view_def)

lemma merge_entry_named:
  assumes "named_node v" "unique_names es"
  shows "\<exists>es'. merge_entry (field_equal sf ''name'') v es = Inr es' \<and> unique_names es' \<and>
    text_at ''name'' ` set es' = insert (text_at ''name'' v) (text_at ''name'' ` set es) \<and>
    node_view es' = (node_view es)(text_at ''name'' v \<mapsto> overridden v (node_view es (text_at ''name'' v)))"
  using assms(2)
proof (induction es)
  case Nil
  have "entry (Copy v) = overridden v None"
    by (auto simp: overridden_def entry_Copy fun_eq_iff map_add_def split: option.splits)
  then show ?case
    using named_node_Copy [OF assms(1)] by (auto simp: unique_names_def node_view_def fun_eq_iff)
next
  case (Cons e es)
  then have e: "named_node e" "unique_names es" "text_at ''name'' e \<notin> text_at ''name'' ` set es"
    by (auto simp: unique_names_def)
  note eq = field_equal_name [OF assms(1) e(1), of sf]
  show ?case
  proof (cases "text_at ''name'' v = text_at ''name'' e")
    case True
    then show ?thesis
      using override_all_named [OF assms(1) e(1) True] e by (auto simp: eq unique_names_def node_view_Cons fun_eq_iff)
  next
    case False
    then show ?thesis
      using Cons.IH [OF e(2)] e by (auto simp: eq unique_names_def node_view_Cons fun_eq_iff)
  qed
qed

lemma update_key_object:
  assumes "GetType c = ObjectType" "entry c k = Some x"
  shows "update_key c k f = map_sum id (\<lambda>y. with_obj (obj_put k y (obj c)) c) (f x)"
  using assms by (simp add: update_key_def At_key_present put_back_def [abs_def])

lemma At_key_object:
  assumes "object_ok c"
  shows "\<exists>c'. At_key c k = Inr (field c k, c') \<and> object_ok c' \<and> entry c' = (entry c)(k \<mapsto> field c k)"
proof (cases "entry c k")
  case None
  then show ?thesis
    using assms
    by (auto simp: At_key_def obj_insert_def object_ok_def entry_def field_def obj_sorted_put map_of_obj_put
        obj_sorted_Cons fun_eq_iff split: if_splits)
next
  case (Some x)
  then show ?thesis
    using assms by (auto simp: At_key_present field_def)
qed

lemma with_list_object:
  assumes "object_ok c"
  shows "\<exists>c' x. with_list c k = Inr c' \<and> object_ok c' \<and> GetType c' = ObjectType \<and> entry c' k = Some x \<and>
    GetType x = ArrayType \<and> array x = elements (field c k) \<and> (\<forall>k'. k' \<noteq> k \<longrightarrow> field c' k' = field c k')"
proof (cases "\<exists>x. entry c k = Some x \<and> GetType x = ArrayType")
  case True
  then obtain x where x: "entry c k = Some x" "GetType x = ArrayType" by blast
  moreover from x have "GetType c = ObjectType"
    by (simp add: entry_def split: if_splits)
  ultimately show ?thesis
    using assms by (simp add: with_list_def At_key_present elements_def field_def)
next
  case False
  obtain c1 where at: "At_key c k = Inr (field c k, c1)" and c1: "object_ok c1" "entry c1 = (entry c)(k \<mapsto> field c k)"
    using At_key_object [OF assms] by blast
  obtain c' where "set_key c1 k (new_Variant ArrayType) = Inr c'" "object_ok c'" "GetType c' = ObjectType"
    "entry c' = (entry c1)(k \<mapsto> Assign (new_Variant ArrayType))"
    using object_ok_set_key [OF c1(1)] by blast
  moreover have "elements (field c k) = []" "GetType (field c k) \<noteq> ArrayType"
    using False by (auto simp: elements_def field_def new_Variant_def split: option.splits)
  ultimately show ?thesis
    using at c1(2) by (auto simp: with_list_def Assign_def new_Variant_def field_def)
qed

text \<open>C14: Adding a node refines an override of the abstract view. On a configuration whose nodes have distinct
  names, \<open>AddNode\<close> with a named node comes back; the names stay distinct, the view of that name is the old
  one overridden by copies of the entries of the node, a new name being added, the view of every other
  node and every other part of the configuration stay the same.\<close>

theorem add_node_view:
  assumes "object_ok c" "unique_names (elements (field c ''nodes''))" "named_node v"
  shows "\<exists>c'. AddNode_cfg sf c v = Inr c' \<and> object_ok c' \<and> unique_names (elements (field c' ''nodes'')) \<and>
    node_view (elements (field c' ''nodes'')) = (node_view (elements (field c ''nodes'')))
      (text_at ''name'' v \<mapsto> overridden v (node_view (elements (field c ''nodes'')) (text_at ''name'' v))) \<and>
    (\<forall>k. k \<noteq> ''nodes'' \<longrightarrow> field c' k = field c k)"
proof -
  obtain c1 x where c1: "with_list c ''nodes'' = Inr c1" "object_ok c1" "GetType c1 = ObjectType"
    "entry c1 ''nodes'' = Some x" "GetType x = ArrayType" "array x = elements (field c ''nodes'')"
    "\<forall>k'. k' \<noteq> ''nodes'' \<longrightarrow> field c1 k' = field c k'"
    using with_list_object [OF assms(1)] by blast
  obtain es where es: "merge_entry (field_equal sf ''name'') v (array x) = Inr es" "unique_names es"
    "node_view es = (node_view (array x))(text_at ''name'' v \<mapsto> overridden v (node_view (array x) (text_at ''name'' v)))"
    using merge_entry_named [OF assms(3,2), of sf] c1(6) by auto
  let ?c = "with_obj (obj_put ''nodes'' (with_array es x) (obj c1)) c1"
  have "AddNode_cfg sf c v = Inr ?c"
    using c1 es(1) by (simp add: AddNode_cfg_def add_entry_def update_key_object)
  moreover have "object_ok ?c" and e: "entry ?c = (entry c1)(''nodes'' \<mapsto> with_array es x)"
    using c1(2,3) by (auto simp: object_ok_def entry_def obj_sorted_put map_of_obj_put fun_eq_iff)
  moreover have "elements (field ?c ''nodes'') = es"
    using e c1(5) by (simp add: field_def elements_def)
  moreover have "field ?c k = field c k" if "k \<noteq> ''nodes''" for k
    using that e c1(7) by (simp add: field_def)
  ultimately show ?thesis
    using es(2,3) c1(6) by metis
qed

definition demo_node :: "string \<Rightarrow> string \<Rightarrow> Variant" where
  "demo_node n k = Variant ObjectType 0 [] [] [(''kernel'', Variant_string k), (''name'', Variant_string n)]"

definition demo_config :: Variant where
  "demo_config = Variant ObjectType 0 [] []
     [(''name'', Variant_string ''k''), (''nodes'', Variant ArrayType 0 [] [demo_node ''a'' ''k1'', demo_node ''b'' ''k1''] [])]"

lemma demo_config_ok:
  "object_ok demo_config" "unique_names (elements (field demo_config ''nodes''))" "named_node (demo_node ''b'' ''k2'')"
  by (simp_all add: object_ok_def demo_config_def obj_sorted_def unique_names_def named_node_def demo_node_def elements_def
      field_def entry_def has_text_def text_at_def Variant_string_def)

theorem add_node_view_witness:
  "\<exists>c'. AddNode_cfg (\<lambda>_. []) demo_config (demo_node ''b'' ''k2'') = Inr c' \<and>
     node_view (elements (field c' ''nodes'')) ''b'' \<noteq> node_view (elements (field demo_config ''nodes'')) ''b'' \<and>
     node_view (elements (field c' ''nodes'')) ''a'' = node_view (elements (field demo_config ''nodes'')) ''a''"
proof -
  have n: "text_at ''name'' (demo_node ''b'' ''k2'') = ''b''"
    by (simp add: demo_node_def text_at_def field_def entry_def Variant_string_def)
  have "node_view (elements (field demo_config ''nodes'')) ''b'' = Some (entry (demo_node ''b'' ''k1''))"
    by (simp add: node_view_def demo_config_def field_def entry_def elements_def demo_node_def text_at_def Variant_string_def)
  moreover have "overridden (demo_node ''b'' ''k2'') m ''kernel'' \<noteq> entry (demo_node ''b'' ''k1'') ''kernel''" for m
    by (simp add: overridden_def entry_def demo_node_def Variant_string_def)
  moreover obtain c' where "AddNode_cfg (\<lambda>_. []) demo_config (demo_node ''b'' ''k2'') = Inr c'"
    "node_view (elements (field c' ''nodes'')) = (node_view (elements (field demo_config ''nodes'')))
      (''b'' \<mapsto> overridden (demo_node ''b'' ''k2'') (node_view (elements (field demo_config ''nodes'')) ''b''))"
    using add_node_view [OF demo_config_ok, of "\<lambda>_. []"] unfolding n by blast
  ultimately show ?thesis
    by (auto simp: fun_eq_iff)
qed

end
