(* ===== verification/RemoteCtx.thy ===== *)
theory RemoteCtx
  imports LocalCtx Attrs VariantM
begin

text \<open>
  The context of a network that spans processes: the server (libraries/CPN/RemoteContextServer.cc) that keeps
  the directory, and the client (libraries/CPN/RemoteContextClient.cc) through which a kernel uses it.

  An info object, whose format RemoteContextServer.h gives, is a record with one field for every key
  the code uses; a key that is not set has the value null reads as: 0, false, or \<open>None\<close> for a text.
  The keys of a message are the arguments of its constructor. What the server sends while it handles a message
  is a list of outputs. A socket delivers every message once and in order, so that a remote call is the
  handling of its message by the server followed by the delivery of what the server sent; the calls
  of other clients come before or after it; what is broadcast reaches every client. The attributes in a request to another kernel are
  \<open>Variant\<close> objects, written and read key by key.
\<close>

section \<open>Messages and state\<close>

datatype info_kind = NullValue | NoType | Kernelinfo | Nodeinfo | Endpointinfo

record info =
  in_kind :: info_kind
  in_key :: nat
  in_name :: "string option"
  in_hostname :: "string option"
  in_servname :: "string option"
  in_client :: "string option"
  in_live :: bool
  in_started :: bool
  in_dead :: bool
  in_kernelkey :: nat
  in_endpoints :: "string \<rightharpoonup> nat"
  in_nodekey :: nat
  in_readerkey :: nat
  in_writerkey :: nat
  in_qname :: "string option"

definition null_info :: info where
  "null_info = \<lparr>in_kind = NullValue, in_key = 0, in_name = None, in_hostname = None, in_servname = None, in_client = None,
     in_live = False, in_started = False, in_dead = False, in_kernelkey = 0, in_endpoints = Map.empty,
     in_nodekey = 0, in_readerkey = 0, in_writerkey = 0, in_qname = None\<rparr>"

text \<open>\<open>AsString\<close> of a key that may be missing.\<close>

definition text_or_null :: "string option \<Rightarrow> string" where
  "text_or_null t = (case t of None \<Rightarrow> ''null'' | Some s \<Rightarrow> s)"

datatype rctx_msg =
    SETUP_KERNEL string string string
  | GET_KERNEL_INFO "string + nat"
  | SIGNAL_KERNEL_START nat
  | SIGNAL_KERNEL_END nat
  | CREATE nat "Variant remote_request"
  | CREATE_NODE_KEY nat string
  | SIGNAL_NODE_START nat
  | SIGNAL_NODE_END nat
  | GET_NODE_INFO "string + nat"
  | GET_NUM_NODE_LIVE
  | GET_CREATE_READER_KEY nat string
  | GET_READER_INFO nat
  | GET_CREATE_WRITER_KEY nat string
  | GET_WRITER_INFO nat
  | CONNECT_ENDPOINTS nat nat string
  | GET_READERS_WRITER
  | GET_WRITERS_READER
  | TERMINATE
  | LOG string

datatype reply_data = NoData | KernelData info | NodeData info | EndpointData info | NumLive nat

datatype client_msg =
    Reply nat bool reply_data
  | Notice nat reply_data
  | KernelMsg nat "Variant remote_request"
  | TerminateMsg

datatype srv_out = SendMessage string client_msg | BroadcastMessage client_msg | LogMessage string

record server =
  sv_datamap :: "nat \<rightharpoonup> info"
  sv_kernelmap :: "string \<rightharpoonup> nat"
  sv_nodemap :: "string \<rightharpoonup> nat"
  sv_shutdown :: bool
  sv_numlivenodes :: nat
  sv_keycount :: nat

definition new_server :: server where
  "new_server = \<lparr>sv_datamap = Map.empty, sv_kernelmap = Map.empty, sv_nodemap = Map.empty, sv_shutdown = False,
     sv_numlivenodes = 0, sv_keycount = 0\<rparr>"

section \<open>The server\<close>

text \<open>What a handler gives: the outputs, the new state, and the exception if there is one.\<close>

type_synonym handled = "srv_out list \<times> cpn_error option \<times> server"

definition NewKey_srv :: "server \<Rightarrow> nat" where
  "NewKey_srv sv = u64 (sv_keycount sv + 1)"

definition set_info :: "nat \<Rightarrow> info \<Rightarrow> server \<Rightarrow> server" where
  "set_info k i sv = sv\<lparr>sv_datamap := (sv_datamap sv)(k \<mapsto> i)\<rparr>"

text \<open>\<open>datamap[k]\<close> enters a null value for a key that is not there.\<close>

definition at_datamap :: "nat \<Rightarrow> server \<Rightarrow> info \<times> server" where
  "at_datamap k sv = (case sv_datamap sv k of None \<Rightarrow> (null_info, set_info k null_info sv) | Some i \<Rightarrow> (i, sv))"

definition NewBroadcastMessage :: "server \<Rightarrow> reply_data \<Rightarrow> srv_out" where
  "NewBroadcastMessage sv d = BroadcastMessage (Notice (sv_numlivenodes sv) d)"

definition Terminate_srv :: "server \<Rightarrow> handled" where
  "Terminate_srv sv = ([BroadcastMessage TerminateMsg], None, sv\<lparr>sv_shutdown := True\<rparr>)"

definition SetupKernel_srv :: "string \<Rightarrow> nat \<Rightarrow> string \<Rightarrow> string \<Rightarrow> string \<Rightarrow> server \<Rightarrow> handled" where
  "SetupKernel_srv sender msgid name hostname servname sv =
    (if sv_kernelmap sv name \<noteq> None then ([], None, sv)
     else
       let kernelkey = NewKey_srv sv;
           i = null_info\<lparr>in_kind := Kernelinfo, in_key := kernelkey, in_name := Some name, in_hostname := Some hostname,
             in_servname := Some servname, in_live := False, in_client := Some sender\<rparr>;
           sv1 = sv\<lparr>sv_keycount := kernelkey\<rparr>;
           sv2 = (if sv_datamap sv kernelkey = None then set_info kernelkey i sv1 else sv1)
       in ([SendMessage sender (Reply msgid True (KernelData i))], None,
           sv2\<lparr>sv_kernelmap := (sv_kernelmap sv)(name \<mapsto> kernelkey)\<rparr>))"

definition signal_kernel :: "bool \<Rightarrow> nat \<Rightarrow> server \<Rightarrow> handled" where
  "signal_kernel live kernelkey sv =
    (let (i, sv1) = at_datamap kernelkey sv
     in if in_kind i = Kernelinfo then
          let i' = i\<lparr>in_live := live\<rparr>; sv2 = set_info kernelkey i' sv1
          in ([NewBroadcastMessage sv2 (KernelData i')], None, sv2)
        else ([], Some AssertException, sv1))"

definition SignalKernelStart_srv :: "nat \<Rightarrow> server \<Rightarrow> handled" where
  "SignalKernelStart_srv kernelkey sv = signal_kernel True kernelkey sv"

definition SignalKernelEnd_srv :: "nat \<Rightarrow> server \<Rightarrow> handled" where
  "SignalKernelEnd_srv kernelkey sv = signal_kernel False kernelkey sv"

text \<open>
  The answer to a question about the object with a key. The type is looked up in the object itself, where the
  look-up makes a null value an object, or in the copy for the reply.
\<close>

definition in_place :: "nat \<Rightarrow> server \<Rightarrow> server" where
  "in_place k sv = (case sv_datamap sv k of
     None \<Rightarrow> sv
   | Some i \<Rightarrow> if in_kind i = NullValue then set_info k (i\<lparr>in_kind := NoType\<rparr>) sv else sv)"

definition in_copy :: "nat \<Rightarrow> server \<Rightarrow> server" where
  "in_copy k sv = sv"

definition reply_info :: "string \<Rightarrow> nat \<Rightarrow> info_kind \<Rightarrow> (info \<Rightarrow> reply_data) \<Rightarrow> (nat \<Rightarrow> server \<Rightarrow> server) \<Rightarrow> nat \<Rightarrow> server \<Rightarrow> handled" where
  "reply_info sender msgid kind data look key sv =
    (case sv_datamap sv key of
       None \<Rightarrow> ([SendMessage sender (Reply msgid False NoData)], None, sv)
     | Some i \<Rightarrow>
        if in_kind i = kind then ([SendMessage sender (Reply msgid True (data i))], None, sv)
        else ([], Some AssertException, look key sv))"

definition reply_named :: "string \<Rightarrow> nat \<Rightarrow> (string \<rightharpoonup> nat) \<Rightarrow> info_kind \<Rightarrow> (info \<Rightarrow> reply_data) \<Rightarrow> (nat \<Rightarrow> server \<Rightarrow> server) \<Rightarrow>
    string + nat \<Rightarrow> server \<Rightarrow> handled" where
  "reply_named sender msgid names kind data look which sv =
    (case which of
       Inl name \<Rightarrow>
         (case names name of
            None \<Rightarrow> ([SendMessage sender (Reply msgid False NoData)], None, sv)
          | Some key \<Rightarrow> reply_info sender msgid kind data look key sv)
     | Inr key \<Rightarrow> reply_info sender msgid kind data look key sv)"

definition GetKernelInfo_srv :: "string \<Rightarrow> nat \<Rightarrow> string + nat \<Rightarrow> server \<Rightarrow> handled" where
  "GetKernelInfo_srv sender msgid which sv = reply_named sender msgid (sv_kernelmap sv) Kernelinfo KernelData in_place which sv"

definition CreateNodeKey_srv :: "string \<Rightarrow> nat \<Rightarrow> nat \<Rightarrow> string \<Rightarrow> server \<Rightarrow> handled" where
  "CreateNodeKey_srv sender msgid kernelkey nodename sv =
    (if sv_nodemap sv nodename \<noteq> None then ([SendMessage sender (Reply msgid False NoData)], None, sv)
     else
       let nodekey = NewKey_srv sv;
           i = null_info\<lparr>in_kind := Nodeinfo, in_key := nodekey, in_name := Some nodename, in_kernelkey := kernelkey,
             in_started := False, in_dead := False, in_endpoints := Map.empty\<rparr>
       in ([SendMessage sender (Reply msgid True (NodeData i))], None,
           set_info nodekey i (sv\<lparr>sv_keycount := nodekey, sv_nodemap := (sv_nodemap sv)(nodename \<mapsto> nodekey)\<rparr>)))"

definition signal_node :: "(info \<Rightarrow> info) \<Rightarrow> nat \<Rightarrow> nat \<Rightarrow> server \<Rightarrow> handled" where
  "signal_node f live nodekey sv =
    (let (i, sv1) = at_datamap nodekey (sv\<lparr>sv_numlivenodes := live\<rparr>)
     in if in_kind i = Nodeinfo then
          let sv2 = set_info nodekey (f i) sv1
          in ([NewBroadcastMessage sv2 (NodeData (f i))], None, sv2)
        else ([], Some AssertException, sv1))"

definition SignalNodeStart_srv :: "nat \<Rightarrow> server \<Rightarrow> handled" where
  "SignalNodeStart_srv nodekey sv = signal_node (in_started_update (\<lambda>_. True)) (u32 (sv_numlivenodes sv + 1)) nodekey sv"

definition SignalNodeEnd_srv :: "nat \<Rightarrow> server \<Rightarrow> handled" where
  "SignalNodeEnd_srv nodekey sv = signal_node (in_dead_update (\<lambda>_. True)) (sub32 (sv_numlivenodes sv) 1) nodekey sv"

definition GetNodeInfo_srv :: "string \<Rightarrow> nat \<Rightarrow> string + nat \<Rightarrow> server \<Rightarrow> handled" where
  "GetNodeInfo_srv sender msgid which sv = reply_named sender msgid (sv_nodemap sv) Nodeinfo NodeData in_copy which sv"

definition GetNumNodeLive_srv :: "string \<Rightarrow> nat \<Rightarrow> server \<Rightarrow> handled" where
  "GetNumNodeLive_srv sender msgid sv = ([SendMessage sender (Reply msgid True (NumLive (sv_numlivenodes sv)))], None, sv)"

text \<open>A null value in the map is copied, not shared: an endpoint entered in the copy is not in the map.\<close>

definition GetCreateEndpointKey_srv :: "string \<Rightarrow> nat \<Rightarrow> nat \<Rightarrow> string \<Rightarrow> server \<Rightarrow> handled" where
  "GetCreateEndpointKey_srv sender msgid nodekey name sv =
    (case sv_datamap sv nodekey of
       None \<Rightarrow> ([SendMessage sender (Reply msgid False NoData)], None, sv)
     | Some n \<Rightarrow>
        (case in_endpoints n name of
           Some epkey \<Rightarrow>
             (let (i, sv1) = at_datamap epkey sv
              in if in_kind i = Endpointinfo then ([SendMessage sender (Reply msgid True (EndpointData i))], None, sv1)
                 else ([], Some AssertException, sv1))
         | None \<Rightarrow>
             let epkey = NewKey_srv sv;
                 sv1 = sv\<lparr>sv_keycount := epkey\<rparr>;
                 sv2 = (if in_kind n = NullValue then sv1
                        else set_info nodekey (n\<lparr>in_endpoints := (in_endpoints n)(name \<mapsto> epkey)\<rparr>) sv1);
                 i = null_info\<lparr>in_kind := Endpointinfo, in_key := epkey, in_name := Some name, in_nodekey := nodekey,
                   in_kernelkey := in_kernelkey n, in_live := True\<rparr>
             in ([SendMessage sender (Reply msgid True (EndpointData i))], None, set_info epkey i sv2)))"

definition GetEndpointInfo_srv :: "string \<Rightarrow> nat \<Rightarrow> nat \<Rightarrow> server \<Rightarrow> handled" where
  "GetEndpointInfo_srv sender msgid key sv = reply_info sender msgid Endpointinfo EndpointData in_copy key sv"

text \<open>\<open>datamap[k][...] = x\<close>: a missing or null value becomes an object without a type.\<close>

definition update_info :: "nat \<Rightarrow> (info \<Rightarrow> info) \<Rightarrow> server \<Rightarrow> server" where
  "update_info k f sv =
    (let (i, sv1) = at_datamap k sv
     in set_info k (f (if in_kind i = NullValue then i\<lparr>in_kind := NoType\<rparr> else i)) sv1)"

definition ConnectEndpoints_srv :: "nat \<Rightarrow> nat \<Rightarrow> string \<Rightarrow> server \<Rightarrow> handled" where
  "ConnectEndpoints_srv wkey rkey qname sv =
     ([], None, update_info wkey (in_qname_update (\<lambda>_. Some qname)) (update_info rkey (in_qname_update (\<lambda>_. Some qname))
        (update_info rkey (in_writerkey_update (\<lambda>_. wkey)) (update_info wkey (in_readerkey_update (\<lambda>_. rkey)) sv))))"

definition RouteKernelMessage :: "nat \<Rightarrow> Variant remote_request \<Rightarrow> server \<Rightarrow> handled" where
  "RouteKernelMessage kernelkey req sv =
    (let (i, sv1) = at_datamap kernelkey sv
     in ([SendMessage (text_or_null (in_client i)) (KernelMsg kernelkey req)], None, sv1))"

fun DispatchMessage_srv :: "string \<Rightarrow> nat \<Rightarrow> rctx_msg \<Rightarrow> server \<Rightarrow> handled" where
  "DispatchMessage_srv sender msgid msg sv =
    (if sv_shutdown sv then ([], None, sv)
     else case msg of
       SETUP_KERNEL name hostname servname \<Rightarrow> SetupKernel_srv sender msgid name hostname servname sv
     | SIGNAL_KERNEL_START key \<Rightarrow> SignalKernelStart_srv key sv
     | SIGNAL_KERNEL_END key \<Rightarrow> SignalKernelEnd_srv key sv
     | GET_KERNEL_INFO which \<Rightarrow> GetKernelInfo_srv sender msgid which sv
     | CREATE kernelkey req \<Rightarrow> RouteKernelMessage kernelkey req sv
     | CREATE_NODE_KEY kernelkey name \<Rightarrow> CreateNodeKey_srv sender msgid kernelkey name sv
     | SIGNAL_NODE_START key \<Rightarrow> SignalNodeStart_srv key sv
     | SIGNAL_NODE_END key \<Rightarrow> SignalNodeEnd_srv key sv
     | GET_NODE_INFO which \<Rightarrow> GetNodeInfo_srv sender msgid which sv
     | GET_NUM_NODE_LIVE \<Rightarrow> GetNumNodeLive_srv sender msgid sv
     | GET_CREATE_READER_KEY nodekey name \<Rightarrow> GetCreateEndpointKey_srv sender msgid nodekey name sv
     | GET_READER_INFO key \<Rightarrow> GetEndpointInfo_srv sender msgid key sv
     | GET_CREATE_WRITER_KEY nodekey name \<Rightarrow> GetCreateEndpointKey_srv sender msgid nodekey name sv
     | GET_WRITER_INFO key \<Rightarrow> GetEndpointInfo_srv sender msgid key sv
     | CONNECT_ENDPOINTS wkey rkey qname \<Rightarrow> ConnectEndpoints_srv wkey rkey qname sv
     | TERMINATE \<Rightarrow> Terminate_srv sv
     | LOG s \<Rightarrow> ([LogMessage (sender @ '':'' @ s)], None, sv)
     | _ \<Rightarrow> ([], Some AssertException, sv))"

section \<open>Attributes in messages\<close>

text \<open>Keys are 64 bit numbers, which a \<open>long double\<close> holds exactly.\<close>

definition AsKey :: "Variant \<Rightarrow> cpn_error + nat" where
  "AsKey v = map_sum id (\<lambda>x. u64 (nat \<lfloor>x\<rfloor>)) (AsLongDouble v)"

definition hint_code :: "QueueHint_t \<Rightarrow> rat" where
  "hint_code h = (case h of QUEUEHINT_DEFAULT \<Rightarrow> 0 | QUEUEHINT_THRESHOLD \<Rightarrow> 1)"

definition AsHint :: "Variant \<Rightarrow> cpn_error + QueueHint_t" where
  "AsHint v = map_sum id (\<lambda>x. if \<lfloor>x\<rfloor> = 1 then QUEUEHINT_THRESHOLD else QUEUEHINT_DEFAULT) (AsLongDouble v)"

fun set_all :: "(string \<times> Variant) list \<Rightarrow> Variant \<Rightarrow> cpn_error + Variant" where
  "set_all [] v = Inr v"
| "set_all ((k, x) # kvs) v = and_then (set_key v k x) (set_all kvs)"

definition queue_entries :: "SimpleQueueAttr \<Rightarrow> (string \<times> Variant) list" where
  "queue_entries attr =
     [(''queuehint'', Variant_number (hint_code (sa_queuehint attr))), (''datatype'', Variant_string (sa_datatype attr)),
      (''queueLength'', Variant_number (of_nat (sa_queueLength attr))), (''maxThreshold'', Variant_number (of_nat (sa_maxThreshold attr))),
      (''numChannels'', Variant_number (of_nat (sa_numChannels attr))), (''readerkey'', Variant_number (of_nat (sa_readerkey attr))),
      (''writerkey'', Variant_number (of_nat (sa_writerkey attr))), (''readernodekey'', Variant_number (of_nat (sa_readernodekey attr))),
      (''writernodekey'', Variant_number (of_nat (sa_writernodekey attr))), (''alpha'', Variant_number (sa_alpha attr)),
      (''maxwritethreshold'', Variant_number (of_nat (sa_maxwritethreshold attr)))]"

definition SendQueueMsg_attr :: "SimpleQueueAttr \<Rightarrow> cpn_error + Variant" where
  "SendQueueMsg_attr attr = set_all (queue_entries attr) (new_Variant NullType)"

definition MsgToQueueAttr :: "(rat \<Rightarrow> string) \<Rightarrow> Variant \<Rightarrow> cpn_error + SimpleQueueAttr" where
  "MsgToQueueAttr sf msg =
     and_then (and_then (At_key_const msg ''queuehint'') AsHint) (\<lambda>hint.
     and_then (and_then (At_key_const msg ''datatype'') (AsString sf)) (\<lambda>(datatype', v).
     and_then (and_then (At_key_const msg ''queueLength'') AsUnsigned) (\<lambda>len.
     and_then (and_then (At_key_const msg ''maxThreshold'') AsUnsigned) (\<lambda>thresh.
     and_then (and_then (At_key_const msg ''numChannels'') AsUnsigned) (\<lambda>channels.
     and_then (and_then (At_key_const msg ''readerkey'') AsKey) (\<lambda>rkey.
     and_then (and_then (At_key_const msg ''writerkey'') AsKey) (\<lambda>wkey.
     and_then (and_then (At_key_const msg ''readernodekey'') AsKey) (\<lambda>rnode.
     and_then (and_then (At_key_const msg ''writernodekey'') AsKey) (\<lambda>wnode.
     and_then (and_then (At_key_const msg ''alpha'') AsLongDouble) (\<lambda>alpha.
     and_then (and_then (At_key_const msg ''maxwritethreshold'') AsUnsigned) (\<lambda>mwt.
       Inr \<lparr>sa_queuehint = hint, sa_datatype = datatype', sa_queueLength = len, sa_maxThreshold = thresh,
         sa_numChannels = channels, sa_alpha = alpha, sa_readerkey = rkey, sa_writerkey = wkey, sa_readernodekey = rnode,
         sa_writernodekey = wnode, sa_maxwritethreshold = mwt\<rparr>)))))))))))"

definition SendCreateNode_attr :: "nat \<Rightarrow> NodeAttr \<Rightarrow> cpn_error + Variant" where
  "SendCreateNode_attr kernelkey attr =
     and_then (set_all [(''kernelkey'', Variant_number (of_nat kernelkey)), (''kernel'', Variant_string (na_kernelname attr)),
       (''name'', Variant_string (na_name attr)), (''nodetype'', Variant_string (na_nodetype attr))] (new_Variant NullType)) (\<lambda>v.
     and_then (if na_params attr = [] then Inr v
       else and_then (At_key v ''param'') (\<lambda>(p, v').
         and_then (set_all (map (\<lambda>(k, s). (k, Variant_string s)) (na_params attr)) p) (\<lambda>p'.
           Inr (with_obj (obj_put ''param'' p' (obj v')) v')))) (\<lambda>v.
       set_key v ''key'' (Variant_number (of_nat (na_key attr)))))"

fun read_params :: "(rat \<Rightarrow> string) \<Rightarrow> (string \<times> Variant) list \<Rightarrow> NodeAttr \<Rightarrow> cpn_error + NodeAttr" where
  "read_params sf [] attr = Inr attr"
| "read_params sf ((k, x) # kvs) attr = and_then (AsString sf x) (\<lambda>(s, v).
     read_params sf kvs (attr\<lparr>na_params := obj_put k s (na_params attr)\<rparr>))"

definition MsgToNodeAttr :: "(rat \<Rightarrow> string) \<Rightarrow> Variant \<Rightarrow> cpn_error + NodeAttr" where
  "MsgToNodeAttr sf msg =
     and_then (and_then (At_key_const msg ''name'') (AsString sf)) (\<lambda>(name, v).
     and_then (and_then (At_key_const msg ''nodetype'') (AsString sf)) (\<lambda>(nodetype, v).
     and_then (and_then (At_key_const msg ''kernel'') (AsString sf)) (\<lambda>(krn, v).
     and_then (and_then (At_key_const msg ''key'') AsKey) (\<lambda>key.
     and_then (At_key_const msg ''param'') (\<lambda>param.
     let attr = (new_NodeAttr name nodetype)\<lparr>na_kernelname := krn, na_key := key\<rparr>
     in if GetType param = ObjectType then read_params sf (obj param) attr else Inr attr)))))"

section \<open>The client\<close>

record client =
  cl_callwaiters :: "nat set"
  cl_answers :: "nat \<rightharpoonup> bool \<times> reply_data"
  cl_waiters :: "(nat \<times> reply_data) list list"
  cl_kernels :: "nat \<rightharpoonup> nat"
  cl_trancounter :: nat
  cl_shutdown :: bool
  cl_loglevel :: int

definition new_client :: client where
  "new_client = \<lparr>cl_callwaiters = {}, cl_answers = Map.empty, cl_waiters = [], cl_kernels = Map.empty, cl_trancounter = 0,
     cl_shutdown = False, cl_loglevel = 75\<rparr>"

text \<open>A request that reaches a kernel.\<close>

datatype kernel_call = QueueCall nat "SimpleQueueAttr remote_request" | NodeCall nat "NodeAttr remote_request"

definition call_kernel :: "(rat \<Rightarrow> string) \<Rightarrow> nat \<Rightarrow> Variant remote_request \<Rightarrow> cpn_error + kernel_call" where
  "call_kernel sf krn req = (case req of
     RemoteCreateNode v \<Rightarrow> map_sum id (\<lambda>a. NodeCall krn (RemoteCreateNode a)) (MsgToNodeAttr sf v)
   | RemoteCreateQueue v \<Rightarrow> map_sum id (\<lambda>a. QueueCall krn (RemoteCreateQueue a)) (MsgToQueueAttr sf v)
   | RemoteCreateWriter v \<Rightarrow> map_sum id (\<lambda>a. QueueCall krn (RemoteCreateWriter a)) (MsgToQueueAttr sf v)
   | RemoteCreateReader v \<Rightarrow> map_sum id (\<lambda>a. QueueCall krn (RemoteCreateReader a)) (MsgToQueueAttr sf v))"

definition InternalTerminate_cli :: "client \<Rightarrow> client" where
  "InternalTerminate_cli cl = cl\<lparr>cl_shutdown := True\<rparr>"

fun DispatchMessage_cli :: "(rat \<Rightarrow> string) \<Rightarrow> client_msg \<Rightarrow> client \<Rightarrow> (cpn_error + kernel_call option) \<times> client" where
  "DispatchMessage_cli sf TerminateMsg cl = (Inr None, InternalTerminate_cli cl)"
| "DispatchMessage_cli sf (Reply msgid success data) cl =
    (if msgid \<in> cl_callwaiters cl
     then (Inr None, cl\<lparr>cl_answers := (cl_answers cl)(msgid \<mapsto> (success, data)), cl_callwaiters := cl_callwaiters cl - {msgid}\<rparr>)
     else (Inl AssertException, cl))"
| "DispatchMessage_cli sf (Notice live data) cl =
    (Inr None, cl\<lparr>cl_waiters := map (\<lambda>ms. ms @ [(live, data)]) (cl_waiters cl)\<rparr>)"
| "DispatchMessage_cli sf (KernelMsg key req) cl =
    (case cl_kernels cl key of
       None \<Rightarrow> (Inl AssertException, cl)
     | Some krn \<Rightarrow> (map_sum id Some (call_kernel sf krn req), cl))"

text \<open>
  The clients, by the name the server knows them under, and the delivery to them of what the server
  sends. (A call of a kernel that a message causes is made without the lock and is not part of this.)
\<close>

type_synonym clients = "string \<Rightarrow> client"
type_synonym rctx = "clients \<times> server"

fun deliver :: "srv_out \<Rightarrow> clients \<Rightarrow> clients" where
  "deliver (SendMessage r m) cls = cls(r := snd (DispatchMessage_cli (\<lambda>_. []) m (cls r)))"
| "deliver (BroadcastMessage m) cls = (\<lambda>n. snd (DispatchMessage_cli (\<lambda>_. []) m (cls n)))"
| "deliver (LogMessage s) cls = cls"

type_synonym 'a ract = "rctx \<Rightarrow> 'a outcome \<times> rctx"

definition rret :: "'a \<Rightarrow> 'a ract" where
  "rret x s = (Returned x, s)"

definition rthrow :: "cpn_error \<Rightarrow> 'a ract" where
  "rthrow e s = (Throws e, s)"

definition rthen :: "'a ract \<Rightarrow> ('a \<Rightarrow> 'b ract) \<Rightarrow> 'b ract" where
  "rthen m f s = (case m s of
     (Returned x, s') \<Rightarrow> f x s' | (Blocks, s') \<Rightarrow> (Blocks, s') | (Throws e, s') \<Rightarrow> (Throws e, s'))"

definition InternalCheckTerminated_cli :: "string \<Rightarrow> 'a ract \<Rightarrow> 'a ract" where
  "InternalCheckTerminated_cli me m s = (if cl_shutdown (fst s me) then (Throws ShutdownException, s) else m s)"

definition exchange :: "string \<Rightarrow> nat \<Rightarrow> rctx_msg \<Rightarrow> rctx \<Rightarrow> rctx" where
  "exchange me msgid msg = (\<lambda>(cls, sv).
     case DispatchMessage_srv me msgid msg sv of (outs, err, sv') \<Rightarrow> (fold deliver outs cls, sv'))"

definition SendMessage_cli :: "string \<Rightarrow> rctx_msg \<Rightarrow> unit ract" where
  "SendMessage_cli me msg s = (Returned (), exchange me 0 msg s)"

definition RemoteCall :: "string \<Rightarrow> rctx_msg \<Rightarrow> (bool \<times> reply_data) ract" where
  "RemoteCall me msg = (\<lambda>(cls, sv).
     let cl = cls me;
         winfo = u32 (cl_trancounter cl + 1);
         cl1 = cl\<lparr>cl_trancounter := winfo, cl_callwaiters := insert winfo (cl_callwaiters cl)\<rparr>;
         (cls2, sv2) = exchange me winfo msg (cls(me := cl1), sv);
         cl2 = cls2 me
     in if cl_shutdown cl2 then (Throws ShutdownException, (cls2, sv2))
        else case cl_answers cl2 winfo of
          None \<Rightarrow> (Blocks, (cls2, sv2))
        | Some r \<Rightarrow> (Returned r, (cls2(me := cl2\<lparr>cl_answers := (cl_answers cl2)(winfo := None)\<rparr>), sv2)))"

section \<open>The calls of a client\<close>

text \<open>The object in a reply; a key that is missing is null.\<close>

definition the_info :: "reply_data \<Rightarrow> info" where
  "the_info d = (case d of KernelData i \<Rightarrow> i | NodeData i \<Rightarrow> i | EndpointData i \<Rightarrow> i | _ \<Rightarrow> null_info)"

text \<open>A question to the server: check that the context lives, call, and read the answer or throw.\<close>

definition ask :: "string \<Rightarrow> rctx_msg \<Rightarrow> cpn_error \<Rightarrow> (info \<Rightarrow> 'a) \<Rightarrow> 'a ract" where
  "ask me msg e f = InternalCheckTerminated_cli me (rthen (RemoteCall me msg) (\<lambda>(success, d).
     if success then rret (f (the_info d)) else rthrow e))"

definition SetupKernel_cli :: "string \<Rightarrow> string \<Rightarrow> string \<Rightarrow> string \<Rightarrow> nat option \<Rightarrow> nat ract" where
  "SetupKernel_cli me name hostname servname krn = InternalCheckTerminated_cli me
    (case krn of
       None \<Rightarrow> rthrow InvalidArgument
     | Some k \<Rightarrow> rthen (RemoteCall me (SETUP_KERNEL name hostname servname)) (\<lambda>(success, d).
         if success then
           (\<lambda>(cls, sv). (Returned (in_key (the_info d)),
              (if cl_kernels (cls me) (in_key (the_info d)) = None
               then cls(me := (cls me)\<lparr>cl_kernels := (cl_kernels (cls me))(in_key (the_info d) \<mapsto> k)\<rparr>) else cls, sv)))
         else rthrow InvalidArgument))"

definition GetKernelKey_cli :: "string \<Rightarrow> string \<Rightarrow> nat ract" where
  "GetKernelKey_cli me name = ask me (GET_KERNEL_INFO (Inl name)) InvalidArgument in_key"

definition GetKernelName_cli :: "string \<Rightarrow> nat \<Rightarrow> string ract" where
  "GetKernelName_cli me key = ask me (GET_KERNEL_INFO (Inr key)) InvalidArgument (\<lambda>i. text_or_null (in_name i))"

definition GetKernelConnectionInfo_cli :: "string \<Rightarrow> nat \<Rightarrow> (string \<times> string) ract" where
  "GetKernelConnectionInfo_cli me key = ask me (GET_KERNEL_INFO (Inr key)) InvalidArgument
     (\<lambda>i. (text_or_null (in_hostname i), text_or_null (in_servname i)))"

definition SignalKernelEnd_cli :: "string \<Rightarrow> nat \<Rightarrow> unit ract" where
  "SignalKernelEnd_cli me key = rthen (SendMessage_cli me (SIGNAL_KERNEL_END key)) (\<lambda>_ (cls, sv).
     (Returned (), (cls(me := (cls me)\<lparr>cl_kernels := (cl_kernels (cls me))(key := None)\<rparr>), sv)))"

definition SignalKernelStart_cli :: "string \<Rightarrow> nat \<Rightarrow> unit ract" where
  "SignalKernelStart_cli me key = InternalCheckTerminated_cli me (SendMessage_cli me (SIGNAL_KERNEL_START key))"

text \<open>
  A wait on notices: the messages that have come in since the waiter was entered, in their order.
\<close>

fun wait_loop :: "'a outcome \<Rightarrow> (nat \<times> reply_data \<Rightarrow> 'a option) \<Rightarrow> (nat \<times> reply_data) list \<Rightarrow> 'a outcome" where
  "wait_loop idle hit [] = idle"
| "wait_loop idle hit (m # ms) = (case hit m of Some x \<Rightarrow> Returned x | None \<Rightarrow> wait_loop idle hit ms)"

definition NewGenericWaiter :: "string \<Rightarrow> nat ract" where
  "NewGenericWaiter me = (\<lambda>(cls, sv).
     (Returned (length (cl_waiters (cls me))), (cls(me := (cls me)\<lparr>cl_waiters := cl_waiters (cls me) @ [[]]\<rparr>), sv)))"

definition wait_on :: "string \<Rightarrow> nat \<Rightarrow> 'a outcome \<Rightarrow> (nat \<times> reply_data \<Rightarrow> 'a option) \<Rightarrow> 'a ract" where
  "wait_on me w ended hit = (\<lambda>(cls, sv).
     (wait_loop (if cl_shutdown (cls me) then ended else Blocks) hit (cl_waiters (cls me) ! w), (cls, sv)))"

definition kernel_started :: "string \<Rightarrow> nat \<times> reply_data \<Rightarrow> nat option" where
  "kernel_started name m = (case m of
     (live, KernelData i) \<Rightarrow> if text_or_null (in_name i) = name \<and> in_live i then Some (in_key i) else None
   | _ \<Rightarrow> None)"

definition node_started :: "string \<Rightarrow> nat \<times> reply_data \<Rightarrow> nat option" where
  "node_started name m = (case m of
     (live, NodeData i) \<Rightarrow> if in_started i \<and> text_or_null (in_name i) = name then Some (in_key i) else None
   | _ \<Rightarrow> None)"

definition node_ended :: "string \<Rightarrow> nat \<times> reply_data \<Rightarrow> unit option" where
  "node_ended name m = (case m of
     (live, NodeData i) \<Rightarrow> if in_dead i \<and> text_or_null (in_name i) = name then Some () else None
   | _ \<Rightarrow> None)"

definition none_live :: "nat \<times> reply_data \<Rightarrow> unit option" where
  "none_live m = (if fst m = 0 then Some () else None)"

definition WaitForKernelStart_cli :: "string \<Rightarrow> string \<Rightarrow> nat ract" where
  "WaitForKernelStart_cli me name = InternalCheckTerminated_cli me (rthen (NewGenericWaiter me) (\<lambda>w.
     rthen (RemoteCall me (GET_KERNEL_INFO (Inl name))) (\<lambda>(success, d).
       if success \<and> in_live (the_info d) then rret (in_key (the_info d))
       else wait_on me w (Throws ShutdownException) (kernel_started name))))"

definition WaitForNodeStart_cli :: "string \<Rightarrow> string \<Rightarrow> nat ract" where
  "WaitForNodeStart_cli me name = InternalCheckTerminated_cli me (rthen (NewGenericWaiter me) (\<lambda>w.
     rthen (RemoteCall me (GET_NODE_INFO (Inl name))) (\<lambda>(success, d).
       if success \<and> in_started (the_info d) then rret (in_key (the_info d))
       else wait_on me w (Throws ShutdownException) (node_started name))))"

text \<open>The two waits for ends come back when the context is shut down.\<close>

definition unless_shutdown :: "string \<Rightarrow> unit ract \<Rightarrow> unit ract" where
  "unless_shutdown me m s = (if cl_shutdown (fst s me) then (Returned (), s)
     else case m s of (Throws ShutdownException, s') \<Rightarrow> (Returned (), s') | r \<Rightarrow> r)"

definition WaitForNodeEnd_cli :: "string \<Rightarrow> string \<Rightarrow> unit ract" where
  "WaitForNodeEnd_cli me name = unless_shutdown me (rthen (NewGenericWaiter me) (\<lambda>w.
     rthen (RemoteCall me (GET_NODE_INFO (Inl name))) (\<lambda>(success, d).
       if success \<and> in_dead (the_info d) then rret () else wait_on me w (Returned ()) (node_ended name))))"

definition WaitForAllNodeEnd_cli :: "string \<Rightarrow> unit ract" where
  "WaitForAllNodeEnd_cli me = unless_shutdown me (rthen (NewGenericWaiter me) (\<lambda>w.
     rthen (RemoteCall me GET_NUM_NODE_LIVE) (\<lambda>(success, d).
       if \<not> success then rthrow AssertException
       else if d = NumLive 0 then rret () else wait_on me w (Returned ()) none_live)))"

definition CreateNodeKey_cli :: "string \<Rightarrow> nat \<Rightarrow> string \<Rightarrow> nat ract" where
  "CreateNodeKey_cli me kernelkey nodename = ask me (CREATE_NODE_KEY kernelkey nodename) InvalidArgument in_key"

definition GetNodeKey_cli :: "string \<Rightarrow> string \<Rightarrow> nat ract" where
  "GetNodeKey_cli me nodename = ask me (GET_NODE_INFO (Inl nodename)) InvalidArgument in_key"

definition GetNodeName_cli :: "string \<Rightarrow> nat \<Rightarrow> string ract" where
  "GetNodeName_cli me nodekey = ask me (GET_NODE_INFO (Inr nodekey)) InvalidArgument (\<lambda>i. text_or_null (in_name i))"

definition GetNodeKernel_cli :: "string \<Rightarrow> nat \<Rightarrow> nat ract" where
  "GetNodeKernel_cli me nodekey = ask me (GET_NODE_INFO (Inr nodekey)) InvalidArgument in_kernelkey"

definition SignalNodeStart_cli :: "string \<Rightarrow> nat \<Rightarrow> unit ract" where
  "SignalNodeStart_cli me nodekey = InternalCheckTerminated_cli me (SendMessage_cli me (SIGNAL_NODE_START nodekey))"

definition SignalNodeEnd_cli :: "string \<Rightarrow> nat \<Rightarrow> unit ract" where
  "SignalNodeEnd_cli me nodekey = SendMessage_cli me (SIGNAL_NODE_END nodekey)"

definition GetCreateReaderKey_cli :: "string \<Rightarrow> nat \<Rightarrow> string \<Rightarrow> nat ract" where
  "GetCreateReaderKey_cli me nodekey portname = ask me (GET_CREATE_READER_KEY nodekey portname) InvalidArgument in_key"

definition GetCreateWriterKey_cli :: "string \<Rightarrow> nat \<Rightarrow> string \<Rightarrow> nat ract" where
  "GetCreateWriterKey_cli me nodekey portname = ask me (GET_CREATE_WRITER_KEY nodekey portname) InvalidArgument in_key"

definition reader_info :: "string \<Rightarrow> nat \<Rightarrow> (info \<Rightarrow> 'a) \<Rightarrow> 'a ract" where
  "reader_info me portkey f = ask me (GET_READER_INFO portkey) AssertException f"

definition writer_info :: "string \<Rightarrow> nat \<Rightarrow> (info \<Rightarrow> 'a) \<Rightarrow> 'a ract" where
  "writer_info me portkey f = ask me (GET_WRITER_INFO portkey) AssertException f"

definition GetReaderNode_cli :: "string \<Rightarrow> nat \<Rightarrow> nat ract" where
  "GetReaderNode_cli me portkey = reader_info me portkey in_nodekey"

definition GetReaderKernel_cli :: "string \<Rightarrow> nat \<Rightarrow> nat ract" where
  "GetReaderKernel_cli me portkey = reader_info me portkey in_kernelkey"

definition GetReaderName_cli :: "string \<Rightarrow> nat \<Rightarrow> string ract" where
  "GetReaderName_cli me portkey = reader_info me portkey (\<lambda>i. text_or_null (in_name i))"

definition GetWriterNode_cli :: "string \<Rightarrow> nat \<Rightarrow> nat ract" where
  "GetWriterNode_cli me portkey = writer_info me portkey in_nodekey"

definition GetWriterKernel_cli :: "string \<Rightarrow> nat \<Rightarrow> nat ract" where
  "GetWriterKernel_cli me portkey = writer_info me portkey in_kernelkey"

definition GetWriterName_cli :: "string \<Rightarrow> nat \<Rightarrow> string ract" where
  "GetWriterName_cli me portkey = writer_info me portkey (\<lambda>i. text_or_null (in_name i))"

definition ConnectEndpoints_cli :: "string \<Rightarrow> nat \<Rightarrow> nat \<Rightarrow> string \<Rightarrow> unit ract" where
  "ConnectEndpoints_cli me writerkey readerkey qname =
     InternalCheckTerminated_cli me (SendMessage_cli me (CONNECT_ENDPOINTS writerkey readerkey qname))"

definition GetReadersWriter_cli :: "string \<Rightarrow> nat \<Rightarrow> nat ract" where
  "GetReadersWriter_cli me readerkey = reader_info me readerkey in_writerkey"

definition GetWritersReader_cli :: "string \<Rightarrow> nat \<Rightarrow> nat ract" where
  "GetWritersReader_cli me writerkey = writer_info me writerkey in_readerkey"

definition SendCreate_cli :: "string \<Rightarrow> nat \<Rightarrow> cpn_error + Variant remote_request \<Rightarrow> unit ract" where
  "SendCreate_cli me kernelkey req = InternalCheckTerminated_cli me
     (case req of Inl e \<Rightarrow> rthrow e | Inr r \<Rightarrow> SendMessage_cli me (CREATE kernelkey r))"

definition SendCreateWriter_cli :: "string \<Rightarrow> nat \<Rightarrow> SimpleQueueAttr \<Rightarrow> unit ract" where
  "SendCreateWriter_cli me kernelkey attr = SendCreate_cli me kernelkey (map_sum id RemoteCreateWriter (SendQueueMsg_attr attr))"

definition SendCreateReader_cli :: "string \<Rightarrow> nat \<Rightarrow> SimpleQueueAttr \<Rightarrow> unit ract" where
  "SendCreateReader_cli me kernelkey attr = SendCreate_cli me kernelkey (map_sum id RemoteCreateReader (SendQueueMsg_attr attr))"

definition SendCreateQueue_cli :: "string \<Rightarrow> nat \<Rightarrow> SimpleQueueAttr \<Rightarrow> unit ract" where
  "SendCreateQueue_cli me kernelkey attr = SendCreate_cli me kernelkey (map_sum id RemoteCreateQueue (SendQueueMsg_attr attr))"

definition SendCreateNode_cli :: "string \<Rightarrow> nat \<Rightarrow> NodeAttr \<Rightarrow> unit ract" where
  "SendCreateNode_cli me kernelkey attr = SendCreate_cli me kernelkey (map_sum id RemoteCreateNode (SendCreateNode_attr kernelkey attr))"

definition Log_cli :: "string \<Rightarrow> int \<Rightarrow> string \<Rightarrow> unit ract" where
  "Log_cli me level logmsg s =
    (if cl_loglevel (fst s me) \<le> level then SendMessage_cli me (LOG logmsg) s else (Returned (), s))"

definition Terminate_cli :: "string \<Rightarrow> unit ract" where
  "Terminate_cli me s = (if cl_shutdown (fst s me) then (Returned (), s)
     else SendMessage_cli me TERMINATE ((fst s)(me := InternalTerminate_cli (fst s me)), snd s))"

text \<open>The thread that a termination starts tells every kernel of the client.\<close>

definition TerminateThread :: "client \<Rightarrow> nat set" where
  "TerminateThread cl = ran (cl_kernels cl)"

definition IsTerminated_cli :: "client \<Rightarrow> bool" where
  "IsTerminated_cli cl = cl_shutdown cl"

definition set_LogLevel_cli :: "int \<Rightarrow> client \<Rightarrow> client" where
  "set_LogLevel_cli level cl = cl\<lparr>cl_loglevel := level\<rparr>"

end
