(* ===== verification/RemoteRefine.thy ===== *)
theory RemoteRefine
  imports RemoteCtx
begin

text \<open>
  The remote context against the local one. Every call of the interface is run on \<open>LocalContext\<close> and, as a client
  and a server that exchange messages, on the remote context; a simulation relation between the directory
  of the one and the info objects of the other is kept by every call within a contract. The
  end of the theory has the case outside the contract where the client hangs, and the requests that
  kernels send to each other.
\<close>

section \<open>The interface of a context, locally and remotely\<close>

datatype ctx_call =
    C_SetupKernel string string string "nat option"
  | C_GetKernelKey string | C_GetKernelName nat | C_GetKernelConnectionInfo nat
  | C_SignalKernelStart nat | C_SignalKernelEnd nat | C_WaitForKernelStart string
  | C_CreateNodeKey nat string | C_GetNodeKey string | C_GetNodeName nat | C_GetNodeKernel nat
  | C_SignalNodeStart nat | C_SignalNodeEnd nat
  | C_WaitForNodeStart string | C_WaitForNodeEnd string | C_WaitForAllNodeEnd
  | C_GetCreateReaderKey nat string | C_GetReaderNode nat | C_GetReaderKernel nat | C_GetReaderName nat
  | C_GetCreateWriterKey nat string | C_GetWriterNode nat | C_GetWriterKernel nat | C_GetWriterName nat
  | C_ConnectEndpoints nat nat string | C_GetReadersWriter nat | C_GetWritersReader nat
  | C_Terminate

datatype answer = A_unit | A_key nat | A_name string | A_addr "string \<times> string"

definition question :: "('a \<Rightarrow> answer) \<Rightarrow> cpn_error + 'a \<Rightarrow> LocalContext \<Rightarrow> answer outcome \<times> LocalContext" where
  "question f r c = (case r of Inl e \<Rightarrow> (Throws e, c) | Inr x \<Rightarrow> (Returned (f x), c))"

definition creation :: "cpn_error + nat \<times> LocalContext \<Rightarrow> LocalContext \<Rightarrow> answer outcome \<times> LocalContext" where
  "creation r c = (case r of Inl e \<Rightarrow> (Throws e, c) | Inr (k, c') \<Rightarrow> (Returned (A_key k), c'))"

definition change :: "cpn_error + LocalContext \<Rightarrow> LocalContext \<Rightarrow> answer outcome \<times> LocalContext" where
  "change r c = (case r of Inl e \<Rightarrow> (Throws e, c) | Inr c' \<Rightarrow> (Returned A_unit, c'))"

definition map_outcome :: "('a \<Rightarrow> 'b) \<Rightarrow> 'a outcome \<Rightarrow> 'b outcome" where
  "map_outcome f r = (case r of Returned x \<Rightarrow> Returned (f x) | Blocks \<Rightarrow> Blocks | Throws e \<Rightarrow> Throws e)"

fun local_call :: "ctx_call \<Rightarrow> LocalContext \<Rightarrow> answer outcome \<times> LocalContext" where
  "local_call (C_SetupKernel n h s k) c = creation (SetupKernel_remote c n h s k) c"
| "local_call (C_GetKernelKey n) c = question A_key (GetKernelKey c n) c"
| "local_call (C_GetKernelName k) c = question A_name (GetKernelName c k) c"
| "local_call (C_GetKernelConnectionInfo k) c = question A_addr (GetKernelConnectionInfo c k) c"
| "local_call (C_SignalKernelStart k) c = change (SignalKernelStart c k) c"
| "local_call (C_SignalKernelEnd k) c = change (SignalKernelEnd c k) c"
| "local_call (C_WaitForKernelStart n) c = (map_outcome A_key (WaitForKernelStart c n), c)"
| "local_call (C_CreateNodeKey k n) c = creation (CreateNodeKey c k n) c"
| "local_call (C_GetNodeKey n) c = question A_key (GetNodeKey c n) c"
| "local_call (C_GetNodeName k) c = question A_name (GetNodeName c k) c"
| "local_call (C_GetNodeKernel k) c = question A_key (GetNodeKernel c k) c"
| "local_call (C_SignalNodeStart k) c = change (SignalNodeStart c k) c"
| "local_call (C_SignalNodeEnd k) c = change (SignalNodeEnd c k) c"
| "local_call (C_WaitForNodeStart n) c = (map_outcome A_key (WaitForNodeStart c n), c)"
| "local_call (C_WaitForNodeEnd n) c = (map_outcome (\<lambda>_. A_unit) (WaitForNodeEnd c n), c)"
| "local_call C_WaitForAllNodeEnd c = (map_outcome (\<lambda>_. A_unit) (WaitForAllNodeEnd c), c)"
| "local_call (C_GetCreateReaderKey k p) c = creation (GetCreateReaderKey c k p) c"
| "local_call (C_GetReaderNode k) c = question A_key (GetReaderNode c k) c"
| "local_call (C_GetReaderKernel k) c = question A_key (GetReaderKernel c k) c"
| "local_call (C_GetReaderName k) c = question A_name (GetReaderName c k) c"
| "local_call (C_GetCreateWriterKey k p) c = creation (GetCreateWriterKey c k p) c"
| "local_call (C_GetWriterNode k) c = question A_key (GetWriterNode c k) c"
| "local_call (C_GetWriterKernel k) c = question A_key (GetWriterKernel c k) c"
| "local_call (C_GetWriterName k) c = question A_name (GetWriterName c k) c"
| "local_call (C_ConnectEndpoints w r q) c = change (ConnectEndpoints c w r q) c"
| "local_call (C_GetReadersWriter k) c = question A_key (GetReadersWriter c k) c"
| "local_call (C_GetWritersReader k) c = question A_key (GetWritersReader c k) c"
| "local_call C_Terminate c = (Returned A_unit, Terminate c)"

definition answering :: "('a \<Rightarrow> answer) \<Rightarrow> 'a ract \<Rightarrow> answer ract" where
  "answering f m s = (case m s of (r, s') \<Rightarrow> (map_outcome f r, s'))"

fun remote_call :: "string \<Rightarrow> ctx_call \<Rightarrow> answer ract" where
  "remote_call me (C_SetupKernel n h s k) = answering A_key (SetupKernel_cli me n h s k)"
| "remote_call me (C_GetKernelKey n) = answering A_key (GetKernelKey_cli me n)"
| "remote_call me (C_GetKernelName k) = answering A_name (GetKernelName_cli me k)"
| "remote_call me (C_GetKernelConnectionInfo k) = answering A_addr (GetKernelConnectionInfo_cli me k)"
| "remote_call me (C_SignalKernelStart k) = answering (\<lambda>_. A_unit) (SignalKernelStart_cli me k)"
| "remote_call me (C_SignalKernelEnd k) = answering (\<lambda>_. A_unit) (SignalKernelEnd_cli me k)"
| "remote_call me (C_WaitForKernelStart n) = answering A_key (WaitForKernelStart_cli me n)"
| "remote_call me (C_CreateNodeKey k n) = answering A_key (CreateNodeKey_cli me k n)"
| "remote_call me (C_GetNodeKey n) = answering A_key (GetNodeKey_cli me n)"
| "remote_call me (C_GetNodeName k) = answering A_name (GetNodeName_cli me k)"
| "remote_call me (C_GetNodeKernel k) = answering A_key (GetNodeKernel_cli me k)"
| "remote_call me (C_SignalNodeStart k) = answering (\<lambda>_. A_unit) (SignalNodeStart_cli me k)"
| "remote_call me (C_SignalNodeEnd k) = answering (\<lambda>_. A_unit) (SignalNodeEnd_cli me k)"
| "remote_call me (C_WaitForNodeStart n) = answering A_key (WaitForNodeStart_cli me n)"
| "remote_call me (C_WaitForNodeEnd n) = answering (\<lambda>_. A_unit) (WaitForNodeEnd_cli me n)"
| "remote_call me C_WaitForAllNodeEnd = answering (\<lambda>_. A_unit) (WaitForAllNodeEnd_cli me)"
| "remote_call me (C_GetCreateReaderKey k p) = answering A_key (GetCreateReaderKey_cli me k p)"
| "remote_call me (C_GetReaderNode k) = answering A_key (GetReaderNode_cli me k)"
| "remote_call me (C_GetReaderKernel k) = answering A_key (GetReaderKernel_cli me k)"
| "remote_call me (C_GetReaderName k) = answering A_name (GetReaderName_cli me k)"
| "remote_call me (C_GetCreateWriterKey k p) = answering A_key (GetCreateWriterKey_cli me k p)"
| "remote_call me (C_GetWriterNode k) = answering A_key (GetWriterNode_cli me k)"
| "remote_call me (C_GetWriterKernel k) = answering A_key (GetWriterKernel_cli me k)"
| "remote_call me (C_GetWriterName k) = answering A_name (GetWriterName_cli me k)"
| "remote_call me (C_ConnectEndpoints w r q) = answering (\<lambda>_. A_unit) (ConnectEndpoints_cli me w r q)"
| "remote_call me (C_GetReadersWriter k) = answering A_key (GetReadersWriter_cli me k)"
| "remote_call me (C_GetWritersReader k) = answering A_key (GetWritersReader_cli me k)"
| "remote_call me C_Terminate = answering (\<lambda>_. A_unit) (Terminate_cli me)"

text \<open>
  Where the two contexts agree. Outside it they differ: a second kernel of a name is refused by the one and
  not answered by the other; a signal for, or a question about, a key of another kind throws in the
  one and fails an assertion in the server of the other; a port is an input or an output in the
  one, and both in the other; a kernel that has ended still counts as started in the one.
\<close>

definition no_object :: "LocalContext \<Rightarrow> nat \<Rightarrow> bool" where
  "no_object c k \<longleftrightarrow> kernelmap c k = None \<and> nodemap c k = None \<and> readports c k = None \<and> writeports c k = None"

definition port_free :: "(NodeInfo \<Rightarrow> string \<rightharpoonup> nat) \<Rightarrow> LocalContext \<Rightarrow> nat \<Rightarrow> string \<Rightarrow> bool" where
  "port_free sel c k p \<longleftrightarrow> (case nodemap c k of None \<Rightarrow> no_object c k | Some ni \<Rightarrow> sel ni p = None)"

fun contract :: "ctx_call \<Rightarrow> LocalContext \<Rightarrow> bool" where
  "contract (C_SetupKernel n h s k) c \<longleftrightarrow> kernelnames c n = None"
| "contract (C_GetKernelName k) c \<longleftrightarrow> kernelmap c k \<noteq> None \<or> no_object c k"
| "contract (C_GetKernelConnectionInfo k) c \<longleftrightarrow> kernelmap c k \<noteq> None \<or> no_object c k"
| "contract (C_SignalKernelStart k) c \<longleftrightarrow> (case kernelmap c k of None \<Rightarrow> False | Some ki \<Rightarrow> \<not> ki_dead ki)"
| "contract (C_SignalKernelEnd k) c \<longleftrightarrow> kernelmap c k \<noteq> None"
| "contract (C_WaitForKernelStart n) c \<longleftrightarrow>
    (\<forall>k ki. kernelnames c n = Some k \<longrightarrow> kernelmap c k = Some ki \<longrightarrow> \<not> ki_dead ki)"
| "contract (C_GetNodeName k) c \<longleftrightarrow> \<not> shutdown c \<and> (nodemap c k \<noteq> None \<or> no_object c k)"
| "contract (C_GetNodeKernel k) c \<longleftrightarrow> nodemap c k \<noteq> None \<or> no_object c k"
| "contract (C_SignalNodeStart k) c \<longleftrightarrow> nodemap c k \<noteq> None"
| "contract (C_SignalNodeEnd k) c \<longleftrightarrow> (case nodemap c k of None \<Rightarrow> False | Some ni \<Rightarrow> ni_started ni)"
| "contract (C_GetCreateReaderKey k p) c \<longleftrightarrow> port_free ni_writers c k p"
| "contract (C_GetCreateWriterKey k p) c \<longleftrightarrow> port_free ni_readers c k p"
| "contract (C_GetReaderNode k) c \<longleftrightarrow> readports c k \<noteq> None"
| "contract (C_GetReaderKernel k) c \<longleftrightarrow> readports c k \<noteq> None"
| "contract (C_GetReaderName k) c \<longleftrightarrow> readports c k \<noteq> None"
| "contract (C_GetReadersWriter k) c \<longleftrightarrow> readports c k \<noteq> None"
| "contract (C_GetWriterNode k) c \<longleftrightarrow> writeports c k \<noteq> None"
| "contract (C_GetWriterKernel k) c \<longleftrightarrow> writeports c k \<noteq> None"
| "contract (C_GetWriterName k) c \<longleftrightarrow> writeports c k \<noteq> None"
| "contract (C_GetWritersReader k) c \<longleftrightarrow> writeports c k \<noteq> None"
| "contract (C_ConnectEndpoints w r q) c \<longleftrightarrow> writeports c w \<noteq> None \<and> readports c r \<noteq> None"
| "contract _ c \<longleftrightarrow> True"

section \<open>The simulation relation\<close>

definition same_kernel :: "info \<Rightarrow> KernelInfo \<Rightarrow> bool" where
  "same_kernel i ki \<longleftrightarrow> in_kind i = Kernelinfo \<and> in_name i = Some (ki_name ki) \<and> in_hostname i = Some (ki_hostname ki) \<and>
     in_servname i = Some (ki_servname ki) \<and> in_live i = (ki_live ki \<and> \<not> ki_dead ki) \<and> ki_allowremote ki"

definition same_node :: "info \<Rightarrow> NodeInfo \<Rightarrow> bool" where
  "same_node i ni \<longleftrightarrow> in_kind i = Nodeinfo \<and> in_name i = Some (ni_name ni) \<and> in_kernelkey i = ni_kernelkey ni \<and>
     in_started i = ni_started ni \<and> in_dead i = ni_dead ni \<and> (ni_dead ni \<longrightarrow> ni_started ni) \<and>
     in_endpoints i = ni_readers ni ++ ni_writers ni \<and> dom (ni_readers ni) \<inter> dom (ni_writers ni) = {}"

definition kern_of :: "LocalContext \<Rightarrow> nat \<rightharpoonup> nat" where
  "kern_of c n = map_option ni_kernelkey (nodemap c n)"

definition same_port :: "(nat \<rightharpoonup> nat) \<Rightarrow> (info \<Rightarrow> nat) \<Rightarrow> info \<Rightarrow> PortInfo \<Rightarrow> bool" where
  "same_port kern opp i p \<longleftrightarrow> in_kind i = Endpointinfo \<and> in_name i = Some (pi_name p) \<and> in_nodekey i = pi_nodekey p \<and>
     opp i = pi_opposingport p \<and> kern (pi_nodekey p) = Some (in_kernelkey i)"

definition same_object :: "(nat \<rightharpoonup> nat) \<Rightarrow> info \<Rightarrow> KernelInfo option \<Rightarrow> NodeInfo option \<Rightarrow> PortInfo option \<Rightarrow> PortInfo option \<Rightarrow> bool" where
  "same_object kern i ko no ro wo \<longleftrightarrow>
     (\<exists>ki. ko = Some ki \<and> no = None \<and> ro = None \<and> wo = None \<and> same_kernel i ki) \<or>
     (\<exists>ni. ko = None \<and> no = Some ni \<and> ro = None \<and> wo = None \<and> same_node i ni) \<or>
     (\<exists>p. ko = None \<and> no = None \<and> ro = Some p \<and> wo = None \<and> same_port kern in_writerkey i p) \<or>
     (\<exists>p. ko = None \<and> no = None \<and> ro = None \<and> wo = Some p \<and> same_port kern in_readerkey i p)"

definition same_at :: "(nat \<rightharpoonup> nat) \<Rightarrow> nat \<Rightarrow> info option \<Rightarrow> KernelInfo option \<Rightarrow> NodeInfo option \<Rightarrow> PortInfo option \<Rightarrow> PortInfo option \<Rightarrow> bool" where
  "same_at kern k d ko no ro wo \<longleftrightarrow>
    (case d of None \<Rightarrow> ko = None \<and> no = None \<and> ro = None \<and> wo = None
     | Some i \<Rightarrow> in_key i = k \<and> same_object kern i ko no ro wo)"

definition data_rel :: "server \<Rightarrow> LocalContext \<Rightarrow> bool" where
  "data_rel sv c \<longleftrightarrow> sv_kernelmap sv = kernelnames c \<and> sv_nodemap sv = nodenames c \<and> sv_keycount sv = counter c \<and>
     sv_numlivenodes sv = numlivenodes c \<and>
     (\<forall>k. same_at (kern_of c) k (sv_datamap sv k) (kernelmap c k) (nodemap c k) (readports c k) (writeports c k))"

definition all_open :: "clients \<Rightarrow> bool" where
  "all_open cls \<longleftrightarrow> (\<forall>n. \<not> cl_shutdown (cls n) \<and> cl_answers (cls n) = Map.empty)"

definition all_shut :: "clients \<Rightarrow> bool" where
  "all_shut cls \<longleftrightarrow> (\<forall>n. cl_shutdown (cls n))"

definition ctx_rel :: "rctx \<Rightarrow> LocalContext \<Rightarrow> bool" where
  "ctx_rel s c \<longleftrightarrow> (if shutdown c then all_shut (fst s)
     else all_open (fst s) \<and> \<not> sv_shutdown (snd s) \<and> data_rel (snd s) c \<and> ctx_inv c)"

section \<open>Every call keeps the relation\<close>

definition agree :: "answer outcome \<times> rctx \<Rightarrow> answer outcome \<times> LocalContext \<Rightarrow> bool" where
  "agree x y \<longleftrightarrow> fst x = fst y \<and> ctx_rel (snd x) (snd y)"

lemma rel_openD:
  assumes "ctx_rel (cls, sv) c" "\<not> shutdown c"
  shows "\<not> cl_shutdown (cls me)" "\<not> sv_shutdown sv" "all_open cls" "data_rel sv c" "ctx_inv c"
  using assms by (auto simp: ctx_rel_def all_open_def)

lemma rel_openI:
  "\<not> shutdown c \<Longrightarrow> all_open cls \<Longrightarrow> \<not> sv_shutdown sv \<Longrightarrow> data_rel sv c \<Longrightarrow> ctx_inv c \<Longrightarrow> ctx_rel (cls, sv) c"
  by (simp add: ctx_rel_def)

lemma rel_shutD: "ctx_rel (cls, sv) c \<Longrightarrow> shutdown c \<Longrightarrow> cl_shutdown (cls me)"
  by (simp add: ctx_rel_def all_shut_def)

lemma RemoteCall_reply:
  assumes "all_open cls"
    and "\<And>j. DispatchMessage_srv me j msg sv = ([SendMessage me (Reply j ok d)], None, sv')"
  shows "\<exists>cls'. RemoteCall me msg (cls, sv) = (Returned (ok, d), (cls', sv')) \<and> all_open cls' \<and>
    cl_waiters (cls' me) = cl_waiters (cls me)"
  using assms(1)
  by (simp add: RemoteCall_def exchange_def assms(2) Let_def all_open_def del: DispatchMessage_srv.simps)

definition answers :: "string \<Rightarrow> rctx_msg \<Rightarrow> server \<Rightarrow> bool \<Rightarrow> reply_data \<Rightarrow> server \<Rightarrow> bool" where
  "answers me msg sv ok d sv' \<longleftrightarrow> (\<forall>n. DispatchMessage_srv me n msg sv = ([SendMessage me (Reply n ok d)], None, sv'))"

text \<open>A question that the server answers, and that leaves its state alone or makes a new object.\<close>

lemma ask_sim:
  assumes rel: "ctx_rel (cls, sv) c"
    and srv: "\<not> shutdown c \<Longrightarrow> \<not> sv_shutdown sv \<Longrightarrow> data_rel sv c \<Longrightarrow> ctx_inv c \<Longrightarrow> \<exists>ok d sv'. answers me msg sv ok d sv' \<and>
      \<not> sv_shutdown sv' \<and> (if ok then r = (Returned (g (f (the_info d))), c') else r = (Throws e, c')) \<and>
      \<not> shutdown c' \<and> data_rel sv' c' \<and> ctx_inv c'"
    and ended: "shutdown c \<Longrightarrow> r = (Throws ShutdownException, c)"
  shows "agree (answering g (ask me msg e f) (cls, sv)) r"
proof (cases "shutdown c")
  case True
  then show ?thesis
    using rel ended rel_shutD [OF rel]
    by (simp add: agree_def answering_def ask_def InternalCheckTerminated_cli_def map_outcome_def)
next
  case False
  note o = rel_openD [OF rel False]
  obtain ok d sv' where d: "\<And>id. DispatchMessage_srv me id msg sv = ([SendMessage me (Reply id ok d)], None, sv')"
    "\<not> sv_shutdown sv'" "if ok then r = (Returned (g (f (the_info d))), c') else r = (Throws e, c')"
    "\<not> shutdown c'" "data_rel sv' c'" "ctx_inv c'"
    using srv [OF False o(2,4,5)] by (auto simp: answers_def simp del: DispatchMessage_srv.simps)
  obtain cls' where "RemoteCall me msg (cls, sv) = (Returned (ok, d), (cls', sv'))" "all_open cls'"
    using RemoteCall_reply [OF o(3) d(1)] by blast
  then show ?thesis
    using d(2-6) o(1) [of me]
    by (auto simp: agree_def answering_def ask_def InternalCheckTerminated_cli_def rthen_def rret_def rthrow_def map_outcome_def
        intro!: rel_openI split: if_splits)
qed

lemma question_sim:
  assumes "ctx_rel (cls, sv) c"
    and "\<not> shutdown c \<Longrightarrow> \<not> sv_shutdown sv \<Longrightarrow> data_rel sv c \<Longrightarrow> ctx_inv c \<Longrightarrow>
      \<exists>ok d. answers me msg sv ok d sv \<and> r = (if ok then Inr (f (the_info d)) else Inl e)"
    and "shutdown c \<Longrightarrow> r = Inl ShutdownException"
  shows "agree (answering g (ask me msg e f) (cls, sv)) (question g r c)"
proof (rule ask_sim [where c' = c, OF assms(1)])
  assume o: "\<not> shutdown c" "\<not> sv_shutdown sv" "data_rel sv c" "ctx_inv c"
  from assms(2) [OF o] obtain ok d where "answers me msg sv ok d sv" "r = (if ok then Inr (f (the_info d)) else Inl e)"
    by blast
  then show "\<exists>ok d sv'. answers me msg sv ok d sv' \<and> \<not> sv_shutdown sv' \<and>
      (if ok then question g r c = (Returned (g (f (the_info d))), c) else question g r c = (Throws e, c)) \<and>
      \<not> shutdown c \<and> data_rel sv' c \<and> ctx_inv c"
    using o by (intro exI [of _ ok] exI [of _ d] exI [of _ sv]) (simp add: question_def)
qed (simp add: question_def assms(3))

lemma send_sim:
  assumes rel: "ctx_rel (cls, sv) c"
    and srv: "\<not> shutdown c \<Longrightarrow> \<not> sv_shutdown sv \<Longrightarrow> data_rel sv c \<Longrightarrow> ctx_inv c \<Longrightarrow> \<exists>outs sv'.
        DispatchMessage_srv me 0 msg sv = (outs, None, sv') \<and> (\<forall>x \<in> set outs. \<exists>n d. x = BroadcastMessage (Notice n d)) \<and>
      \<not> sv_shutdown sv' \<and> \<not> shutdown c' \<and> data_rel sv' c' \<and> ctx_inv c'"
    and open_c: "\<not> shutdown c"
  shows "\<exists>cls' sv'. SendMessage_cli me msg (cls, sv) = (Returned (), (cls', sv')) \<and> ctx_rel (cls', sv') c'"
proof -
  note o = rel_openD [OF rel open_c]
  obtain outs sv' where d: "DispatchMessage_srv me 0 msg sv = (outs, None, sv')" "\<forall>x \<in> set outs. \<exists>n d. x = BroadcastMessage (Notice n d)"
    "\<not> sv_shutdown sv'" "\<not> shutdown c'" "data_rel sv' c'" "ctx_inv c'"
    using srv [OF open_c o(2,4,5)] by blast
  have "all_open (fold deliver outs cls)"
    using d(2) o(3) by (induction outs arbitrary: cls) (auto simp: all_open_def)
  then show ?thesis
    using d by (auto simp: SendMessage_cli_def exchange_def ctx_rel_def simp del: DispatchMessage_srv.simps)
qed

text \<open>What the server has for an object of the local context.\<close>

lemma data_relD:
  assumes "data_rel sv c"
  shows "sv_kernelmap sv = kernelnames c" "sv_nodemap sv = nodenames c" "sv_keycount sv = counter c"
    "sv_numlivenodes sv = numlivenodes c"
    "same_at (kern_of c) k (sv_datamap sv k) (kernelmap c k) (nodemap c k) (readports c k) (writeports c k)"
  using assms by (auto simp: data_rel_def)

lemma data_rel_at:
  assumes "data_rel sv c"
  shows "kernelmap c k = Some ki \<Longrightarrow> \<exists>i. sv_datamap sv k = Some i \<and> in_key i = k \<and> same_kernel i ki"
    "nodemap c k = Some ni \<Longrightarrow> \<exists>i. sv_datamap sv k = Some i \<and> in_key i = k \<and> same_node i ni"
    "readports c k = Some p \<Longrightarrow> \<exists>i. sv_datamap sv k = Some i \<and> in_key i = k \<and> same_port (kern_of c) in_writerkey i p"
    "writeports c k = Some p \<Longrightarrow> \<exists>i. sv_datamap sv k = Some i \<and> in_key i = k \<and> same_port (kern_of c) in_readerkey i p"
    "no_object c k \<Longrightarrow> sv_datamap sv k = None"
  using data_relD(5) [OF assms, of k]
  by (auto simp: same_at_def same_object_def no_object_def split: option.splits)

lemma data_rel_update:
  assumes "data_rel sv c" and "sv_kernelmap sv' = kernelnames c'" "sv_nodemap sv' = nodenames c'" "sv_keycount sv' = counter c'"
    "sv_numlivenodes sv' = numlivenodes c'"
    and "same_at (kern_of c') kx (sv_datamap sv' kx) (kernelmap c' kx) (nodemap c' kx) (readports c' kx) (writeports c' kx)"
    and "\<And>k. k \<noteq> kx \<Longrightarrow> sv_datamap sv' k = sv_datamap sv k \<and> kernelmap c' k = kernelmap c k \<and> nodemap c' k = nodemap c k \<and>
      readports c' k = readports c k \<and> writeports c' k = writeports c k"
    and "\<And>n kk. kern_of c n = Some kk \<Longrightarrow> kern_of c' n = Some kk"
  shows "data_rel sv' c'"
proof -
  have "same_at (kern_of c') k (sv_datamap sv' k) (kernelmap c' k) (nodemap c' k) (readports c' k) (writeports c' k)" for k
  proof (cases "k = kx")
    case False
    have "same_port (kern_of c) opp i p \<Longrightarrow> same_port (kern_of c') opp i p" for opp i p
      using assms(8) by (auto simp: same_port_def)
    then show ?thesis
      using data_relD(5) [OF assms(1), of k] assms(7) [OF False]
      by (simp add: same_at_def same_object_def split: option.splits) blast
  qed (use assms(6) in simp)
  then show ?thesis
    using assms(2-5) by (simp add: data_rel_def)
qed

lemma ctx_names:
  assumes "ctx_inv c"
  shows "kernelnames c n = Some k \<longleftrightarrow> (\<exists>ki. kernelmap c k = Some ki \<and> ki_name ki = n)"
    "nodenames c n = Some k \<longleftrightarrow> (\<exists>ni. nodemap c k = Some ni \<and> ni_name ni = n)"
  using ctx_invD(1,2) [OF assms] by (auto simp: names_ok_def kernel_name_def node_name_def)

text \<open>The answers of the server.\<close>

lemma reply_info_ok:
  "sv_datamap sv k = Some i \<Longrightarrow> in_kind i = kind \<Longrightarrow>
    reply_info sender j kind data look k sv = ([SendMessage sender (Reply j True (data i))], None, sv)"
  "sv_datamap sv k = None \<Longrightarrow> reply_info sender j kind data look k sv = ([SendMessage sender (Reply j False NoData)], None, sv)"
  by (simp_all add: reply_info_def)

lemma srv_kernel_key:
  assumes "data_rel sv c" "\<not> sv_shutdown sv" "kernelmap c k \<noteq> None \<or> no_object c k"
  shows "\<exists>ok d. answers me (GET_KERNEL_INFO (Inr k)) sv ok d sv \<and>
    (case kernelmap c k of None \<Rightarrow> \<not> ok | Some ki \<Rightarrow> ok \<and> in_key (the_info d) = k \<and> same_kernel (the_info d) ki)"
proof (cases "kernelmap c k")
  case None
  then show ?thesis
    using assms data_rel_at(5) [OF assms(1)] by (force simp: answers_def GetKernelInfo_srv_def reply_named_def reply_info_ok)
next
  case (Some ki)
  obtain i where "sv_datamap sv k = Some i" "in_key i = k" "same_kernel i ki"
    using data_rel_at(1) [OF assms(1) Some] by blast
  then show ?thesis
    using assms(2) Some
    by (intro exI [of _ True] exI [of _ "KernelData i"]) (simp add: answers_def GetKernelInfo_srv_def reply_named_def reply_info_def same_kernel_def the_info_def)
qed

lemma srv_node_key:
  assumes "data_rel sv c" "\<not> sv_shutdown sv" "nodemap c k \<noteq> None \<or> no_object c k"
  shows "\<exists>ok d. answers me (GET_NODE_INFO (Inr k)) sv ok d sv \<and>
    (case nodemap c k of None \<Rightarrow> \<not> ok | Some ni \<Rightarrow> ok \<and> in_key (the_info d) = k \<and> same_node (the_info d) ni)"
proof (cases "nodemap c k")
  case None
  then show ?thesis
    using assms data_rel_at(5) [OF assms(1)] by (force simp: answers_def GetNodeInfo_srv_def reply_named_def reply_info_ok)
next
  case (Some ni)
  obtain i where "sv_datamap sv k = Some i" "in_key i = k" "same_node i ni"
    using data_rel_at(2) [OF assms(1) Some] by blast
  then show ?thesis
    using assms(2) Some
    by (intro exI [of _ True] exI [of _ "NodeData i"]) (simp add: answers_def GetNodeInfo_srv_def reply_named_def reply_info_def same_node_def the_info_def)
qed

lemma srv_by_name:
  "DispatchMessage_srv me j (GET_KERNEL_INFO (Inl n)) sv =
    (case sv_kernelmap sv n of Some k \<Rightarrow> DispatchMessage_srv me j (GET_KERNEL_INFO (Inr k)) sv
     | None \<Rightarrow> if sv_shutdown sv then ([], None, sv) else ([SendMessage me (Reply j False NoData)], None, sv))"
  "DispatchMessage_srv me j (GET_NODE_INFO (Inl n)) sv =
    (case sv_nodemap sv n of Some k \<Rightarrow> DispatchMessage_srv me j (GET_NODE_INFO (Inr k)) sv
     | None \<Rightarrow> if sv_shutdown sv then ([], None, sv) else ([SendMessage me (Reply j False NoData)], None, sv))"
  by (simp_all add: GetKernelInfo_srv_def GetNodeInfo_srv_def reply_named_def split: option.splits)

lemma srv_kernel_name:
  assumes "data_rel sv c" "\<not> sv_shutdown sv" "ctx_inv c"
  shows "\<exists>ok d. answers me (GET_KERNEL_INFO (Inl n)) sv ok d sv \<and>
    (case kernelnames c n of None \<Rightarrow> \<not> ok | Some k \<Rightarrow> ok \<and> in_key (the_info d) = k \<and>
       (\<exists>ki. kernelmap c k = Some ki \<and> same_kernel (the_info d) ki))"
proof (cases "kernelnames c n")
  case None
  then show ?thesis
    using assms(2) data_relD(1) [OF assms(1)] by (intro exI [of _ False] exI [of _ NoData]) (simp add: answers_def srv_by_name del: DispatchMessage_srv.simps)
next
  case (Some k)
  then obtain ki where ki: "kernelmap c k = Some ki"
    using ctx_names(1) [OF assms(3)] by auto
  then show ?thesis
    using srv_kernel_key [OF assms(1,2), of k me] Some data_relD(1) [OF assms(1)]
    by (simp add: answers_def srv_by_name del: DispatchMessage_srv.simps)
qed

lemma srv_node_name:
  assumes "data_rel sv c" "\<not> sv_shutdown sv" "ctx_inv c"
  shows "\<exists>ok d. answers me (GET_NODE_INFO (Inl n)) sv ok d sv \<and>
    (case nodenames c n of None \<Rightarrow> \<not> ok | Some k \<Rightarrow> ok \<and> in_key (the_info d) = k \<and>
       (\<exists>ni. nodemap c k = Some ni \<and> same_node (the_info d) ni))"
proof (cases "nodenames c n")
  case None
  then show ?thesis
    using assms(2) data_relD(2) [OF assms(1)] by (intro exI [of _ False] exI [of _ NoData]) (simp add: answers_def srv_by_name del: DispatchMessage_srv.simps)
next
  case (Some k)
  then obtain ni where ni: "nodemap c k = Some ni"
    using ctx_names(2) [OF assms(3)] by auto
  then show ?thesis
    using srv_node_key [OF assms(1,2), of k me] Some data_relD(2) [OF assms(1)]
    by (simp add: answers_def srv_by_name del: DispatchMessage_srv.simps)
qed

lemma srv_reader:
  assumes "data_rel sv c" "\<not> sv_shutdown sv" "readports c k = Some p"
  shows "\<exists>d. answers me (GET_READER_INFO k) sv True d sv \<and>
    same_port (kern_of c) in_writerkey (the_info d) p"
proof -
  obtain i where "sv_datamap sv k = Some i" "same_port (kern_of c) in_writerkey i p"
    using data_rel_at(3) [OF assms(1,3)] by blast
  then show ?thesis
    using assms(2) by (intro exI [of _ "EndpointData i"]) (simp add: answers_def GetEndpointInfo_srv_def reply_info_def same_port_def the_info_def)
qed

lemma srv_writer:
  assumes "data_rel sv c" "\<not> sv_shutdown sv" "writeports c k = Some p"
  shows "\<exists>d. answers me (GET_WRITER_INFO k) sv True d sv \<and>
    same_port (kern_of c) in_readerkey (the_info d) p"
proof -
  obtain i where "sv_datamap sv k = Some i" "same_port (kern_of c) in_readerkey i p"
    using data_rel_at(4) [OF assms(1,3)] by blast
  then show ?thesis
    using assms(2) by (intro exI [of _ "EndpointData i"]) (simp add: answers_def GetEndpointInfo_srv_def reply_info_def same_port_def the_info_def)
qed

text \<open>Questions.\<close>

lemma question_case:
  assumes "ctx_rel (cls, sv) c"
    and "\<not> sv_shutdown sv \<Longrightarrow> data_rel sv c \<Longrightarrow> ctx_inv c \<Longrightarrow>
      \<exists>ok d. answers me msg sv ok d sv \<and> (case m of None \<Rightarrow> \<not> ok | Some x \<Rightarrow> ok \<and> P (the_info d) x)"
    and "\<And>i x. m = Some x \<Longrightarrow> P i x \<Longrightarrow> h x = Inr (f i)"
  shows "agree (answering g (ask me msg e f) (cls, sv)) (question g (checked c (case m of None \<Rightarrow> Inl e | Some x \<Rightarrow> h x)) c)"
proof (rule question_sim [OF assms(1)])
  assume "\<not> shutdown c" "\<not> sv_shutdown sv" "data_rel sv c" "ctx_inv c"
  with assms(2) obtain ok d where "answers me msg sv ok d sv" "case m of None \<Rightarrow> \<not> ok | Some x \<Rightarrow> ok \<and> P (the_info d) x"
    by blast
  with \<open>\<not> shutdown c\<close> assms(3)
  show "\<exists>ok d. answers me msg sv ok d sv \<and>
      checked c (case m of None \<Rightarrow> Inl e | Some x \<Rightarrow> h x) = (if ok then Inr (f (the_info d)) else Inl e)"
    by (cases m) auto
qed (simp add: checked_def)

lemma question_known:
  assumes "ctx_rel (cls, sv) c"
    and "\<not> sv_shutdown sv \<Longrightarrow> data_rel sv c \<Longrightarrow> \<exists>d. answers me msg sv True d sv \<and> P (the_info d)"
    and "\<And>i. P i \<Longrightarrow> r = Inr (f i)"
  shows "agree (answering g (ask me msg e f) (cls, sv)) (question g (checked c r) c)"
proof (rule question_sim [OF assms(1)])
  assume "\<not> shutdown c" "\<not> sv_shutdown sv" "data_rel sv c" "ctx_inv c"
  with assms(2) obtain d where "answers me msg sv True d sv" "P (the_info d)"
    by blast
  with \<open>\<not> shutdown c\<close> assms(3)
  show "\<exists>ok d. answers me msg sv ok d sv \<and> checked c r = (if ok then Inr (f (the_info d)) else Inl e)"
    by (intro exI [of _ True] exI [of _ d]) simp
qed (simp add: checked_def)

lemma sim_kernel_questions:
  assumes "ctx_rel (cls, sv) c" "kernelmap c k \<noteq> None \<or> no_object c k"
  shows "agree (remote_call me (C_GetKernelName k) (cls, sv)) (local_call (C_GetKernelName k) c)"
    "agree (remote_call me (C_GetKernelConnectionInfo k) (cls, sv)) (local_call (C_GetKernelConnectionInfo k) c)"
  unfolding remote_call.simps local_call.simps GetKernelName_cli_def GetKernelConnectionInfo_cli_def
    GetKernelName_def GetKernelConnectionInfo_def
  by (rule question_case [OF assms(1) srv_kernel_key [OF _ _ assms(2)]];
      simp add: same_kernel_def text_or_null_def)+

lemma sim_node_questions:
  assumes "ctx_rel (cls, sv) c" "nodemap c k \<noteq> None \<or> no_object c k"
  shows "agree (remote_call me (C_GetNodeKernel k) (cls, sv)) (local_call (C_GetNodeKernel k) c)"
    "\<not> shutdown c \<Longrightarrow> agree (remote_call me (C_GetNodeName k) (cls, sv)) (local_call (C_GetNodeName k) c)"
proof -
  show "agree (remote_call me (C_GetNodeKernel k) (cls, sv)) (local_call (C_GetNodeKernel k) c)"
    unfolding remote_call.simps local_call.simps GetNodeKernel_cli_def GetNodeKernel_def
    by (rule question_case [OF assms(1) srv_node_key [OF _ _ assms(2)]]; simp add: same_node_def)
  assume "\<not> shutdown c"
  then have eq: "GetNodeName c k = checked c (case nodemap c k of None \<Rightarrow> Inl InvalidArgument | Some i \<Rightarrow> Inr (ni_name i))"
    by (simp add: GetNodeName_def)
  show "agree (remote_call me (C_GetNodeName k) (cls, sv)) (local_call (C_GetNodeName k) c)"
    unfolding remote_call.simps local_call.simps GetNodeName_cli_def eq
    by (rule question_case [OF assms(1) srv_node_key [OF _ _ assms(2)]]; simp add: same_node_def text_or_null_def)
qed

lemma sim_name_questions:
  assumes "ctx_rel (cls, sv) c"
  shows "agree (remote_call me (C_GetKernelKey n) (cls, sv)) (local_call (C_GetKernelKey n) c)"
    "agree (remote_call me (C_GetNodeKey n) (cls, sv)) (local_call (C_GetNodeKey n) c)"
  unfolding remote_call.simps local_call.simps GetKernelKey_cli_def GetNodeKey_cli_def GetKernelKey_def GetNodeKey_def
  by (rule question_case [OF assms srv_kernel_name]; simp) (rule question_case [OF assms srv_node_name]; simp)

lemma sim_reader_questions:
  assumes "ctx_rel (cls, sv) c" "readports c k = Some p"
  shows "agree (remote_call me (C_GetReaderNode k) (cls, sv)) (local_call (C_GetReaderNode k) c)"
    "agree (remote_call me (C_GetReaderKernel k) (cls, sv)) (local_call (C_GetReaderKernel k) c)"
    "agree (remote_call me (C_GetReaderName k) (cls, sv)) (local_call (C_GetReaderName k) c)"
    "agree (remote_call me (C_GetReadersWriter k) (cls, sv)) (local_call (C_GetReadersWriter k) c)"
proof -
  have eq: "GetReaderNode c k = checked c (Inr (pi_nodekey p))" "GetReaderName c k = checked c (Inr (pi_name p))"
    "GetReadersWriter c k = checked c (Inr (pi_opposingport p))"
    "GetReaderKernel c k = checked c (case kern_of c (pi_nodekey p) of None \<Rightarrow> Inl InvalidArgument | Some kk \<Rightarrow> Inr kk)"
    using assms(2) by (auto simp: GetReaderNode_def GetReaderName_def GetReadersWriter_def GetReaderKernel_def GetNodeKernel_def
        kern_of_def checked_def split: option.splits)
  note known = question_known [OF assms(1) srv_reader [OF _ _ assms(2)]]
  show "agree (remote_call me (C_GetReaderNode k) (cls, sv)) (local_call (C_GetReaderNode k) c)"
    "agree (remote_call me (C_GetReaderKernel k) (cls, sv)) (local_call (C_GetReaderKernel k) c)"
    "agree (remote_call me (C_GetReaderName k) (cls, sv)) (local_call (C_GetReaderName k) c)"
    "agree (remote_call me (C_GetReadersWriter k) (cls, sv)) (local_call (C_GetReadersWriter k) c)"
    unfolding remote_call.simps local_call.simps GetReaderNode_cli_def GetReaderKernel_cli_def GetReaderName_cli_def
      GetReadersWriter_cli_def reader_info_def eq
    by (rule known; simp add: same_port_def text_or_null_def)+
qed

lemma sim_writer_questions:
  assumes "ctx_rel (cls, sv) c" "writeports c k = Some p"
  shows "agree (remote_call me (C_GetWriterNode k) (cls, sv)) (local_call (C_GetWriterNode k) c)"
    "agree (remote_call me (C_GetWriterKernel k) (cls, sv)) (local_call (C_GetWriterKernel k) c)"
    "agree (remote_call me (C_GetWriterName k) (cls, sv)) (local_call (C_GetWriterName k) c)"
    "agree (remote_call me (C_GetWritersReader k) (cls, sv)) (local_call (C_GetWritersReader k) c)"
proof -
  have eq: "GetWriterNode c k = checked c (Inr (pi_nodekey p))" "GetWriterName c k = checked c (Inr (pi_name p))"
    "GetWritersReader c k = checked c (Inr (pi_opposingport p))"
    "GetWriterKernel c k = checked c (case kern_of c (pi_nodekey p) of None \<Rightarrow> Inl InvalidArgument | Some kk \<Rightarrow> Inr kk)"
    using assms(2) by (auto simp: GetWriterNode_def GetWriterName_def GetWritersReader_def GetWriterKernel_def GetNodeKernel_def
        kern_of_def checked_def split: option.splits)
  note known = question_known [OF assms(1) srv_writer [OF _ _ assms(2)]]
  show "agree (remote_call me (C_GetWriterNode k) (cls, sv)) (local_call (C_GetWriterNode k) c)"
    "agree (remote_call me (C_GetWriterKernel k) (cls, sv)) (local_call (C_GetWriterKernel k) c)"
    "agree (remote_call me (C_GetWriterName k) (cls, sv)) (local_call (C_GetWriterName k) c)"
    "agree (remote_call me (C_GetWritersReader k) (cls, sv)) (local_call (C_GetWritersReader k) c)"
    unfolding remote_call.simps local_call.simps GetWriterNode_cli_def GetWriterKernel_cli_def GetWriterName_cli_def
      GetWritersReader_cli_def writer_info_def eq
    by (rule known; simp add: same_port_def text_or_null_def)+
qed

text \<open>Signals.\<close>

lemma deliver_shut: "all_shut cls \<Longrightarrow> all_shut (deliver x cls)"
proof (cases x)
  case (SendMessage r m)
  then show "all_shut cls \<Longrightarrow> ?thesis"
    by (cases m) (auto simp: InternalTerminate_cli_def all_shut_def split: option.splits)
next
  case (BroadcastMessage m)
  then show "all_shut cls \<Longrightarrow> ?thesis"
    by (cases m) (auto simp: InternalTerminate_cli_def all_shut_def split: option.splits)
qed simp

lemma SendMessage_shut: "all_shut cls \<Longrightarrow> \<exists>cls' sv'. SendMessage_cli me msg (cls, sv) = (Returned (), (cls', sv')) \<and> all_shut cls'"
proof -
  have "all_shut cls \<Longrightarrow> all_shut (fold deliver outs cls)" for outs
    by (induction outs arbitrary: cls) (auto intro: deliver_shut)
  then show "all_shut cls \<Longrightarrow> ?thesis"
    by (auto simp: SendMessage_cli_def exchange_def simp del: DispatchMessage_srv.simps split: prod.splits)
qed

lemma forget_kernel: "all_shut (cls(me := (cls me)\<lparr>cl_kernels := m\<rparr>)) = all_shut cls" "all_open (cls(me := (cls me)\<lparr>cl_kernels := m\<rparr>)) = all_open cls"
  by (auto simp: all_shut_def all_open_def)

lemma signal_kernel_rel:
  assumes "data_rel sv c" "kernelmap c k = Some ki" "ki_live ki' \<and> \<not> ki_dead ki' \<longleftrightarrow> b"
    "ki_name ki' = ki_name ki" "ki_hostname ki' = ki_hostname ki" "ki_servname ki' = ki_servname ki" "ki_allowremote ki' = ki_allowremote ki"
  shows "\<exists>i sv'. signal_kernel b k sv = ([NewBroadcastMessage sv' (KernelData i)], None, sv') \<and> sv_shutdown sv' = sv_shutdown sv \<and>
    data_rel sv' (c\<lparr>kernelmap := (kernelmap c)(k \<mapsto> ki')\<rparr>)"
proof -
  obtain i where i: "sv_datamap sv k = Some i" "in_key i = k" "same_kernel i ki"
    using data_rel_at(1) [OF assms(1,2)] by blast
  have none: "nodemap c k = None" "readports c k = None" "writeports c k = None"
    using data_relD(5) [OF assms(1), of k] assms(2) i by (auto simp: same_at_def same_object_def)
  have "data_rel (set_info k (i\<lparr>in_live := b\<rparr>) sv) (c\<lparr>kernelmap := (kernelmap c)(k \<mapsto> ki')\<rparr>)"
    by (rule data_rel_update [OF assms(1), where kx = k])
      (use data_relD(1-4) [OF assms(1)] i none assms(3-7) in
        \<open>auto simp: set_info_def same_at_def same_object_def same_kernel_def kern_of_def\<close>)
  then show ?thesis
    using i by (auto simp: signal_kernel_def at_datamap_def Let_def same_kernel_def set_info_def)
qed

lemma signal_node_rel:
  assumes "data_rel sv c" "nodemap c k = Some ni" "\<And>i. same_node i ni \<Longrightarrow> same_node (f i) ni'" "\<And>i. in_key (f i) = in_key i"
    "ni_kernelkey ni' = ni_kernelkey ni"
  shows "\<exists>i sv'. signal_node f live k sv = ([NewBroadcastMessage sv' (NodeData i)], None, sv') \<and> sv_shutdown sv' = sv_shutdown sv \<and>
    data_rel sv' (c\<lparr>nodemap := (nodemap c)(k \<mapsto> ni'), numlivenodes := live\<rparr>)"
proof -
  obtain i where i: "sv_datamap sv k = Some i" "in_key i = k" "same_node i ni"
    using data_rel_at(2) [OF assms(1,2)] by blast
  have none: "kernelmap c k = None" "readports c k = None" "writeports c k = None"
    using data_relD(5) [OF assms(1), of k] assms(2) i by (auto simp: same_at_def same_object_def)
  have "data_rel (set_info k (f i) (sv\<lparr>sv_numlivenodes := live\<rparr>)) (c\<lparr>nodemap := (nodemap c)(k \<mapsto> ni'), numlivenodes := live\<rparr>)"
    by (rule data_rel_update [OF assms(1), where kx = k])
      (use data_relD(1-4) [OF assms(1)] i none assms(2-5) in
        \<open>auto simp: set_info_def same_at_def same_object_def kern_of_def split: if_splits\<close>)
  then show ?thesis
    using i by (auto simp: signal_node_def at_datamap_def Let_def same_node_def set_info_def)
qed

lemma sim_SignalKernelStart:
  assumes "ctx_rel (cls, sv) c" "kernelmap c k = Some ki" "\<not> ki_dead ki" "counter c + 1 < 2 ^ 64"
  shows "agree (remote_call me (C_SignalKernelStart k) (cls, sv)) (local_call (C_SignalKernelStart k) c)"
proof (cases "shutdown c")
  case True
  then show ?thesis
    using assms(1) rel_shutD [OF assms(1)] by (simp add: agree_def SignalKernelStart_cli_def InternalCheckTerminated_cli_def answering_def map_outcome_def
        SignalKernelStart_def checked_def change_def)
next
  case False
  let ?c = "c\<lparr>kernelmap := (kernelmap c)(k \<mapsto> ki\<lparr>ki_live := True\<rparr>)\<rparr>"
  have l: "SignalKernelStart c k = Inr ?c"
    using False assms(2) by (simp add: SignalKernelStart_def)
  have inv: "ctx_inv c \<Longrightarrow> ctx_inv ?c"
    using exec_inv [OF _ assms(4), of "Op_SignalKernelStart k"] l by simp
  obtain cls' sv' where "SendMessage_cli me (SIGNAL_KERNEL_START k) (cls, sv) = (Returned (), (cls', sv'))" "ctx_rel (cls', sv') ?c"
    using send_sim [OF assms(1), of me "SIGNAL_KERNEL_START k" ?c] signal_kernel_rel [of sv c k ki "ki\<lparr>ki_live := True\<rparr>" True]
      False assms(2,3) inv by (fastforce simp: SignalKernelStart_srv_def NewBroadcastMessage_def)
  then show ?thesis
    using False rel_openD(1) [OF assms(1)]
    by (simp add: agree_def SignalKernelStart_cli_def InternalCheckTerminated_cli_def answering_def map_outcome_def l change_def)
qed

lemma sim_SignalKernelEnd:
  assumes "ctx_rel (cls, sv) c" "kernelmap c k = Some ki" "counter c + 1 < 2 ^ 64"
  shows "agree (remote_call me (C_SignalKernelEnd k) (cls, sv)) (local_call (C_SignalKernelEnd k) c)"
proof -
  let ?c = "c\<lparr>kernelmap := (kernelmap c)(k \<mapsto> ki\<lparr>ki_dead := True\<rparr>)\<rparr>"
  have l: "SignalKernelEnd c k = Inr ?c"
    using assms(2) by (simp add: SignalKernelEnd_def)
  have inv: "ctx_inv c \<Longrightarrow> ctx_inv ?c"
    using exec_inv [OF _ assms(3), of "Op_SignalKernelEnd k"] l by simp
  have "\<exists>cls' sv'. SendMessage_cli me (SIGNAL_KERNEL_END k) (cls, sv) = (Returned (), (cls', sv')) \<and>
      ctx_rel (cls'(me := (cls' me)\<lparr>cl_kernels := (cl_kernels (cls' me))(k := None)\<rparr>), sv') ?c"
  proof (cases "shutdown c")
    case True
    then show ?thesis
      using SendMessage_shut [of cls me "SIGNAL_KERNEL_END k" sv] assms(1) by (auto simp: ctx_rel_def forget_kernel)
  next
    case False
    obtain cls' sv' where "SendMessage_cli me (SIGNAL_KERNEL_END k) (cls, sv) = (Returned (), (cls', sv'))" "ctx_rel (cls', sv') ?c"
      using send_sim [OF assms(1), of me "SIGNAL_KERNEL_END k" ?c] signal_kernel_rel [of sv c k ki "ki\<lparr>ki_dead := True\<rparr>" False]
        False assms(2) inv by (fastforce simp: SignalKernelEnd_srv_def NewBroadcastMessage_def)
    then show ?thesis
      using False by (simp add: ctx_rel_def forget_kernel)
  qed
  then show ?thesis
    by (auto simp: agree_def SignalKernelEnd_cli_def rthen_def answering_def map_outcome_def l change_def)
qed

lemma sim_SignalNodeStart:
  assumes "ctx_rel (cls, sv) c" "nodemap c k = Some ni" "counter c + 1 < 2 ^ 64"
  shows "agree (remote_call me (C_SignalNodeStart k) (cls, sv)) (local_call (C_SignalNodeStart k) c)"
proof (cases "shutdown c")
  case True
  then show ?thesis
    using assms(1) rel_shutD [OF assms(1)] by (simp add: agree_def SignalNodeStart_cli_def InternalCheckTerminated_cli_def answering_def map_outcome_def
        SignalNodeStart_def checked_def change_def)
next
  case False
  let ?c = "c\<lparr>nodemap := (nodemap c)(k \<mapsto> ni\<lparr>ni_started := True\<rparr>), numlivenodes := u32 (numlivenodes c + 1)\<rparr>"
  have l: "SignalNodeStart c k = Inr ?c"
    using False assms(2) by (simp add: SignalNodeStart_def)
  have inv: "ctx_inv c \<Longrightarrow> ctx_inv ?c"
    using exec_inv [OF _ assms(3), of "Op_SignalNodeStart k"] l by simp
  have srv: "data_rel sv c \<Longrightarrow> \<exists>i sv'. SignalNodeStart_srv k sv = ([NewBroadcastMessage sv' (NodeData i)], None, sv') \<and>
      sv_shutdown sv' = sv_shutdown sv \<and> data_rel sv' ?c"
    unfolding SignalNodeStart_srv_def
    using signal_node_rel [of sv c k ni "in_started_update (\<lambda>_. True)" "ni\<lparr>ni_started := True\<rparr>" "u32 (numlivenodes c + 1)"]
      assms(2) data_relD(4) [of sv c] by (simp add: same_node_def)
  obtain cls' sv' where "SendMessage_cli me (SIGNAL_NODE_START k) (cls, sv) = (Returned (), (cls', sv'))" "ctx_rel (cls', sv') ?c"
    using send_sim [OF assms(1), of me "SIGNAL_NODE_START k" ?c] srv False inv by (fastforce simp: NewBroadcastMessage_def)
  then show ?thesis
    using False rel_openD(1) [OF assms(1)]
    by (simp add: agree_def SignalNodeStart_cli_def InternalCheckTerminated_cli_def answering_def map_outcome_def l change_def)
qed

lemma sim_SignalNodeEnd:
  assumes "ctx_rel (cls, sv) c" "nodemap c k = Some ni" "ni_started ni" "counter c + 1 < 2 ^ 64"
  shows "agree (remote_call me (C_SignalNodeEnd k) (cls, sv)) (local_call (C_SignalNodeEnd k) c)"
proof -
  let ?c = "c\<lparr>nodemap := (nodemap c)(k \<mapsto> ni\<lparr>ni_dead := True\<rparr>), numlivenodes := sub32 (numlivenodes c) 1\<rparr>"
  have l: "SignalNodeEnd c k = Inr ?c"
    using assms(2) by (simp add: SignalNodeEnd_def)
  have inv: "ctx_inv c \<Longrightarrow> ctx_inv ?c"
    using exec_inv [OF _ assms(4), of "Op_SignalNodeEnd k"] l by simp
  have srv: "data_rel sv c \<Longrightarrow> \<exists>i sv'. SignalNodeEnd_srv k sv = ([NewBroadcastMessage sv' (NodeData i)], None, sv') \<and>
      sv_shutdown sv' = sv_shutdown sv \<and> data_rel sv' ?c"
    unfolding SignalNodeEnd_srv_def
    using signal_node_rel [of sv c k ni "in_dead_update (\<lambda>_. True)" "ni\<lparr>ni_dead := True\<rparr>" "sub32 (numlivenodes c) 1"]
      assms(2,3) data_relD(4) [of sv c] by (simp add: same_node_def)
  have "\<exists>cls' sv'. SendMessage_cli me (SIGNAL_NODE_END k) (cls, sv) = (Returned (), (cls', sv')) \<and> ctx_rel (cls', sv') ?c"
  proof (cases "shutdown c")
    case True
    then show ?thesis
      using SendMessage_shut [of cls me "SIGNAL_NODE_END k" sv] assms(1) by (auto simp: ctx_rel_def forget_kernel)
  next
    case False
    then show ?thesis
      using send_sim [OF assms(1), of me "SIGNAL_NODE_END k" ?c] srv inv by (fastforce simp: NewBroadcastMessage_def)
  qed
  then show ?thesis
    by (auto simp: agree_def SignalNodeEnd_cli_def answering_def map_outcome_def l change_def)
qed

text \<open>Creations.\<close>

lemma data_rel_fresh:
  assumes "data_rel sv c" "ctx_inv c" "counter c + 1 < 2 ^ 64"
  shows "NewKey_srv sv = NewKey c" "sv_datamap sv (NewKey c) = None" "no_object c (NewKey c)"
proof -
  show "NewKey_srv sv = NewKey c"
    using data_relD(3) [OF assms(1)] by (simp add: NewKey_srv_def NewKey_def)
  show n: "no_object c (NewKey c)"
    using NewKey_fresh [OF assms(2,3)] by (simp add: no_object_def)
  show "sv_datamap sv (NewKey c) = None"
    by (rule data_rel_at(5) [OF assms(1) n])
qed

lemma sim_SetupKernel:
  assumes "ctx_rel (cls, sv) c" "kernelnames c n = None" "counter c + 1 < 2 ^ 64"
  shows "agree (remote_call me (C_SetupKernel n h s krn) (cls, sv)) (local_call (C_SetupKernel n h s krn) c)"
proof (cases "shutdown c \<or> krn = None")
  case True
  then show ?thesis
    using assms(1) rel_shutD [OF assms(1)] rel_openD(1) [OF assms(1)]
    by (auto simp: agree_def SetupKernel_cli_def InternalCheckTerminated_cli_def answering_def map_outcome_def
        SetupKernel_remote_def SetupKernel_info_def checked_def creation_def rthrow_def)
next
  case False
  then obtain p where open_c: "\<not> shutdown c" and p: "krn = Some p" by auto
  note o = rel_openD [OF assms(1) open_c]
  note fresh = data_rel_fresh [OF o(4,5) assms(3)]
  define key where "key = NewKey c"
  let ?ki = "\<lparr>ki_name = n, ki_hostname = h, ki_servname = s, ki_kernel = krn, ki_live = False, ki_dead = False, ki_allowremote = True\<rparr>"
  let ?c = "c\<lparr>counter := key, kernelmap := (kernelmap c)(key \<mapsto> ?ki), kernelnames := (kernelnames c)(n \<mapsto> key)\<rparr>"
  let ?i = "null_info\<lparr>in_kind := Kernelinfo, in_key := key, in_name := Some n, in_hostname := Some h,
    in_servname := Some s, in_live := False, in_client := Some me\<rparr>"
  let ?sv = "(set_info key ?i (sv\<lparr>sv_keycount := key\<rparr>))\<lparr>sv_kernelmap := (sv_kernelmap sv)(n \<mapsto> key)\<rparr>"
  have l: "SetupKernel_remote c n h s krn = Inr (key, ?c)"
    using open_c assms(2) p by (simp add: SetupKernel_remote_def SetupKernel_info_def key_def Let_def)
  have inv: "ctx_inv ?c"
    using exec_inv [OF o(5) assms(3), of "Op_SetupKernel_remote n h s krn"] l by simp
  have rel: "data_rel ?sv ?c"
    by (rule data_rel_update [OF o(4), where kx = key])
      (use data_relD(1-4) [OF o(4)] fresh in
        \<open>auto simp: key_def set_info_def same_at_def same_object_def same_kernel_def kern_of_def no_object_def null_info_def\<close>)
  have "DispatchMessage_srv me j (SETUP_KERNEL n h s) sv = ([SendMessage me (Reply j True (KernelData ?i))], None, ?sv)" for j
    using o(2) fresh assms(2) data_relD(1) [OF o(4)] by (simp add: SetupKernel_srv_def key_def Let_def)
  from RemoteCall_reply [OF o(3) this]
  obtain cls' where cls': "RemoteCall me (SETUP_KERNEL n h s) (cls, sv) = (Returned (True, KernelData ?i), (cls', ?sv))"
    "all_open cls'" by blast
  let ?cls = "if cl_kernels (cls' me) key = None then cls'(me := (cls' me)\<lparr>cl_kernels := (cl_kernels (cls' me))(key \<mapsto> p)\<rparr>) else cls'"
  have "ctx_rel (?cls, ?sv) ?c"
    using cls'(2) rel inv open_c o(2) by (intro rel_openI) (simp_all add: set_info_def forget_kernel)
  moreover have "SetupKernel_cli me n h s krn (cls, sv) = (Returned key, (?cls, ?sv))"
    using o(1) [of me] cls'(1) by (simp add: SetupKernel_cli_def p InternalCheckTerminated_cli_def rthen_def the_info_def)
  ultimately show ?thesis
    by (simp add: agree_def answering_def map_outcome_def l creation_def)
qed

lemma sim_CreateNodeKey:
  assumes "ctx_rel (cls, sv) c" "counter c + 1 < 2 ^ 64"
  shows "agree (remote_call me (C_CreateNodeKey kk n) (cls, sv)) (local_call (C_CreateNodeKey kk n) c)"
  unfolding remote_call.simps local_call.simps CreateNodeKey_cli_def
proof (rule ask_sim [OF assms(1), where c' = "snd (creation (CreateNodeKey c kk n) c)"])
  assume o: "\<not> shutdown c" "\<not> sv_shutdown sv" "data_rel sv c" "ctx_inv c"
  let ?r = "creation (CreateNodeKey c kk n) c"
  show "\<exists>ok d sv'. answers me (CREATE_NODE_KEY kk n) sv ok d sv' \<and> \<not> sv_shutdown sv' \<and>
      (if ok then ?r = (Returned (A_key (in_key (the_info d))), snd ?r) else ?r = (Throws InvalidArgument, snd ?r)) \<and>
      \<not> shutdown (snd ?r) \<and> data_rel sv' (snd ?r) \<and> ctx_inv (snd ?r)"
  proof (cases "nodenames c n")
    case (Some k)
    then show ?thesis
      using o data_relD(2) [OF o(3)]
      by (intro exI [of _ False] exI [of _ NoData] exI [of _ sv]) (simp add: answers_def CreateNodeKey_srv_def CreateNodeKey_def creation_def)
  next
    case None
    define key where "key = NewKey c"
    let ?ni = "\<lparr>ni_name = n, ni_kernelkey = kk, ni_started = False, ni_readers = Map.empty, ni_writers = Map.empty, ni_dead = False\<rparr>"
    let ?c = "c\<lparr>counter := key, nodenames := (nodenames c)(n \<mapsto> key), nodemap := (nodemap c)(key \<mapsto> ?ni)\<rparr>"
    let ?i = "null_info\<lparr>in_kind := Nodeinfo, in_key := key, in_name := Some n, in_kernelkey := kk,
      in_started := False, in_dead := False, in_endpoints := Map.empty\<rparr>"
    let ?sv = "set_info key ?i (sv\<lparr>sv_keycount := key, sv_nodemap := (sv_nodemap sv)(n \<mapsto> key)\<rparr>)"
    note fresh = data_rel_fresh [OF o(3,4) assms(2)]
    have l: "CreateNodeKey c kk n = Inr (key, ?c)"
      using o(1) None by (simp add: CreateNodeKey_def key_def Let_def)
    have "ctx_inv ?c"
      using exec_inv [OF o(4) assms(2), of "Op_CreateNodeKey kk n"] l by simp
    moreover have "data_rel ?sv ?c"
      by (rule data_rel_update [OF o(3), where kx = key])
        (use data_relD(1-4) [OF o(3)] fresh in
          \<open>auto simp: key_def set_info_def same_at_def same_object_def same_node_def kern_of_def no_object_def null_info_def\<close>)
    moreover have "answers me (CREATE_NODE_KEY kk n) sv True (NodeData ?i) ?sv"
      using o(2) fresh None data_relD(2) [OF o(3)] by (simp add: answers_def CreateNodeKey_srv_def key_def Let_def)
    ultimately show ?thesis
      using o(1,2) by (intro exI [of _ True] exI [of _ "NodeData ?i"] exI [of _ ?sv])
        (simp add: l creation_def the_info_def set_info_def)
  qed
qed (simp add: CreateNodeKey_def checked_def creation_def)

text \<open>A port of a node, found or created.\<close>

lemma srv_endpoint_new:
  assumes "data_rel sv c" "\<not> sv_shutdown sv" "nodemap c k = Some ni" "ni_readers ni p = None" "ni_writers ni p = None"
    "sv_datamap sv (NewKey c) = None" "NewKey_srv sv = NewKey c"
  shows "\<exists>i n. sv_datamap sv k = Some n \<and> same_node n ni \<and> in_key n = k \<and> in_key i = NewKey c \<and> in_kind i = Endpointinfo \<and>
    in_name i = Some p \<and> in_nodekey i = k \<and> in_kernelkey i = ni_kernelkey ni \<and> in_readerkey i = 0 \<and> in_writerkey i = 0 \<and>
    (\<forall>j. GetCreateEndpointKey_srv me j k p sv = ([SendMessage me (Reply j True (EndpointData i))], None,
      set_info (NewKey c) i (set_info k (n\<lparr>in_endpoints := (in_endpoints n)(p \<mapsto> NewKey c)\<rparr>) (sv\<lparr>sv_keycount := NewKey c\<rparr>))))"
proof -
  obtain n where n: "sv_datamap sv k = Some n" "in_key n = k" "same_node n ni"
    using data_rel_at(2) [OF assms(1,3)] by blast
  have e: "in_endpoints n p = None" "in_kind n \<noteq> NullValue" "in_kernelkey n = ni_kernelkey ni"
    using n(3) assms(4,5) by (simp_all add: same_node_def map_add_def)
  let ?i = "null_info\<lparr>in_kind := Endpointinfo, in_key := NewKey c, in_name := Some p, in_nodekey := k,
    in_kernelkey := in_kernelkey n, in_live := True\<rparr>"
  show ?thesis
    by (rule exI [of _ ?i], rule exI [of _ n]) (use n e assms(7) in \<open>simp add: GetCreateEndpointKey_srv_def Let_def null_info_def\<close>)
qed

lemma srv_endpoint_old:
  assumes "sv_datamap sv k = Some n" "in_endpoints n p = Some e" "sv_datamap sv e = Some i" "in_kind i = Endpointinfo"
  shows "GetCreateEndpointKey_srv me j k p sv = ([SendMessage me (Reply j True (EndpointData i))], None, sv)"
  using assms by (simp add: GetCreateEndpointKey_srv_def at_datamap_def)

text \<open>The two sides after a port has been created, for inputs and for outputs.\<close>

lemma new_port_rel:
  assumes rel: "data_rel sv c" and ni: "nodemap c k = Some ni" and none: "no_object c key" "sv_datamap sv key = None"
    and n: "sv_datamap sv k = Some n" "in_key n = k" "same_node n ni"
    and free: "ni_readers ni p = None" "ni_writers ni p = None"
    and i: "in_key i = key" "in_kind i = Endpointinfo" "in_name i = Some p" "in_nodekey i = k" "in_kernelkey i = ni_kernelkey ni"
      "in_readerkey i = 0" "in_writerkey i = 0"
  shows "data_rel (set_info key i (set_info k (n\<lparr>in_endpoints := (in_endpoints n)(p \<mapsto> key)\<rparr>) (sv\<lparr>sv_keycount := key\<rparr>)))
      (c\<lparr>counter := key, nodemap := (nodemap c)(k \<mapsto> ni\<lparr>ni_readers := (ni_readers ni)(p \<mapsto> key)\<rparr>),
        readports := (readports c)(key \<mapsto> new_port k p)\<rparr>)" (is ?R)
    "data_rel (set_info key i (set_info k (n\<lparr>in_endpoints := (in_endpoints n)(p \<mapsto> key)\<rparr>) (sv\<lparr>sv_keycount := key\<rparr>)))
      (c\<lparr>counter := key, nodemap := (nodemap c)(k \<mapsto> ni\<lparr>ni_writers := (ni_writers ni)(p \<mapsto> key)\<rparr>),
        writeports := (writeports c)(key \<mapsto> new_port k p)\<rparr>)" (is ?W)
proof -
  let ?n = "n\<lparr>in_endpoints := (in_endpoints n)(p \<mapsto> key)\<rparr>"
  let ?sv1 = "set_info k ?n (sv\<lparr>sv_keycount := key\<rparr>)"
  let ?nr = "ni\<lparr>ni_readers := (ni_readers ni)(p \<mapsto> key)\<rparr>" and ?nw = "ni\<lparr>ni_writers := (ni_writers ni)(p \<mapsto> key)\<rparr>"
  have nk: "k \<noteq> key"
    using ni none(1) by (auto simp: no_object_def)
  have others: "kernelmap c k = None" "readports c k = None" "writeports c k = None"
    using data_relD(5) [OF rel, of k] ni n by (auto simp: same_at_def same_object_def)
  have sn: "same_node ?n ?nr" "same_node ?n ?nw"
    using n(3) free by (auto simp: same_node_def fun_eq_iff map_add_def split: option.splits)
  have node_rel: "data_rel ?sv1 (c\<lparr>counter := key, nodemap := (nodemap c)(k \<mapsto> ni')\<rparr>)"
    if "same_node ?n ni'" "ni_kernelkey ni' = ni_kernelkey ni" for ni'
    by (rule data_rel_update [OF rel, where kx = k])
      (use data_relD(1-4) [OF rel] n(2) others ni that in
        \<open>auto simp: set_info_def same_at_def same_object_def kern_of_def split: if_splits\<close>)
  have r1: "data_rel ?sv1 (c\<lparr>counter := key, nodemap := (nodemap c)(k \<mapsto> ?nr)\<rparr>)"
    and w1: "data_rel ?sv1 (c\<lparr>counter := key, nodemap := (nodemap c)(k \<mapsto> ?nw)\<rparr>)"
    using sn by (auto intro: node_rel)
  show ?R
    by (rule data_rel_update [OF r1, where kx = key])
      (use data_relD(1-4) [OF rel] none i nk in
        \<open>auto simp: set_info_def same_at_def same_object_def same_port_def kern_of_def no_object_def new_port_def\<close>)
  show ?W
    by (rule data_rel_update [OF w1, where kx = key])
      (use data_relD(1-4) [OF rel] none i nk in
        \<open>auto simp: set_info_def same_at_def same_object_def same_port_def kern_of_def no_object_def new_port_def\<close>)
qed

lemma port_lookup:
  assumes "ports_ok (node_port sel c) (port_of ports)" "nodemap c k = Some ni" "sel ni p = Some e"
  shows "\<exists>q. ports e = Some q"
proof -
  have "port_of ports e = Some (k, p)"
    using assms by (simp add: ports_ok_def node_port_def flip: assms(1) [unfolded ports_ok_def, rule_format])
  then show ?thesis
    by (auto simp: port_of_def)
qed

lemma sim_GetCreateReaderKey:
  assumes "ctx_rel (cls, sv) c" "port_free ni_writers c k p" "counter c + 1 < 2 ^ 64"
  shows "agree (remote_call me (C_GetCreateReaderKey k p) (cls, sv)) (local_call (C_GetCreateReaderKey k p) c)"
  unfolding remote_call.simps local_call.simps GetCreateReaderKey_cli_def
proof (rule ask_sim [OF assms(1), where c' = "snd (creation (GetCreateReaderKey c k p) c)"])
  assume o: "\<not> shutdown c" "\<not> sv_shutdown sv" "data_rel sv c" "ctx_inv c"
  let ?r = "creation (GetCreateReaderKey c k p) c"
  show "\<exists>ok d sv'. answers me (GET_CREATE_READER_KEY k p) sv ok d sv' \<and> \<not> sv_shutdown sv' \<and>
      (if ok then ?r = (Returned (A_key (in_key (the_info d))), snd ?r) else ?r = (Throws InvalidArgument, snd ?r)) \<and>
      \<not> shutdown (snd ?r) \<and> data_rel sv' (snd ?r) \<and> ctx_inv (snd ?r)"
  proof (cases "nodemap c k")
    case None
    then show ?thesis
      using o assms(2) data_rel_at(5) [OF o(3), of k]
      by (intro exI [of _ False] exI [of _ NoData] exI [of _ sv])
        (simp add: answers_def GetCreateEndpointKey_srv_def GetCreateReaderKey_def creation_def port_free_def)
  next
    case (Some ni)
    then have w: "ni_writers ni p = None"
      using assms(2) by (simp add: port_free_def)
    show ?thesis
    proof (cases "ni_readers ni p")
      case None
      note fresh = data_rel_fresh [OF o(3,4) assms(3)]
      obtain i n where i: "sv_datamap sv k = Some n" "same_node n ni" "in_key n = k" "in_key i = NewKey c"
        "in_kind i = Endpointinfo" "in_name i = Some p" "in_nodekey i = k" "in_kernelkey i = ni_kernelkey ni" "in_readerkey i = 0"
        "in_writerkey i = 0" and srv: "\<forall>j. GetCreateEndpointKey_srv me j k p sv = ([SendMessage me (Reply j True (EndpointData i))], None,
          set_info (NewKey c) i (set_info k (n\<lparr>in_endpoints := (in_endpoints n)(p \<mapsto> NewKey c)\<rparr>) (sv\<lparr>sv_keycount := NewKey c\<rparr>)))"
        using srv_endpoint_new [OF o(3,2) Some None w fresh(2,1), of me] by blast
      let ?sv = "set_info (NewKey c) i (set_info k (n\<lparr>in_endpoints := (in_endpoints n)(p \<mapsto> NewKey c)\<rparr>) (sv\<lparr>sv_keycount := NewKey c\<rparr>))"
      let ?c = "c\<lparr>counter := NewKey c, nodemap := (nodemap c)(k \<mapsto> ni\<lparr>ni_readers := (ni_readers ni)(p \<mapsto> NewKey c)\<rparr>),
        readports := (readports c)(NewKey c \<mapsto> new_port k p)\<rparr>"
      have l: "GetCreateReaderKey c k p = Inr (NewKey c, ?c)"
        using o(1) Some None by (simp add: GetCreateReaderKey_def Let_def)
      have "ctx_inv ?c"
        using exec_inv [OF o(4) assms(3), of "Op_GetCreateReaderKey k p"] l by simp
      moreover have "data_rel ?sv ?c"
        by (rule new_port_rel(1) [OF o(3) Some fresh(3,2) i(1,3,2) None w i(4-10)])
      ultimately show ?thesis
        using o(1,2) srv i(4) by (intro exI [of _ True] exI [of _ "EndpointData i"] exI [of _ ?sv])
          (simp add: l creation_def the_info_def set_info_def answers_def)
    next
      case (Some e)
      obtain q where "readports c e = Some q"
        using port_lookup [OF ctx_invD(3) [OF o(4)] \<open>nodemap c k = Some ni\<close> Some] by blast
      then obtain i where i: "sv_datamap sv e = Some i" "in_key i = e" "in_kind i = Endpointinfo"
        using data_rel_at(3) [OF o(3)] by (auto simp: same_port_def)
      obtain n where n: "sv_datamap sv k = Some n" "same_node n ni"
        using data_rel_at(2) [OF o(3) \<open>nodemap c k = Some ni\<close>] by blast
      then have "in_endpoints n p = Some e"
        using Some w by (simp add: same_node_def map_add_def)
      then show ?thesis
        using o srv_endpoint_old [OF n(1) _ i(1,3), of p me] i(2) Some \<open>nodemap c k = Some ni\<close>
        by (intro exI [of _ True] exI [of _ "EndpointData i"] exI [of _ sv])
          (simp add: answers_def GetCreateReaderKey_def creation_def the_info_def)
    qed
  qed
qed (simp add: GetCreateReaderKey_def checked_def creation_def)

lemma sim_GetCreateWriterKey:
  assumes "ctx_rel (cls, sv) c" "port_free ni_readers c k p" "counter c + 1 < 2 ^ 64"
  shows "agree (remote_call me (C_GetCreateWriterKey k p) (cls, sv)) (local_call (C_GetCreateWriterKey k p) c)"
  unfolding remote_call.simps local_call.simps GetCreateWriterKey_cli_def
proof (rule ask_sim [OF assms(1), where c' = "snd (creation (GetCreateWriterKey c k p) c)"])
  assume o: "\<not> shutdown c" "\<not> sv_shutdown sv" "data_rel sv c" "ctx_inv c"
  let ?r = "creation (GetCreateWriterKey c k p) c"
  show "\<exists>ok d sv'. answers me (GET_CREATE_WRITER_KEY k p) sv ok d sv' \<and> \<not> sv_shutdown sv' \<and>
      (if ok then ?r = (Returned (A_key (in_key (the_info d))), snd ?r) else ?r = (Throws InvalidArgument, snd ?r)) \<and>
      \<not> shutdown (snd ?r) \<and> data_rel sv' (snd ?r) \<and> ctx_inv (snd ?r)"
  proof (cases "nodemap c k")
    case None
    then show ?thesis
      using o assms(2) data_rel_at(5) [OF o(3), of k]
      by (intro exI [of _ False] exI [of _ NoData] exI [of _ sv])
        (simp add: answers_def GetCreateEndpointKey_srv_def GetCreateWriterKey_def creation_def port_free_def)
  next
    case (Some ni)
    then have w: "ni_readers ni p = None"
      using assms(2) by (simp add: port_free_def)
    show ?thesis
    proof (cases "ni_writers ni p")
      case None
      note fresh = data_rel_fresh [OF o(3,4) assms(3)]
      obtain i n where i: "sv_datamap sv k = Some n" "same_node n ni" "in_key n = k" "in_key i = NewKey c"
        "in_kind i = Endpointinfo" "in_name i = Some p" "in_nodekey i = k" "in_kernelkey i = ni_kernelkey ni" "in_readerkey i = 0"
        "in_writerkey i = 0" and srv: "\<forall>j. GetCreateEndpointKey_srv me j k p sv = ([SendMessage me (Reply j True (EndpointData i))], None,
          set_info (NewKey c) i (set_info k (n\<lparr>in_endpoints := (in_endpoints n)(p \<mapsto> NewKey c)\<rparr>) (sv\<lparr>sv_keycount := NewKey c\<rparr>)))"
        using srv_endpoint_new [OF o(3,2) Some w None fresh(2,1), of me] by blast
      let ?sv = "set_info (NewKey c) i (set_info k (n\<lparr>in_endpoints := (in_endpoints n)(p \<mapsto> NewKey c)\<rparr>) (sv\<lparr>sv_keycount := NewKey c\<rparr>))"
      let ?c = "c\<lparr>counter := NewKey c, nodemap := (nodemap c)(k \<mapsto> ni\<lparr>ni_writers := (ni_writers ni)(p \<mapsto> NewKey c)\<rparr>),
        writeports := (writeports c)(NewKey c \<mapsto> new_port k p)\<rparr>"
      have l: "GetCreateWriterKey c k p = Inr (NewKey c, ?c)"
        using o(1) Some None by (simp add: GetCreateWriterKey_def Let_def)
      have "ctx_inv ?c"
        using exec_inv [OF o(4) assms(3), of "Op_GetCreateWriterKey k p"] l by simp
      moreover have "data_rel ?sv ?c"
        by (rule new_port_rel(2) [OF o(3) Some fresh(3,2) i(1,3,2) w None i(4-10)])
      ultimately show ?thesis
        using o(1,2) srv i(4) by (intro exI [of _ True] exI [of _ "EndpointData i"] exI [of _ ?sv])
          (simp add: l creation_def the_info_def set_info_def answers_def)
    next
      case (Some e)
      obtain q where "writeports c e = Some q"
        using port_lookup [OF ctx_invD(4) [OF o(4)] \<open>nodemap c k = Some ni\<close> Some] by blast
      then obtain i where i: "sv_datamap sv e = Some i" "in_key i = e" "in_kind i = Endpointinfo"
        using data_rel_at(4) [OF o(3)] by (auto simp: same_port_def)
      obtain n where n: "sv_datamap sv k = Some n" "same_node n ni"
        using data_rel_at(2) [OF o(3) \<open>nodemap c k = Some ni\<close>] by blast
      then have "in_endpoints n p = Some e"
        using Some w by (simp add: same_node_def map_add_def)
      then show ?thesis
        using o srv_endpoint_old [OF n(1) _ i(1,3), of p me] i(2) Some \<open>nodemap c k = Some ni\<close>
        by (intro exI [of _ True] exI [of _ "EndpointData i"] exI [of _ sv])
          (simp add: answers_def GetCreateWriterKey_def creation_def the_info_def)
    qed
  qed
qed (simp add: GetCreateWriterKey_def checked_def creation_def)

text \<open>Connecting two ports.\<close>

lemma update_info_known:
  "sv_datamap sv k = Some i \<Longrightarrow> in_kind i \<noteq> NullValue \<Longrightarrow> update_info k f sv = set_info k (f i) sv"
  by (simp add: update_info_def at_datamap_def set_info_def)

lemma connect_rel:
  assumes rel: "data_rel sv c" and w: "writeports c w = Some wp" and r: "readports c r = Some rp"
  shows "\<exists>sv'. ConnectEndpoints_srv w r q sv = ([], None, sv') \<and> sv_shutdown sv' = sv_shutdown sv \<and>
    data_rel sv' (c\<lparr>writeports := (writeports c)(w \<mapsto> wp\<lparr>pi_opposingport := r, pi_qname := q\<rparr>),
      readports := (readports c)(r \<mapsto> rp\<lparr>pi_opposingport := w, pi_qname := q\<rparr>)\<rparr>)"
proof -
  obtain wi where wi: "sv_datamap sv w = Some wi" "in_key wi = w" "same_port (kern_of c) in_readerkey wi wp"
    using data_rel_at(4) [OF rel w] by blast
  obtain ri where ri: "sv_datamap sv r = Some ri" "in_key ri = r" "same_port (kern_of c) in_writerkey ri rp"
    using data_rel_at(3) [OF rel r] by blast
  have others: "kernelmap c w = None" "nodemap c w = None" "readports c w = None"
    "kernelmap c r = None" "nodemap c r = None" "writeports c r = None"
    using data_relD(5) [OF rel, of w] data_relD(5) [OF rel, of r] w r wi ri by (auto simp: same_at_def same_object_def)
  then have ne: "w \<noteq> r"
    using w by auto
  let ?wi = "wi\<lparr>in_readerkey := r, in_qname := Some q\<rparr>" and ?ri = "ri\<lparr>in_writerkey := w, in_qname := Some q\<rparr>"
  let ?sv1 = "set_info w ?wi sv"
  let ?sv = "set_info r ?ri ?sv1"
  have kinds: "in_kind wi \<noteq> NullValue" "in_kind ri \<noteq> NullValue"
    using wi(3) ri(3) by (auto simp: same_port_def)
  have srv: "ConnectEndpoints_srv w r q sv = ([], None, ?sv)"
    using wi(1) ri(1) kinds ne by (simp add: ConnectEndpoints_srv_def update_info_known set_info_def fun_upd_twist)
  let ?c1 = "c\<lparr>writeports := (writeports c)(w \<mapsto> wp\<lparr>pi_opposingport := r, pi_qname := q\<rparr>)\<rparr>"
  have "data_rel ?sv1 ?c1"
    by (rule data_rel_update [OF rel, where kx = w])
      (use data_relD(1-4) [OF rel] wi others in \<open>auto simp: set_info_def same_at_def same_object_def same_port_def kern_of_def\<close>)
  then have "data_rel ?sv (?c1\<lparr>readports := (readports c)(r \<mapsto> rp\<lparr>pi_opposingport := w, pi_qname := q\<rparr>)\<rparr>)"
    by (rule data_rel_update [where kx = r])
      (use data_relD(1-4) [OF rel] ri others ne in \<open>auto simp: set_info_def same_at_def same_object_def same_port_def kern_of_def\<close>)
  then show ?thesis
    using srv by (auto simp: set_info_def)
qed

lemma sim_ConnectEndpoints:
  assumes "ctx_rel (cls, sv) c" "writeports c w = Some wp" "readports c r = Some rp" "counter c + 1 < 2 ^ 64"
  shows "agree (remote_call me (C_ConnectEndpoints w r q) (cls, sv)) (local_call (C_ConnectEndpoints w r q) c)"
proof (cases "shutdown c")
  case True
  then show ?thesis
    using assms(1) rel_shutD [OF assms(1)]
    by (simp add: agree_def ConnectEndpoints_cli_def InternalCheckTerminated_cli_def answering_def map_outcome_def
        ConnectEndpoints_def checked_def change_def)
next
  case False
  let ?c = "c\<lparr>writeports := (writeports c)(w \<mapsto> wp\<lparr>pi_opposingport := r, pi_qname := q\<rparr>),
      readports := (readports c)(r \<mapsto> rp\<lparr>pi_opposingport := w, pi_qname := q\<rparr>)\<rparr>"
  have l: "ConnectEndpoints c w r q = Inr ?c"
    using False assms(2,3) by (simp add: ConnectEndpoints_def)
  have inv: "ctx_inv c \<Longrightarrow> ctx_inv ?c"
    using exec_inv [OF _ assms(4), of "Op_ConnectEndpoints w r q"] l by simp
  obtain cls' sv' where "SendMessage_cli me (CONNECT_ENDPOINTS w r q) (cls, sv) = (Returned (), (cls', sv'))" "ctx_rel (cls', sv') ?c"
    using send_sim [OF assms(1), of me "CONNECT_ENDPOINTS w r q" ?c] connect_rel [OF _ assms(2,3), of sv q] False inv by force
  then show ?thesis
    using False rel_openD(1) [OF assms(1)]
    by (simp add: agree_def ConnectEndpoints_cli_def InternalCheckTerminated_cli_def answering_def map_outcome_def l change_def)
qed

text \<open>Waits: with no notice in yet, a wait comes back at once or blocks.\<close>

definition waiting :: "string \<Rightarrow> rctx_msg \<Rightarrow> (bool \<times> reply_data \<Rightarrow> 'a outcome option) \<Rightarrow> 'a outcome \<Rightarrow> (nat \<times> reply_data \<Rightarrow> 'a option) \<Rightarrow> 'a ract" where
  "waiting me msg now ended hit = rthen (NewGenericWaiter me) (\<lambda>w. rthen (RemoteCall me msg) (\<lambda>r.
     case now r of Some x \<Rightarrow> (\<lambda>s. (x, s)) | None \<Rightarrow> wait_on me w ended hit))"

lemma waiting_run:
  assumes "all_open cls" "answers me msg sv ok d sv"
  shows "\<exists>cls'. waiting me msg now ended hit (cls, sv) = (case now (ok, d) of Some x \<Rightarrow> x | None \<Rightarrow> Blocks, (cls', sv)) \<and>
    all_open cls' \<and> cl_waiters (cls' me) = cl_waiters (cls me) @ [[]]"
proof -
  let ?cls = "cls(me := (cls me)\<lparr>cl_waiters := cl_waiters (cls me) @ [[]]\<rparr>)"
  have srv: "\<And>j. DispatchMessage_srv me j msg sv = ([SendMessage me (Reply j ok d)], None, sv)"
    using assms(2) by (simp add: answers_def del: DispatchMessage_srv.simps)
  have "all_open ?cls"
    using assms(1) by (auto simp: all_open_def)
  from RemoteCall_reply [OF this srv]
  obtain cls' where cls': "RemoteCall me msg (?cls, sv) = (Returned (ok, d), (cls', sv))" "all_open cls'"
    "cl_waiters (cls' me) = cl_waiters (cls me) @ [[]]" by auto
  moreover from this(2) have "\<not> cl_shutdown (cls' me)"
    by (simp add: all_open_def)
  ultimately have "waiting me msg now ended hit (cls, sv) = (case now (ok, d) of Some x \<Rightarrow> x | None \<Rightarrow> Blocks, (cls', sv))"
    by (simp add: waiting_def rthen_def NewGenericWaiter_def wait_on_def split: option.splits)
  with cls' show ?thesis
    by blast
qed

lemma waiting_sim:
  assumes "ctx_rel (cls, sv) c" "\<not> shutdown c" "answers me msg sv ok d sv"
  shows "\<exists>s. waiting me msg now ended hit (cls, sv) = (case now (ok, d) of Some x \<Rightarrow> x | None \<Rightarrow> Blocks, s) \<and> ctx_rel s c"
proof -
  note o = rel_openD [OF assms(1,2)]
  obtain cls' where "waiting me msg now ended hit (cls, sv) = (case now (ok, d) of Some x \<Rightarrow> x | None \<Rightarrow> Blocks, (cls', sv))" "all_open cls'"
    using waiting_run [OF o(3) assms(3), of now ended hit] by blast
  then show ?thesis
    using rel_openI [OF assms(2) _ o(2,4,5)] by blast
qed

lemma waits_as_waiting:
  "WaitForKernelStart_cli me name = InternalCheckTerminated_cli me (waiting me (GET_KERNEL_INFO (Inl name))
     (\<lambda>(ok, d). if ok \<and> in_live (the_info d) then Some (Returned (in_key (the_info d))) else None)
     (Throws ShutdownException) (kernel_started name))"
  "WaitForNodeStart_cli me name = InternalCheckTerminated_cli me (waiting me (GET_NODE_INFO (Inl name))
     (\<lambda>(ok, d). if ok \<and> in_started (the_info d) then Some (Returned (in_key (the_info d))) else None)
     (Throws ShutdownException) (node_started name))"
  "WaitForNodeEnd_cli me name = unless_shutdown me (waiting me (GET_NODE_INFO (Inl name))
     (\<lambda>(ok, d). if ok \<and> in_dead (the_info d) then Some (Returned ()) else None) (Returned ()) (node_ended name))"
  "WaitForAllNodeEnd_cli me = unless_shutdown me (waiting me GET_NUM_NODE_LIVE
     (\<lambda>(ok, d). if \<not> ok then Some (Throws AssertException) else if d = NumLive 0 then Some (Returned ()) else None)
     (Returned ()) none_live)"
proof -
  have c: "(\<lambda>(ok, d). if P ok d then rret (x d) else m) = (\<lambda>r. case (case r of (ok, d) \<Rightarrow> if P ok d then Some (Returned (x d)) else None) of
      Some y \<Rightarrow> (\<lambda>s. (y, s)) | None \<Rightarrow> m)" for P and x :: "reply_data \<Rightarrow> 'x" and m
    by (auto simp: fun_eq_iff rret_def)
  show "WaitForKernelStart_cli me name = InternalCheckTerminated_cli me (waiting me (GET_KERNEL_INFO (Inl name))
     (\<lambda>(ok, d). if ok \<and> in_live (the_info d) then Some (Returned (in_key (the_info d))) else None)
     (Throws ShutdownException) (kernel_started name))"
    "WaitForNodeStart_cli me name = InternalCheckTerminated_cli me (waiting me (GET_NODE_INFO (Inl name))
     (\<lambda>(ok, d). if ok \<and> in_started (the_info d) then Some (Returned (in_key (the_info d))) else None)
     (Throws ShutdownException) (node_started name))"
    "WaitForNodeEnd_cli me name = unless_shutdown me (waiting me (GET_NODE_INFO (Inl name))
     (\<lambda>(ok, d). if ok \<and> in_dead (the_info d) then Some (Returned ()) else None) (Returned ()) (node_ended name))"
    unfolding WaitForKernelStart_cli_def WaitForNodeStart_cli_def WaitForNodeEnd_cli_def waiting_def c by simp_all
  have "(\<lambda>(success, d). if \<not> success then rthrow AssertException else if d = NumLive 0 then rret () else wait_on me w (Returned ()) none_live) =
      (\<lambda>r. case (case r of (ok, d) \<Rightarrow> if \<not> ok then Some (Throws AssertException) else if d = NumLive 0 then Some (Returned ()) else None) of
        Some y \<Rightarrow> (\<lambda>s. (y, s)) | None \<Rightarrow> wait_on me w (Returned ()) none_live)" for w
    by (auto simp: fun_eq_iff rret_def rthrow_def)
  then show "WaitForAllNodeEnd_cli me = unless_shutdown me (waiting me GET_NUM_NODE_LIVE
     (\<lambda>(ok, d). if \<not> ok then Some (Throws AssertException) else if d = NumLive 0 then Some (Returned ()) else None)
     (Returned ()) none_live)"
    by (simp add: WaitForAllNodeEnd_cli_def waiting_def)
qed

lemma start_sim:
  assumes "ctx_rel (cls, sv) c" "shutdown c \<Longrightarrow> r = Throws ShutdownException"
    and "\<not> sv_shutdown sv \<Longrightarrow> data_rel sv c \<Longrightarrow> ctx_inv c \<Longrightarrow> \<not> shutdown c \<Longrightarrow>
      \<exists>ok d. answers me msg sv ok d sv \<and> r = (case now (ok, d) of Some x \<Rightarrow> x | None \<Rightarrow> Blocks)"
  shows "agree (answering g (InternalCheckTerminated_cli me (waiting me msg now ended hit)) (cls, sv)) (map_outcome g r, c)"
proof (cases "shutdown c")
  case True
  then show ?thesis
    using assms(1,2) rel_shutD [OF assms(1)] by (simp add: agree_def answering_def InternalCheckTerminated_cli_def)
next
  case False
  note o = rel_openD [OF assms(1) False]
  obtain ok d where a: "answers me msg sv ok d sv" and r: "r = (case now (ok, d) of Some x \<Rightarrow> x | None \<Rightarrow> Blocks)"
    using assms(3) [OF o(2,4,5) False] by blast
  obtain s where "waiting me msg now ended hit (cls, sv) = (r, s)" "ctx_rel s c"
    using waiting_sim [OF assms(1) False a, of now ended hit] r by auto
  then show ?thesis
    using o(1) [of me] by (simp add: agree_def answering_def InternalCheckTerminated_cli_def)
qed

lemma end_sim:
  assumes "ctx_rel (cls, sv) c" "shutdown c \<Longrightarrow> r = Returned ()" "r \<noteq> Throws ShutdownException"
    and "\<not> sv_shutdown sv \<Longrightarrow> data_rel sv c \<Longrightarrow> ctx_inv c \<Longrightarrow> \<not> shutdown c \<Longrightarrow>
      \<exists>ok d. answers me msg sv ok d sv \<and> r = (case now (ok, d) of Some x \<Rightarrow> x | None \<Rightarrow> Blocks)"
  shows "agree (answering g (unless_shutdown me (waiting me msg now ended hit)) (cls, sv)) (map_outcome g r, c)"
proof (cases "shutdown c")
  case True
  then show ?thesis
    using assms(1,2) rel_shutD [OF assms(1)] by (simp add: agree_def answering_def unless_shutdown_def)
next
  case False
  note o = rel_openD [OF assms(1) False]
  obtain ok d where a: "answers me msg sv ok d sv" and r: "r = (case now (ok, d) of Some x \<Rightarrow> x | None \<Rightarrow> Blocks)"
    using assms(4) [OF o(2,4,5) False] by blast
  obtain s where s: "waiting me msg now ended hit (cls, sv) = (r, s)" "ctx_rel s c"
    using waiting_sim [OF assms(1) False a, of now ended hit] r by auto
  have "unless_shutdown me (waiting me msg now ended hit) (cls, sv) = (r, s)"
    using o(1) [of me] s(1) assms(3) by (cases r) (simp_all add: unless_shutdown_def split: cpn_error.splits)
  then show ?thesis
    using s(2) by (simp add: agree_def answering_def)
qed

lemma sim_WaitForKernelStart:
  assumes "ctx_rel (cls, sv) c" "\<And>k ki. kernelnames c n = Some k \<Longrightarrow> kernelmap c k = Some ki \<Longrightarrow> \<not> ki_dead ki"
  shows "agree (remote_call me (C_WaitForKernelStart n) (cls, sv)) (local_call (C_WaitForKernelStart n) c)"
  unfolding remote_call.simps local_call.simps waits_as_waiting
proof (rule start_sim [OF assms(1)])
  assume o: "\<not> sv_shutdown sv" "data_rel sv c" "ctx_inv c" "\<not> shutdown c"
  obtain ok d where a: "answers me (GET_KERNEL_INFO (Inl n)) sv ok d sv" and d: "case kernelnames c n of None \<Rightarrow> \<not> ok
      | Some k \<Rightarrow> ok \<and> in_key (the_info d) = k \<and> (\<exists>ki. kernelmap c k = Some ki \<and> same_kernel (the_info d) ki)"
    using srv_kernel_name [OF o(2,1,3)] by blast
  have "WaitForKernelStart c n = (case (if ok \<and> in_live (the_info d) then Some (Returned (in_key (the_info d))) else None) of
      Some x \<Rightarrow> x | None \<Rightarrow> Blocks)"
    using d assms(2) o(4) by (cases "kernelnames c n") (auto simp: WaitForKernelStart_def same_kernel_def)
  then show "\<exists>ok d. answers me (GET_KERNEL_INFO (Inl n)) sv ok d sv \<and> WaitForKernelStart c n =
      (case (case (ok, d) of (ok, d) \<Rightarrow> if ok \<and> in_live (the_info d) then Some (Returned (in_key (the_info d))) else None) of
        Some x \<Rightarrow> x | None \<Rightarrow> Blocks)"
    using a by (intro exI [of _ ok] exI [of _ d] conjI) simp_all
qed (simp add: WaitForKernelStart_def)

lemma sim_node_waits:
  assumes "ctx_rel (cls, sv) c"
  shows "agree (remote_call me (C_WaitForNodeStart n) (cls, sv)) (local_call (C_WaitForNodeStart n) c)"
    "agree (remote_call me (C_WaitForNodeEnd n) (cls, sv)) (local_call (C_WaitForNodeEnd n) c)"
proof -
  have srv: "\<exists>ok d. answers me (GET_NODE_INFO (Inl n)) sv ok d sv \<and>
      WaitForNodeStart c n = (if ok \<and> in_started (the_info d) then Returned (in_key (the_info d)) else Blocks) \<and>
      WaitForNodeEnd c n = (if ok \<and> in_dead (the_info d) then Returned () else Blocks)"
    if o: "\<not> sv_shutdown sv" "data_rel sv c" "ctx_inv c" "\<not> shutdown c"
  proof -
    obtain ok d where "answers me (GET_NODE_INFO (Inl n)) sv ok d sv" and "case nodenames c n of None \<Rightarrow> \<not> ok
        | Some k \<Rightarrow> ok \<and> in_key (the_info d) = k \<and> (\<exists>ni. nodemap c k = Some ni \<and> same_node (the_info d) ni)"
      using srv_node_name [OF o(2,1,3)] by blast
    moreover from this(2) have "WaitForNodeStart c n = (if ok \<and> in_started (the_info d) then Returned (in_key (the_info d)) else Blocks)"
      "WaitForNodeEnd c n = (if ok \<and> in_dead (the_info d) then Returned () else Blocks)"
      using o(4) by (cases "nodenames c n"; auto simp: WaitForNodeStart_def WaitForNodeEnd_def same_node_def)+
    ultimately show ?thesis
      by (intro exI [of _ ok] exI [of _ d]) simp
  qed
  show "agree (remote_call me (C_WaitForNodeStart n) (cls, sv)) (local_call (C_WaitForNodeStart n) c)"
    unfolding remote_call.simps local_call.simps waits_as_waiting
  proof (rule start_sim [OF assms])
    assume "\<not> sv_shutdown sv" "data_rel sv c" "ctx_inv c" "\<not> shutdown c"
    from srv [OF this] obtain ok d where "answers me (GET_NODE_INFO (Inl n)) sv ok d sv"
      "WaitForNodeStart c n = (if ok \<and> in_started (the_info d) then Returned (in_key (the_info d)) else Blocks)" by blast
    then show "\<exists>ok d. answers me (GET_NODE_INFO (Inl n)) sv ok d sv \<and> WaitForNodeStart c n =
      (case (case (ok, d) of (ok, d) \<Rightarrow> if ok \<and> in_started (the_info d) then Some (Returned (in_key (the_info d))) else None) of
        Some x \<Rightarrow> x | None \<Rightarrow> Blocks)"
      by (intro exI [of _ ok] exI [of _ d] conjI) simp_all
  qed (simp add: WaitForNodeStart_def)
  show "agree (remote_call me (C_WaitForNodeEnd n) (cls, sv)) (local_call (C_WaitForNodeEnd n) c)"
    unfolding remote_call.simps local_call.simps waits_as_waiting
  proof (rule end_sim [OF assms])
    assume "\<not> sv_shutdown sv" "data_rel sv c" "ctx_inv c" "\<not> shutdown c"
    from srv [OF this] obtain ok d where "answers me (GET_NODE_INFO (Inl n)) sv ok d sv"
      "WaitForNodeEnd c n = (if ok \<and> in_dead (the_info d) then Returned () else Blocks)" by blast
    then show "\<exists>ok d. answers me (GET_NODE_INFO (Inl n)) sv ok d sv \<and> WaitForNodeEnd c n =
      (case (case (ok, d) of (ok, d) \<Rightarrow> if ok \<and> in_dead (the_info d) then Some (Returned ()) else None) of
        Some x \<Rightarrow> x | None \<Rightarrow> Blocks)"
      by (intro exI [of _ ok] exI [of _ d] conjI) simp_all
  qed (simp_all add: WaitForNodeEnd_def split: option.splits)
qed

lemma sim_WaitForAllNodeEnd:
  assumes "ctx_rel (cls, sv) c"
  shows "agree (remote_call me C_WaitForAllNodeEnd (cls, sv)) (local_call C_WaitForAllNodeEnd c)"
  unfolding remote_call.simps local_call.simps waits_as_waiting
proof (rule end_sim [OF assms])
  assume o: "\<not> sv_shutdown sv" "data_rel sv c" "ctx_inv c" "\<not> shutdown c"
  have "answers me GET_NUM_NODE_LIVE sv True (NumLive (numlivenodes c)) sv"
    using o(1) data_relD(4) [OF o(2)] by (simp add: answers_def GetNumNodeLive_srv_def)
  then show "\<exists>ok d. answers me GET_NUM_NODE_LIVE sv ok d sv \<and> WaitForAllNodeEnd c = (case (case (ok, d) of (ok, d) \<Rightarrow>
      if \<not> ok then Some (Throws AssertException) else if d = NumLive 0 then Some (Returned ()) else None) of
        Some x \<Rightarrow> x | None \<Rightarrow> Blocks)"
    using o(4) by (intro exI [of _ True] exI [of _ "NumLive (numlivenodes c)"]) (simp add: WaitForAllNodeEnd_def)
qed (simp_all add: WaitForAllNodeEnd_def)

lemma sim_Terminate:
  assumes "ctx_rel (cls, sv) c"
  shows "agree (remote_call me C_Terminate (cls, sv)) (local_call C_Terminate c)"
proof (cases "shutdown c")
  case True
  then show ?thesis
    using assms rel_shutD [OF assms]
    by (simp add: agree_def answering_def Terminate_cli_def ctx_rel_def map_outcome_def Terminate_def)
next
  case False
  then show ?thesis
    using rel_openD(1) [OF assms False, of me] rel_openD(2) [OF assms False]
    by (simp add: agree_def answering_def Terminate_cli_def ctx_rel_def map_outcome_def Terminate_def SendMessage_cli_def
        exchange_def Terminate_srv_def all_shut_def InternalTerminate_cli_def)
qed

section \<open>The remote context refines the local one\<close>

fun run_calls :: "('op \<Rightarrow> 's \<Rightarrow> 'r \<times> 's) \<Rightarrow> 'op list \<Rightarrow> 's \<Rightarrow> 'r list \<times> 's" where
  "run_calls f [] s = ([], s)"
| "run_calls f (op # ops) s = (case f op s of (r, s') \<Rightarrow> (case run_calls f ops s' of (rs, s'') \<Rightarrow> (r # rs, s'')))"

fun all_allowed :: "('op \<Rightarrow> 's \<Rightarrow> bool) \<Rightarrow> ('op \<Rightarrow> 's \<Rightarrow> 'r \<times> 's) \<Rightarrow> 'op list \<Rightarrow> 's \<Rightarrow> bool" where
  "all_allowed ok f [] s \<longleftrightarrow> True"
| "all_allowed ok f (op # ops) s \<longleftrightarrow> ok op s \<and> all_allowed ok f ops (snd (f op s))"

text \<open>
  A step-wise simulation with answers: whatever the users do within the contract, they cannot tell the
  two apart.
\<close>

locale context_simulation =
  fixes astep :: "'op \<Rightarrow> 'a \<Rightarrow> 'r \<times> 'a"
    and cstep :: "'op \<Rightarrow> 'c \<Rightarrow> 'r \<times> 'c"
    and rel :: "'c \<Rightarrow> 'a \<Rightarrow> bool"
    and allowed :: "'op \<Rightarrow> 'a \<Rightarrow> bool"
  assumes step: "rel s a \<Longrightarrow> allowed op a \<Longrightarrow>
    fst (cstep op s) = fst (astep op a) \<and> rel (snd (cstep op s)) (snd (astep op a))"
begin

lemma run_agrees:
  "rel s a \<Longrightarrow> all_allowed allowed astep ops a \<Longrightarrow>
    fst (run_calls cstep ops s) = fst (run_calls astep ops a) \<and> rel (snd (run_calls cstep ops s)) (snd (run_calls astep ops a))"
proof (induction ops arbitrary: s a)
  case (Cons op ops)
  have "fst (cstep op s) = fst (astep op a)" "rel (snd (cstep op s)) (snd (astep op a))"
    using step [OF Cons.prems(1)] Cons.prems(2) by auto
  moreover from Cons.IH [OF this(2)] Cons.prems(2)
  have "fst (run_calls cstep ops (snd (cstep op s))) = fst (run_calls astep ops (snd (astep op a)))"
    "rel (snd (run_calls cstep ops (snd (cstep op s)))) (snd (run_calls astep ops (snd (astep op a))))" by auto
  ultimately show ?case
    by (simp add: split_beta)
qed simp

end

text \<open>A call by a client, on the one context and on the other.\<close>

definition local_user :: "string \<times> ctx_call \<Rightarrow> LocalContext \<Rightarrow> answer outcome \<times> LocalContext" where
  "local_user op = local_call (snd op)"

definition remote_user :: "string \<times> ctx_call \<Rightarrow> rctx \<Rightarrow> answer outcome \<times> rctx" where
  "remote_user op = remote_call (fst op) (snd op)"

definition user_contract :: "string \<times> ctx_call \<Rightarrow> LocalContext \<Rightarrow> bool" where
  "user_contract op c \<longleftrightarrow> contract (snd op) c \<and> counter c + 1 < 2 ^ 64"

lemma sim_call:
  assumes "ctx_rel (cls, sv) c" "contract call c" "counter c + 1 < 2 ^ 64"
  shows "agree (remote_call me call (cls, sv)) (local_call call c)"
proof (cases call)
  case (C_SignalKernelStart k)
  then show ?thesis
    using assms sim_SignalKernelStart [OF assms(1)] by (auto split: option.splits)
next
  case (C_SignalNodeEnd k)
  then show ?thesis
    using assms sim_SignalNodeEnd [OF assms(1)] by (auto split: option.splits)
next
  case (C_WaitForKernelStart n)
  then show ?thesis
    using assms sim_WaitForKernelStart [OF assms(1), of n me] by auto
next
  case (C_GetNodeName k)
  then show ?thesis
    using assms sim_node_questions(2) [OF assms(1)] by auto
next
  case (C_SignalKernelEnd k)
  then show ?thesis
    using assms sim_SignalKernelEnd [OF assms(1)] by auto
next
  case (C_SignalNodeStart k)
  then show ?thesis
    using assms sim_SignalNodeStart [OF assms(1)] by auto
next
  case (C_ConnectEndpoints w r q)
  then show ?thesis
    using assms sim_ConnectEndpoints [OF assms(1)] by auto
qed (use assms sim_SetupKernel [OF assms(1)] sim_name_questions [OF assms(1)] sim_kernel_questions [OF assms(1)]
    sim_CreateNodeKey [OF assms(1)] sim_node_questions(1) [OF assms(1)] sim_node_waits [OF assms(1)] sim_WaitForAllNodeEnd [OF assms(1)]
    sim_GetCreateReaderKey [OF assms(1)] sim_GetCreateWriterKey [OF assms(1)] sim_reader_questions [OF assms(1)]
    sim_writer_questions [OF assms(1)] sim_Terminate [OF assms(1)] in \<open>auto simp del: remote_call.simps local_call.simps\<close>)

interpretation remote: context_simulation local_user remote_user ctx_rel user_contract
proof
  fix s :: rctx and a op
  assume "ctx_rel s a" "user_contract op a"
  then show "fst (remote_user op s) = fst (local_user op a) \<and> ctx_rel (snd (remote_user op s)) (snd (local_user op a))"
    using sim_call [of "fst s" "snd s" a "snd op" "fst op"] by (simp add: agree_def local_user_def remote_user_def user_contract_def)
qed

lemma new_ctx_rel: "ctx_rel (\<lambda>_. new_client, new_server) new_LocalContext"
  using new_ctx_inv
  by (simp add: ctx_rel_def all_open_def new_client_def new_server_def data_rel_def same_at_def new_LocalContext_def)

text \<open>C8: The remote context refines the local one. Whatever calls several clients make, one after the other and
  in any order, if each is within the contract they get from the server the answers that
  \<open>LocalContext\<close> gives: the same keys, names, addresses, exceptions, and the same waits that return or block.\<close>

theorem remote_context_refines:
  assumes "all_allowed user_contract local_user ops new_LocalContext"
  shows "fst (run_calls remote_user ops (\<lambda>_. new_client, new_server)) = fst (run_calls local_user ops new_LocalContext)"
  using remote.run_agrees [OF new_ctx_rel assms] by blast

definition demo_calls :: "(string \<times> ctx_call) list" where
  "demo_calls = [(''a'', C_SetupKernel ''k1'' ''h'' ''s'' (Some 7)), (''b'', C_CreateNodeKey 1 ''n''), (''b'', C_WaitForNodeStart ''n''),
     (''a'', C_SignalNodeStart 2), (''b'', C_WaitForNodeStart ''n''), (''a'', C_Terminate), (''b'', C_GetNodeKey ''n'')]"

theorem remote_context_refines_witness:
  "fst (run_calls remote_user demo_calls (\<lambda>_. new_client, new_server)) =
     [Returned (A_key 1), Returned (A_key 2), Blocks, Returned A_unit, Returned (A_key 2), Returned A_unit, Throws ShutdownException]"
proof -
  have "all_allowed user_contract local_user demo_calls new_LocalContext"
    by (simp add: demo_calls_def local_user_def user_contract_def new_LocalContext_def creation_def SetupKernel_remote_def
        SetupKernel_info_def checked_def Let_def NewKey_def CreateNodeKey_def change_def SignalNodeStart_def Terminate_def u64_def)
  from remote_context_refines [OF this] show ?thesis
    by (simp add: demo_calls_def local_user_def new_LocalContext_def creation_def SetupKernel_remote_def
        SetupKernel_info_def checked_def Let_def NewKey_def CreateNodeKey_def change_def SignalNodeStart_def Terminate_def u64_def
        WaitForNodeStart_def map_outcome_def question_def GetNodeKey_def)
qed

section \<open>A name that is taken\<close>



section \<open>Requests between kernels\<close>

lemma set_all_object:
  "object_ok v \<Longrightarrow> set_all kvs v = Inr (objects.put_all kvs v)"
proof (induction kvs arbitrary: v)
  case (Cons e kvs)
  obtain k x where e: "e = (k, x)" by force
  obtain v' where "set_key v k x = Inr v'" "object_ok v'"
    using object_ok_set_key [OF Cons.prems] by blast
  moreover from this have "put_entry k x v = v'"
    by (simp add: put_entry_def)
  ultimately show ?case
    using Cons.IH by (simp add: e and_then_def)
qed simp

lemma set_all_new:
  assumes "distinct (map fst kvs)" "kvs \<noteq> []"
  shows "\<exists>v. set_all kvs (new_Variant NullType) = Inr v \<and>
    (\<forall>k x. map_of kvs k = Some x \<longrightarrow> At_key_const v k = Inr (Assign x))"
proof -
  let ?n = "new_Variant NullType"
  have n: "object_ok ?n" "entry ?n = Map.empty"
    by (simp_all add: object_ok_def new_Variant_def entry_def fun_eq_iff)
  define v where "v = objects.put_all kvs ?n"
  have e: "entry v = (\<lambda>k. map_option Assign (map_of kvs k))"
    using objects.get_put_all [OF n(1) assms(1)] by (auto simp: v_def n(2) map_add_def fun_eq_iff split: option.splits)
  have "At_key_const v k = Inr (Assign x)" if "map_of kvs k = Some x" for k x
    using fun_cong [OF e, of k] that by (auto simp: entry_def At_key_const_def split: if_splits)
  then show ?thesis
    using set_all_object [OF n(1), of kvs] by (auto simp: v_def)
qed

lemma Assign_values [simp]:
  "AsLongDouble (Assign (Variant_number x)) = Inr x" "AsString sf (Assign (Variant_string s)) = Inr (s, Variant_string s)"
  by (simp_all add: Assign_def Variant_number_def Variant_string_def AsLongDouble_def AsString_def)

lemma As_values:
  "n < 2 ^ 32 \<Longrightarrow> AsUnsigned (Assign (Variant_number (of_nat n))) = Inr n"
  "n < 2 ^ 64 \<Longrightarrow> AsKey (Assign (Variant_number (of_nat n))) = Inr n"
  "AsHint (Assign (Variant_number (hint_code h))) = Inr h"
  by (simp_all add: AsUnsigned_def AsKey_def AsHint_def u32_id u64_id hint_code_def split: QueueHint_t.splits)

definition queue_attr_ok :: "SimpleQueueAttr \<Rightarrow> bool" where
  "queue_attr_ok a \<longleftrightarrow> sa_queueLength a < 2 ^ 32 \<and> sa_maxThreshold a < 2 ^ 32 \<and> sa_numChannels a < 2 ^ 32 \<and>
     sa_maxwritethreshold a < 2 ^ 32 \<and> sa_readerkey a < 2 ^ 64 \<and> sa_writerkey a < 2 ^ 64 \<and> sa_readernodekey a < 2 ^ 64 \<and>
     sa_writernodekey a < 2 ^ 64"

lemma queue_attr_roundtrip:
  assumes "queue_attr_ok a"
  shows "\<exists>v. SendQueueMsg_attr a = Inr v \<and> MsgToQueueAttr sf v = Inr a"
proof -
  have "distinct (map fst (queue_entries a))" "queue_entries a \<noteq> []"
    by (simp_all add: queue_entries_def)
  then obtain v where "SendQueueMsg_attr a = Inr v"
    and k: "\<And>k x. map_of (queue_entries a) k = Some x \<Longrightarrow> At_key_const v k = Inr (Assign x)"
    using set_all_new unfolding SendQueueMsg_attr_def by blast
  have v: "At_key_const v ''queuehint'' = Inr (Assign (Variant_number (hint_code (sa_queuehint a))))"
    "At_key_const v ''datatype'' = Inr (Assign (Variant_string (sa_datatype a)))"
    "At_key_const v ''queueLength'' = Inr (Assign (Variant_number (of_nat (sa_queueLength a))))"
    "At_key_const v ''maxThreshold'' = Inr (Assign (Variant_number (of_nat (sa_maxThreshold a))))"
    "At_key_const v ''numChannels'' = Inr (Assign (Variant_number (of_nat (sa_numChannels a))))"
    "At_key_const v ''readerkey'' = Inr (Assign (Variant_number (of_nat (sa_readerkey a))))"
    "At_key_const v ''writerkey'' = Inr (Assign (Variant_number (of_nat (sa_writerkey a))))"
    "At_key_const v ''readernodekey'' = Inr (Assign (Variant_number (of_nat (sa_readernodekey a))))"
    "At_key_const v ''writernodekey'' = Inr (Assign (Variant_number (of_nat (sa_writernodekey a))))"
    "At_key_const v ''alpha'' = Inr (Assign (Variant_number (sa_alpha a)))"
    "At_key_const v ''maxwritethreshold'' = Inr (Assign (Variant_number (of_nat (sa_maxwritethreshold a))))"
    by (rule k, simp add: queue_entries_def)+
  have "MsgToQueueAttr sf v = Inr a"
    using assms by (simp add: MsgToQueueAttr_def v As_values queue_attr_ok_def and_then_def)
  with \<open>SendQueueMsg_attr a = Inr v\<close> show ?thesis
    by blast
qed


definition demo_attr_msg :: SimpleQueueAttr where
  "demo_attr_msg = simple_attr (new_QueueAttr 100 10)"


end
