(* ===== verification/RemoteWait.thy ===== *)
theory RemoteWait
  imports RemoteRefine
begin

text \<open>
  Waits on the remote context: the notices that the server broadcasts, the queue of notices of a waiting
  thread, and that no wait misses the event it waits for.
\<close>

section \<open>Waits do not miss their event\<close>

text \<open>The events that clients wait for, in the info objects and in the notices.\<close>

datatype event = KernelLive | NodeStarted | NodeDead

definition event_in :: "event \<Rightarrow> string \<Rightarrow> info \<Rightarrow> bool" where
  "event_in e name i \<longleftrightarrow> in_name i = Some name \<and> (case e of
     KernelLive \<Rightarrow> in_kind i = Kernelinfo \<and> in_live i
   | NodeStarted \<Rightarrow> in_kind i = Nodeinfo \<and> in_started i
   | NodeDead \<Rightarrow> in_kind i = Nodeinfo \<and> in_dead i)"

definition data_of :: "event \<Rightarrow> info \<Rightarrow> reply_data" where
  "data_of e i = (case e of KernelLive \<Rightarrow> KernelData i | _ \<Rightarrow> NodeData i)"

definition happened :: "event \<Rightarrow> string \<Rightarrow> server \<Rightarrow> bool" where
  "happened e name sv \<longleftrightarrow> (\<exists>k i. sv_datamap sv k = Some i \<and> event_in e name i)"

definition told :: "event \<Rightarrow> string \<Rightarrow> srv_out list \<Rightarrow> bool" where
  "told e name outs \<longleftrightarrow> (\<exists>n i. BroadcastMessage (Notice n (data_of e i)) \<in> set outs \<and> event_in e name i)"

lemma event_in_other [simp]:
  "\<not> event_in e name null_info" "in_kind i = Endpointinfo \<Longrightarrow> \<not> event_in e name i" "in_kind i = NoType \<Longrightarrow> \<not> event_in e name i"
  "event_in e name (i\<lparr>in_endpoints := x\<rparr>) = event_in e name i" "event_in e name (i\<lparr>in_readerkey := y\<rparr>) = event_in e name i"
  "event_in e name (i\<lparr>in_writerkey := y\<rparr>) = event_in e name i" "event_in e name (i\<lparr>in_qname := q\<rparr>) = event_in e name i"
  by (auto simp: event_in_def null_info_def split: event.splits)

lemma happened_set:
  "happened e name (set_info k i sv) \<Longrightarrow> event_in e name i \<or> happened e name sv"
  by (auto simp: happened_def set_info_def split: if_splits)

lemma happened_update:
  "sv_datamap sv k = Some i \<Longrightarrow> (event_in e name j \<longleftrightarrow> event_in e name i) \<Longrightarrow> happened e name (set_info k j sv) \<Longrightarrow> happened e name sv"
  by (auto simp: happened_def set_info_def split: if_splits)

lemma happened_same [simp]:
  "happened e name (sv\<lparr>sv_keycount := a\<rparr>) = happened e name sv" "happened e name (sv\<lparr>sv_kernelmap := b\<rparr>) = happened e name sv"
  "happened e name (sv\<lparr>sv_nodemap := b\<rparr>) = happened e name sv" "happened e name (sv\<lparr>sv_numlivenodes := a\<rparr>) = happened e name sv"
  "happened e name (sv\<lparr>sv_shutdown := c\<rparr>) = happened e name sv"
  by (simp_all add: happened_def)

lemma happened_at: "at_datamap k sv = (i, sv') \<Longrightarrow> happened e name sv' \<Longrightarrow> happened e name sv"
  by (auto simp: at_datamap_def split: option.splits dest: happened_set)

lemma at_datamap_lookup: "at_datamap k sv = (i, sv') \<Longrightarrow> sv_datamap sv' k = Some i"
  by (auto simp: at_datamap_def set_info_def split: option.splits)

lemma happened_update_info:
  assumes "\<And>i. event_in e name (f i) = event_in e name i" "\<And>i. in_kind (f i) = in_kind i" "happened e name (update_info k f sv)"
  shows "happened e name sv"
proof -
  obtain i sv' where at: "at_datamap k sv = (i, sv')" by force
  let ?i = "if in_kind i = NullValue then i\<lparr>in_kind := NoType\<rparr> else i"
  have "happened e name (set_info k (f ?i) sv')"
    using assms(3) by (simp add: update_info_def at)
  moreover have "event_in e name (f ?i) \<Longrightarrow> event_in e name i"
    using assms(1) by (auto split: if_splits)
  ultimately have "happened e name sv'"
    using at_datamap_lookup [OF at] by (auto simp: happened_def set_info_def split: if_splits)
  then show ?thesis
    by (rule happened_at [OF at])
qed

lemma happened_told_kernel:
  assumes "signal_kernel b k sv = (outs, err, sv')" "happened e name sv'"
  shows "happened e name sv \<or> told e name outs"
proof -
  obtain i sv1 where at: "at_datamap k sv = (i, sv1)" by force
  show ?thesis
  proof (cases "in_kind i = Kernelinfo")
    case True
    let ?i = "i\<lparr>in_live := b\<rparr>"
    have r: "sv' = set_info k ?i sv1" "outs = [NewBroadcastMessage sv' (KernelData ?i)]"
      using assms(1) True by (auto simp: signal_kernel_def at Let_def)
    from happened_set [OF assms(2) [unfolded r(1)]] show ?thesis
    proof
      assume s: "event_in e name ?i"
      then have "e = KernelLive"
        using True by (auto simp: event_in_def split: event.splits)
      with s show ?thesis
        unfolding told_def r(2) by (intro disjI2 exI [of _ "sv_numlivenodes sv'"] exI [of _ ?i]) (simp add: NewBroadcastMessage_def data_of_def)
    qed (use happened_at [OF at] in blast)
  next
    case False
    then show ?thesis
      using assms happened_at [OF at] by (auto simp: signal_kernel_def at)
  qed
qed

lemma happened_told_node:
  assumes "signal_node f live k sv = (outs, err, sv')" "happened e name sv'" "\<And>i. in_kind (f i) = in_kind i"
  shows "happened e name sv \<or> told e name outs"
proof -
  obtain i sv1 where at: "at_datamap k (sv\<lparr>sv_numlivenodes := live\<rparr>) = (i, sv1)" by force
  show ?thesis
  proof (cases "in_kind i = Nodeinfo")
    case True
    have r: "sv' = set_info k (f i) sv1" "outs = [NewBroadcastMessage sv' (NodeData (f i))]"
      using assms(1) True by (auto simp: signal_node_def at Let_def)
    from happened_set [OF assms(2) [unfolded r(1)]] show ?thesis
    proof
      assume s: "event_in e name (f i)"
      then have "e \<noteq> KernelLive"
        using True assms(3) by (auto simp: event_in_def)
      with s show ?thesis
        unfolding told_def r(2) by (intro disjI2 exI [of _ "sv_numlivenodes sv'"] exI [of _ "f i"])
          (simp add: NewBroadcastMessage_def data_of_def split: event.splits)
    qed (use happened_at [OF at] in auto)
  next
    case False
    then show ?thesis
      using assms(1,2) happened_at [OF at] by (auto simp: signal_node_def at)
  qed
qed

lemma happened_endpoint:
  assumes "GetCreateEndpointKey_srv sender j k p sv = (outs, err, sv')" "happened e name sv'"
  shows "happened e name sv"
proof (cases "sv_datamap sv k")
  case (Some n)
  show ?thesis
  proof (cases "in_endpoints n p")
    case None
    let ?key = "NewKey_srv sv"
    let ?n = "n\<lparr>in_endpoints := (in_endpoints n)(p \<mapsto> ?key)\<rparr>"
    let ?sv = "sv\<lparr>sv_keycount := ?key\<rparr>"
    let ?sv2 = "if in_kind n = NullValue then ?sv else set_info k ?n ?sv"
    obtain i where "sv' = set_info ?key i ?sv2" "in_kind i = Endpointinfo"
      using assms(1) Some None by (auto simp: GetCreateEndpointKey_srv_def Let_def)
    then have "happened e name ?sv2"
      using assms(2) by (auto dest: happened_set)
    moreover have "happened e name (set_info k ?n ?sv) \<Longrightarrow> happened e name ?sv"
      by (rule happened_update [of _ _ n]) (use Some in simp_all)
    ultimately show ?thesis
      by (auto split: if_splits)
  qed (use assms Some in \<open>auto simp: GetCreateEndpointKey_srv_def split: if_splits prod.splits dest: happened_at\<close>)
qed (use assms in \<open>auto simp: GetCreateEndpointKey_srv_def\<close>)

lemma reply_keeps:
  "reply_info sender j kind data in_copy k sv = (outs, err, sv') \<Longrightarrow> sv' = sv"
  "reply_named sender j names kind data in_copy which sv = (outs, err, sv') \<Longrightarrow> sv' = sv"
  by (auto simp: reply_info_def reply_named_def in_copy_def split: option.splits if_splits sum.splits)

lemma happened_in_place: "happened e name (in_place k sv) \<Longrightarrow> happened e name sv"
  by (auto simp: in_place_def split: option.splits if_splits dest!: happened_set)

lemma happened_reply: "reply_named sender j names kind data in_place which sv = (outs, err, sv') \<Longrightarrow> happened e name sv' \<Longrightarrow> happened e name sv"
  by (auto simp: reply_info_def reply_named_def split: option.splits if_splits sum.splits dest: happened_in_place)

text \<open>Whatever message makes an event true, its handling tells all clients.\<close>

lemma happened_told:
  assumes "DispatchMessage_srv sender j msg sv = (outs, err, sv')" "happened e name sv'"
  shows "happened e name sv \<or> told e name outs"
proof (cases "sv_shutdown sv")
  case False
  show ?thesis
  proof (cases msg)
    case (SETUP_KERNEL n h s)
    then show ?thesis
      using assms False
      by (auto simp: SetupKernel_srv_def Let_def split: if_splits dest!: happened_set) (auto simp: event_in_def null_info_def split: event.splits)
  next
    case (CREATE_NODE_KEY k n)
    then show ?thesis
      using assms False
      by (auto simp: CreateNodeKey_srv_def Let_def split: if_splits dest!: happened_set) (auto simp: event_in_def null_info_def split: event.splits)
  next
    case (CONNECT_ENDPOINTS w r q)
    then show ?thesis
      using assms False by (auto simp: ConnectEndpoints_srv_def dest!: happened_update_info [rotated 2])
  qed (use assms False happened_told_kernel happened_told_node happened_endpoint in
      \<open>auto simp: SignalKernelStart_srv_def SignalKernelEnd_srv_def SignalNodeStart_srv_def SignalNodeEnd_srv_def GetKernelInfo_srv_def
        GetNodeInfo_srv_def GetNumNodeLive_srv_def GetEndpointInfo_srv_def RouteKernelMessage_def Terminate_srv_def
        dest: reply_keeps happened_reply happened_at split: prod.splits\<close>)
qed (use assms in simp)

text \<open>The notices a waiter has: they only grow, and a broadcast reaches every waiter.\<close>

definition has_notices :: "string \<Rightarrow> nat \<Rightarrow> (nat \<times> reply_data) set \<Rightarrow> clients \<Rightarrow> bool" where
  "has_notices me w N cls \<longleftrightarrow> w < length (cl_waiters (cls me)) \<and> N \<subseteq> set (cl_waiters (cls me) ! w)"

lemma dispatch_waiters:
  "length (cl_waiters (snd (DispatchMessage_cli sf m cl))) = length (cl_waiters cl)"
  "w < length (cl_waiters cl) \<Longrightarrow> set (cl_waiters cl ! w) \<subseteq> set (cl_waiters (snd (DispatchMessage_cli sf m cl)) ! w)"
  by (cases m; auto simp: InternalTerminate_cli_def split: option.splits)+

lemma deliver_notices: "has_notices me w N cls \<Longrightarrow> has_notices me w N (deliver x cls)"
  using dispatch_waiters by (cases x) (fastforce simp: has_notices_def simp del: DispatchMessage_cli.simps)+

lemma fold_deliver_notices: "has_notices me w N cls \<Longrightarrow> has_notices me w N (fold deliver outs cls)"
  by (induction outs arbitrary: cls) (simp_all add: deliver_notices)

lemma broadcast_heard:
  "BroadcastMessage (Notice n d) \<in> set outs \<Longrightarrow> has_notices me w {} cls \<Longrightarrow> has_notices me w {(n, d)} (fold deliver outs cls)"
proof (induction outs arbitrary: cls)
  case (Cons x outs)
  show ?case
  proof (cases "x = BroadcastMessage (Notice n d)")
    case True
    then have "has_notices me w {(n, d)} (deliver x cls)"
      using Cons.prems(2) by (simp add: has_notices_def)
    then show ?thesis
      by (simp add: fold_deliver_notices)
  qed (use Cons deliver_notices in auto)
qed simp

definition heard :: "event \<Rightarrow> string \<Rightarrow> string \<Rightarrow> nat \<Rightarrow> clients \<Rightarrow> bool" where
  "heard e name me w cls \<longleftrightarrow> (\<exists>n i. has_notices me w {(n, data_of e i)} cls \<and> event_in e name i)"

type_synonym traffic = "(string \<times> nat \<times> rctx_msg) list"

definition run_traffic :: "traffic \<Rightarrow> rctx \<Rightarrow> rctx" where
  "run_traffic = fold (\<lambda>(sender, msgid, msg). exchange sender msgid msg)"

lemma exchange_heard:
  assumes "exchange sender j msg (cls, sv) = (cls', sv')" "has_notices me w {} cls" "happened e name sv \<Longrightarrow> heard e name me w cls"
  shows "has_notices me w {} cls' \<and> (happened e name sv' \<longrightarrow> heard e name me w cls')"
proof -
  obtain outs err where d: "DispatchMessage_srv sender j msg sv = (outs, err, sv')" "cls' = fold deliver outs cls"
    using assms(1) by (auto simp: exchange_def simp del: DispatchMessage_srv.simps split: prod.splits)
  have "heard e name me w cls'" if "happened e name sv'"
    using happened_told [OF d(1) that]
  proof
    assume "happened e name sv"
    then show ?thesis
      using assms(3) fold_deliver_notices unfolding heard_def d(2) by blast
  next
    assume "told e name outs"
    then show ?thesis
      using broadcast_heard [OF _ assms(2)] unfolding told_def heard_def d(2) by blast
  qed
  then show ?thesis
    using fold_deliver_notices [OF assms(2), of outs] d(2) by blast
qed

lemma traffic_heard:
  assumes "has_notices me w {} (fst s)" "happened e name (snd s) \<Longrightarrow> heard e name me w (fst s)" "happened e name (snd (run_traffic ms s))"
  shows "heard e name me w (fst (run_traffic ms s))"
  using assms
proof (induction ms arbitrary: s)
  case (Cons m ms)
  obtain sender j msg where m: "m = (sender, j, msg)" by (cases m)
  let ?s = "exchange sender j msg s"
  have "has_notices me w {} (fst ?s) \<and> (happened e name (snd ?s) \<longrightarrow> heard e name me w (fst ?s))"
    by (rule exchange_heard [of sender j msg "fst s" "snd s"]) (use Cons.prems(1,2) in simp_all)
  then show ?case
    using Cons.IH [of ?s] Cons.prems(3) by (simp add: m run_traffic_def)
qed (simp add: run_traffic_def)

lemma wait_loop_hit:
  "m \<in> set ms \<Longrightarrow> hit m \<noteq> None \<Longrightarrow> \<exists>x. wait_loop idle hit ms = Returned x"
  by (induction ms) (auto split: option.splits)

lemma wait_on_hit:
  assumes "m \<in> set (cl_waiters (fst s me) ! w)" "hit m \<noteq> None"
  shows "\<exists>x. fst (answering g (wait_on me w ended hit) s) = Returned x"
  using wait_loop_hit [where idle = "if cl_shutdown (fst s me) then ended else Blocks" and hit = hit, OF assms]
  by (auto simp: answering_def wait_on_def map_outcome_def split_beta)

text \<open>A wait for an event, and the same wait when its thread is woken up.\<close>

fun wait_call :: "event \<Rightarrow> string \<Rightarrow> ctx_call" where
  "wait_call KernelLive name = C_WaitForKernelStart name"
| "wait_call NodeStarted name = C_WaitForNodeStart name"
| "wait_call NodeDead name = C_WaitForNodeEnd name"

fun woken :: "event \<Rightarrow> string \<Rightarrow> string \<Rightarrow> nat \<Rightarrow> answer ract" where
  "woken KernelLive me name w = answering A_key (wait_on me w (Throws ShutdownException) (kernel_started name))"
| "woken NodeStarted me name w = answering A_key (wait_on me w (Throws ShutdownException) (node_started name))"
| "woken NodeDead me name w = answering (\<lambda>_. A_unit) (wait_on me w (Returned ()) (node_ended name))"

lemma heard_wakes:
  assumes "heard e name me w (fst s)"
  shows "\<exists>x. fst (woken e me name w s) = Returned x"
proof -
  obtain n i where m: "(n, data_of e i) \<in> set (cl_waiters (fst s me) ! w)" and i: "event_in e name i"
    using assms by (auto simp: heard_def has_notices_def)
  show ?thesis
    by (cases e; simp only: woken.simps; rule wait_on_hit [where hit = "_ name", OF m])
      (use i in \<open>simp_all add: event_in_def data_of_def kernel_started_def node_started_def node_ended_def text_or_null_def\<close>)
qed

text \<open>A wait that blocks has entered its waiter, and what it waits for has not happened.\<close>

lemma object_of_kind:
  assumes "data_rel sv c" "sv_datamap sv k = Some i"
  shows "in_kind i = Kernelinfo \<Longrightarrow> \<exists>ki. kernelmap c k = Some ki \<and> same_kernel i ki"
    "in_kind i = Nodeinfo \<Longrightarrow> \<exists>ni. nodemap c k = Some ni \<and> same_node i ni"
proof -
  have s: "same_object (kern_of c) i (kernelmap c k) (nodemap c k) (readports c k) (writeports c k)"
    using data_relD(5) [OF assms(1), of k] assms(2) by (simp add: same_at_def)
  have "in_kind i \<noteq> Endpointinfo \<Longrightarrow> \<not> same_port (kern_of c) opp i p" for opp p
    by (simp add: same_port_def)
  moreover have "in_kind i \<noteq> Nodeinfo \<Longrightarrow> \<not> same_node i ni" "in_kind i \<noteq> Kernelinfo \<Longrightarrow> \<not> same_kernel i ki" for ni ki
    by (simp_all add: same_node_def same_kernel_def)
  ultimately show "in_kind i = Kernelinfo \<Longrightarrow> \<exists>ki. kernelmap c k = Some ki \<and> same_kernel i ki"
    "in_kind i = Nodeinfo \<Longrightarrow> \<exists>ni. nodemap c k = Some ni \<and> same_node i ni"
    using s by (auto simp: same_object_def)
qed

lemma happened_kernel:
  assumes "data_rel sv c" "\<not> sv_shutdown sv" "ctx_inv c" "answers me (GET_KERNEL_INFO (Inl name)) sv ok d sv" "happened KernelLive name sv"
  shows "ok \<and> in_live (the_info d)"
proof -
  obtain k i where i: "sv_datamap sv k = Some i" "event_in KernelLive name i"
    using assms(5) by (auto simp: happened_def)
  then obtain ki where ki: "kernelmap c k = Some ki" "same_kernel i ki" "ki_name ki = name"
    using object_of_kind(1) [OF assms(1) i(1)] by (auto simp: event_in_def same_kernel_def)
  then have "kernelnames c name = Some k"
    using ctx_names(1) [OF assms(3)] by blast
  moreover obtain ok' d' where "answers me (GET_KERNEL_INFO (Inl name)) sv ok' d' sv" "case kernelnames c name of None \<Rightarrow> \<not> ok'
      | Some k \<Rightarrow> ok' \<and> in_key (the_info d') = k \<and> (\<exists>ki. kernelmap c k = Some ki \<and> same_kernel (the_info d') ki)"
    using srv_kernel_name [OF assms(1,2,3)] by blast
  ultimately show ?thesis
    using ki i(2) assms(4) by (auto simp: answers_def same_kernel_def event_in_def simp del: DispatchMessage_srv.simps)
qed

lemma happened_node:
  assumes "data_rel sv c" "\<not> sv_shutdown sv" "ctx_inv c" "answers me (GET_NODE_INFO (Inl name)) sv ok d sv"
  shows "happened NodeStarted name sv \<Longrightarrow> ok \<and> in_started (the_info d)" "happened NodeDead name sv \<Longrightarrow> ok \<and> in_dead (the_info d)"
proof -
  have k: "ok \<and> (\<exists>ni. nodemap c k = Some ni \<and> same_node (the_info d) ni \<and> same_node i ni)"
    if p: "sv_datamap sv k = Some i" "in_kind i = Nodeinfo" "in_name i = Some name" for k i
  proof -
    obtain ni where ni: "nodemap c k = Some ni" "same_node i ni" "ni_name ni = name"
      using object_of_kind(2) [OF assms(1) p(1,2)] p(3) by (auto simp: same_node_def)
    then have "nodenames c name = Some k"
      using ctx_names(2) [OF assms(3)] by blast
    moreover obtain ok' d' where "answers me (GET_NODE_INFO (Inl name)) sv ok' d' sv" "case nodenames c name of None \<Rightarrow> \<not> ok'
        | Some k \<Rightarrow> ok' \<and> in_key (the_info d') = k \<and> (\<exists>ni. nodemap c k = Some ni \<and> same_node (the_info d') ni)"
      using srv_node_name [OF assms(1,2,3)] by blast
    ultimately show ?thesis
      using ni assms(4) by (auto simp: answers_def simp del: DispatchMessage_srv.simps)
  qed
  show "happened NodeStarted name sv \<Longrightarrow> ok \<and> in_started (the_info d)" "happened NodeDead name sv \<Longrightarrow> ok \<and> in_dead (the_info d)"
    using k by (fastforce simp: happened_def event_in_def same_node_def)+
qed

lemma answering_blocks: "answering g m s = (Blocks, s') \<longleftrightarrow> m s = (Blocks, s')"
  by (auto simp: answering_def map_outcome_def split: prod.splits outcome.splits)

lemma guarded_blocks:
  "\<not> cl_shutdown (fst s me) \<Longrightarrow> InternalCheckTerminated_cli me m s = (Blocks, s') \<longleftrightarrow> m s = (Blocks, s')"
  "\<not> cl_shutdown (fst s me) \<Longrightarrow> unless_shutdown me n s = (Blocks, s') \<longleftrightarrow> n s = (Blocks, s')"
  by (auto simp: InternalCheckTerminated_cli_def unless_shutdown_def split: prod.splits outcome.splits cpn_error.splits)

lemma waiting_blocks:
  assumes "ctx_rel (cls, sv) c" "\<not> shutdown c" "answers me msg sv ok d sv" "waiting me msg now ended hit (cls, sv) = (Blocks, s)"
    and "\<And>r. now r \<noteq> Some Blocks"
  shows "now (ok, d) = None \<and> snd s = sv \<and> has_notices me (length (cl_waiters (cls me))) {} (fst s)"
proof -
  obtain cls' where r: "waiting me msg now ended hit (cls, sv) = (case now (ok, d) of Some x \<Rightarrow> x | None \<Rightarrow> Blocks, (cls', sv))"
    and w: "cl_waiters (cls' me) = cl_waiters (cls me) @ [[]]"
    using waiting_run [OF rel_openD(3) [OF assms(1,2)] assms(3)] by blast
  have s: "s = (cls', sv)"
    using r assms(4) by simp
  moreover have "now (ok, d) = None"
    using r assms(4,5) by (auto split: option.splits)
  ultimately show ?thesis
    using w by (simp add: has_notices_def)
qed

lemma now_not_blocks [simp]: "(if P then Some (Returned x) else None) \<noteq> Some Blocks"
  by simp

lemma blocked_wait:
  assumes "ctx_rel (cls, sv) c" "\<not> shutdown c" "remote_call me (wait_call e name) (cls, sv) = (Blocks, s)"
  shows "\<not> happened e name (snd s)" "has_notices me (length (cl_waiters (cls me))) {} (fst s)"
proof -
  note o = rel_openD [OF assms(1,2)]
  have sh: "\<not> cl_shutdown (fst (cls, sv) me)"
    using o(1) by simp
  obtain ok d where k: "answers me (GET_KERNEL_INFO (Inl name)) sv ok d sv"
    using srv_kernel_name [OF o(4,2,5)] by blast
  obtain ok' d' where n: "answers me (GET_NODE_INFO (Inl name)) sv ok' d' sv"
    using srv_node_name [OF o(4,2,5)] by blast
  have "\<not> happened e name (snd s) \<and> has_notices me (length (cl_waiters (cls me))) {} (fst s)"
  proof (cases e)
    case KernelLive
    have "waiting me (GET_KERNEL_INFO (Inl name))
       (\<lambda>(ok, d). if ok \<and> in_live (the_info d) then Some (Returned (in_key (the_info d))) else None)
       (Throws ShutdownException) (kernel_started name) (cls, sv) = (Blocks, s)"
      using assms(3) by (simp add: KernelLive waits_as_waiting answering_blocks guarded_blocks [OF sh])
    from waiting_blocks [OF assms(1,2) k this] happened_kernel [OF o(4,2,5) k] show ?thesis
      by (auto simp: KernelLive split: if_splits)
  next
    case NodeStarted
    have "waiting me (GET_NODE_INFO (Inl name))
       (\<lambda>(ok, d). if ok \<and> in_started (the_info d) then Some (Returned (in_key (the_info d))) else None)
       (Throws ShutdownException) (node_started name) (cls, sv) = (Blocks, s)"
      using assms(3) by (simp add: NodeStarted waits_as_waiting answering_blocks guarded_blocks [OF sh])
    from waiting_blocks [OF assms(1,2) n this] happened_node(1) [OF o(4,2,5) n] show ?thesis
      by (auto simp: NodeStarted split: if_splits)
  next
    case NodeDead
    have "waiting me (GET_NODE_INFO (Inl name))
       (\<lambda>(ok, d). if ok \<and> in_dead (the_info d) then Some (Returned ()) else None) (Returned ()) (node_ended name) (cls, sv) = (Blocks, s)"
      using assms(3) by (simp add: NodeDead waits_as_waiting answering_blocks guarded_blocks [OF sh])
    from waiting_blocks [OF assms(1,2) n this] happened_node(2) [OF o(4,2,5) n] show ?thesis
      by (auto simp: NodeDead split: if_splits)
  qed
  then show "\<not> happened e name (snd s)" "has_notices me (length (cl_waiters (cls me))) {} (fst s)"
    by simp_all
qed


definition demo_traffic :: traffic where
  "demo_traffic = [(''b'', 5, CREATE_NODE_KEY 1 ''n''), (''b'', 0, SIGNAL_NODE_START 1)]"


end
