(* ===== verification/SieveNet.thy ===== *)
theory SieveNet
  imports Prelude
begin

text \<open>
  An application on top of the library: the network of apps/SieveOfEratosthenes/SimpleSieve, in which a producer
  sends the numbers from 2 on through a growing chain of filters, one for every prime found, to a controller.

  A queue delivers what is written to it, in order, so that a node is a function from the sequences on its inputs to
  the sequences on its outputs; a sequence that ends without the end marker is one whose reader waits. An
  \<open>unsigned long\<close> has 64 bits.
\<close>

section \<open>The nodes\<close>

text \<open>\<open>ProducerNode\<close>: with the bound 0 the loop does not end.\<close>

function producer_loop :: "nat \<Rightarrow> nat \<Rightarrow> nat list" where
  "producer_loop cutoff counter = (if counter < cutoff then counter # producer_loop cutoff (counter + 1) else [0])"
  by auto
termination
  by (relation "measure (\<lambda>(cutoff, counter). cutoff - counter)") auto

declare producer_loop.simps [simp del]

definition ProducerNode :: "nat \<Rightarrow> nat list option" where
  "ProducerNode numberBound = (if numberBound = 0 then None else Some (producer_loop numberBound 2))"

text \<open>\<open>FilterNode\<close>: what is written to the port to the controller and what is written to the port to the next filter.\<close>

definition emit :: "bool \<Rightarrow> nat \<Rightarrow> nat list \<times> nat list \<Rightarrow> nat list \<times> nat list" where
  "emit sendtoresult v = (\<lambda>(res, y). if sendtoresult then (v # res, y) else (res, v # y))"

fun filter_loop :: "nat \<Rightarrow> nat \<Rightarrow> bool \<Rightarrow> nat list \<Rightarrow> nat list \<times> nat list" where
  "filter_loop filterval nextFilter sendtoresult [] = ([], [])"
| "filter_loop filterval nextFilter sendtoresult (readVal # ins) =
    (let continue = (\<lambda>next send. if readVal \<noteq> 0 then filter_loop filterval next send ins else ([], []))
     in if readVal = filterval then emit sendtoresult readVal (continue nextFilter sendtoresult)
        else if readVal = nextFilter then continue (u64 (nextFilter + filterval)) sendtoresult
        else emit sendtoresult readVal
          (continue (if readVal > nextFilter then u64 (nextFilter + filterval) else nextFilter) False))"

definition FilterNode :: "nat \<Rightarrow> nat list \<Rightarrow> nat list \<times> nat list" where
  "FilterNode filterval ins = filter_loop filterval filterval True ins"

text \<open>\<open>SieveControllerNode\<close>: what it writes to its output, and whether it comes to an end.\<close>

definition ceil_sqrt :: "nat \<Rightarrow> nat" where
  "ceil_sqrt n = hd (filter (\<lambda>k. n \<le> k * k) [0..<Suc n])"

lemma filter_loop_length:
  "filter_loop p n s ins = (res, y) \<Longrightarrow> length res + length y \<le> length ins"
proof (induction ins arbitrary: n s res y)
  case (Cons r ins)
  have IH: "length (fst (filter_loop p m t ins)) + length (snd (filter_loop p m t ins)) \<le> length ins" for m t
    using Cons.IH [of m t] by (cases "filter_loop p m t ins") simp
  have E: "emit b r q = (res, y) \<Longrightarrow> length res + length y = Suc (length (fst q) + length (snd q))" for b q
    by (cases q) (auto simp: emit_def split: if_splits)
  show ?case
    using Cons.prems E IH by (auto simp: Let_def split: if_splits) (metis le_SucI fst_conv snd_conv)+
qed simp

function controller_loop :: "nat \<Rightarrow> nat \<Rightarrow> nat \<Rightarrow> bool \<Rightarrow> nat list \<Rightarrow> nat list \<Rightarrow> nat list \<times> bool" where
  "controller_loop primeBound stopVal lastprime finaltransition [] y = ([], False)"
| "controller_loop primeBound stopVal lastprime finaltransition (readVal # ins) y =
    (if readVal = 0 then ([], True)
     else map_prod ((#) readVal) id
       (if primeBound \<le> readVal then ([], True)
        else if readVal \<noteq> lastprime \<and> readVal < stopVal then
          (case FilterNode readVal y of (res, y') \<Rightarrow> controller_loop primeBound stopVal readVal finaltransition res y')
        else if readVal \<noteq> lastprime \<and> finaltransition then controller_loop primeBound stopVal lastprime False y []
        else controller_loop primeBound stopVal lastprime finaltransition ins y))"
  by pat_completeness auto
termination
  by (relation "measure (\<lambda>(b, s, l, f, ins, y). length ins + length y)")
    (auto simp: FilterNode_def split: prod.splits dest!: filter_loop_length)

definition SieveControllerNode :: "nat \<Rightarrow> nat \<Rightarrow> (nat list \<times> bool) option" where
  "SieveControllerNode primeBound numberBound = map_option (\<lambda>src.
     case FilterNode 2 src of (res, y) \<Rightarrow> controller_loop primeBound (ceil_sqrt primeBound) 2 True res y) (ProducerNode numberBound)"

definition SimpleSieve :: "nat \<Rightarrow> (nat list \<times> bool) option" where
  "SimpleSieve maxprime = (let m = max 2 maxprime in SieveControllerNode m m)"

section \<open>What a filter does\<close>

text \<open>
  A filter does not divide. It keeps the next multiple of its number, and moves it on by one step for every number
  it reads, so that it needs a number to read between any two multiples.
\<close>

definition dense :: "nat \<Rightarrow> nat list \<Rightarrow> bool" where
  "dense p xs \<longleftrightarrow> (\<forall>x\<in>set xs. \<forall>k\<in>{2..x div p}. \<exists>v\<in>set xs. (k - 1) * p < v \<and> v < k * p)"

definition to_ports :: "bool \<Rightarrow> nat list \<Rightarrow> nat list \<times> nat list" where
  "to_ports sendtoresult zs = (if sendtoresult then (take 1 zs, drop 1 zs) else ([], zs))"

lemma to_ports_emit [simp]: "emit s z (to_ports False zs) = to_ports s (z # zs)"
  by (simp add: emit_def to_ports_def)

lemma not_dvd_between: "(k - 1) * p < r \<Longrightarrow> r < k * p \<Longrightarrow> \<not> p dvd (r :: nat)"
proof
  assume a: "(k - 1) * p < r" "r < k * p" and "p dvd r"
  then obtain j where "r = j * p" by (metis dvdE mult.commute)
  with a have "k - 1 < j" "j < k" by simp_all
  then show False by simp
qed

lemma filter_loop_stream:
  assumes "0 < p" "sorted_wrt (<) xs" "\<And>x. x \<in> set xs \<Longrightarrow> p < x \<and> (k - 1) * p < x \<and> x + p < 2 ^ 64" "0 < k"
    and "\<And>x j. x \<in> set xs \<Longrightarrow> k < j \<Longrightarrow> j * p \<le> x \<Longrightarrow> \<exists>v\<in>set xs. (j - 1) * p < v \<and> v < j * p"
  shows "filter_loop p (k * p) s (xs @ [0]) = to_ports s (filter (\<lambda>x. \<not> p dvd x) xs @ [0])"
  using assms(2-)
proof (induction xs arbitrary: k s)
  case Nil
  then show ?case
    using assms(1) by (simp add: emit_def to_ports_def)
next
  case (Cons r xs)
  have r: "p < r" "(k - 1) * p < r" "r + p < 2 ^ 64" and rs: "\<And>x. x \<in> set xs \<Longrightarrow> r < x" "sorted_wrt (<) xs"
    using Cons.prems(1,2) by auto
  have later: "\<exists>v\<in>set xs. (j - 1) * p < v \<and> v < j * p" if "x \<in> set xs" "k < j" "j * p \<le> x" "r \<le> (j - 1) * p" for x j
    using Cons.prems(4) [of x j] that by auto
  have stay: "filter_loop p (k * p) b (xs @ [0]) = to_ports b (filter (\<lambda>x. \<not> p dvd x) xs @ [0])" if "r < k * p" for b
  proof (rule Cons.IH [OF rs(2) _ Cons.prems(3)])
    show "\<And>x. x \<in> set xs \<Longrightarrow> p < x \<and> (k - 1) * p < x \<and> x + p < 2 ^ 64"
      using Cons.prems(2) by auto
    fix x j assume "x \<in> set xs" "k < j" "j * p \<le> x"
    moreover from this have "k * p \<le> (j - 1) * p" by (intro mult_le_mono1) simp
    ultimately show "\<exists>v\<in>set xs. (j - 1) * p < v \<and> v < j * p"
      using later [of x j] that by linarith
  qed
  have move: "filter_loop p (u64 (k * p + p)) b (xs @ [0]) = to_ports b (filter (\<lambda>x. \<not> p dvd x) xs @ [0])"
    if "k * p \<le> r" "r < k * p + p" for b
  proof -
    have "filter_loop p (Suc k * p) b (xs @ [0]) = to_ports b (filter (\<lambda>x. \<not> p dvd x) xs @ [0])"
    proof (rule Cons.IH [OF rs(2)])
      show "\<And>x. x \<in> set xs \<Longrightarrow> p < x \<and> (Suc k - 1) * p < x \<and> x + p < 2 ^ 64"
        using Cons.prems(2) rs(1) that(1) by fastforce
      fix x j assume j: "x \<in> set xs" "Suc k < j" "j * p \<le> x"
      moreover have "Suc k * p \<le> (j - 1) * p" using j(2) by (intro mult_le_mono1) simp
      ultimately show "\<exists>v\<in>set xs. (j - 1) * p < v \<and> v < j * p"
        using later [of x j] that by auto
    qed simp
    moreover have "u64 (k * p + p) = Suc k * p"
      using that(1) r(3) by (simp add: u64_id add.commute)
    ultimately show ?thesis by simp
  qed
  have below: "r < k * p + p"
  proof (rule ccontr)
    assume "\<not> r < k * p + p"
    then have "Suc k * p \<le> r" by simp
    then obtain v where "v \<in> set (r # xs)" "v < Suc k * p"
      using Cons.prems(4) [of r "Suc k"] by auto
    with rs(1) \<open>Suc k * p \<le> r\<close> show False by fastforce
  qed
  consider "r = k * p" | "r < k * p" | "k * p < r" by linarith
  then show ?case
  proof cases
    case 1
    then show ?thesis
      using move [of s] below r(1) by simp
  next
    case 2
    moreover have "\<not> p dvd r"
      using not_dvd_between [OF r(2) 2] .
    ultimately show ?thesis
      using stay [of False] r(1) by simp
  next
    case 3
    moreover have "\<not> p dvd r"
      using not_dvd_between [of "Suc k" p r] 3 below by simp
    ultimately show ?thesis
      using move [of False] below r(1) by simp
  qed
qed

lemma FilterNode_dense:
  assumes "0 < p" "sorted_wrt (<) xs" "\<And>x. x \<in> set xs \<Longrightarrow> p < x \<and> x + p < 2 ^ 64" "dense p xs"
  shows "FilterNode p (xs @ [0]) = to_ports True (filter (\<lambda>x. \<not> p dvd x) xs @ [0])"
proof -
  have "filter_loop p (1 * p) True (xs @ [0]) = to_ports True (filter (\<lambda>x. \<not> p dvd x) xs @ [0])"
  proof (rule filter_loop_stream [OF assms(1,2)])
    fix x j assume x: "x \<in> set xs" "1 < j" "j * p \<le> x"
    then have "j \<in> {2..x div p}"
      using assms(1) by (simp add: less_eq_div_iff_mult_less_eq)
    then show "\<exists>v\<in>set xs. (j - 1) * p < v \<and> v < j * p"
      using assms(4) x(1) unfolding dense_def by blast
  qed (use assms(3) in fastforce)+
  then show ?thesis
    by (simp add: FilterNode_def)
qed

section \<open>The network\<close>

definition is_prime :: "nat \<Rightarrow> bool" where
  "is_prime n \<longleftrightarrow> 2 \<le> n \<and> (\<forall>d\<in>{2..<n}. \<not> d dvd n)"

text \<open>What is left of the numbers below a bound after the filters up to \<open>p\<close>, and what the filter for \<open>p\<close> reads.\<close>

definition rough :: "nat \<Rightarrow> nat \<Rightarrow> nat list" where
  "rough p b = filter (\<lambda>x. \<forall>d\<in>{2..p}. \<not> d dvd x) [Suc p..<b]"

definition unsieved :: "nat \<Rightarrow> nat \<Rightarrow> nat list" where
  "unsieved p b = filter (\<lambda>x. \<forall>d\<in>{2..<p}. \<not> d dvd x) [Suc p..<b]"

definition sieve_gaps :: "nat \<Rightarrow> bool" where
  "sieve_gaps b \<longleftrightarrow> (\<forall>p\<in>{2..<ceil_sqrt b}. is_prime p \<longrightarrow> dense p (unsieved p b))"

lemma rough_unsieved: "2 \<le> p \<Longrightarrow> rough p b = filter (\<lambda>x. \<not> p dvd x) (unsieved p b)"
proof -
  assume "2 \<le> p"
  then have "{2..p} = insert p {2..<p}" by auto
  then show ?thesis by (auto simp: rough_def unsieved_def intro!: filter_cong)
qed

lemma small_divisor:
  assumes "d dvd x" "\<forall>e\<in>{2..q}. \<not> e dvd x" "2 \<le> (d :: nat)"
  shows "q < d \<and> (\<forall>e\<in>{2..q}. \<not> e dvd d)"
  using assms dvd_trans by (meson atLeastAtMost_iff not_le)

lemma upt_split_hd:
  assumes "filter P [a..<b] = z # zs"
  shows "zs = filter P [Suc z..<b]" "a \<le> z" "z < b" "P z" "\<And>x. a \<le> x \<Longrightarrow> x < z \<Longrightarrow> \<not> P x"
proof -
  have z: "z \<in> set (filter P [a..<b])"
    using assms by simp
  then show "a \<le> z" "z < b" "P z" by auto
  then have u: "[a..<b] = [a..<z] @ z # [Suc z..<b]"
    by (metis le_add_diff_inverse less_imp_le_nat upt_add_eq_append upt_conv_Cons)
  have n: "filter P [a..<z] = []"
  proof (rule ccontr)
    assume "filter P [a..<z] \<noteq> []"
    then obtain y ys where "filter P [a..<z] = y # ys" by (cases "filter P [a..<z]") auto
    moreover from this have "y \<in> set [a..<z]" by (metis filter_is_subset list.set_intros(1) subsetD)
    ultimately show False
      using assms u by simp
  qed
  then show "zs = filter P [Suc z..<b]"
    using assms u \<open>P z\<close> by simp
  show "\<not> P x" if "a \<le> x" "x < z" for x
    using n that by (auto simp: filter_empty_conv)
qed

lemma rough_hd:
  assumes "rough q b = p # zs" "1 \<le> q"
  shows "zs = unsieved p b" "is_prime p" "q < p" "p < b" "\<And>x. q < x \<Longrightarrow> x < p \<Longrightarrow> \<not> is_prime x"
proof -
  note h = upt_split_hd [OF assms(1) [unfolded rough_def]]
  show p: "q < p" "p < b"
    using h(2,3) by auto
  have small: "\<exists>e\<in>{2..q}. e dvd d" if "2 \<le> d" "d < p" for d
    using h(5) [of d] that by (cases "d \<le> q") (auto intro: bexI [of _ d])
  have "(\<forall>d\<in>{2..q}. \<not> d dvd x) \<longleftrightarrow> (\<forall>d\<in>{2..<p}. \<not> d dvd x)" for x
    using small p(1) dvd_trans by (metis atLeastAtMost_iff atLeastLessThan_iff le_less_trans)
  then show "zs = unsieved p b"
    using h(1) by (simp add: unsieved_def)
  show "is_prime p"
    using p(1) assms(2) h(4) small dvd_trans unfolding is_prime_def
    by (metis (no_types, opaque_lifting) Suc_1 Suc_leI atLeastLessThan_iff le_less_trans)
  show "\<not> is_prime x" if "q < x" "x < p" for x
    using small [of x] that assms(2) by (auto simp: is_prime_def)
qed

lemma prime_rough: "is_prime x \<Longrightarrow> q < x \<Longrightarrow> x < b \<Longrightarrow> x \<in> set (rough q b)"
  by (auto simp: is_prime_def rough_def)

lemma primes_below_hd:
  assumes "is_prime p" "q < p" "p < b" "\<And>x. q < x \<Longrightarrow> x < p \<Longrightarrow> \<not> is_prime x"
  shows "filter is_prime [Suc q..<b] = p # filter is_prime [Suc p..<b]"
proof -
  have "[Suc q..<b] = [Suc q..<p] @ p # [Suc p..<b]"
    using assms(2,3) by (metis Suc_leI less_imp_le_nat le_add_diff_inverse upt_add_eq_append upt_conv_Cons)
  moreover have "filter is_prime [Suc q..<p] = []"
    using assms(4) by (auto simp: filter_empty_conv)
  ultimately show ?thesis
    using assms(1) by simp
qed

lemma ceil_sqrt_bound: "n \<le> ceil_sqrt n * ceil_sqrt n"
proof -
  let ?l = "filter (\<lambda>k. n \<le> k * k) [0..<Suc n]"
  have "n \<in> set ?l" by (cases n) auto
  then have "hd ?l \<in> set ?l" by (metis list.set_sel(1) empty_iff list.set(1))
  then show ?thesis unfolding ceil_sqrt_def set_filter mem_Collect_eq by (rule conjunct2)
qed

lemma least_divisor:
  assumes "2 \<le> (x :: nat)" "\<not> is_prime x"
  shows "\<exists>d. is_prime d \<and> d dvd x \<and> d * d \<le> x"
proof -
  let ?d = "LEAST d. 2 \<le> d \<and> d dvd x"
  have d: "2 \<le> ?d" "?d dvd x"
    using LeastI [of "\<lambda>d. 2 \<le> d \<and> d dvd x" x] assms(1) by auto
  have least: "?d \<le> e" if "2 \<le> e" "e dvd x" for e
    using that by (intro Least_le) simp
  have "is_prime ?d"
    unfolding is_prime_def using d least by (meson atLeastLessThan_iff dvd_trans leD)
  moreover obtain e where e: "x = ?d * e"
    using d(2) by blast
  moreover have "?d \<le> e"
  proof (cases "2 \<le> e")
    case True
    then show ?thesis using least e by (metis dvd_triv_right)
  next
    case False
    then have "e = 0 \<or> e = 1" by linarith
    with e assms(1) have "x = ?d" by (metis mult_0_right mult_1_right not_numeral_le_zero)
    with \<open>is_prime ?d\<close> assms(2) show ?thesis by simp
  qed
  ultimately show ?thesis
    using d(2) by (metis mult_le_mono2)
qed

text \<open>Once the least number left is not below the square root of the bound, all numbers left are primes.\<close>

lemma rough_final:
  assumes "rough q b = z # zs" "1 \<le> q" "b \<le> s * s" "s \<le> z"
  shows "z # zs = filter is_prime [Suc q..<b]"
proof -
  have prime: "is_prime x" if x: "q < x" "x < b" "\<forall>d\<in>{2..q}. \<not> d dvd x" for x
  proof (rule ccontr)
    assume "\<not> is_prime x"
    then obtain d where d: "is_prime d" "d dvd x" "d * d \<le> x"
      using least_divisor [of x] x(1) assms(2) by auto
    have "q < d"
      using small_divisor [OF d(2) x(3)] d(1) by (simp add: is_prime_def)
    moreover have "d < s"
    proof (rule ccontr)
      assume "\<not> d < s"
      then have "s * s \<le> d * d" by (intro mult_le_mono) simp_all
      with d(3) x(2) assms(3) show False by linarith
    qed
    ultimately show False
      using rough_hd(5) [OF assms(1,2), of d] d(1) assms(4) by simp
  qed
  have "(\<forall>d\<in>{2..q}. \<not> d dvd x) \<longleftrightarrow> is_prime x" if "x \<in> set [Suc q..<b]" for x
  proof
    show "is_prime x" if "\<forall>d\<in>{2..q}. \<not> d dvd x"
      using prime [OF _ _ that] \<open>x \<in> _\<close> by simp
    show "\<forall>d\<in>{2..q}. \<not> d dvd x" if "is_prime x"
      using that \<open>x \<in> _\<close> unfolding is_prime_def by simp
  qed
  then have "rough q b = filter is_prime [Suc q..<b]"
    unfolding rough_def by (intro filter_cong) simp_all
  then show ?thesis
    using assms(1) by simp
qed

lemma controller_final:
  "(\<And>x. x \<in> set zs \<Longrightarrow> 0 < x \<and> x < b \<and> s \<le> x) \<Longrightarrow> controller_loop b s p False (zs @ [0]) y = (zs, True)"
proof (induction zs)
  case (Cons z zs)
  have "0 < z" "\<not> b \<le> z" "\<not> z < s"
    using Cons.prems [of z] by auto
  moreover have "controller_loop b s p False (zs @ [0]) y = (zs, True)"
    using Cons by simp
  ultimately show ?case
    by simp
qed simp

lemma controller_run:
  assumes "sieve_gaps b" "b < 2 ^ 32" "2 \<le> p" "to_ports True (rough p b @ [0]) = (res, y)"
  shows "controller_loop b (ceil_sqrt b) p True res y = (filter is_prime [Suc p..<b], True)"
  using assms(3,4)
proof (induction "b - p" arbitrary: p res y rule: less_induct)
  case less
  show ?case
  proof (cases "rough p b")
    case Nil
    then have "filter is_prime [Suc p..<b] = []"
      using prime_rough [of _ p b] by (auto simp: filter_empty_conv Suc_le_eq)
    then show ?thesis
      using less.prems(2) Nil by (auto simp: to_ports_def)
  next
    case (Cons z zs)
    have r: "res = [z]" "y = zs @ [0]"
      using less.prems(2) Cons by (auto simp: to_ports_def)
    note h = rough_hd [OF Cons]
    have z: "zs = unsieved z b" "is_prime z" "p < z" "z < b"
      using h less.prems(1) by auto
    have primes: "filter is_prime [Suc p..<b] = z # filter is_prime [Suc z..<b]"
      using primes_below_hd [OF z(2-4)] h(5) less.prems(1) by simp
    show ?thesis
    proof (cases "z < ceil_sqrt b")
      case True
      have zs: "sorted_wrt (<) zs" "\<And>x. x \<in> set zs \<Longrightarrow> z < x \<and> x + z < 2 ^ 64"
        using assms(2) z(4) by (auto simp: z(1) unsieved_def sorted_wrt_filter)
      have "dense z zs"
        using assms(1) z True less.prems(1) by (simp add: sieve_gaps_def)
      then have "FilterNode z (zs @ [0]) = to_ports True (rough z b @ [0])"
        using FilterNode_dense [OF _ zs] z less.prems(1) rough_unsieved [of z b] by simp
      moreover obtain res' y' where "to_ports True (rough z b @ [0]) = (res', y')" by force
      moreover from this have "controller_loop b (ceil_sqrt b) z True res' y' = (filter is_prime [Suc z..<b], True)"
        using less.hyps [of z] z less.prems(1) by simp
      ultimately show ?thesis
        using r z True less.prems(1) primes by simp
    next
      case False
      have "z # zs = filter is_prime [Suc p..<b]"
        by (rule rough_final [OF Cons _ ceil_sqrt_bound]) (use False less.prems(1) in simp_all)
      moreover have "controller_loop b (ceil_sqrt b) p False (zs @ [0]) [] = (zs, True)"
        by (rule controller_final) (use z False in \<open>auto simp: unsieved_def\<close>)
      ultimately show ?thesis
        using r z False less.prems(1) by simp
    qed
  qed
qed

lemma emit_simps: "emit True v (res, y) = (v # res, y)" "emit False v (res, y) = (res, v # y)"
  by (simp_all add: emit_def)

lemma filter_rules:
  "filter_loop p n s [] = ([], [])"
  "0 < p \<Longrightarrow> 0 < n \<Longrightarrow> filter_loop p n s (0 # ins) = emit s 0 ([], [])"
  "r = p \<Longrightarrow> 0 < r \<Longrightarrow> filter_loop p n s (r # ins) = emit s r (filter_loop p n s ins)"
  "r \<noteq> p \<Longrightarrow> r = n \<Longrightarrow> 0 < r \<Longrightarrow> n + p < 2 ^ 64 \<Longrightarrow> filter_loop p n s (r # ins) = filter_loop p (n + p) s ins"
  "r \<noteq> p \<Longrightarrow> r < n \<Longrightarrow> 0 < r \<Longrightarrow> filter_loop p n s (r # ins) = emit s r (filter_loop p n False ins)"
  "r \<noteq> p \<Longrightarrow> n < r \<Longrightarrow> 0 < r \<Longrightarrow> n + p < 2 ^ 64 \<Longrightarrow> filter_loop p n s (r # ins) = emit s r (filter_loop p (n + p) False ins)"
  by (auto simp: u64_id)

lemma controller_rules:
  "controller_loop b s l f (0 # ins) y = ([], True)"
  "0 < r \<Longrightarrow> r < b \<Longrightarrow> r = l \<Longrightarrow> controller_loop b s l f (r # ins) y = map_prod ((#) r) id (controller_loop b s l f ins y)"
  "0 < r \<Longrightarrow> r < b \<Longrightarrow> r \<noteq> l \<Longrightarrow> r < s \<Longrightarrow> controller_loop b s l f (r # ins) y = map_prod ((#) r) id (case FilterNode r y of (res, y') \<Rightarrow> controller_loop b s r f res y')"
  "0 < r \<Longrightarrow> r < b \<Longrightarrow> r \<noteq> l \<Longrightarrow> \<not> r < s \<Longrightarrow> controller_loop b s l True (r # ins) y = map_prod ((#) r) id (controller_loop b s l False y [])"
  "0 < r \<Longrightarrow> r < b \<Longrightarrow> r \<noteq> l \<Longrightarrow> \<not> r < s \<Longrightarrow> controller_loop b s l False (r # ins) y = map_prod ((#) r) id (controller_loop b s l False ins y)"
  by auto

lemma ceil_sqrt_eq: "n \<le> Suc k * Suc k \<Longrightarrow> k * k < n \<Longrightarrow> ceil_sqrt n = Suc k"
proof -
  assume a: "n \<le> Suc k * Suc k" "k * k < n"
  have "k < n"
    using a(2) by (metis le_square le_less_trans)
  then have "[0..<Suc n] = [0..<Suc k] @ Suc k # [Suc (Suc k)..<Suc n]"
    by (metis Suc_less_eq le0 less_imp_le_nat upt_add_eq_append upt_conv_Cons le_add_diff_inverse)
  moreover have "filter (\<lambda>j. n \<le> j * j) [0..<Suc k] = []"
    using a(2) by (simp only: filter_empty_conv) (metis atLeastLessThan_iff set_upt less_Suc_eq_le mult_le_mono not_less order_trans)
  ultimately show ?thesis
    using a(1) by (simp only: ceil_sqrt_def filter_append) simp
qed

lemma sorted_hd_le: "sorted xs \<Longrightarrow> k \<in> set xs \<Longrightarrow> hd xs \<le> (k :: nat)"
  by (cases xs) auto

lemma less_ceil_sqrt: "p < ceil_sqrt n \<longleftrightarrow> p * p < n"
proof (cases "ceil_sqrt n")
  case 0
  then show ?thesis
    using ceil_sqrt_bound [of n] by simp
next
  case (Suc k)
  have "\<not> n \<le> k * k"
  proof
    let ?l = "filter (\<lambda>k. n \<le> k * k) [0..<Suc n]"
    assume "n \<le> k * k"
    moreover have h: "hd ?l = Suc k"
      using Suc by (simp only: ceil_sqrt_def)
    moreover have "n \<in> set ?l" by (cases n) auto
    then have ne: "?l \<noteq> []" by (metis empty_iff list.set(1))
    then have "hd ?l \<in> set ?l" by (rule hd_in_set)
    then have "Suc k \<le> n"
      unfolding h set_filter by auto
    ultimately have "k \<in> set ?l" by simp
    moreover have "sorted ?l" by (intro sorted_wrt_filter sorted_upt)
    ultimately have "hd ?l \<le> k"
      by (intro sorted_hd_le)
    with h show False by simp
  qed
  then have l: "k * k < n" and u: "n \<le> Suc k * Suc k"
    using ceil_sqrt_bound [of n] unfolding Suc by simp_all
  show ?thesis
  proof
    assume "p < ceil_sqrt n"
    then have "p * p \<le> k * k" unfolding Suc by (intro mult_le_mono) simp_all
    with l show "p * p < n" by simp
  next
    assume "p * p < n"
    then have "p * p < Suc k * Suc k" using u by simp
    then show "p < ceil_sqrt n" unfolding Suc by (metis mult_le_mono not_less)
  qed
qed

lemma sieve_gaps_below:
  assumes "sieve_gaps b" "a \<le> b"
  shows "sieve_gaps a"
  unfolding sieve_gaps_def
proof (intro ballI impI)
  fix p assume p: "p \<in> {2..<ceil_sqrt a}" "is_prime p"
  then have "p \<in> {2..<ceil_sqrt b}"
    using assms(2) by (auto simp: less_ceil_sqrt)
  then have d: "dense p (unsieved p b)"
    using assms(1) p(2) by (simp add: sieve_gaps_def)
  show "dense p (unsieved p a)"
    unfolding dense_def
  proof (intro ballI)
    fix x k assume x: "x \<in> set (unsieved p a)" and k: "k \<in> {2..x div p}"
    then have "x \<in> set (unsieved p b)"
      using assms(2) by (auto simp: unsieved_def)
    then obtain v where v: "v \<in> set (unsieved p b)" "(k - 1) * p < v" "v < k * p"
      using d k unfolding dense_def by blast
    moreover have "k * p \<le> x"
      using k p(1) by (simp add: less_eq_div_iff_mult_less_eq)
    ultimately have "v \<in> set (unsieved p a)"
      using x by (auto simp: unsieved_def)
    with v show "\<exists>v\<in>set (unsieved p a). (k - 1) * p < v \<and> v < k * p" by blast
  qed
qed

text \<open>A test that evaluates without divisions: a pass over what a filter reads, and the chain of filters.\<close>

fun filter_scan :: "nat \<Rightarrow> nat \<Rightarrow> bool \<Rightarrow> nat list \<Rightarrow> nat list option" where
  "filter_scan p m seen [] = Some []"
| "filter_scan p m seen (x # xs) =
    (if x < m then map_option ((#) x) (filter_scan p m True xs)
     else if \<not> seen then None
     else if x = m then filter_scan p (m + p) False xs
     else if x < m + p then map_option ((#) x) (filter_scan p (m + p) True xs) else None)"

lemma scan_filter:
  assumes "filter_scan p (k * p) seen xs = Some zs" "sorted_wrt (<) xs" "0 < p" "0 < k" "\<And>x. x \<in> set xs \<Longrightarrow> (k - 1) * p < x"
  shows "zs = filter (\<lambda>x. \<not> p dvd x) xs"
  using assms(1,2,4-)
proof (induction xs arbitrary: k seen zs)
  case (Cons y xs)
  have y: "(k - 1) * p < y" "\<And>x. x \<in> set xs \<Longrightarrow> y < x" "sorted_wrt (<) xs"
    using Cons.prems(2,4) by auto
  have later: "\<And>x. x \<in> set xs \<Longrightarrow> (Suc k - 1) * p < x" if "\<not> y < k * p"
    using y(2) that by fastforce
  show ?case
  proof (cases "y < k * p")
    case True
    then obtain ws where "zs = y # ws" "filter_scan p (k * p) True xs = Some ws"
      using Cons.prems(1) by auto
    then show ?thesis
      using Cons.IH [of k True ws] Cons.prems(3,4) y(3) not_dvd_between [OF y(1) True] by simp
  next
    case False
    then consider "y = k * p" "filter_scan p (Suc k * p) False xs = Some zs"
      | ws where "y \<noteq> k * p" "y < Suc k * p" "zs = y # ws" "filter_scan p (Suc k * p) True xs = Some ws"
      using Cons.prems(1) by (auto simp: add.commute split: if_splits)
    then show ?thesis
    proof cases
      case 1
      then show ?thesis
        using Cons.IH [OF 1(2) y(3)] later [OF False] by simp
    next
      case 2
      moreover have "\<not> p dvd y"
        using not_dvd_between [of "Suc k" p y] 2(1,2) False by simp
      ultimately show ?thesis
        using Cons.IH [OF 2(4) y(3)] later [OF False] by simp
    qed
  qed
qed simp

lemma scan_dense:
  assumes "filter_scan p (k * p) seen xs \<noteq> None" "sorted_wrt (<) xs" "0 < p" "0 < k" "\<And>x. x \<in> set xs \<Longrightarrow> (k - 1) * p < x"
    and "x \<in> set xs" "k \<le> j" "j * p \<le> x"
  shows "(j = k \<and> seen) \<or> (\<exists>v\<in>set xs. (j - 1) * p < v \<and> v < j * p)"
  using assms(1,2,4-)
proof (induction xs arbitrary: k seen)
  case (Cons y xs)
  have y: "(k - 1) * p < y" "\<And>x. x \<in> set xs \<Longrightarrow> y < x" "sorted_wrt (<) xs"
    using Cons.prems(2,4) by auto
  show ?case
  proof (cases "y < k * p")
    case True
    then have "x \<in> set xs"
      using Cons.prems(5-7) by (metis le_less_trans mult_le_mono1 not_less set_ConsD order.strict_trans1)
    moreover have "filter_scan p (k * p) True xs \<noteq> None"
      using Cons.prems(1) True by simp
    ultimately have "j = k \<or> (\<exists>v\<in>set xs. (j - 1) * p < v \<and> v < j * p)"
      using Cons.IH [of k True] Cons.prems(3,4,6,7) y(3) by auto
    then show ?thesis
      using y(1) True by auto
  next
    case False
    have s: seen "y < Suc k * p" "filter_scan p (Suc k * p) (y \<noteq> k * p) xs \<noteq> None"
      using Cons.prems(1) False assms(3) by (auto simp: add.commute split: if_splits)
    show ?thesis
    proof (cases "j = k")
      case False
      then have j: "Suc k \<le> j" using Cons.prems(6) by simp
      then have "Suc k * p \<le> j * p" by (rule mult_le_mono1)
      then have "x \<in> set xs"
        using Cons.prems(5,7) s(2) by auto
      moreover have "\<And>x. x \<in> set xs \<Longrightarrow> (Suc k - 1) * p < x"
        using y(2) \<open>\<not> y < k * p\<close> by fastforce
      ultimately have "(j = Suc k \<and> y \<noteq> k * p) \<or> (\<exists>v\<in>set xs. (j - 1) * p < v \<and> v < j * p)"
        using Cons.IH [OF s(3) y(3)] j Cons.prems(7) by simp
      then show ?thesis
        using s(2) \<open>\<not> y < k * p\<close> by auto
    qed (use s in simp)
  qed
qed simp

lemma scan_length: "filter_scan p m seen xs = Some zs \<Longrightarrow> length zs \<le> length xs"
  by (induction xs arbitrary: m seen zs) (force split: if_splits)+

function gaps_check :: "nat \<Rightarrow> nat \<Rightarrow> nat list \<Rightarrow> bool" where
  "gaps_check s p xs \<longleftrightarrow> (case filter_scan p (2 * p) False xs of
     None \<Rightarrow> False
   | Some zs \<Rightarrow> (case zs of [] \<Rightarrow> True | z # zs' \<Rightarrow> if z < s then gaps_check s z zs' else True))"
  by auto
termination
  by (relation "measure (\<lambda>(s, p, xs). length xs)") (auto dest: scan_length)

declare gaps_check.simps [simp del]

lemma unsieved_facts: "sorted_wrt (<) (unsieved p b)" "x \<in> set (unsieved p b) \<Longrightarrow> p < x \<and> x < b"
  by (auto simp: unsieved_def sorted_wrt_filter)

lemma scan_unsieved:
  assumes "filter_scan p (2 * p) False (unsieved p b) = Some zs" "2 \<le> p"
  shows "dense p (unsieved p b)" "zs = rough p b"
proof -
  have u: "\<And>x. x \<in> set (unsieved p b) \<Longrightarrow> (2 - 1) * p < x"
    using unsieved_facts(2) by simp
  show "zs = rough p b"
    using scan_filter [OF assms(1) unsieved_facts(1) _ _ u] assms(2) by (simp add: rough_unsieved)
  show "dense p (unsieved p b)"
    unfolding dense_def
  proof (intro ballI)
    fix x k assume x: "x \<in> set (unsieved p b)" and "k \<in> {2..x div p}"
    then have k: "2 \<le> k" "k * p \<le> x"
      using assms(2) by (simp_all add: less_eq_div_iff_mult_less_eq)
    show "\<exists>v\<in>set (unsieved p b). (k - 1) * p < v \<and> v < k * p"
      using scan_dense [where seen = False, OF _ unsieved_facts(1) _ _ u x k] assms by simp
  qed
qed

lemma gaps_check_sound:
  "gaps_check s p xs \<Longrightarrow> xs = unsieved p b \<Longrightarrow> 2 \<le> p \<Longrightarrow> is_prime q \<Longrightarrow> p \<le> q \<Longrightarrow> q < s \<Longrightarrow> q < b \<Longrightarrow> dense q (unsieved q b)"
proof (induction s p xs rule: gaps_check.induct)
  case (1 s p xs)
  obtain ws where ws: "filter_scan p (2 * p) False xs = Some ws"
    using "1.prems"(1) by (subst (asm) gaps_check.simps) (auto split: option.splits)
  note f = scan_unsieved [OF ws [unfolded "1.prems"(2)] "1.prems"(3)]
  show ?case
  proof (cases "q = p")
    case False
    then have q: "q \<in> set ws" "p < q"
      using prime_rough "1.prems" f(2) by auto
    then obtain z zs where z: "ws = z # zs"
      by (cases ws) auto
    note h = rough_hd [OF f(2) [unfolded z, symmetric]]
    have zq: "z \<le> q"
      using h(5) [of q] q(2) "1.prems"(3,4) by (meson le_trans not_le one_le_numeral)
    then have "gaps_check s z zs"
      using "1.prems"(1,6) ws z by (subst (asm) gaps_check.simps) simp
    then show ?thesis
      using "1.IH" [OF ws z] h(1,3) zq "1.prems" by simp
  qed (use f(1) in simp)
qed

lemma sieve_gaps_check: "gaps_check (ceil_sqrt b) 2 [3..<b] \<Longrightarrow> sieve_gaps b"
  unfolding sieve_gaps_def
proof (intro ballI impI)
  assume c: "gaps_check (ceil_sqrt b) 2 [3..<b]"
  fix p assume p: "p \<in> {2..<ceil_sqrt b}" "is_prime p"
  have "p < b"
    using p(1) by (metis atLeastLessThan_iff le_square less_ceil_sqrt le_less_trans)
  moreover have "[3..<b] = unsieved 2 b"
    by (simp add: unsieved_def)
  ultimately show "dense p (unsieved p b)"
    using gaps_check_sound [OF c] p by simp
qed

lemma scan_rules:
  "x < m \<Longrightarrow> filter_scan p m seen (x # xs) = map_option ((#) x) (filter_scan p m True xs)"
  "filter_scan p x True (x # xs) = filter_scan p (x + p) False xs"
  "m < x \<Longrightarrow> x < m + p \<Longrightarrow> filter_scan p m True (x # xs) = map_option ((#) x) (filter_scan p (m + p) True xs)"
  by auto

definition gaps_next :: "nat \<Rightarrow> nat list option \<Rightarrow> bool" where
  "gaps_next s r \<longleftrightarrow> (case r of None \<Rightarrow> False | Some zs \<Rightarrow> (case zs of [] \<Rightarrow> True | z # zs \<Rightarrow> if z < s then gaps_check s z zs else True))"

lemma gaps_rules:
  "gaps_check s p (x # xs) = gaps_next s (filter_scan p (2 * p) False (x # xs))"
  "gaps_next s (Some (z # zs)) = (if z < s then gaps_check s z zs else True)"
  by (simp_all add: gaps_next_def gaps_check.simps)

lemma sieve_gaps_1357: "sieve_gaps 1357"
proof (rule sieve_gaps_check)
  have "ceil_sqrt 1357 = 37" using ceil_sqrt_eq [of 1357 36] by simp
  then show "gaps_check (ceil_sqrt 1357) 2 [3..<1357]"
    by (simp add: scan_rules gaps_rules del: filter_scan.simps(2))
qed

lemma producer_upt: "producer_loop b n = [n..<b] @ [0]"
  by (induction b n rule: producer_loop.induct) (subst producer_loop.simps, simp add: upt_conv_Cons)

lemma sieve_exact:
  assumes "sieve_gaps b" "2 \<le> b" "b < 2 ^ 32"
  shows "SimpleSieve b = Some (filter is_prime [2..<b], True)"
proof (cases "b = 2")
  case True
  then show ?thesis
    by (simp add: SimpleSieve_def SieveControllerNode_def ProducerNode_def producer_upt FilterNode_def emit_def)
next
  case False
  then have b: "3 \<le> b" using assms(2) by simp
  obtain res y where p: "to_ports True (rough 2 b @ [0]) = (res, y)" by force
  have u: "unsieved 2 b = [3..<b]" "[2..<b] = 2 # [3..<b]"
    using b by (simp_all add: unsieved_def upt_conv_Cons)
  have "dense 2 [3..<b]"
    unfolding dense_def
  proof (intro ballI)
    fix x k assume "x \<in> set [3..<b]" "k \<in> {2..x div 2}"
    then show "\<exists>v\<in>set [3..<b]. (k - 1) * 2 < v \<and> v < k * 2"
      by (intro bexI [of _ "2 * k - 1"]) auto
  qed
  then have "FilterNode 2 ([3..<b] @ [0]) = (res, y)"
    using FilterNode_dense [of 2 "[3..<b]"] rough_unsieved [of 2 b] assms(3) p by (simp add: u)
  then have "FilterNode 2 (producer_loop b 2) = (2 # res, y)"
    by (simp add: FilterNode_def producer_upt u(2) emit_def del: upt_Suc)
  then have "SimpleSieve b = Some (map_prod ((#) 2) id (controller_loop b (ceil_sqrt b) 2 True res y))"
    using b by (simp add: SimpleSieve_def SieveControllerNode_def ProducerNode_def max_def)
  moreover have "is_prime 2" by (simp add: is_prime_def)
  ultimately show ?thesis
    using controller_run [OF assms(1,3) _ p] by (simp add: u(2))
qed

text \<open>C12: The network finds the primes, and comes to an end, for every bound up to 1357.\<close>

theorem simple_sieve_exact:
  assumes "2 \<le> maxprime" "maxprime \<le> 1357"
  shows "SimpleSieve maxprime = Some (filter is_prime [2..<maxprime], True)"
  using sieve_exact [OF sieve_gaps_below [OF sieve_gaps_1357 assms(2)] assms(1)] assms(2) by simp

theorem simple_sieve_exact_witness: "SimpleSieve 100 = Some (filter is_prime [2..<100], True)"
  by (rule simple_sieve_exact) simp_all


end
