(* ===== verification/NodeLib.thy ===== *)
theory NodeLib
  imports Prelude
begin

text \<open>
  The nodes of nodelibraries that distribute and collect data: \<open>ForkNode\<close>, \<open>JoinNode\<close> and \<open>ForkJoinNode\<close>.

  A node is a function from the sequences on its inputs to the sequences on its outputs. An element of a
  sequence has one byte for every channel; \<open>Enqueue\<close> copies all channels. The writers of the
  inputs have written all they will and released the queue, so that \<open>GetDequeuePtr\<close> gives a block of the size asked
  for while there is one and 0 after. A node that does not come to an end is \<open>None\<close>. \<open>Dequeue\<close> of more
  than the queue holds, which an overlap larger than the size leads to, is \<open>Undefined\<close>.
\<close>

section \<open>The nodes\<close>

type_synonym 'a ports = "'a list list"

partial_function (option) fork_loop :: "nat \<Rightarrow> nat \<Rightarrow> nat \<Rightarrow> 'a ports \<Rightarrow> 'a list \<Rightarrow> (cpn_error + 'a ports) option" where
  "fork_loop sz overlap current out ins =
    (if current < length out then
       (if length ins < sz then Some (Inr out)
        else if sz < overlap then Some (Inl Undefined)
        else fork_loop sz overlap (current + 1) (out[current := out ! current @ take sz ins]) (drop (sz - overlap) ins))
     else fork_loop sz overlap 0 out ins)"

definition ForkNode :: "nat \<Rightarrow> nat \<Rightarrow> nat \<Rightarrow> 'a list \<Rightarrow> (cpn_error + 'a ports) option" where
  "ForkNode num_outports sz overlap ins = fork_loop sz overlap 0 (replicate num_outports []) ins"

partial_function (option) join_loop :: "nat \<Rightarrow> nat \<Rightarrow> nat \<Rightarrow> 'a ports \<Rightarrow> 'a list \<Rightarrow> (cpn_error + 'a list) option" where
  "join_loop sz overlap current ins out =
    (if current < length ins then
       (if length (ins ! current) < sz then Some (Inr out)
        else if sz < overlap then Some (Inl Undefined)
        else join_loop sz overlap (current + 1) (ins[current := drop (sz - overlap) (ins ! current)])
          (out @ take sz (ins ! current)))
     else join_loop sz overlap 0 ins out)"

definition JoinNode :: "nat \<Rightarrow> nat \<Rightarrow> 'a ports \<Rightarrow> (cpn_error + 'a list) option" where
  "JoinNode sz overlap ins = join_loop sz overlap 0 ins []"

text \<open>\<open>ForkJoinNode\<close>: an iterator past the end is set to the beginning; with no port it is not a port.\<close>

partial_function (option) forkjoin_loop :: "nat \<Rightarrow> nat \<Rightarrow> nat \<Rightarrow> nat \<Rightarrow> 'a ports \<Rightarrow> 'a ports \<Rightarrow> (cpn_error + 'a ports) option" where
  "forkjoin_loop sz overlap current_in current_out ins out =
    (let i = (if current_in = length ins then 0 else current_in);
         j = (if current_out = length out then 0 else current_out)
     in if ins = [] then Some (Inl Undefined)
        else if length (ins ! i) < sz then Some (Inr out)
        else if out = [] \<or> sz < overlap then Some (Inl Undefined)
        else forkjoin_loop sz overlap (i + 1) (j + 1) (ins[i := drop (sz - overlap) (ins ! i)])
          (out[j := out ! j @ take sz (ins ! i)]))"

definition ForkJoinNode :: "nat \<Rightarrow> nat \<Rightarrow> nat \<Rightarrow> 'a ports \<Rightarrow> (cpn_error + 'a ports) option" where
  "ForkJoinNode num_outports sz overlap ins = forkjoin_loop sz overlap 0 0 ins (replicate num_outports [])"

section \<open>Blocks, dealt out in turn\<close>

text \<open>The blocks of a given size that start every \<open>step\<close> elements.\<close>

function blocks :: "nat \<Rightarrow> nat \<Rightarrow> 'a list \<Rightarrow> 'a list list" where
  "blocks sz step xs = (if step = 0 \<or> xs = [] \<or> length xs < sz then [] else take sz xs # blocks sz step (drop step xs))"
  by auto
termination
  by (relation "measure (\<lambda>(sz, step, xs). length xs)") auto

declare blocks.simps [simp del]

definition turn :: "nat \<Rightarrow> 'a ports \<Rightarrow> nat" where
  "turn i out = (if i < length out then i else 0)"

fun deal :: "nat \<Rightarrow> 'a ports \<Rightarrow> 'a list list \<Rightarrow> 'a ports" where
  "deal i out [] = out"
| "deal i out (b # bs) = deal (turn i out + 1) (out[turn i out := out ! turn i out @ b]) bs"

lemma fork_loop_turn:
  "out \<noteq> [] \<Longrightarrow> fork_loop sz overlap i out ins = fork_loop sz overlap (turn i out) out ins"
  by (cases "i < length out") (simp add: turn_def, subst fork_loop.simps, simp add: turn_def)

lemma fork_loop_deal:
  assumes "out \<noteq> []" "overlap < sz"
  shows "fork_loop sz overlap i out ins = Some (Inr (deal i out (blocks sz (sz - overlap) ins)))"
  using assms(1)
proof (induction "length ins" arbitrary: i out ins rule: less_induct)
  case less
  let ?i = "turn i out"
  have i: "?i < length out"
    using less.prems by (simp add: turn_def)
  show ?case
  proof (cases "length ins < sz")
    case True
    then show ?thesis
      using i by (subst fork_loop_turn [OF less.prems], subst fork_loop.simps) (simp add: blocks.simps)
  next
    case False
    then have ins: "length (drop (sz - overlap) ins) < length ins" "ins \<noteq> []"
      using assms(2) by auto
    have b: "blocks sz (sz - overlap) ins = take sz ins # blocks sz (sz - overlap) (drop (sz - overlap) ins)"
      by (subst blocks.simps) (use False ins(2) assms(2) in auto)
    have "fork_loop sz overlap i out ins =
        fork_loop sz overlap (?i + 1) (out[?i := out ! ?i @ take sz ins]) (drop (sz - overlap) ins)"
      using i False assms(2) by (subst fork_loop_turn [OF less.prems], subst fork_loop.simps) simp
    also have "\<dots> = Some (Inr (deal i out (blocks sz (sz - overlap) ins)))"
      using less.hyps [OF ins(1)] less.prems by (simp add: b)
    finally show ?thesis .
  qed
qed

lemma length_deal [simp]: "length (deal i out bs) = length out"
  by (induction i out bs rule: deal.induct) auto

text \<open>What is dealt is appended to what is there.\<close>

lemma deal_append:
  "length out = length out' \<Longrightarrow> deal i (map2 (@) out out') bs = map2 (@) out (deal i out' bs)"
proof (induction bs arbitrary: i out')
  case (Cons b bs)
  have t: "turn i (map2 (@) out out') = turn i out'"
    using Cons.prems by (simp add: turn_def)
  show ?case
  proof (cases "out' = []")
    case False
    then have j: "turn i out' < length out'"
      by (simp add: turn_def)
    then have "(map2 (@) out out')[turn i out' := map2 (@) out out' ! turn i out' @ b] =
        map2 (@) out (out'[turn i out' := out' ! turn i out' @ b])"
      using Cons.prems by (intro nth_equalityI) (auto simp: nth_list_update)
    then show ?thesis
      using Cons by (simp add: t)
  qed (use Cons in \<open>simp add: turn_def\<close>)
qed simp

lemma deal_empty: "deal i out bs = map2 (@) out (deal i (replicate (length out) []) bs)"
proof -
  have "map2 (@) out (replicate (length out) []) = out"
    by (rule nth_equalityI) auto
  then show ?thesis
    using deal_append [of out "replicate (length out) []" i bs] by simp
qed

lemma join_loop_turn:
  "ins \<noteq> [] \<Longrightarrow> join_loop sz overlap i ins out = join_loop sz overlap (turn i ins) ins out"
  by (cases "i < length ins") (simp add: turn_def, subst join_loop.simps, simp add: turn_def)

lemma join_loop_deal:
  assumes "0 < n" "0 < sz" "\<And>b. b \<in> set bs \<Longrightarrow> length b = sz"
  shows "join_loop sz 0 i (deal i (replicate n []) bs) out = Some (Inr (out @ concat bs))"
  using assms(3)
proof (induction bs arbitrary: i out)
  case Nil
  let ?e = "replicate n [] :: 'a ports"
  have "turn i ?e < n"
    using assms(1) by (simp add: turn_def)
  then show ?case
    using assms(1,2) by (subst join_loop_turn) (simp, subst join_loop.simps, simp)
next
  case (Cons b bs)
  let ?e = "replicate n [] :: 'a ports" and ?j = "turn i (replicate n [] :: 'a ports)"
  let ?r = "deal (?j + 1) ?e bs"
  have j: "?j < n" and ne: "?r \<noteq> []"
    using assms(1) length_deal [of "?j + 1" ?e bs] by (auto simp: turn_def simp del: length_deal)
  have d: "deal i ?e (b # bs) = ?r[?j := b @ ?r ! ?j]"
  proof -
    have "deal i ?e (b # bs) = map2 (@) (?e[?j := b]) ?r"
      using j deal_empty [of "?j + 1" "?e[?j := b]" bs] by simp
    also have "\<dots> = ?r[?j := b @ ?r ! ?j]"
      using j by (intro nth_equalityI) (auto simp: nth_list_update)
    finally show ?thesis .
  qed
  have "turn i (?r[?j := b @ ?r ! ?j]) = ?j"
    by (simp add: turn_def)
  then have "join_loop sz 0 i (deal i ?e (b # bs)) out = join_loop sz 0 (?j + 1) ?r (out @ b)"
    unfolding d using j ne Cons.prems [of b] by (subst join_loop_turn) (simp, subst join_loop.simps, simp)
  also have "\<dots> = Some (Inr (out @ concat (b # bs)))"
    using Cons by simp
  finally show ?case .
qed

lemma blocks_length: "b \<in> set (blocks sz step xs) \<Longrightarrow> length b = sz"
  by (induction sz step xs rule: blocks.induct) (subst (asm) (2) blocks.simps, auto split: if_splits)

lemma blocks_concat:
  "0 < sz \<Longrightarrow> concat (blocks sz sz xs) = take (length xs div sz * sz) xs"
proof (induction "length xs" arbitrary: xs rule: less_induct)
  case less
  show ?case
  proof (cases "length xs < sz")
    case True
    then show ?thesis
      by (subst blocks.simps) simp
  next
    case False
    then have l: "length (drop sz xs) < length xs" "xs \<noteq> []"
      using less.prems by auto
    have "length xs div sz = Suc (length (drop sz xs) div sz)"
      using False less.prems by (simp add: le_div_geq)
    then have "take (length xs div sz * sz) xs = take sz xs @ take (length (drop sz xs) div sz * sz) (drop sz xs)"
      by (simp add: take_add)
    then show ?thesis
      using less.hyps [OF l(1) less.prems] less.prems False l(2) by (subst blocks.simps) simp
  qed
qed

section \<open>What the nodes do\<close>

text \<open>C33: Data that \<open>ForkNode\<close> deals out to its output ports and \<open>JoinNode\<close> collects again is unchanged, in order, up to
  the last full block; both nodes come to an end.\<close>

theorem fork_join_roundtrip:
  assumes "0 < n" "0 < sz"
  shows "\<exists>out. ForkNode n sz 0 xs = Some (Inr out) \<and> length out = n \<and>
    JoinNode sz 0 out = Some (Inr (take (length xs div sz * sz) xs))"
proof -
  let ?out = "deal 0 (replicate n []) (blocks sz sz xs)"
  have "ForkNode n sz 0 xs = Some (Inr ?out)"
    using assms fork_loop_deal [of "replicate n []" 0 sz 0 xs] by (simp add: ForkNode_def)
  moreover have "JoinNode sz 0 ?out = Some (Inr (take (length xs div sz * sz) xs))"
    using join_loop_deal [where bs = "blocks sz sz xs" and i = 0 and out = "[]", OF assms blocks_length] blocks_concat [OF assms(2)] by (simp add: JoinNode_def)
  ultimately show ?thesis
    by (intro exI [of _ ?out]) simp
qed

theorem fork_join_roundtrip_witness:
  "\<exists>out. ForkNode 3 2 0 [1, 2, 3, 4, 5, 6, 7, 8, 9::nat] = Some (Inr out) \<and> length out = 3 \<and>
    JoinNode 2 0 out = Some (Inr [1, 2, 3, 4, 5, 6, 7, 8])"
  using fork_join_roundtrip [of 3 2 "[1, 2, 3, 4, 5, 6, 7, 8, 9::nat]"] by simp

text \<open>With an overlap the blocks start every \<open>size - overlap\<close> elements, and the collected data is the blocks in a row.\<close>

lemma fork_join_overlap:
  assumes "0 < n" "overlap < sz"
  shows "\<exists>out. ForkNode n sz overlap xs = Some (Inr out) \<and>
    JoinNode sz 0 out = Some (Inr (concat (blocks sz (sz - overlap) xs)))"
  using assms fork_loop_deal [of "replicate n []" overlap sz 0 xs]
    join_loop_deal [where bs = "blocks sz (sz - overlap) xs" and i = 0 and out = "[]" and sz = sz, OF assms(1) _ blocks_length]
  by (simp add: ForkNode_def JoinNode_def)

lemma forkjoin_loop_deal:
  assumes "out \<noteq> []" "overlap < sz" "i \<le> 1" "j \<le> length out"
  shows "forkjoin_loop sz overlap i j [ins] out = Some (Inr (deal j out (blocks sz (sz - overlap) ins)))"
  using assms(1,3,4)
proof (induction "length ins" arbitrary: i j out ins rule: less_induct)
  case less
  have t: "(if j = length out then 0 else j) = turn j out"
    using less.prems by (auto simp: turn_def)
  show ?case
  proof (cases "length ins < sz")
    case True
    then show ?thesis
      using less.prems(2) by (subst forkjoin_loop.simps) (auto simp: blocks.simps Let_def le_Suc_eq)
  next
    case False
    then have ins: "length (drop (sz - overlap) ins) < length ins" "ins \<noteq> []"
      using assms(2) by auto
    let ?j = "turn j out"
    have j: "?j + 1 \<le> length out"
      using less.prems(1) by (simp add: turn_def Suc_le_eq)
    have b: "blocks sz (sz - overlap) ins = take sz ins # blocks sz (sz - overlap) (drop (sz - overlap) ins)"
      by (subst blocks.simps) (use False ins(2) assms(2) in auto)
    have "forkjoin_loop sz overlap i j [ins] out =
        forkjoin_loop sz overlap 1 (?j + 1) [drop (sz - overlap) ins] (out[?j := out ! ?j @ take sz ins])"
      using less.prems(1,2) False assms(2) by (subst forkjoin_loop.simps) (auto simp: Let_def t le_Suc_eq)
    also have "\<dots> = Some (Inr (deal j out (blocks sz (sz - overlap) ins)))"
      using less.hyps [OF ins(1), of "out[?j := out ! ?j @ take sz ins]" 1 "?j + 1"] less.prems(1) j by (simp add: b)
    finally show ?thesis .
  qed
qed

text \<open>\<open>ForkJoinNode\<close> with one input port is \<open>ForkNode\<close>.\<close>

theorem forkjoin_is_fork:
  assumes "0 < n" "overlap < sz"
  shows "ForkJoinNode n sz overlap [xs] = ForkNode n sz overlap xs"
  using assms fork_loop_deal [of "replicate n []" overlap sz 0 xs] forkjoin_loop_deal [of "replicate n []" overlap sz 0 0 xs]
  by (simp add: ForkJoinNode_def ForkNode_def)

end
