(* ===== verification/Base64.thy ===== *)
theory Base64
  imports Prelude "HOL-Library.Word"
begin

unbundle bit_operations_syntax

text \<open>
  \<open>Base64Encoder\<close> and \<open>Base64Decoder\<close> (Base64/Base64.cc): coroutines, written as a switch into a loop, that take
  their input in pieces. The step at which the loop is entered is part of the state; a byte is
  an 8 bit word, and a \<open>char\<close> that is compared with 0 is read as a signed number.
\<close>

section \<open>The encoder\<close>

type_synonym byte = "8 word"

datatype encoderstep = step_A | step_B | step_C

record encoder =
  en_step :: encoderstep
  chars_per_line :: nat
  en_result :: byte
  stepcount :: nat
  en_output :: "byte list"

definition new_Base64Encoder :: "nat \<Rightarrow> encoder" where
  "new_Base64Encoder cpl = \<lparr>en_step = step_A, chars_per_line = cpl, en_result = 0, stepcount = 0, en_output = []\<rparr>"

text \<open>\<open>ABCDEFGHIJKLMNOPQRSTUVWXYZabcdefghijklmnopqrstuvwxyz0123456789+/\<close>\<close>

definition encoding :: "byte list" where
  "encoding = map of_nat ([65..<91] @ [97..<123] @ [48..<58] @ [43, 47])"

definition EncodeValue :: "byte \<Rightarrow> byte" where
  "EncodeValue r = (if 63 < sint r then 61 else encoding ! unat r)"

definition push_value :: "byte \<Rightarrow> encoder \<Rightarrow> encoder" where
  "push_value r e = e\<lparr>en_output := en_output e @ [EncodeValue r]\<rparr>"

definition end_of_group :: "encoder \<Rightarrow> encoder" where
  "end_of_group e =
    (if chars_per_line e \<noteq> 0 then
       if u32 (stepcount e + 1) = chars_per_line e div 4 then e\<lparr>en_output := en_output e @ [10], stepcount := 0\<rparr>
       else e\<lparr>stepcount := u32 (stepcount e + 1)\<rparr>
     else e)"

definition encode_step :: "encoder \<Rightarrow> byte \<Rightarrow> encoder" where
  "encode_step e fragment = (case en_step e of
     step_A \<Rightarrow> (push_value (drop_bit 2 (fragment AND 0xfc)) e)\<lparr>en_result := push_bit 4 (fragment AND 3), en_step := step_B\<rparr>
   | step_B \<Rightarrow> (push_value (en_result e OR drop_bit 4 (fragment AND 0xf0)) e)
       \<lparr>en_result := push_bit 2 (fragment AND 0xf), en_step := step_C\<rparr>
   | step_C \<Rightarrow> end_of_group ((push_value (fragment AND 0x3f) (push_value (en_result e OR drop_bit 6 (fragment AND 0xc0)) e))
       \<lparr>en_result := fragment AND 0x3f, en_step := step_A\<rparr>))"

fun EncodeBlock :: "encoder \<Rightarrow> byte list \<Rightarrow> encoder" where
  "EncodeBlock e [] = e"
| "EncodeBlock e (fragment # current) = EncodeBlock (encode_step e fragment) current"

definition GetPartial_enc :: "encoder \<Rightarrow> byte list \<times> encoder" where
  "GetPartial_enc e = (en_output e, e\<lparr>en_output := []\<rparr>)"

definition Reset_enc :: "encoder \<Rightarrow> encoder" where
  "Reset_enc e = e\<lparr>en_step := step_A, en_result := 0, stepcount := 0, en_output := []\<rparr>"

definition BlockEnd_enc :: "encoder \<Rightarrow> byte list \<times> encoder" where
  "BlockEnd_enc e =
    (en_output e @ (case en_step e of
       step_B \<Rightarrow> [EncodeValue (en_result e), 61, 61]
     | step_C \<Rightarrow> [EncodeValue (en_result e), 61]
     | step_A \<Rightarrow> []) @ (if chars_per_line e \<noteq> 0 then [10] else []), Reset_enc e)"

section \<open>The decoder\<close>

datatype decodestep = step_a | step_b | step_c | step_d

record decoder =
  de_step :: decodestep
  currchar :: byte
  de_output :: "byte list"

definition new_Base64Decoder :: decoder where
  "new_Base64Decoder = \<lparr>de_step = step_a, currchar = 0, de_output = []\<rparr>"

definition decoding :: "int list" where
  "decoding = [62, -1, -1, -1, 63, 52, 53, 54, 55, 56, 57, 58, 59, 60, 61, -1, -1, -1, -2, -1, -1, -1,
     0, 1, 2, 3, 4, 5, 6, 7, 8, 9, 10, 11, 12, 13, 14, 15, 16, 17, 18, 19, 20, 21, 22, 23, 24, 25, -1, -1, -1, -1, -1, -1,
     26, 27, 28, 29, 30, 31, 32, 33, 34, 35, 36, 37, 38, 39, 40, 41, 42, 43, 44, 45, 46, 47, 48, 49, 50, 51]"

text \<open>The guard lets through the index one past the end of the table; \<open>beyond\<close> is the byte that is there.\<close>

definition DecodeValue :: "int \<Rightarrow> byte \<Rightarrow> int" where
  "DecodeValue beyond value_in =
    (let v = sint (value_in - 43)
     in if v < 0 \<or> v > 80 then -1 else if v = 80 then beyond else decoding ! nat v)"

definition decode_step :: "decoder \<Rightarrow> byte \<Rightarrow> decoder" where
  "decode_step d fragment = (case de_step d of
     step_a \<Rightarrow> d\<lparr>currchar := push_bit 2 (fragment AND 0x3f), de_step := step_b\<rparr>
   | step_b \<Rightarrow> d\<lparr>de_output := de_output d @ [currchar d OR drop_bit 4 (fragment AND 0x30)],
       currchar := push_bit 4 (fragment AND 0xf), de_step := step_c\<rparr>
   | step_c \<Rightarrow> d\<lparr>de_output := de_output d @ [currchar d OR drop_bit 2 (fragment AND 0x3c)],
       currchar := push_bit 6 (fragment AND 3), de_step := step_d\<rparr>
   | step_d \<Rightarrow> d\<lparr>de_output := de_output d @ [currchar d OR (fragment AND 0x3f)],
       currchar := currchar d OR (fragment AND 0x3f), de_step := step_a\<rparr>)"

fun DecodeBlock :: "int \<Rightarrow> decoder \<Rightarrow> byte list \<Rightarrow> decoder" where
  "DecodeBlock beyond d [] = d"
| "DecodeBlock beyond d (c # codechar) =
    (let fragment = DecodeValue beyond c
     in if fragment < 0 then DecodeBlock beyond d codechar else DecodeBlock beyond (decode_step d (word_of_int fragment)) codechar)"

definition GetPartial_dec :: "decoder \<Rightarrow> byte list \<times> decoder" where
  "GetPartial_dec d = (de_output d, d\<lparr>de_output := []\<rparr>)"

definition BlockEnd_dec :: "decoder \<Rightarrow> byte list \<times> decoder" where
  "BlockEnd_dec d = (de_output d, d\<lparr>de_output := [], currchar := 0, de_step := step_a\<rparr>)"

definition Reset_dec :: "decoder \<Rightarrow> decoder" where
  "Reset_dec d = d\<lparr>currchar := 0, de_output := [], de_step := step_a\<rparr>"

section \<open>Round trip\<close>

lemma less_8: "n < (8::nat) \<longleftrightarrow> n = 0 \<or> n = 1 \<or> n = 2 \<or> n = 3 \<or> n = 4 \<or> n = 5 \<or> n = 6 \<or> n = 7"
  by linarith

lemma byte_eqI: "(\<And>n. n < 8 \<Longrightarrow> bit a n \<longleftrightarrow> bit b n) \<Longrightarrow> a = (b :: byte)"
  by (rule bit_word_eqI) simp

lemma bits1:
  "(b AND 0xfc) OR drop_bit 4 ((push_bit 4 (b AND 3) OR drop_bit 4 (c AND 0xf0)) AND 0x30) = (b :: byte)"
  by (rule byte_eqI) (auto simp: bit_simps less_8)

lemma decode_encode_value:
  assumes "unat (v :: byte) < 64"
  shows "DecodeValue beyond (EncodeValue v) = uint v"
proof -
  define P where "P n \<longleftrightarrow> DecodeValue beyond (EncodeValue (of_nat n)) = uint (of_nat n :: byte)" for n
  note eval = P_def DecodeValue_def EncodeValue_def encoding_def decoding_def upt_rec_numeral
  have "P 0" "P 1" by (simp_all add: eval upt_rec)
  moreover have "list_all P [2..<64]" by (simp add: eval)
  then have "P n" if "n \<in> {2..<64}" for n
    using that unfolding list_all_iff set_upt by blast
  ultimately have "P n" if "n < 64" for n
    using that by (cases "n = 0 \<or> n = 1") auto
  from this [OF assms] show ?thesis by (simp add: P_def)
qed

text \<open>The bits of a byte go through the values and come back.\<close>

lemma bits:
  fixes b c d :: byte
  shows "push_bit 2 (drop_bit 2 (b AND 0xfc) AND 0x3f) = b AND 0xfc"
    "(b AND 0xfc) OR drop_bit 4 (push_bit 4 (b AND 3) AND 0x30) = b"
    "(b AND 0xfc) OR drop_bit 4 ((push_bit 4 (b AND 3) OR drop_bit 4 (c AND 0xf0)) AND 0x30) = b"
    "push_bit 4 ((push_bit 4 (b AND 3) OR drop_bit 4 (c AND 0xf0)) AND 0xf) = c AND 0xf0"
    "(c AND 0xf0) OR drop_bit 2 (push_bit 2 (c AND 0xf) AND 0x3c) = c"
    "(c AND 0xf0) OR drop_bit 2 ((push_bit 2 (c AND 0xf) OR drop_bit 6 (d AND 0xc0)) AND 0x3c) = c"
    "push_bit 6 ((push_bit 2 (c AND 0xf) OR drop_bit 6 (d AND 0xc0)) AND 3) = d AND 0xc0"
    "(d AND 0xc0) OR (d AND 0x3f) = d"
  by (rule byte_eqI; auto simp: bit_simps less_8 simp del: add_2_eq_Suc add_2_eq_Suc')+

lemma small_value: "v AND 0xc0 = 0 \<Longrightarrow> unat (v :: byte) < 64"
proof -
  assume "v AND 0xc0 = 0"
  then have "\<not> bit (v AND 0xc0) 6" "\<not> bit (v AND 0xc0) 7" by simp_all
  then have "v = take_bit 6 v"
    by (intro byte_eqI) (auto simp: bit_simps less_8)
  then have "unat v = take_bit 6 (unat v)"
    by (metis unsigned_take_bit_eq)
  moreover have "take_bit 6 (unat v) < 2 ^ 6"
    by (rule take_bit_nat_less_exp)
  ultimately show ?thesis by simp
qed

lemma small_bits:
  fixes b c d :: byte
  shows "drop_bit 2 (b AND 0xfc) AND 0xc0 = 0" "push_bit 4 (b AND 3) AND 0xc0 = 0"
    "(push_bit 4 (b AND 3) OR drop_bit 4 (c AND 0xf0)) AND 0xc0 = 0" "push_bit 2 (c AND 0xf) AND 0xc0 = 0"
    "(push_bit 2 (c AND 0xf) OR drop_bit 6 (d AND 0xc0)) AND 0xc0 = 0" "(d AND 0x3f) AND 0xc0 = 0"
  by (rule byte_eqI; auto simp: bit_simps less_8 simp del: add_2_eq_Suc add_2_eq_Suc')+

lemma decode_values:
  "v AND 0xc0 = 0 \<Longrightarrow> DecodeBlock beyond d (EncodeValue v # cs) = DecodeBlock beyond (decode_step d v) cs"
  "DecodeBlock beyond d (10 # cs) = DecodeBlock beyond d cs"
  "DecodeBlock beyond d (61 # cs) = DecodeBlock beyond d cs"
  using decode_encode_value [OF small_value] by (simp_all add: DecodeValue_def decoding_def)

lemma DecodeBlock_append: "DecodeBlock beyond d (cs @ ds) = DecodeBlock beyond (DecodeBlock beyond d cs) ds"
  by (induction beyond d cs rule: DecodeBlock.induct) (auto simp: Let_def)

lemma EncodeBlock_append: "EncodeBlock e (bs @ cs) = EncodeBlock (EncodeBlock e bs) cs"
  by (induction e bs rule: EncodeBlock.induct) auto

text \<open>What a decoder that has read the output so far knows of the data encoded so far.\<close>

fun in_step :: "byte list \<Rightarrow> encoder \<Rightarrow> decoder \<Rightarrow> bool" where
  "in_step bs e d \<longleftrightarrow> (case en_step e of
     step_A \<Rightarrow> de_step d = step_a \<and> de_output d = bs
   | step_B \<Rightarrow> de_step d = step_b \<and> (\<exists>as b. bs = as @ [b] \<and> de_output d = as \<and> currchar d = b AND 0xfc \<and>
       en_result e = push_bit 4 (b AND 3))
   | step_C \<Rightarrow> de_step d = step_c \<and> (\<exists>as c. bs = as @ [c] \<and> de_output d = as \<and> currchar d = c AND 0xf0 \<and>
       en_result e = push_bit 2 (c AND 0xf)))"

lemma end_of_group_out:
  "\<exists>ws. set ws \<subseteq> {10} \<and> en_output (end_of_group e) = en_output e @ ws \<and> en_step (end_of_group e) = en_step e \<and>
    chars_per_line (end_of_group e) = chars_per_line e"
  by (auto simp: end_of_group_def)

lemma decode_newlines: "set ws \<subseteq> {10} \<Longrightarrow> DecodeBlock beyond d (ws @ cs) = DecodeBlock beyond d cs"
  by (induction ws) (auto simp: decode_values simp del: DecodeBlock.simps(2) push_bit_and drop_bit_and push_bit_or drop_bit_or)

lemma encode_step_in_step:
  assumes "in_step bs e (DecodeBlock beyond d (en_output e))"
  shows "in_step (bs @ [b]) (encode_step e b) (DecodeBlock beyond d (en_output (encode_step e b)))"
proof (cases "en_step e")
  case step_A
  then show ?thesis
    using assms by (auto simp: encode_step_def push_value_def DecodeBlock_append decode_values small_bits decode_step_def bits
        simp del: DecodeBlock.simps(2) push_bit_and drop_bit_and push_bit_or drop_bit_or)
next
  case step_B
  then show ?thesis
    using assms by (auto simp: encode_step_def push_value_def DecodeBlock_append decode_values small_bits decode_step_def bits
        simp del: DecodeBlock.simps(2) push_bit_and drop_bit_and push_bit_or drop_bit_or)
next
  case step_C
  let ?e = "(push_value (b AND 0x3f) (push_value (en_result e OR drop_bit 6 (b AND 0xc0)) e))\<lparr>en_result := b AND 0x3f, en_step := step_A\<rparr>"
  obtain ws where ws: "set ws \<subseteq> {10}" "en_output (end_of_group ?e) = en_output ?e @ ws" "en_step (end_of_group ?e) = en_step ?e"
    using end_of_group_out [of ?e] by blast
  have "in_step (bs @ [b]) ?e (DecodeBlock beyond d (en_output ?e))"
    using assms step_C by (auto simp: push_value_def DecodeBlock_append decode_values small_bits decode_step_def bits
        simp del: DecodeBlock.simps(2) push_bit_and drop_bit_and push_bit_or drop_bit_or)
  then show ?thesis
    using step_C ws decode_newlines [OF ws(1), of beyond _ "[]"] by (simp add: encode_step_def DecodeBlock_append)
qed

lemma EncodeBlock_in_step:
  "in_step as e (DecodeBlock beyond d (en_output e)) \<Longrightarrow>
    in_step (as @ bs) (EncodeBlock e bs) (DecodeBlock beyond d (en_output (EncodeBlock e bs)))"
proof (induction bs arbitrary: as e)
  case (Cons b bs)
  from Cons.IH [OF encode_step_in_step [OF Cons.prems, of b]] show ?case by simp
qed simp

lemma BlockEnd_decoded:
  assumes "in_step bs e (DecodeBlock beyond d (en_output e))"
  shows "de_output (DecodeBlock beyond d (fst (BlockEnd_enc e))) = bs"
  using assms
  by (cases "en_step e") (auto simp: BlockEnd_enc_def DecodeBlock_append decode_values small_bits decode_step_def bits
      simp del: DecodeBlock.simps(2) push_bit_and drop_bit_and push_bit_or drop_bit_or)

text \<open>C34: Decoding what was encoded gives the data back, however the data is cut into the pieces that are given to the encoder,
  and the code into the pieces that are given to the decoder, and whatever the length of lines.\<close>

theorem base64_roundtrip:
  assumes "concat codes = fst (BlockEnd_enc (fold (\<lambda>p e. EncodeBlock e p) pieces (new_Base64Encoder cpl)))"
  shows "fst (BlockEnd_dec (fold (\<lambda>c d. DecodeBlock beyond d c) codes new_Base64Decoder)) = concat pieces"
proof -
  have e: "fold (\<lambda>p e. EncodeBlock e p) pieces e = EncodeBlock e (concat pieces)" for e
    by (induction pieces arbitrary: e) (simp_all add: EncodeBlock_append)
  have d: "fold (\<lambda>c d. DecodeBlock beyond d c) codes d = DecodeBlock beyond d (concat codes)" for d
    by (induction codes arbitrary: d) (simp_all add: DecodeBlock_append)
  have "in_step [] (new_Base64Encoder cpl) (DecodeBlock beyond new_Base64Decoder (en_output (new_Base64Encoder cpl)))"
    by (simp add: new_Base64Encoder_def new_Base64Decoder_def)
  from BlockEnd_decoded [OF EncodeBlock_in_step [OF this, of "concat pieces"]] show ?thesis
    by (simp add: d e assms BlockEnd_dec_def)
qed

definition demo_code :: "byte list" where
  "demo_code = fst (BlockEnd_enc (fold (\<lambda>p e. EncodeBlock e p) [[77, 97], [110, 33]] (new_Base64Encoder 4)))"

theorem base64_roundtrip_witness:
  "fst (BlockEnd_dec (fold (\<lambda>c d. DecodeBlock 0 d c) [demo_code] new_Base64Decoder)) = [77, 97, 110, 33]"
  using base64_roundtrip [of "[demo_code]" "[[77, 97], [110, 33]]" 4 0] by (simp add: demo_code_def)

end
