(* ===== verification/FileHandle.thy ===== *)
theory FileHandle
  imports Prelude
begin

text \<open>
  \<open>FileHandle\<close> (FileHandle/FileHandle.cc): a descriptor with the flags that \<open>Poll\<close> and the reads and writes keep. What
  a system call answers is an argument: a number of bytes, or the \<open>errno\<close> of a failure. An exception is \<open>Inl\<close> of its
  \<open>errno\<close>, with the handle as it is left.
\<close>

datatype errno = EAGAIN | EINTR | ENOMEM | ENOBUFS | Other_errno nat

datatype sysres = Bytes nat | Fails errno

record filehandle =
  fd :: int
  readable :: bool
  writeable :: bool
  eof :: bool

definition new_FileHandle :: "int \<Rightarrow> filehandle" where
  "new_FileHandle filed = \<lparr>fd = filed, readable = False, writeable = True, eof = False\<rparr>"

definition Good_fh :: "filehandle \<Rightarrow> bool" where
  "Good_fh h \<longleftrightarrow> \<not> (eof h \<or> fd h = -1)"

definition Closed_fh :: "filehandle \<Rightarrow> bool" where
  "Closed_fh h \<longleftrightarrow> fd h = -1"

definition Reset_fh :: "filehandle \<Rightarrow> filehandle" where
  "Reset_fh h = \<lparr>fd = -1, readable = False, writeable = False, eof = False\<rparr>"

text \<open>\<open>close\<close> fails with an \<open>errno\<close>, or does not.\<close>

definition Close_fh :: "errno option \<Rightarrow> filehandle \<Rightarrow> (errno + unit) \<times> filehandle" where
  "Close_fh closing h =
    (case (fd h \<noteq> -1, closing) of
       (True, Some e) \<Rightarrow> (Inl e, h)
     | _ \<Rightarrow> (Inr (), h\<lparr>fd := -1, readable := False, writeable := False, eof := False\<rparr>))"

definition Read_fh :: "sysres \<Rightarrow> filehandle \<Rightarrow> nat \<Rightarrow> (errno + nat) \<times> filehandle" where
  "Read_fh res h len =
    (if eof h \<or> fd h = -1 then (Inr 0, h)
     else case res of
       Fails EAGAIN \<Rightarrow> (Inr 0, h\<lparr>readable := False\<rparr>)
     | Fails EINTR \<Rightarrow> (Inr 0, h)
     | Fails ENOMEM \<Rightarrow> (Inr 0, h)
     | Fails e \<Rightarrow> (Inl e, h)
     | Bytes num \<Rightarrow>
         if num = 0 \<and> len \<noteq> 0 then (Inr 0, h\<lparr>eof := True, readable := False\<rparr>)
         else (Inr num, if num < len then h\<lparr>readable := False\<rparr> else h))"

definition Readv_fh :: "sysres \<Rightarrow> filehandle \<Rightarrow> nat list \<Rightarrow> (errno + nat) \<times> filehandle" where
  "Readv_fh res h iov_lens = Read_fh res h (sum_list iov_lens)"

definition Write_fh :: "sysres \<Rightarrow> filehandle \<Rightarrow> nat \<Rightarrow> (errno + nat) \<times> filehandle" where
  "Write_fh res h len =
    (if fd h = -1 then (Inr 0, h)
     else case res of
       Fails EAGAIN \<Rightarrow> (Inr 0, h\<lparr>writeable := False\<rparr>)
     | Fails EINTR \<Rightarrow> (Inr 0, h)
     | Fails ENOMEM \<Rightarrow> (Inr 0, h)
     | Fails ENOBUFS \<Rightarrow> (Inr 0, h)
     | Fails e \<Rightarrow> (Inl e, h)
     | Bytes num \<Rightarrow> (Inr num, if num < len then h\<lparr>writeable := False\<rparr> else h))"

definition Writev_fh :: "sysres \<Rightarrow> filehandle \<Rightarrow> nat list \<Rightarrow> (errno + nat) \<times> filehandle" where
  "Writev_fh res h iov_lens = Write_fh res h (sum_list iov_lens)"

text \<open>
  \<open>Poll\<close> on several handles. \<open>select\<close> answers with an \<open>errno\<close>, or with the descriptors that are ready, of those asked for, and their
  number. \<open>OnReadable\<close> and \<open>OnWriteable\<close> are those of \<open>FileHandle\<close> itself.
\<close>

definition On_ready :: "int set \<Rightarrow> int set \<Rightarrow> filehandle \<Rightarrow> filehandle" where
  "On_ready rfd wfd h =
    (let h1 = (if 0 \<le> fd h \<and> fd h \<in> rfd then h\<lparr>readable := True\<rparr> else h)
     in if 0 \<le> fd h \<and> fd h \<in> wfd then h1\<lparr>writeable := True\<rparr> else h1)"

definition Poll_fh :: "(errno + int set \<times> int set \<times> int) \<Rightarrow> filehandle list \<Rightarrow> (errno + int) \<times> filehandle list" where
  "Poll_fh sel hs =
    (if \<exists>h \<in> set hs. fd h < 0 then (Inr (-1), hs)
     else case sel of
       Inl EINTR \<Rightarrow> (Inr 0, hs)
     | Inl e \<Rightarrow> (Inl e, hs)
     | Inr (rready, wready, ret) \<Rightarrow>
         let rfd = rready \<inter> fd ` {h \<in> set hs. \<not> readable h};
             wfd = wready \<inter> fd ` {h \<in> set hs. \<not> writeable h}
         in (Inr ret, map (On_ready rfd wfd) hs))"

section \<open>What a write and a read can do\<close>

text \<open>The system calls move at most the bytes they are given.\<close>

fun limit :: "nat \<Rightarrow> sysres \<Rightarrow> sysres" where
  "limit m (Bytes n) = Bytes (min n m)"
| "limit m (Fails e) = Fails e"

fun fatal :: "errno \<Rightarrow> bool" where
  "fatal (Other_errno n) = True"
| "fatal e = False"

text \<open>The call takes a byte, if it is given one.\<close>

fun takes :: "int \<Rightarrow> sysres \<Rightarrow> bool" where
  "takes d (Bytes n) = (d \<noteq> -1 \<and> 0 < n)"
| "takes d (Fails e) = False"

lemma Write_fh_result:
  assumes "Write_fh (limit m r) h m = (x, h')"
  shows "fd h' = fd h" "x = Inl e \<Longrightarrow> r = Fails e \<and> fatal e"
    "x = Inr k \<Longrightarrow> k \<le> m \<and> (0 < m \<and> takes (fd h) r \<longrightarrow> 0 < k)"
  using assms by (cases r; auto simp: Write_fh_def split: if_splits errno.splits)+

text \<open>\<open>Poll\<close> only ever sets flags, and only those that were off and whose descriptor is ready.\<close>

lemma Poll_fh_flags:
  assumes "Poll_fh (Inr (rready, wready, ret)) hs = (Inr n, hs')" "i < length hs"
  shows "fd (hs' ! i) = fd (hs ! i)" "readable (hs ! i) \<Longrightarrow> readable (hs' ! i)" "writeable (hs ! i) \<Longrightarrow> writeable (hs' ! i)"
    "readable (hs' ! i) \<Longrightarrow> \<not> readable (hs ! i) \<Longrightarrow> fd (hs ! i) \<in> rready"
    "writeable (hs' ! i) \<Longrightarrow> \<not> writeable (hs ! i) \<Longrightarrow> fd (hs ! i) \<in> wready"
  using assms by (auto simp: Poll_fh_def On_ready_def Let_def split: if_splits)

text \<open>After the end of the file has been seen nothing more is read, whatever the system would answer.\<close>

lemma Read_fh_eof:
  "eof (snd (Read_fh res h len)) \<Longrightarrow> Read_fh res' (snd (Read_fh res h len)) len' = (Inr 0, snd (Read_fh res h len))"
  by (simp add: Read_fh_def)

end
