(* ===== verification/SockWrite.thy ===== *)
theory SockWrite
  imports FileHandle "HOL-Library.Sublist"
begin

text \<open>
  How a remote queue writes to its socket: \<open>RemoteQueue::WriteBytes\<close> (CPN/RemoteQueue.cc), which repeats the calls of
  \<open>Writev\<close> and \<open>Write\<close> until the socket has taken everything.

  A section is the list of its bytes. What the system answers is a list, one answer for every call: the number of bytes it is
  ready to take, or a failure. The result holds the bytes that were handed over. \<open>Out_of_calls\<close> means that the
  answers in the list were not enough, so that \<open>WriteBytes\<close> goes on trying. Numbers of bytes are unbounded here;
  the code's are \<open>unsigned\<close>.
\<close>

section \<open>The loops\<close>

datatype 'a wresult =
    Out_of_calls
  | Threw errno filehandle "'a list"
  | Wrote "sysres list" filehandle "'a list"

fun skip_sections :: "nat \<Rightarrow> 'a list list \<Rightarrow> nat \<times> 'a list list" where
  "skip_sections num [] = (num, [])"
| "skip_sections num (sec # iov) = (if length sec \<le> num then skip_sections (num - length sec) iov else (num, sec # iov))"

fun finish_section :: "sysres list \<Rightarrow> filehandle \<Rightarrow> 'a list \<Rightarrow> nat \<Rightarrow> 'a list \<Rightarrow> 'a wresult" where
  "finish_section [] h sec amount sent = (if amount < length sec then Out_of_calls else Wrote [] h sent)"
| "finish_section (r # ws) h sec amount sent =
    (if amount < length sec then
       let left = length sec - amount
       in case Write_fh (limit left r) h left of
            (Inl e, h') \<Rightarrow> Threw e h' sent
          | (Inr k, h') \<Rightarrow> finish_section ws h' sec (amount + k) (sent @ take k (drop amount sec))
     else Wrote (r # ws) h sent)"

lemma finish_section_shorter: "finish_section ws h sec amount sent = Wrote ws' h' sent' \<Longrightarrow> length ws' \<le> length ws"
  by (induction ws h sec amount sent rule: finish_section.induct)
    (auto simp: Let_def intro: le_SucI split: if_splits prod.splits sum.splits)

function write_loop :: "sysres list \<Rightarrow> filehandle \<Rightarrow> 'a list list \<Rightarrow> nat \<Rightarrow> nat \<Rightarrow> 'a list \<Rightarrow> 'a wresult" where
  "write_loop ws h iov tot numwritten sent =
    (if numwritten < tot then
       (case ws of
          [] \<Rightarrow> Out_of_calls
        | r # ws' \<Rightarrow>
           (case Writev_fh (limit (length (concat iov)) r) h (map length iov) of
              (Inl e, h') \<Rightarrow> Threw e h' sent
            | (Inr num, h') \<Rightarrow>
               let sent' = sent @ take num (concat iov)
               in if numwritten + num = tot then Wrote ws' h' sent'
                  else (case skip_sections num iov of
                      (num', sec # iov') \<Rightarrow>
                        if 0 < num' then
                          (case finish_section ws' h' sec num' sent' of
                             Wrote ws'' h'' sent'' \<Rightarrow> write_loop ws'' h'' iov' tot (numwritten + num + (length sec - num')) sent''
                           | res \<Rightarrow> res)
                        else write_loop ws' h' (sec # iov') tot (numwritten + num) sent'
                    | (num', []) \<Rightarrow> write_loop ws' h' [] tot (numwritten + num) sent')))
     else Wrote ws h sent)"
  by auto
termination
  by (relation "measure (\<lambda>(ws, h, iov, tot, numwritten, sent). length ws)")
    (auto dest: finish_section_shorter)

declare write_loop.simps [simp del]

definition WriteBytes_sock :: "sysres list \<Rightarrow> filehandle \<Rightarrow> 'a list list \<Rightarrow> 'a wresult" where
  "WriteBytes_sock ws h iov = write_loop ws h iov (sum_list (map length iov)) 0 []"

section \<open>Everything is written, in order\<close>

lemma skip_sections_rest:
  "skip_sections num iov = (num', iov') \<Longrightarrow> num \<le> length (concat iov) \<Longrightarrow>
    drop num (concat iov) = drop num' (concat iov') \<and> (iov' \<noteq> [] \<longrightarrow> num' < length (hd iov')) \<and> (iov' = [] \<longrightarrow> num' = 0)"
  by (induction num iov rule: skip_sections.induct) (auto split: if_splits)

lemma skip_split:
  assumes "skip_sections num iov = (num', iov')" "num < length (concat iov)"
  shows "\<exists>sec iov''. iov' = sec # iov'' \<and> num' < length sec \<and> concat iov = take num (concat iov) @ drop num' sec @ concat iov''"
proof -
  have r: "drop num (concat iov) = drop num' (concat iov')" "iov' \<noteq> [] \<longrightarrow> num' < length (hd iov')" "iov' = [] \<longrightarrow> num' = 0"
    using skip_sections_rest [OF assms(1)] assms(2) by auto
  have "drop num (concat iov) \<noteq> []"
    using assms(2) by (simp del: concat_eq_Nil_conv)
  then have "iov' \<noteq> []"
    using r(1) by auto
  then obtain sec iov'' where i: "iov' = sec # iov''" by (cases iov') auto
  then have l: "num' < length sec"
    using r(2) by simp
  then have "drop num (concat iov) = drop num' sec @ concat iov''"
    using r(1) i by simp
  then have "concat iov = take num (concat iov) @ drop num' sec @ concat iov''"
    using append_take_drop_id [of num "concat iov"] by simp
  then show ?thesis
    using i l by blast
qed

text \<open>How many of the calls take something.\<close>

definition takers :: "int \<Rightarrow> sysres list \<Rightarrow> nat" where
  "takers d ws = length (filter (takes d) ws)"

lemma takers_Cons [simp]: "takers d [] = 0" "takers d (r # ws) = (if takes d r then Suc (takers d ws) else takers d ws)"
  by (simp_all add: takers_def)

text \<open>
  What a stretch of the work promises: the bytes \<open>bs\<close> are to follow \<open>sent\<close>. It stops early only when too few
  calls take something, or with an exception for a failure, after a beginning of \<open>bs\<close>.
\<close>

fun delivers :: "sysres list \<Rightarrow> int \<Rightarrow> 'a list \<Rightarrow> 'a list \<Rightarrow> 'a wresult \<Rightarrow> bool" where
  "delivers ws d sent bs Out_of_calls \<longleftrightarrow> takers d ws < length bs"
| "delivers ws d sent bs (Threw e h' sent') \<longleftrightarrow>
    prefix sent sent' \<and> prefix sent' (sent @ bs) \<and> Fails e \<in> set ws \<and> fatal e \<and> fd h' = d"
| "delivers ws d sent bs (Wrote ws' h' sent') \<longleftrightarrow>
    sent' = sent @ bs \<and> fd h' = d \<and> takers d ws \<le> takers d ws' + length bs \<and> set ws' \<subseteq> set ws"

text \<open>After a call that took the first bytes, what is left to do is a delivery of the other bytes.\<close>

lemma delivers_Cons:
  assumes "delivers ws d (sent @ as) bs res" "takes d r \<Longrightarrow> as \<noteq> []"
  shows "delivers (r # ws) d sent (as @ bs) res"
proof -
  have t: "takers d (r # ws) \<le> takers d ws + length as"
    using assms(2) by (cases as) auto
  show ?thesis
  proof (cases res)
    case (Threw e h' sent')
    then show ?thesis
      using assms(1) by (auto dest: append_prefixD)
  qed (use assms(1) t in auto)
qed

lemma delivers_trans:
  assumes "delivers ws d sent as (Wrote ws' h' sent')" "delivers ws' d sent' bs res"
  shows "delivers ws d sent (as @ bs) res"
proof (cases res)
  case (Threw e h'' sent'')
  then show ?thesis
    using assms by (auto dest: append_prefixD)
qed (use assms in auto)

lemma finish_section_delivers:
  "amount \<le> length sec \<Longrightarrow> delivers ws (fd h) sent (drop amount sec) (finish_section ws h sec amount sent)"
proof (induction ws h sec amount sent rule: finish_section.induct)
  case (2 r ws h sec amount sent)
  show ?case
  proof (cases "amount < length sec")
    case True
    let ?left = "length sec - amount"
    obtain x h' where w: "Write_fh (limit ?left r) h ?left = (x, h')" by force
    note res = Write_fh_result [OF w]
    show ?thesis
    proof (cases x)
      case (Inl e)
      then show ?thesis
        using True w res(1,2) by (auto simp: Let_def)
    next
      case (Inr k)
      have k: "k \<le> ?left" "takes (fd h) r \<Longrightarrow> 0 < k"
        using res(3) [OF Inr] True by auto
      have "delivers ws (fd h') (sent @ take k (drop amount sec)) (drop (amount + k) sec)
          (finish_section ws h' sec (amount + k) (sent @ take k (drop amount sec)))"
        using k(1) True by (intro "2.IH" [OF True refl _ Inr]) (use w in auto)
      then have "delivers (r # ws) (fd h) sent (take k (drop amount sec) @ drop (amount + k) sec)
          (finish_section ws h' sec (amount + k) (sent @ take k (drop amount sec)))"
        using k True res(1) by (intro delivers_Cons) auto
      moreover have "take k (drop amount sec) @ drop (amount + k) sec = drop amount sec"
        by (metis append_take_drop_id drop_drop add.commute)
      ultimately show ?thesis
        using True w Inr by (simp add: Let_def)
    qed
  qed (use 2 in simp)
qed simp

lemma write_loop_delivers:
  assumes "length sent + length (concat iov) = tot"
  shows "delivers ws (fd h) sent (concat iov) (write_loop ws h iov tot (length sent) sent)"
  using assms
proof (induction "length ws" arbitrary: ws h iov sent rule: less_induct)
  case less
  note [simp del] = concat_eq_Nil_conv
  show ?case
  proof (cases "concat iov = [] \<or> ws = []")
    case True
    then show ?thesis
      using less.prems by (subst write_loop.simps) (auto split: list.splits)
  next
    case False
    then obtain r ws' where ws: "ws = r # ws'" by (cases ws) auto
    have pos: "0 < length (concat iov)" "length sent < tot"
      using False less.prems by auto
    have lens: "sum_list (map length iov) = length (concat iov)"
      by (simp add: length_concat)
    obtain x h' where w: "Write_fh (limit (length (concat iov)) r) h (length (concat iov)) = (x, h')" by force
    note res = Write_fh_result [OF w]
    note step = write_loop.simps [of ws h iov tot "length sent" sent]
    show ?thesis
    proof (cases x)
      case (Inl e)
      then show ?thesis
        using pos(2) w res(1,2) by (subst step) (auto simp: ws Writev_fh_def lens)
    next
      case (Inr num)
      let ?sent = "sent @ take num (concat iov)"
      have num: "num \<le> length (concat iov)" "takes (fd h) r \<Longrightarrow> take num (concat iov) \<noteq> []"
        using res(3) [OF Inr] pos(1) by auto
      have ls: "length ?sent = length sent + num"
        using num(1) by simp
      show ?thesis
      proof (cases "num = length (concat iov)")
        case True
        have "delivers (r # ws') (fd h) sent (concat iov @ []) (Wrote ws' h' (sent @ concat iov))"
          using num res(1) True by (intro delivers_Cons) auto
        then show ?thesis
          using True pos(2) w Inr less.prems by (subst step) (simp add: ws Writev_fh_def lens)
      next
        case neq: False
        then have l: "num < length (concat iov)" "length sent + num \<noteq> tot"
          using num(1) less.prems by auto
        obtain num' iov' where sk: "skip_sections num iov = (num', iov')" by force
        obtain sec iov'' where s: "iov' = sec # iov''" "num' < length sec" "concat iov = take num (concat iov) @ drop num' sec @ concat iov''"
          using skip_split [OF sk l(1)] by blast
        have lc: "length (concat iov) = num + (length sec - num') + length (concat iov'')"
          using num(1) by (subst s(3)) simp
        define loop where "loop = write_loop ws h iov tot (length sent) sent"
        have loop: "loop = (if 0 < num' then
            (case finish_section ws' h' sec num' ?sent of
               Wrote ws'' h'' sent'' \<Rightarrow> write_loop ws'' h'' iov'' tot (length ?sent + (length sec - num')) sent''
             | res \<Rightarrow> res)
            else write_loop ws' h' (sec # iov'') tot (length ?sent) ?sent)"
          unfolding loop_def ls using pos(2) w Inr l(2) by (subst step) (simp add: ws Writev_fh_def lens sk s(1) Let_def)
        have "delivers ws' (fd h') ?sent (drop num' sec @ concat iov'') loop"
        proof (cases "0 < num'")
          case True
          have f: "delivers ws' (fd h') ?sent (drop num' sec) (finish_section ws' h' sec num' ?sent)"
            using s(2) by (intro finish_section_delivers) simp
          show ?thesis
          proof (cases "finish_section ws' h' sec num' ?sent")
            case (Wrote ws'' h'' sent'')
            then have w'': "sent'' = ?sent @ drop num' sec" "fd h'' = fd h'"
              using f by auto
            then have ls'': "length sent'' = length ?sent + (length sec - num')"
              by simp
            have "delivers ws'' (fd h'') sent'' (concat iov'') (write_loop ws'' h'' iov'' tot (length sent'') sent'')"
              using finish_section_shorter [OF Wrote] less.prems lc ls ls'' by (intro less.hyps) (auto simp: ws)
            then have "delivers ws'' (fd h') sent'' (concat iov'') loop"
              using loop True Wrote ls'' w''(2) by simp
            then show ?thesis
              by (rule delivers_trans [OF f [unfolded Wrote]])
          qed (use f loop True in \<open>auto intro: prefix_order.trans\<close>)
        next
          case z: False
          have "delivers ws' (fd h') ?sent (concat (sec # iov'')) (write_loop ws' h' (sec # iov'') tot (length ?sent) ?sent)"
            using less.prems lc ls z s(2) by (intro less.hyps) (auto simp: ws)
          then show ?thesis
            using z loop by simp
        qed
        then have "delivers (r # ws') (fd h) sent (take num (concat iov) @ drop num' sec @ concat iov'') loop"
          using num(2) res(1) by (intro delivers_Cons) auto
        then show ?thesis
          unfolding loop_def using s(3) ws by simp
      qed
    qed
  qed
qed


text \<open>A closed handle takes nothing and reports nothing: there \<open>WriteBytes\<close> goes on for ever.\<close>

lemma write_bytes_closed:
  assumes "fd h = -1" "concat iov \<noteq> []"
  shows "WriteBytes_sock ws h iov = Out_of_calls"
proof -
  have t: "takers (-1) ws = 0" for ws
    unfolding takers_def by (simp add: filter_empty_conv) (metis takes.elims(2))
  have "Writev_fh r h ls = (Inr 0, h)" for r ls
    using assms(1) by (simp add: Writev_fh_def Write_fh_def)
  moreover have "\<exists>sec iov'. skip_sections 0 iov = (0, sec # iov') \<and> concat (sec # iov') = concat iov" if "concat iov \<noteq> []" for iov :: "'a list list"
    using that by (induction iov) auto
  ultimately have "write_loop ws h iov (length (concat iov)) 0 [] = Out_of_calls" if "concat iov \<noteq> []" for iov :: "'a list list"
    using that
  proof (induction ws arbitrary: iov)
    case (Cons r ws)
    then obtain sec iov' where "skip_sections 0 iov = (0, sec # iov')" "concat (sec # iov') = concat iov" by metis
    then show ?case
      using Cons.IH [of "sec # iov'"] Cons.prems by (subst write_loop.simps) auto
  qed (subst write_loop.simps, simp)
  then show ?thesis
    using assms(2) by (simp add: WriteBytes_sock_def length_concat)
qed

end
