(* ===== verification/ThreadPool.thy ===== *)
theory ThreadPool
  imports Prelude "HOL-Library.Multiset"
begin

text \<open>
  \<open>ThreadPool\<close> (Synchronize/ThreadPool.cc): a queue of tasks and the threads that run them.

  Every stretch of code that holds \<open>lock\<close> is one step. The threads of the pool, and the callers of \<open>Wait\<close> and
  \<open>Shutdown\<close>, are lists of states, updated by index. A thread that waits on a condition variable has a flag that says
  whether it was signalled. What the scheduler is free to choose is an argument of the operations: which of the waiting
  threads a signal reaches (a number that selects one of them), and which of the threads that ended are already \<open>Done\<close>
  for \<open>InternalCleanup\<close>. The counters are integers without bounds, so that one below 0 would show. The field
  \<open>ran\<close> is the sequence of the calls of \<open>Run\<close>.
\<close>

section \<open>The state\<close>

datatype 'r tstate = Start | Sleeping bool | Running 'r | Ended

datatype cstate = InWait bool | InShutdown bool | Joining "nat set" | Returned | Closed

record 'r tpool =
  tp_shutdown :: bool
  taskqueue :: "'r list"
  threads :: "nat set"
  minthreads :: int
  maxthreads :: int
  numthreads :: int
  numtasks :: int
  waiting :: int
  timed :: bool
  needscleanup :: bool
  thr :: "'r tstate list"
  callers :: "cstate list"
  ran :: "'r list"

text \<open>\<open>timed\<close> says whether the \<open>timeout\<close> is positive.\<close>

definition new_ThreadPool :: "nat \<Rightarrow> nat \<Rightarrow> bool \<Rightarrow> 'r tpool" where
  "new_ThreadPool minth maxth tm =
    \<lparr>tp_shutdown = False, taskqueue = [], threads = {}, minthreads = int minth,
     maxthreads = (if maxth < minth then int minth else int maxth), numthreads = 0, numtasks = 0, waiting = 0, timed = tm,
     needscleanup = False, thr = [], callers = [], ran = []\<rparr>"

text \<open>The constructor without arguments leaves \<open>needscleanup\<close> as the memory was: \<open>stale\<close>.\<close>

definition new_ThreadPool_default :: "nat \<Rightarrow> bool \<Rightarrow> 'r tpool" where
  "new_ThreadPool_default processors stale = (new_ThreadPool 0 (2 * processors) True)\<lparr>needscleanup := stale\<rparr>"

section \<open>Condition variables\<close>

definition waiters :: "('s \<Rightarrow> bool) \<Rightarrow> 's list \<Rightarrow> nat list" where
  "waiters asleep ss = filter (\<lambda>i. asleep (ss ! i)) [0..<length ss]"

fun waits_enqueue :: "'r tstate \<Rightarrow> bool" where
  "waits_enqueue (Sleeping signalled) = (\<not> signalled)"
| "waits_enqueue s = False"

fun waits_dequeue :: "cstate \<Rightarrow> bool" where
  "waits_dequeue (InWait signalled) = (\<not> signalled)"
| "waits_dequeue (InShutdown signalled) = (\<not> signalled)"
| "waits_dequeue s = False"

fun wake_thread :: "'r tstate \<Rightarrow> 'r tstate" where
  "wake_thread (Sleeping _) = Sleeping True"
| "wake_thread s = s"

fun wake_caller :: "cstate \<Rightarrow> cstate" where
  "wake_caller (InWait _) = InWait True"
| "wake_caller (InShutdown _) = InShutdown True"
| "wake_caller s = s"

definition signal :: "('s \<Rightarrow> bool) \<Rightarrow> ('s \<Rightarrow> 's) \<Rightarrow> nat \<Rightarrow> 's list \<Rightarrow> 's list" where
  "signal asleep wake w ss =
    (let is = waiters asleep ss in if is = [] then ss else let i = is ! (w mod length is) in ss[i := wake (ss ! i)])"

definition enqueue_Signal :: "nat \<Rightarrow> 'r tpool \<Rightarrow> 'r tpool" where
  "enqueue_Signal w p = p\<lparr>thr := signal waits_enqueue wake_thread w (thr p)\<rparr>"

definition dequeue_Signal :: "nat \<Rightarrow> 'r tpool \<Rightarrow> 'r tpool" where
  "dequeue_Signal w p = p\<lparr>callers := signal waits_dequeue wake_caller w (callers p)\<rparr>"

section \<open>The operations\<close>

definition InternalCleanup :: "nat set \<Rightarrow> 'r tpool \<Rightarrow> 'r tpool" where
  "InternalCleanup finished p =
    (if needscleanup p then
       p\<lparr>threads := {i \<in> threads p. \<not> (i \<in> finished \<and> i < length (thr p) \<and> thr p ! i = Ended)}, needscleanup := False\<rparr>
     else p)"

definition Spawn :: "'r tpool \<Rightarrow> 'r tpool" where
  "Spawn p = (if tp_shutdown p then p
     else p\<lparr>threads := insert (length (thr p)) (threads p), thr := thr p @ [Start], numthreads := numthreads p + 1\<rparr>)"

definition Execute :: "nat set \<Rightarrow> nat \<Rightarrow> 'r \<Rightarrow> 'r tpool \<Rightarrow> cpn_error + 'r tpool" where
  "Execute finished w r p =
    (if tp_shutdown p then Inl AssertException
     else
       let p1 = p\<lparr>taskqueue := taskqueue p @ [r], numtasks := numtasks p + 1\<rparr>;
           p2 = InternalCleanup finished p1;
           p3 = (if waiting p2 = 0 \<and> numthreads p2 < maxthreads p2 then Spawn p2 else p2)
       in Inr (enqueue_Signal w p3))"

text \<open>\<open>TaskThread\<close> from the test of the inner loop up to where it gives the lock up: it ends, goes to sleep, or has a task.\<close>

definition thread_loop :: "nat set \<Rightarrow> nat \<Rightarrow> nat \<Rightarrow> nat \<Rightarrow> bool \<Rightarrow> 'r tpool \<Rightarrow> 'r tpool" where
  "thread_loop finished w v i timedout p =
    (case taskqueue p of
       [] \<Rightarrow>
         if tp_shutdown p \<or> timedout \<and> numthreads p > minthreads p then
           dequeue_Signal v (enqueue_Signal w (p\<lparr>numthreads := numthreads p - 1, needscleanup := True, thr := (thr p)[i := Ended]\<rparr>))
         else
           let p' = InternalCleanup finished p
           in p'\<lparr>waiting := waiting p' + 1, thr := (thr p')[i := Sleeping False]\<rparr>
     | r # rs \<Rightarrow> p\<lparr>taskqueue := rs, thr := (thr p)[i := Running r]\<rparr>)"

definition thread_woken :: "nat set \<Rightarrow> nat \<Rightarrow> nat \<Rightarrow> nat \<Rightarrow> bool \<Rightarrow> 'r tpool \<Rightarrow> 'r tpool" where
  "thread_woken finished w v i timedout p = thread_loop finished w v i timedout (p\<lparr>waiting := waiting p - 1\<rparr>)"

definition thread_ran :: "nat set \<Rightarrow> nat \<Rightarrow> nat \<Rightarrow> nat \<Rightarrow> nat \<Rightarrow> 'r \<Rightarrow> 'r tpool \<Rightarrow> 'r tpool" where
  "thread_ran finished w v v' i r p =
    thread_loop finished w v' i False (dequeue_Signal v (p\<lparr>ran := ran p @ [r], numtasks := numtasks p - 1\<rparr>))"

definition must_wait :: "'r tpool \<Rightarrow> bool" where
  "must_wait p \<longleftrightarrow> numtasks p \<noteq> 0 \<and> numthreads p \<noteq> 0"

definition Wait_pool :: "'r tpool \<Rightarrow> 'r tpool" where
  "Wait_pool p = p\<lparr>callers := callers p @ [if \<not> tp_shutdown p \<and> must_wait p then InWait False else Returned]\<rparr>"

definition Wait_woken :: "nat \<Rightarrow> 'r tpool \<Rightarrow> 'r tpool" where
  "Wait_woken c p = p\<lparr>callers := (callers p)[c := if must_wait p then InWait False else Returned]\<rparr>"

definition Shutdown_loop :: "nat \<Rightarrow> 'r tpool \<Rightarrow> 'r tpool" where
  "Shutdown_loop c p =
    (if must_wait p then p\<lparr>callers := (callers p)[c := InShutdown False]\<rparr>
     else p\<lparr>tp_shutdown := True, callers := map wake_caller ((callers p)[c := Joining (threads p)]), thr := map wake_thread (thr p)\<rparr>)"

definition Shutdown_pool :: "'r tpool \<Rightarrow> 'r tpool" where
  "Shutdown_pool p = Shutdown_loop (length (callers p)) (p\<lparr>callers := callers p @ [InShutdown False]\<rparr>)"

definition Shutdown_joined :: "nat \<Rightarrow> 'r tpool \<Rightarrow> 'r tpool" where
  "Shutdown_joined c p = p\<lparr>threads := {}, ran := ran p @ taskqueue p, taskqueue := [], callers := (callers p)[c := Closed]\<rparr>"

section \<open>Interleaving\<close>

text \<open>A thread of the pool takes a step. A wait may end without a signal, by its timeout or by itself.\<close>

inductive thread_step :: "'r tpool \<Rightarrow> 'r tpool \<Rightarrow> bool" where
  starts: "i < length (thr p) \<Longrightarrow> thr p ! i = Start \<Longrightarrow> thread_step p (thread_loop fin w v i False p)"
| wakes: "i < length (thr p) \<Longrightarrow> thr p ! i = Sleeping b \<Longrightarrow> (timedout \<longrightarrow> timed p) \<Longrightarrow>
    thread_step p (thread_woken fin w v i timedout p)"
| runs: "i < length (thr p) \<Longrightarrow> thr p ! i = Running r \<Longrightarrow> thread_step p (thread_ran fin w v v' i r p)"

text \<open>The users: any number of tasks and of calls of \<open>Wait\<close>, and of \<open>Shutdown\<close>, one at a time. The list holds the tasks that were accepted.\<close>

fun closing :: "cstate \<Rightarrow> bool" where
  "closing (InShutdown b) = True"
| "closing (Joining T) = True"
| "closing s = False"

inductive pool_step :: "'r list \<Rightarrow> 'r tpool \<Rightarrow> 'r list \<Rightarrow> 'r tpool \<Rightarrow> bool" where
  a_thread: "thread_step p q \<Longrightarrow> pool_step acc p acc q"
| executes: "Execute fin w r p = Inr q \<Longrightarrow> pool_step acc p (acc @ [r]) q"
| waits: "pool_step acc p acc (Wait_pool p)"
| wait_wakes: "c < length (callers p) \<Longrightarrow> callers p ! c = InWait b \<Longrightarrow> pool_step acc p acc (Wait_woken c p)"
| shuts: "\<forall>s \<in> set (callers p). \<not> closing s \<Longrightarrow> pool_step acc p acc (Shutdown_pool p)"
| shut_wakes: "c < length (callers p) \<Longrightarrow> callers p ! c = InShutdown b \<Longrightarrow> pool_step acc p acc (Shutdown_loop c p)"
| joined: "c < length (callers p) \<Longrightarrow> callers p ! c = Joining T \<Longrightarrow> (\<forall>i \<in> T. i < length (thr p) \<and> thr p ! i = Ended) \<Longrightarrow>
    pool_step acc p acc (Shutdown_joined c p)"

inductive pool_reach :: "'r tpool \<Rightarrow> 'r list \<Rightarrow> 'r tpool \<Rightarrow> bool" for p0 where
  init: "pool_reach p0 [] p0"
| step: "pool_reach p0 acc p \<Longrightarrow> pool_step acc p acc' q \<Longrightarrow> pool_reach p0 acc' q"

section \<open>Counting\<close>

definition number :: "('s \<Rightarrow> bool) \<Rightarrow> 's list \<Rightarrow> int" where
  "number P ss = int (length (filter P ss))"

lemma number_simps [simp]: "number P [] = 0" "number P (s # ss) = of_bool (P s) + number P ss"
  "number P (ss @ ss') = number P ss + number P ss'"
  by (simp_all add: number_def)

lemma number_nonneg [simp]: "0 \<le> number P ss"
  by (simp add: number_def)

lemma number_map: "(\<And>s. P (f s) = P s) \<Longrightarrow> number P (map f ss) = number P ss"
  by (induction ss) auto

lemma number_update:
  "i < length ss \<Longrightarrow> number P (ss[i := s]) = number P ss - of_bool (P (ss ! i)) + of_bool (P s)"
  by (induction ss arbitrary: i) (auto split: nat.splits)

lemma number_pos: "i < length ss \<Longrightarrow> P (ss ! i) \<Longrightarrow> 0 < number P ss"
  unfolding number_def by (metis filter_False length_greater_0_conv of_nat_0_less_iff filter_empty_conv nth_mem)

lemma number_0: "number P ss = 0 \<longleftrightarrow> (\<forall>s \<in> set ss. \<not> P s)"
  by (simp add: number_def filter_empty_conv)

fun task_of :: "'r tstate \<Rightarrow> 'r multiset" where
  "task_of (Running r) = {#r#}"
| "task_of s = {#}"

definition tasks_of :: "'r tstate list \<Rightarrow> 'r multiset" where
  "tasks_of ss = sum_list (map task_of ss)"

lemma tasks_of_simps [simp]: "tasks_of [] = {#}" "tasks_of (s # ss) = task_of s + tasks_of ss"
  "tasks_of (ss @ ss') = tasks_of ss + tasks_of ss'"
  by (simp_all add: tasks_of_def)

lemma tasks_of_map: "(\<And>s. task_of (f s) = task_of s) \<Longrightarrow> tasks_of (map f ss) = tasks_of ss"
  by (induction ss) auto

lemma tasks_of_update: "i < length ss \<Longrightarrow> tasks_of (ss[i := s]) + task_of (ss ! i) = tasks_of ss + task_of s"
  by (induction ss arbitrary: i) (auto split: nat.splits simp: ac_simps)

lemma signal_cases:
  obtains "signal asleep wake w ss = ss" "\<forall>s \<in> set ss. \<not> asleep s"
  | i where "i < length ss" "asleep (ss ! i)" "signal asleep wake w ss = ss[i := wake (ss ! i)]"
proof (cases "waiters asleep ss = []")
  case True
  then show ?thesis
    by (intro that(1)) (auto simp: signal_def waiters_def filter_empty_conv in_set_conv_nth)
next
  case False
  define i where "i = waiters asleep ss ! (w mod length (waiters asleep ss))"
  have "i \<in> set (waiters asleep ss)"
    unfolding i_def using False by (intro nth_mem) simp
  then show ?thesis
    using False by (intro that(2) [of i]) (auto simp: waiters_def signal_def Let_def i_def)
qed

lemma length_signal [simp]: "length (signal asleep wake w ss) = length ss"
  by (rule signal_cases [of asleep wake w ss]) auto

lemma signal_nth: "i < length ss \<Longrightarrow> signal asleep wake w ss ! i = ss ! i \<or> signal asleep wake w ss ! i = wake (ss ! i)"
  by (rule signal_cases [of asleep wake w ss]) (auto simp: nth_list_update)

lemma number_signal: "(\<And>s. P (wake s) = P s) \<Longrightarrow> number P (signal asleep wake w ss) = number P ss"
  by (rule signal_cases [of asleep wake w ss]) (auto simp: number_update)

lemma tasks_of_signal: "(\<And>s. task_of (wake s) = task_of s) \<Longrightarrow> tasks_of (signal asleep wake w ss) = tasks_of ss"
proof (rule signal_cases [of asleep wake w ss])
  fix i assume *: "\<And>s. task_of (wake s) = task_of s" "i < length ss" "signal asleep wake w ss = ss[i := wake (ss ! i)]"
  show "tasks_of (signal asleep wake w ss) = tasks_of ss"
    using tasks_of_update [of i ss "wake (ss ! i)"] * by simp
qed simp

lemma signal_mem: "(\<And>s. wake s = x \<longleftrightarrow> s = x) \<Longrightarrow> x \<in> set (signal asleep wake w ss) \<longleftrightarrow> x \<in> set ss"
  using signal_nth [of _ ss asleep wake w] by (auto simp: in_set_conv_nth) metis+

section \<open>The invariant\<close>

definition live :: "'r tstate \<Rightarrow> bool" where
  "live s \<longleftrightarrow> s \<noteq> Ended"

fun asleep :: "'r tstate \<Rightarrow> bool" where
  "asleep (Sleeping b) = True"
| "asleep s = False"

fun running :: "'r tstate \<Rightarrow> bool" where
  "running (Running r) = True"
| "running s = False"

definition awake :: "'r tstate \<Rightarrow> bool" where
  "awake s \<longleftrightarrow> s \<noteq> Ended \<and> s \<noteq> Sleeping False"

lemma wake_thread_keeps [simp]:
  "live (wake_thread s) = live s" "asleep (wake_thread s) = asleep s" "running (wake_thread s) = running s"
  "task_of (wake_thread s) = task_of s" "awake s \<Longrightarrow> awake (wake_thread s)" "wake_thread s = Ended \<longleftrightarrow> s = Ended"
  "wake_thread s \<noteq> Sleeping False"
  by (cases s; simp add: live_def awake_def)+

lemma wake_caller_keeps [simp]:
  "wake_caller s = Joining T \<longleftrightarrow> s = Joining T" "wake_caller s = Closed \<longleftrightarrow> s = Closed"
  "Joining T = wake_caller s \<longleftrightarrow> s = Joining T" "Closed = wake_caller s \<longleftrightarrow> s = Closed"
  by (cases s; auto)+

definition pool_inv :: "'r list \<Rightarrow> 'r tpool \<Rightarrow> bool" where
  "pool_inv acc p \<longleftrightarrow>
     numthreads p = number live (thr p) \<and> waiting p = number asleep (thr p) \<and> numthreads p \<le> maxthreads p \<and>
     int (length (taskqueue p)) + number running (thr p) \<le> numtasks p \<and>
     (\<not> tp_shutdown p \<longrightarrow> numtasks p = int (length (taskqueue p)) + number running (thr p)) \<and>
     mset acc = mset (ran p) + mset (taskqueue p) + tasks_of (thr p) \<and>
     threads p \<subseteq> {..<length (thr p)} \<and> (\<forall>i < length (thr p). live (thr p ! i) \<longrightarrow> i \<in> threads p) \<and>
     (taskqueue p \<noteq> [] \<and> 0 < maxthreads p \<longrightarrow> (\<exists>s \<in> set (thr p). awake s)) \<and>
     (tp_shutdown p \<longrightarrow> Sleeping False \<notin> set (thr p)) \<and>
     (\<forall>T. Joining T \<in> set (callers p) \<longrightarrow> tp_shutdown p \<and> T \<subseteq> {..<length (thr p)} \<and> (\<forall>i < length (thr p). live (thr p ! i) \<longrightarrow> i \<in> T)) \<and>
     (Closed \<in> set (callers p) \<longrightarrow> tp_shutdown p \<and> taskqueue p = [] \<and> number live (thr p) = 0)"

lemma pool_inv_init: "pool_inv [] (new_ThreadPool minth maxth tm)"
  by (simp add: pool_inv_def new_ThreadPool_def)

lemma signal_awake: "\<exists>s \<in> set ss. awake s \<Longrightarrow> \<exists>s \<in> set (signal waits_enqueue wake_thread w ss). awake s"
  using signal_nth [of _ ss waits_enqueue wake_thread w]
  by (metis in_set_conv_nth length_signal wake_thread_keeps(5))

lemma signal_live:
  "i < length ss \<Longrightarrow> live (signal waits_enqueue wake_thread w ss ! i) = live (ss ! i)"
  using signal_nth [of i ss waits_enqueue wake_thread w] by auto

lemma signal_no_sleeper: "Sleeping False \<notin> set ss \<Longrightarrow> Sleeping False \<notin> set (signal waits_enqueue wake_thread w ss)"
  using signal_nth [of _ ss waits_enqueue wake_thread w] by (metis in_set_conv_nth length_signal wake_thread_keeps(7))

lemma pool_inv_enqueue_Signal: "pool_inv acc p \<Longrightarrow> pool_inv acc (enqueue_Signal w p)"
  unfolding pool_inv_def enqueue_Signal_def
  by (simp add: number_signal tasks_of_signal signal_live signal_awake signal_no_sleeper)

lemma pool_inv_dequeue_Signal: "pool_inv acc p \<Longrightarrow> pool_inv acc (dequeue_Signal w p)"
  unfolding pool_inv_def dequeue_Signal_def by (simp add: signal_mem)

lemma pool_inv_InternalCleanup: "pool_inv acc p \<Longrightarrow> pool_inv acc (InternalCleanup fin p)"
  unfolding pool_inv_def InternalCleanup_def by (auto simp: live_def)

lemma InternalCleanup_keeps [simp]:
  "thr (InternalCleanup fin p) = thr p" "waiting (InternalCleanup fin p) = waiting p" "numthreads (InternalCleanup fin p) = numthreads p"
  "taskqueue (InternalCleanup fin p) = taskqueue p" "tp_shutdown (InternalCleanup fin p) = tp_shutdown p"
  "maxthreads (InternalCleanup fin p) = maxthreads p" "numtasks (InternalCleanup fin p) = numtasks p"
  by (simp_all add: InternalCleanup_def)

text \<open>A thread changes its state. Its old state was live, so that no call of \<open>Shutdown\<close> has returned.\<close>

lemma update_mem: "s \<in> set (ss[i := s']) \<Longrightarrow> s = s' \<or> s \<in> set ss"
  by (metis insertE set_update_subset_insert subsetD)

lemma update_awake: "i < length ss \<Longrightarrow> awake s \<Longrightarrow> \<exists>s \<in> set (ss[i := s]). awake s"
  using set_update_memI by metis

lemma no_sleeper_update: "Sleeping False \<notin> set ss \<Longrightarrow> s \<noteq> Sleeping False \<Longrightarrow> Sleeping False \<notin> set (ss[i := s])"
  using update_mem by metis

lemma live_update:
  "i < length ss \<Longrightarrow> live (ss ! i) \<Longrightarrow> (\<forall>j < length ss. live (ss ! j) \<longrightarrow> j \<in> T) \<Longrightarrow>
   (\<forall>j < length ss. live (ss[i := s] ! j) \<longrightarrow> j \<in> T)"
  by (auto simp: nth_list_update)

lemmas update_facts = number_update update_awake no_sleeper_update live_update

lemma pool_inv_alive: "pool_inv acc p \<Longrightarrow> i < length (thr p) \<Longrightarrow> live (thr p ! i) \<Longrightarrow> Closed \<notin> set (callers p)"
  using number_pos [of i "thr p" live] by (auto simp: pool_inv_def)

lemma pool_inv_update:
  assumes "pool_inv acc p" "i < length (thr p)" "live (thr p ! i)"
    and "numthreads q = number live ((thr p)[i := s])" "waiting q = number asleep ((thr p)[i := s])" "maxthreads q = maxthreads p"
    and "numtasks q - int (length (taskqueue q)) - number running ((thr p)[i := s]) = numtasks p - int (length (taskqueue p)) - number running (thr p)"
    and "mset (ran q) + mset (taskqueue q) + tasks_of ((thr p)[i := s]) = mset (ran p) + mset (taskqueue p) + tasks_of (thr p)"
    and "thr q = (thr p)[i := s]" "callers q = callers p" "threads q = threads p" "tp_shutdown q = tp_shutdown p"
    and "taskqueue q \<noteq> [] \<longrightarrow> awake s" "tp_shutdown p \<longrightarrow> s \<noteq> Sleeping False"
  shows "pool_inv acc q"
proof -
  have "number live ((thr p)[i := s]) \<le> number live (thr p)"
    using assms(2,3) by (simp add: number_update)
  moreover have "Closed \<notin> set (callers p)"
    using pool_inv_alive [OF assms(1-3)] .
  moreover have "int (length (taskqueue q)) + number running ((thr p)[i := s]) \<le> numtasks q"
    "\<not> tp_shutdown p \<longrightarrow> numtasks q = int (length (taskqueue q)) + number running ((thr p)[i := s])"
    using assms(1,7) unfolding pool_inv_def by auto
  ultimately show ?thesis
    using assms(1-6,8-) live_update [OF assms(2,3)] update_awake [OF assms(2)]
    unfolding pool_inv_def by (simp add: no_sleeper_update)
qed

lemma pool_inv_thread_loop:
  assumes "pool_inv acc p" "i < length (thr p)" "thr p ! i = Start"
  shows "pool_inv acc (thread_loop fin w v i timedout p)"
proof (cases "taskqueue p")
  case Nil
  have l: "live (thr p ! i)"
    by (simp add: assms(3) live_def)
  have "pool_inv acc (p\<lparr>numthreads := numthreads p - 1, needscleanup := True, thr := (thr p)[i := Ended]\<rparr>)"
    using assms tasks_of_update [OF assms(2), of Ended]
    by (intro pool_inv_update [OF assms(1,2) l, of _ Ended]) (auto simp: number_update Nil pool_inv_def live_def)
  moreover have "pool_inv acc ((InternalCleanup fin p)\<lparr>waiting := waiting p + 1, thr := (thr p)[i := Sleeping False]\<rparr>)" if "\<not> tp_shutdown p"
    using assms tasks_of_update [OF assms(2), of "Sleeping False"] l that
    by (intro pool_inv_update [OF pool_inv_InternalCleanup [OF assms(1), of fin], of i _ "Sleeping False"])
      (auto simp: number_update Nil pool_inv_def live_def InternalCleanup_def)
  ultimately show ?thesis
    using Nil by (auto simp: thread_loop_def Let_def pool_inv_enqueue_Signal pool_inv_dequeue_Signal)
next
  case (Cons r rs)
  have "pool_inv acc (p\<lparr>taskqueue := rs, thr := (thr p)[i := Running r]\<rparr>)"
    using assms tasks_of_update [OF assms(2), of "Running r"]
    by (intro pool_inv_update [OF assms(1,2), of _ "Running r"]) (auto simp: number_update Cons pool_inv_def live_def awake_def)
  then show ?thesis
    using Cons by (simp add: thread_loop_def)
qed

text \<open>A thread that comes back from its wait or its task is one that starts.\<close>

definition holds_lock :: "nat \<Rightarrow> 'r tpool \<Rightarrow> 'r tpool" where
  "holds_lock i p = p\<lparr>thr := (thr p)[i := Start]\<rparr>"

lemma cleanup_holds_lock:
  "thr p ! i \<noteq> Ended \<Longrightarrow> InternalCleanup fin (holds_lock i p) = holds_lock i (InternalCleanup fin p)"
proof -
  assume "thr p ! i \<noteq> Ended"
  then have "(thr p)[i := Start] ! j = Ended \<longleftrightarrow> thr p ! j = Ended" for j
    by (cases "i < length (thr p)") (auto simp: nth_list_update list_update_beyond)
  then show ?thesis
    by (simp add: InternalCleanup_def holds_lock_def)
qed

lemma thread_loop_holds_lock:
  assumes "thr p ! i \<noteq> Ended"
  shows "thread_loop fin w v i timedout (holds_lock i p) = thread_loop fin w v i timedout p"
  unfolding thread_loop_def cleanup_holds_lock [OF assms] Let_def by (simp add: holds_lock_def split: list.splits)

lemma pool_inv_woken:
  assumes "pool_inv acc p" "i < length (thr p)" "thr p ! i = Sleeping b"
  shows "pool_inv acc (holds_lock i (p\<lparr>waiting := waiting p - 1\<rparr>))"
  using assms tasks_of_update [OF assms(2), of Start]
  by (intro pool_inv_update [OF assms(1,2), of _ Start])
    (auto simp: number_update pool_inv_def live_def awake_def holds_lock_def)

lemma pool_inv_ran:
  assumes "pool_inv acc p" "i < length (thr p)" "thr p ! i = Running r"
  shows "pool_inv acc (holds_lock i (p\<lparr>ran := ran p @ [r], numtasks := numtasks p - 1\<rparr>))"
  using assms tasks_of_update [OF assms(2), of Start]
  by (intro pool_inv_update [OF assms(1,2), of _ Start])
    (auto simp: number_update pool_inv_def live_def awake_def holds_lock_def)

lemma pool_inv_thread_step: "thread_step p q \<Longrightarrow> pool_inv acc p \<Longrightarrow> pool_inv acc q"
proof (induction rule: thread_step.induct)
  case (starts i p)
  then show ?case by (simp add: pool_inv_thread_loop)
next
  case (wakes i p b timedout fin w v)
  have "pool_inv acc (thread_loop fin w v i timedout (holds_lock i (p\<lparr>waiting := waiting p - 1\<rparr>)))"
    using wakes pool_inv_woken [of acc p i b] by (intro pool_inv_thread_loop) (auto simp: holds_lock_def)
  then show ?case
    using wakes by (simp add: thread_woken_def thread_loop_holds_lock)
next
  case (runs i p r fin w v v')
  have "pool_inv acc (thread_loop fin w v' i False (dequeue_Signal v (holds_lock i (p\<lparr>ran := ran p @ [r], numtasks := numtasks p - 1\<rparr>))))"
    using runs pool_inv_ran [of acc p i r]
    by (intro pool_inv_thread_loop pool_inv_dequeue_Signal) (auto simp: holds_lock_def dequeue_Signal_def)
  moreover have "dequeue_Signal v (holds_lock i q) = holds_lock i (dequeue_Signal v q)" for q :: "'a tpool"
    by (simp add: dequeue_Signal_def holds_lock_def)
  ultimately show ?case
    using runs by (simp add: thread_ran_def thread_loop_holds_lock dequeue_Signal_def)
qed

section \<open>The users of the pool\<close>

lemma pool_inv_Spawn:
  assumes "pool_inv acc p" "\<not> tp_shutdown p" "numthreads p < maxthreads p"
  shows "pool_inv acc (Spawn p)" "\<exists>s \<in> set (thr (Spawn p)). awake s"
  using assms by (auto simp: pool_inv_def Spawn_def live_def awake_def nth_append)

lemma pool_inv_accept:
  assumes "pool_inv acc p" "\<not> tp_shutdown p" "0 < maxthreads p \<longrightarrow> (\<exists>s \<in> set (thr p). awake s)"
  shows "pool_inv (acc @ [r]) (p\<lparr>taskqueue := taskqueue p @ [r], numtasks := numtasks p + 1\<rparr>)"
  using assms by (auto simp: pool_inv_def)

lemma signal_wakes:
  assumes "s \<in> set ss" "asleep s"
  shows "\<exists>s \<in> set (signal waits_enqueue wake_thread w ss). awake s"
proof (rule signal_cases [of waits_enqueue wake_thread w ss])
  assume *: "signal waits_enqueue wake_thread w ss = ss" "\<forall>s \<in> set ss. \<not> waits_enqueue s"
  then have "s = Sleeping True"
    using assms by (cases s) auto
  then show ?thesis
    using assms * by (auto simp: awake_def)
next
  fix i assume *: "i < length ss" "waits_enqueue (ss ! i)" "signal waits_enqueue wake_thread w ss = ss[i := wake_thread (ss ! i)]"
  then have "awake (wake_thread (ss ! i))"
    by (cases "ss ! i") (auto simp: awake_def)
  then show ?thesis
    using * update_awake by metis
qed

lemma some_awake:
  assumes "pool_inv acc p" "0 < maxthreads p" "\<not> (waiting p = 0 \<and> numthreads p < maxthreads p)"
  shows "\<exists>s \<in> set (thr (enqueue_Signal w p)). awake s"
proof (cases "\<exists>s \<in> set (thr p). asleep s")
  case True
  then show ?thesis
    using signal_wakes by (fastforce simp: enqueue_Signal_def)
next
  case False
  then have "waiting p = 0"
    using assms(1) by (simp add: pool_inv_def number_0)
  then have "number live (thr p) \<noteq> 0"
    using assms by (auto simp: pool_inv_def)
  then obtain s where "s \<in> set (thr p)" "live s" by (auto simp: number_0)
  then have "awake s"
    using False by (cases s) (auto simp: awake_def live_def)
  then show ?thesis
    using \<open>s \<in> set (thr p)\<close> signal_awake by (fastforce simp: enqueue_Signal_def)
qed

lemma pool_inv_Execute:
  assumes "pool_inv acc p" "Execute fin w r p = Inr q"
  shows "pool_inv (acc @ [r]) q"
proof -
  let ?p = "InternalCleanup fin p"
  define spawn where "spawn \<longleftrightarrow> waiting p = 0 \<and> numthreads p < maxthreads p"
  define p' where "p' = enqueue_Signal w (if spawn then Spawn ?p else ?p)"
  have ns: "\<not> tp_shutdown p"
    using assms(2) by (auto simp: Execute_def split: if_splits)
  have inv: "pool_inv acc ?p"
    by (rule pool_inv_InternalCleanup [OF assms(1)])
  have "pool_inv acc p'" "\<not> tp_shutdown p'" "0 < maxthreads p' \<longrightarrow> (\<exists>s \<in> set (thr p'). awake s)"
  proof -
    show "pool_inv acc p'"
      using inv ns pool_inv_Spawn(1) [OF inv] by (simp add: p'_def spawn_def pool_inv_enqueue_Signal)
    show "\<not> tp_shutdown p'"
      using ns by (simp add: p'_def enqueue_Signal_def Spawn_def)
    show "0 < maxthreads p' \<longrightarrow> (\<exists>s \<in> set (thr p'). awake s)"
    proof (cases spawn)
      case True
      then have "\<exists>s \<in> set (thr (Spawn ?p)). awake s"
        using pool_inv_Spawn(2) [OF inv] ns by (simp add: spawn_def)
      then show ?thesis
        using True signal_awake [of "thr (Spawn ?p)" w] by (simp add: p'_def enqueue_Signal_def)
    next
      case False
      then have "p' = enqueue_Signal w ?p" "\<not> (waiting ?p = 0 \<and> numthreads ?p < maxthreads ?p)"
        by (simp add: p'_def) (use False in \<open>simp add: spawn_def\<close>)
      then show ?thesis
        using some_awake [OF inv, of w] by (simp add: enqueue_Signal_def)
    qed
  qed
  moreover have "q = p'\<lparr>taskqueue := taskqueue p' @ [r], numtasks := numtasks p' + 1\<rparr>"
    using assms(2) ns
    by (auto simp: Execute_def Let_def p'_def spawn_def enqueue_Signal_def Spawn_def InternalCleanup_def split: if_splits)
  ultimately show ?thesis
    using pool_inv_accept by metis
qed

lemma pool_inv_callers:
  "pool_inv acc p \<Longrightarrow> (\<And>T. Joining T \<in> set cs \<Longrightarrow> Joining T \<in> set (callers p)) \<Longrightarrow> (Closed \<in> set cs \<Longrightarrow> Closed \<in> set (callers p)) \<Longrightarrow>
    pool_inv acc (p\<lparr>callers := cs\<rparr>)"
  unfolding pool_inv_def by auto

lemma pool_inv_shut:
  assumes "pool_inv acc p" "\<And>T. Joining T \<in> set cs \<Longrightarrow> T = threads p \<or> Joining T \<in> set (callers p)" "Closed \<in> set cs \<Longrightarrow> Closed \<in> set (callers p)"
  shows "pool_inv acc (p\<lparr>tp_shutdown := True, callers := cs, thr := map wake_thread (thr p)\<rparr>)"
proof -
  have "\<exists>s \<in> set (thr p). awake s \<Longrightarrow> \<exists>s \<in> set (thr p). awake (wake_thread s)"
    by (metis wake_thread_keeps(5))
  moreover have "Sleeping False \<notin> set (map wake_thread (thr p))"
    by (metis (no_types, lifting) ex_map_conv wake_thread_keeps(7))
  moreover have "Joining T \<in> set cs \<longrightarrow> T \<subseteq> {..<length (thr p)} \<and> (\<forall>i < length (thr p). live (thr p ! i) \<longrightarrow> i \<in> T)" for T
    using assms(1) assms(2) [of T] unfolding pool_inv_def by auto
  ultimately show ?thesis
    using assms(1,3) unfolding pool_inv_def by (simp add: number_map tasks_of_map)
qed

lemma pool_inv_Shutdown_loop:
  assumes "pool_inv acc p"
  shows "pool_inv acc (Shutdown_loop c p)"
proof (cases "must_wait p")
  case True
  then show ?thesis
    unfolding Shutdown_loop_def using assms by (auto intro!: pool_inv_callers dest!: update_mem)
next
  case False
  let ?cs = "map wake_caller ((callers p)[c := Joining (threads p)])"
  have "pool_inv acc (p\<lparr>tp_shutdown := True, callers := ?cs, thr := map wake_thread (thr p)\<rparr>)"
  proof (rule pool_inv_shut [OF assms])
    fix T assume "Joining T \<in> set ?cs"
    then have "Joining T \<in> set ((callers p)[c := Joining (threads p)])" by auto
    from update_mem [OF this] show "T = threads p \<or> Joining T \<in> set (callers p)" by simp
  next
    assume "Closed \<in> set ?cs"
    then have "Closed \<in> set ((callers p)[c := Joining (threads p)])" by auto
    from update_mem [OF this] show "Closed \<in> set (callers p)" by simp
  qed
  then show ?thesis
    using False by (simp add: Shutdown_loop_def)
qed

lemma tasks_of_ended: "\<forall>s \<in> set ss. s = Ended \<Longrightarrow> tasks_of ss = {#} \<and> number running ss = 0 \<and> number live ss = 0"
  by (induction ss) (auto simp: live_def)

lemma pool_inv_joined:
  assumes "pool_inv acc p" "c < length (callers p)" "callers p ! c = Joining T" "\<forall>i \<in> T. i < length (thr p) \<and> thr p ! i = Ended"
  shows "pool_inv acc (Shutdown_joined c p)"
proof -
  have j: "Joining T \<in> set (callers p)"
    using assms(2,3) by (metis nth_mem)
  have l: "\<forall>i < length (thr p). live (thr p ! i) \<longrightarrow> i \<in> T"
    using assms(1) j unfolding pool_inv_def by (elim conjE) simp
  have "\<forall>s \<in> set (thr p). s = Ended"
    using assms(4) l by (metis in_set_conv_nth live_def)
  moreover have "Joining T' \<in> set ((callers p)[c := Closed]) \<Longrightarrow> Joining T' \<in> set (callers p)" for T'
    by (auto dest: update_mem)
  moreover from calculation have "\<forall>i < length (thr p). \<not> live (thr p ! i)"
    by (simp add: live_def)
  moreover have "Closed \<in> set ((callers p)[c := Closed])"
    using assms(2) by (simp add: set_update_memI)
  ultimately show ?thesis
    using assms(1) j tasks_of_ended [of "thr p"] unfolding pool_inv_def Shutdown_joined_def by simp
qed

lemma pool_inv_step: "pool_step acc p acc' q \<Longrightarrow> pool_inv acc p \<Longrightarrow> pool_inv acc' q"
proof (induction rule: pool_step.induct)
  case (waits acc p)
  then show ?case unfolding Wait_pool_def by (intro pool_inv_callers) (auto split: if_splits)
next
  case (wait_wakes c p b acc)
  then show ?case unfolding Wait_woken_def by (intro pool_inv_callers) (auto dest: update_mem split: if_splits)
next
  case (shuts p acc)
  then show ?case
    unfolding Shutdown_pool_def by (intro pool_inv_Shutdown_loop pool_inv_callers) auto
qed (simp_all add: pool_inv_thread_step pool_inv_Execute pool_inv_Shutdown_loop pool_inv_joined)

lemma pool_reach_inv: "pool_reach (new_ThreadPool minth maxth tm) acc p \<Longrightarrow> pool_inv acc p"
  by (induction rule: pool_reach.induct) (auto simp: pool_inv_init intro: pool_inv_step)

section \<open>A run\<close>

text \<open>One thread, one task, two callers of \<open>Wait\<close>; then \<open>Shutdown\<close>.\<close>

definition demo_exec :: "nat tpool" where
  "demo_exec = projr (Execute {} 0 7 (new_ThreadPool 1 1 False))"

definition demo_waits :: "nat tpool" where
  "demo_waits = Wait_pool (Wait_pool demo_exec)"

definition demo_ran :: "nat tpool" where
  "demo_ran = Wait_woken 0 (thread_ran {} 0 0 0 0 7 (thread_loop {} 0 0 0 False demo_waits))"

definition demo_shut :: "nat tpool" where
  "demo_shut = Shutdown_pool demo_ran"

definition demo_closed :: "nat tpool" where
  "demo_closed = Shutdown_joined 2 (thread_woken {} 0 0 0 False demo_shut)"

lemmas pool_defs = new_ThreadPool_def Execute_def InternalCleanup_def Spawn_def enqueue_Signal_def dequeue_Signal_def signal_def
  waiters_def Wait_pool_def must_wait_def thread_loop_def thread_ran_def Wait_woken_def Shutdown_pool_def Shutdown_loop_def
  thread_woken_def Shutdown_joined_def Let_def

lemma demo_exec_eq: "demo_exec = (new_ThreadPool 1 1 False)\<lparr>taskqueue := [7], numtasks := 1, numthreads := 1, threads := {0}, thr := [Start]\<rparr>"
  by (simp add: demo_exec_def pool_defs)

lemma demo_waits_eq: "demo_waits = demo_exec\<lparr>callers := [InWait False, InWait False]\<rparr>"
  by (simp add: demo_waits_def demo_exec_eq pool_defs)

lemma demo_ran_eq: "demo_ran = (new_ThreadPool 1 1 False)\<lparr>numthreads := 1, threads := {0}, thr := [Sleeping False], waiting := 1, ran := [7],
    callers := [Returned, InWait False]\<rparr>"
  by (simp add: demo_ran_def demo_waits_eq demo_exec_eq pool_defs)

lemma demo_shut_eq: "demo_shut = demo_ran\<lparr>tp_shutdown := True, thr := [Sleeping True], callers := [Returned, InWait True, Joining {0}]\<rparr>"
  by (simp add: demo_shut_def demo_ran_eq pool_defs)

lemma demo_closed_eq: "callers demo_closed = [Returned, InWait True, Closed]"
  by (simp add: demo_closed_def demo_shut_eq demo_ran_eq pool_defs)

lemma demo_reach_exec: "pool_reach (new_ThreadPool 1 1 False) [7] demo_exec"
proof -
  have "Execute {} 0 7 (new_ThreadPool 1 1 False) = Inr demo_exec"
    by (simp add: demo_exec_def Execute_def new_ThreadPool_def Let_def)
  then have "pool_step [] (new_ThreadPool 1 1 False) ([] @ [7]) demo_exec"
    by (rule executes)
  from pool_reach.step [OF pool_reach.init this] show ?thesis by simp
qed

lemma demo_reach_ran: "pool_reach (new_ThreadPool 1 1 False) [7] demo_ran"
proof -
  let ?r = "pool_reach (new_ThreadPool 1 1 False) [7 :: nat]"
  let ?p = "thread_loop {} 0 0 0 False demo_waits"
  have 1: "?r demo_waits"
    unfolding demo_waits_def by (intro pool_reach.step [OF _ waits] demo_reach_exec)
  have "thread_step demo_waits ?p"
    by (rule starts) (simp_all add: demo_waits_eq demo_exec_eq)
  then have 2: "?r ?p"
    by (intro pool_reach.step [OF 1 a_thread])
  have "thread_step ?p (thread_ran {} 0 0 0 0 7 ?p)"
    by (rule runs) (simp_all add: demo_waits_eq demo_exec_eq pool_defs)
  then have 3: "?r (thread_ran {} 0 0 0 0 7 ?p)"
    by (intro pool_reach.step [OF 2 a_thread])
  show ?thesis
    unfolding demo_ran_def
    by (rule pool_reach.step [OF 3 wait_wakes [of _ _ True]]) (simp_all add: demo_waits_eq demo_exec_eq pool_defs)
qed

lemma demo_reach_shut: "pool_reach (new_ThreadPool 1 1 False) [7] demo_shut"
  unfolding demo_shut_def by (rule pool_reach.step [OF demo_reach_ran shuts]) (simp add: demo_ran_eq)

lemma demo_reach_closed: "pool_reach (new_ThreadPool 1 1 False) [7] demo_closed"
proof -
  have "thread_step demo_shut (thread_woken {} 0 0 0 False demo_shut)"
    by (rule wakes [of _ _ True]) (simp_all add: demo_shut_eq demo_ran_eq)
  then have "pool_reach (new_ThreadPool 1 1 False) [7] (thread_woken {} 0 0 0 False demo_shut)"
    by (intro pool_reach.step [OF demo_reach_shut a_thread])
  then show ?thesis
    unfolding demo_closed_def
    by (rule pool_reach.step [OF _ joined [of _ _ "{0}"]]) (simp_all add: demo_shut_eq demo_ran_eq pool_defs)
qed

section \<open>What the pool does\<close>

text \<open>C9: Every task that was accepted waits in the queue, is being run by one thread, or has been run, and exactly one of these; when
  a call of \<open>Shutdown\<close> has returned, every accepted task has been run exactly once and no thread is left. At no time are
  there more threads than \<open>maxthreads\<close>, and no counter is negative.\<close>

theorem pool_runs_once:
  assumes "pool_reach (new_ThreadPool minth maxth tm) acc p"
  shows "mset acc = mset (ran p) + mset (taskqueue p) + tasks_of (thr p) \<and>
    (Closed \<in> set (callers p) \<longrightarrow> mset (ran p) = mset acc \<and> (\<forall>s \<in> set (thr p). s = Ended)) \<and>
    0 \<le> numthreads p \<and> numthreads p \<le> maxthreads p \<and> 0 \<le> waiting p \<and> 0 \<le> numtasks p"
proof -
  have inv: "pool_inv acc p"
    by (rule pool_reach_inv [OF assms])
  have ended: "\<forall>s \<in> set (thr p). s = Ended" if "number live (thr p) = 0"
    using that by (simp add: number_0 live_def)
  have 1: "mset acc = mset (ran p) + mset (taskqueue p) + tasks_of (thr p)" "numthreads p \<le> maxthreads p"
    "numthreads p = number live (thr p)" "waiting p = number asleep (thr p)"
    using inv unfolding pool_inv_def by blast+
  have 2: "mset (ran p) = mset acc \<and> (\<forall>s \<in> set (thr p). s = Ended)" if "Closed \<in> set (callers p)"
    using inv that ended tasks_of_ended [of "thr p"] unfolding pool_inv_def by simp
  have 3: "0 \<le> numtasks p"
    using inv number_nonneg [of running "thr p"] unfolding pool_inv_def by linarith
  have 4: "0 \<le> numthreads p" "0 \<le> waiting p"
    using 1(3,4) by simp_all
  show ?thesis
    by (intro conjI impI 1(1,2) 2 3 4) (use 2 in blast)+
qed

theorem pool_runs_once_witness: "mset (ran demo_closed) = {#7#} \<and> numthreads demo_closed \<le> maxthreads demo_closed"
proof -
  have "Closed \<in> set (callers demo_closed)" "mset [7 :: nat] = {#7#}"
    by (simp_all add: demo_closed_eq)
  then show ?thesis
    using pool_runs_once [OF demo_reach_closed] by metis
qed

text \<open>C36: No wake-up for a task is lost: while a task is queued and the pool may have threads, some thread is about to start,
  runs a task, or has been signalled.\<close>

theorem pool_never_stuck:
  assumes "pool_reach (new_ThreadPool minth maxth tm) acc p" "taskqueue p \<noteq> []" "0 < maxthreads p"
  shows "\<exists>i < length (thr p). thr p ! i = Start \<or> thr p ! i = Sleeping True \<or> (\<exists>r. thr p ! i = Running r)"
proof -
  obtain s where "s \<in> set (thr p)" "awake s"
    using pool_reach_inv [OF assms(1)] assms(2,3) unfolding pool_inv_def by auto
  then obtain i where i: "i < length (thr p)" "awake (thr p ! i)" by (auto simp: in_set_conv_nth)
  then have "thr p ! i = Start \<or> thr p ! i = Sleeping True \<or> (\<exists>r. thr p ! i = Running r)"
    unfolding awake_def by (metis tstate.exhaust)
  then show ?thesis
    using i(1) by blast
qed

theorem pool_never_stuck_witness: "thr demo_exec ! 0 = Start \<or> thr demo_exec ! 0 = Sleeping True \<or> (\<exists>r. thr demo_exec ! 0 = Running r)"
proof -
  have "taskqueue demo_exec \<noteq> []" "0 < maxthreads demo_exec" "length (thr demo_exec) = 1"
    by (simp_all add: demo_exec_eq new_ThreadPool_def)
  then show ?thesis
    using pool_never_stuck [OF demo_reach_exec] by (metis less_one)
qed

text \<open>What is left to do after \<open>Shutdown\<close> has set its flag: every step of a thread makes it less.\<close>

fun weight :: "'r tstate \<Rightarrow> int" where
  "weight (Running r) = 2"
| "weight Ended = 0"
| "weight s = 1"

definition work :: "'r tpool \<Rightarrow> int" where
  "work p = 2 * int (length (taskqueue p)) + sum_list (map weight (thr p))"

lemma weight_update: "i < length ss \<Longrightarrow> sum_list (map weight (ss[i := s])) = sum_list (map weight ss) - weight (ss ! i) + weight s"
  by (induction ss arbitrary: i) (auto split: nat.splits)

lemma weight_wake [simp]: "weight (wake_thread s) = weight s"
  by (cases s) auto

lemma weight_signal: "sum_list (map weight (signal waits_enqueue wake_thread w ss)) = sum_list (map weight ss)"
  by (rule signal_cases [of waits_enqueue wake_thread w ss]) (auto simp: weight_update)

lemma work_nonneg: "0 \<le> work p"
proof -
  have "0 \<le> weight s" for s :: "'a tstate" by (cases s) auto
  then have "0 \<le> sum_list (map weight (thr p))"
    by (intro sum_list_nonneg) auto
  then show ?thesis
    by (simp add: work_def)
qed

lemma thread_loop_work:
  "tp_shutdown p \<Longrightarrow> i < length (thr p) \<Longrightarrow>
    work (thread_loop fin w v i timedout p) = work p - weight (thr p ! i) \<and> tp_shutdown (thread_loop fin w v i timedout p)"
  by (auto simp: thread_loop_def work_def enqueue_Signal_def dequeue_Signal_def weight_signal weight_update split: list.splits)

lemma thread_step_work: "thread_step p q \<Longrightarrow> tp_shutdown p \<Longrightarrow> work q < work p \<and> tp_shutdown q"
proof (induction rule: thread_step.induct)
  case (starts i p)
  then show ?case by (simp add: thread_loop_work)
next
  case (wakes i p b timedout fin w v)
  then show ?case
    using thread_loop_work [of "p\<lparr>waiting := waiting p - 1\<rparr>" i] by (simp add: thread_woken_def) (simp add: work_def)
next
  case (runs i p r fin w v v')
  then show ?case
    using thread_loop_work [of "dequeue_Signal v (p\<lparr>ran := ran p @ [r], numtasks := numtasks p - 1\<rparr>)" i]
    by (simp add: thread_ran_def dequeue_Signal_def) (simp add: work_def)
qed

lemma thread_steps_work: "(thread_step ^^ n) p q \<Longrightarrow> tp_shutdown p \<Longrightarrow> int n + work q \<le> work p \<and> tp_shutdown q"
proof (induction n arbitrary: q)
  case (Suc n)
  then obtain m where "(thread_step ^^ n) p m" "thread_step m q" by auto
  then show ?case
    using Suc.IH [of m] Suc.prems(2) thread_step_work [of m q] by auto
qed simp

text \<open>C37: After \<open>Shutdown\<close> has set its flag the threads take a bounded number of steps, none of them sleeps without having been
  signalled, and when none can take a step, every thread the caller joins has ended.\<close>

theorem pool_shutdown_ends:
  assumes "pool_reach (new_ThreadPool minth maxth tm) acc p" "tp_shutdown p"
  shows "(\<forall>n q. (thread_step ^^ n) p q \<longrightarrow> int n \<le> work p) \<and> (\<forall>s \<in> set (thr p). s \<noteq> Sleeping False) \<and>
    ((\<forall>q. \<not> thread_step p q) \<longrightarrow> (\<forall>T \<in> {T. Joining T \<in> set (callers p)}. \<forall>i \<in> T. i < length (thr p) \<and> thr p ! i = Ended))"
proof (intro conjI allI impI)
  fix n q assume "(thread_step ^^ n) p q"
  then show "int n \<le> work p"
    using thread_steps_work [of n p q] assms(2) work_nonneg [of q] by simp
next
  have inv: "pool_inv acc p"
    by (rule pool_reach_inv [OF assms(1)])
  show "\<forall>s \<in> set (thr p). s \<noteq> Sleeping False"
    using inv assms(2) unfolding pool_inv_def by metis
  assume stuck: "\<forall>q. \<not> thread_step p q"
  have "thr p ! i = Ended" if "i < length (thr p)" for i
  proof (cases "thr p ! i")
    case Start
    then show ?thesis using stuck starts [OF that] by blast
  next
    case (Sleeping b)
    then show ?thesis using stuck wakes [OF that, of b False] by blast
  next
    case (Running r)
    then show ?thesis using stuck runs [OF that] by blast
  qed
  then show "\<forall>T \<in> {T. Joining T \<in> set (callers p)}. \<forall>i \<in> T. i < length (thr p) \<and> thr p ! i = Ended"
    using inv unfolding pool_inv_def by blast
qed

theorem pool_shutdown_ends_witness: "tp_shutdown demo_shut \<and> Sleeping False \<notin> set (thr demo_shut) \<and> \<not> (\<exists>q. (thread_step ^^ 2) demo_shut q)"
  using pool_shutdown_ends [OF demo_reach_shut] by (auto simp: demo_shut_eq demo_ran_eq new_ThreadPool_def work_def)


end
