(* ===== verification/CircIter.thy ===== *)
theory CircIter
  imports Prelude
begin

text \<open>
  \<open>circular_iterator\<close> (utils/CircularIterator.h) over a range of \<open>len\<close> elements. An iterator is the index of \<open>current\<close>
  from \<open>itr_start\<close>; the index \<open>len\<close> is \<open>itr_end\<close>, which holds no element. There is an implementation for any kind of
  iterator, in single steps, and one for those with random access. Distances are not negative here.
\<close>

section \<open>Single steps\<close>

definition incr1 :: "nat \<Rightarrow> nat \<Rightarrow> nat" where
  "incr1 len cur = (if cur + 1 = len then 0 else cur + 1)"

definition decr1 :: "nat \<Rightarrow> nat \<Rightarrow> nat" where
  "decr1 len cur = (if cur = 0 then len else cur) - 1"

fun increment_steps :: "nat \<Rightarrow> nat \<Rightarrow> nat \<Rightarrow> nat" where
  "increment_steps len cur 0 = cur"
| "increment_steps len cur (Suc n) = increment_steps len (incr1 len cur) n"

fun decrement_steps :: "nat \<Rightarrow> nat \<Rightarrow> nat \<Rightarrow> nat" where
  "decrement_steps len cur 0 = cur"
| "decrement_steps len cur (Suc n) = decrement_steps len (decr1 len cur) n"

section \<open>Random access\<close>

text \<open>The loop that takes whole rounds off; on an empty range it does not end.\<close>

partial_function (option) rounds_off :: "nat \<Rightarrow> nat \<Rightarrow> nat option" where
  "rounds_off left n = (if left < n then rounds_off left (n - left) else Some n)"

definition increment_random :: "nat \<Rightarrow> nat \<Rightarrow> nat \<Rightarrow> nat option" where
  "increment_random len cur n =
    (if len - cur \<le> n then rounds_off len (n - (len - cur))
     else Some (cur + n))"

definition decrement_random :: "nat \<Rightarrow> nat \<Rightarrow> nat \<Rightarrow> nat option" where
  "decrement_random len cur n =
    (if cur < n then map_option (\<lambda>n. len - n) (rounds_off len (n - cur))
     else Some (cur - n))"

section \<open>Both agree, but for one case\<close>

lemma increment_steps_mod: "cur < len \<Longrightarrow> increment_steps len cur n = (cur + n) mod len"
proof (induction n arbitrary: cur)
  case (Suc n)
  show ?case
  proof (cases "cur + 1 = len")
    case True
    then have "(cur + Suc n) mod len = n mod len"
      by (metis add_Suc_right add_Suc_shift Suc_eq_plus1 mod_add_self1)
    then show ?thesis
      using Suc.IH [of 0] Suc.prems True by (simp add: incr1_def)
  next
    case False
    then show ?thesis
      using Suc.IH [of "cur + 1"] Suc.prems by (simp add: incr1_def)
  qed
qed simp

lemma decrement_steps_back:
  "cur < len \<Longrightarrow> decrement_steps len cur n < len \<and> (decrement_steps len cur n + n) mod len = cur"
proof (induction n arbitrary: cur)
  case (Suc n)
  have d: "decr1 len cur < len" "(decr1 len cur + 1) mod len = cur"
    using Suc.prems by (auto simp: decr1_def)
  from Suc.IH [OF d(1)] have "decrement_steps len (decr1 len cur) n < len"
    "(decrement_steps len (decr1 len cur) n + n) mod len = decr1 len cur" by auto
  then show ?case
    using d(2) by simp (metis Suc_eq_plus1 mod_Suc_eq)
qed simp

lemma rounds_off_exact: "0 < len \<Longrightarrow> rounds_off len n = Some (if n = 0 then 0 else (n - 1) mod len + 1)"
proof (induction n rule: less_induct)
  case (less n)
  show ?case
  proof (cases "len < n")
    case True
    have "(n - 1) mod len = (n - len - 1) mod len"
      using True by (metis Suc_diff_1 diff_commute le_mod_geq less_Suc_eq_le less_nat_zero_code not_gr_zero)
    then show ?thesis
      using True less.IH [of "n - len"] less.prems by (subst rounds_off.simps) simp
  next
    case False
    then show ?thesis
      using less.prems by (subst rounds_off.simps) auto
  qed
qed

lemma rounds_off_rest:
  assumes "0 < len" "0 < m"
  shows "\<exists>r k. rounds_off len m = Some r \<and> m = r + len * k \<and> 0 < r \<and> r \<le> len"
proof (intro exI conjI)
  show "rounds_off len m = Some ((m - 1) mod len + 1)"
    using rounds_off_exact [OF assms(1), of m] assms(2) by simp
  show "m = (m - 1) mod len + 1 + len * ((m - 1) div len)"
    using assms(2) mod_mult_div_eq [of "m - 1" len] by linarith
  show "(m - 1) mod len + 1 \<le> len"
    using assms(1) mod_less_divisor [of len "m - 1"] by linarith
qed simp

text \<open>C39: On a range with elements, moving a random access iterator by \<open>n\<close> does the same as \<open>n\<close> single steps, backwards always, and
  forwards but for one case: a move that passes the end and comes to the first element again, which leaves the iterator at the end.\<close>

theorem random_access_agrees:
  assumes "cur < len"
  shows "increment_random len cur n = Some (if len - cur < n \<and> (cur + n) mod len = 0 then len else increment_steps len cur n) \<and>
    decrement_random len cur n = Some (decrement_steps len cur n)"
proof
  show "increment_random len cur n = Some (if len - cur < n \<and> (cur + n) mod len = 0 then len else increment_steps len cur n)"
  proof (cases "len - cur < n")
    case True
    then obtain r k where r: "rounds_off len (n - (len - cur)) = Some r" "n - (len - cur) = r + len * k" "0 < r" "r \<le> len"
      using rounds_off_rest [of len "n - (len - cur)"] assms by (metis gr_implies_not0 neq0_conv zero_less_diff)
    then have "cur + n = r + len * Suc k"
      using True assms by simp
    then have "(cur + n) mod len = r mod len"
      by (metis mod_mult_self2)
    then show ?thesis
      using True r assms by (auto simp: increment_random_def increment_steps_mod le_eq_less_or_eq)
  next
    case False
    then show ?thesis
      using assms by (cases "n = len - cur") (auto simp: increment_random_def increment_steps_mod rounds_off_exact)
  qed
next
  note s = decrement_steps_back [OF assms, of n]
  have unique: "x = decrement_steps len cur n" if "x < len" "(x + n) mod len = cur" for x
    using s that mod_add_left_cancel [of n x len "decrement_steps len cur n"] by (metis add.commute mod_less)
  show "decrement_random len cur n = Some (decrement_steps len cur n)"
  proof (cases "cur < n")
    case True
    then obtain r k where r: "rounds_off len (n - cur) = Some r" "n - cur = r + len * k" "0 < r" "r \<le> len"
      using rounds_off_rest [of len "n - cur"] assms by (metis gr_implies_not0 neq0_conv zero_less_diff)
    then have "len - r + n = cur + len * Suc k"
      using True by simp
    then have "(len - r + n) mod len = cur"
      using assms by (metis mod_less mod_mult_self2)
    then show ?thesis
      using True r assms unique [of "len - r"] by (simp add: decrement_random_def)
  next
    case False
    then show ?thesis
      using assms unique [of "cur - n"] by (simp add: decrement_random_def)
  qed
qed

theorem random_access_agrees_witness:
  "increment_random 4 1 7 = Some 4 \<and> increment_steps 4 1 7 = 0 \<and> decrement_random 4 1 7 = Some (decrement_steps 4 1 7)"
  using random_access_agrees [of 1 4 7] by (simp add: increment_steps_mod)

end
