(* ===== verification/RawCopy.thy ===== *)
theory RawCopy
  imports CPNQueue
begin

text \<open>
  \<open>RawEnqueue\<close> and \<open>RawDequeue\<close> of \<open>QueueBase\<close> (CPN/QueueBase.cc): the calls that copy whole blocks, one for
  every channel, between the memory of a client and the queue. They are loops over the calls of \<open>CPNQueue\<close>. The
  client's memory is a function from offsets; the block of channel \<open>c\<close> starts at \<open>c * chanStride\<close>. Where the code
  uses a pointer it has got, the model uses the block behind that pointer, \<open>client_store\<close> and \<open>deq_window\<close>. A call that comes to \<open>Blocks\<close> waits
  in the state that is given.
\<close>

section \<open>The calls\<close>

fun raw_enqueue_chans :: "cpn_env \<Rightarrow> byte mem \<Rightarrow> nat \<Rightarrow> nat \<Rightarrow> nat \<Rightarrow> nat \<Rightarrow> cpnq \<Rightarrow> (unit outcome \<times> cpnq) option" where
  "raw_enqueue_chans env data count chanStride chan 0 q = Some (Returned (), q)"
| "raw_enqueue_chans env data count chanStride chan (Suc left) q =
    (case GetRawEnqueuePtr_cpn env q count chan of
       None \<Rightarrow> None
     | Some (Throws e, q') \<Rightarrow> Some (Throws e, q')
     | Some (Blocks, q') \<Rightarrow> Some (Blocks, q')
     | Some (Returned dest, q') \<Rightarrow>
         raw_enqueue_chans env data count chanStride (chan + 1) left
           (client_store q' chan (read_block id data (chan * chanStride) count)))"

definition RawEnqueue_cpn :: "cpn_env \<Rightarrow> byte mem \<Rightarrow> nat \<Rightarrow> nat \<Rightarrow> nat \<Rightarrow> cpnq \<Rightarrow> (unit outcome \<times> cpnq) option" where
  "RawEnqueue_cpn env data count numChans chanStride q =
    (case raw_enqueue_chans env data count chanStride 0 (max 1 numChans) q of
       Some (Returned _, q') \<Rightarrow>
         (case Enqueue_cpn q' count of
            None \<Rightarrow> None
          | Some (Inl e) \<Rightarrow> Some (Throws e, q'\<lparr>enqueuethresh := 0, inenqueue := False\<rparr>)
          | Some (Inr q'') \<Rightarrow> Some (Returned (), q''))
     | res \<Rightarrow> res)"

fun raw_dequeue_chans ::
  "cpn_env \<Rightarrow> nat \<Rightarrow> nat \<Rightarrow> nat \<Rightarrow> nat \<Rightarrow> byte mem \<Rightarrow> cpnq \<Rightarrow> (unit outcome \<times> byte mem \<times> cpnq) option" where
  "raw_dequeue_chans env count chanStride chan 0 dest q = Some (Returned (), dest, q)"
| "raw_dequeue_chans env count chanStride chan (Suc left) dest q =
    (case GetRawDequeuePtr_cpn env q count chan of
       None \<Rightarrow> None
     | Some (Throws e, q') \<Rightarrow> Some (Throws e, dest, q')
     | Some (Blocks, q') \<Rightarrow> Some (Blocks, dest, q')
     | Some (Returned None, q') \<Rightarrow> Some (Throws AssertException, dest, q')
     | Some (Returned (Some src), q') \<Rightarrow>
         raw_dequeue_chans env count chanStride (chan + 1) left
           (write_block id dest (chan * chanStride) (deq_window q' chan count)) q')"

definition RawDequeue_cpn ::
  "cpn_env \<Rightarrow> byte mem \<Rightarrow> nat \<Rightarrow> nat \<Rightarrow> nat \<Rightarrow> cpnq \<Rightarrow> (bool outcome \<times> byte mem \<times> cpnq) option" where
  "RawDequeue_cpn env dest count numChans chanStride q =
    (case GetRawDequeuePtr_cpn env q count 0 of
       None \<Rightarrow> None
     | Some (Throws e, q') \<Rightarrow> Some (Throws e, dest, q')
     | Some (Blocks, q') \<Rightarrow> Some (Blocks, dest, q')
     | Some (Returned None, q') \<Rightarrow> Some (Returned False, dest, q')
     | Some (Returned (Some src), q') \<Rightarrow>
         (case raw_dequeue_chans env count chanStride 1 (numChans - 1) (write_block id dest 0 (deq_window q' 0 count)) q' of
            None \<Rightarrow> None
          | Some (Throws e, dest', q'') \<Rightarrow> Some (Throws e, dest', q'')
          | Some (Blocks, dest', q'') \<Rightarrow> Some (Blocks, dest', q'')
          | Some (Returned _, dest', q'') \<Rightarrow>
              (case Dequeue_cpn q'' count of
                 Inl e \<Rightarrow> Some (Throws e, dest', q''\<lparr>dequeuethresh := 0, indequeue := False\<rparr>)
               | Inr q''' \<Rightarrow> Some (Returned True, dest', q'''))))"

text \<open>\<open>Grow\<close> is \<open>UnlockedGrow\<close> under the lock.\<close>

definition Grow_cpn :: "cpn_env \<Rightarrow> nat \<Rightarrow> nat \<Rightarrow> cpnq \<Rightarrow> (cpn_error + cpnq) option" where
  "Grow_cpn env queueLen maxThresh q = UnlockedGrow env q queueLen maxThresh"

section \<open>Copying in\<close>

text \<open>A writer that holds a pointer gets one for every channel at once.\<close>

lemma write_again:
  assumes "cpn_inv env q" "inenqueue q" "enqueuethresh q = count" "\<not> terminated env"
  shows "\<exists>p. GetRawEnqueuePtr_cpn env q count c = Some (Returned p, q)"
proof -
  note D = cpn_invD [OF assms(1)]
  have "\<exists>p. InternalGetRawEnqueuePtr q count c = Inr (Some p)"
  proof (cases "enqueueUseOld q")
    case False
    then show ?thesis
      using D(4) [OF assms(2)] assms(3) by (simp add: InternalGetRawEnqueuePtr_def GetRawEnqueuePtr_tqb_def)
  next
    case True
    then obtain old where old: "oldqueue q = Some old" using D(9) by (cases "oldqueue q") auto
    show ?thesis
      using D(11) [OF old True] True old assms(2,3) by (simp add: InternalGetRawEnqueuePtr_def GetRawEnqueuePtr_tqb_def)
  qed
  then obtain p where "InternalGetRawEnqueuePtr q count c = Inr (Some p)" by blast
  then have "GetRawEnqueuePtr_loop env count c False q = Some (Returned p, q\<lparr>inenqueue := True\<rparr>)"
    by (subst GetRawEnqueuePtr_loop.simps) simp
  then show ?thesis
    using assms by (simp add: GetRawEnqueuePtr_cpn_def)
qed

lemma client_store_same [simp]:
  "inenqueue (client_store q c bs) = inenqueue q" "enqueuethresh (client_store q c bs) = enqueuethresh q"
  "writeshutdown (client_store q c bs) = writeshutdown q" "readshutdown (client_store q c bs) = readshutdown q"
  "writerkey (client_store q c bs) = writerkey q"
  by (simp_all add: client_store_def Let_def)

definition chan_block :: "byte mem \<Rightarrow> nat \<Rightarrow> nat \<Rightarrow> nat \<Rightarrow> byte list" where
  "chan_block data count chanStride c = read_block id data (c * chanStride) count"

definition stored :: "cpn_env \<Rightarrow> byte mem \<Rightarrow> nat \<Rightarrow> nat \<Rightarrow> nat set \<Rightarrow> cpnq \<Rightarrow> cpnq \<Rightarrow> bool" where
  "stored env data count chanStride cs q q' \<longleftrightarrow> cpn_inv env q' \<and> inenqueue q' \<and> enqueuethresh q' = count \<and>
     numChannels (queue q') = numChannels (queue q) \<and> writeshutdown q' = writeshutdown q \<and> writerkey q' = writerkey q \<and>
     (\<forall>d < numChannels (queue q). cpn_contents q' d = cpn_contents q d \<and>
        enq_window q' d count = (if d \<in> cs then chan_block data count chanStride d else enq_window q d count))"

lemma stored_one:
  assumes "cpn_inv env q" "inenqueue q" "enqueuethresh q = count" "c < numChannels (queue q)"
  shows "stored env data count chanStride {c} q (client_store q c (chan_block data count chanStride c))"
proof -
  have l: "length (chan_block data count chanStride c) = count"
    by (simp add: chan_block_def)
  note st = client_store_ok [OF assms(1,2) _ assms(4), of "chan_block data count chanStride c"]
  show ?thesis
    using st [OF eq_imp_le] l assms by (auto simp: stored_def)
qed

lemma stored_trans: "stored env data count s cs q q1 \<Longrightarrow> stored env data count s ds q1 q2 \<Longrightarrow> stored env data count s (cs \<union> ds) q q2"
  by (auto simp: stored_def)

lemma raw_enqueue_chans_stored:
  assumes "cpn_inv env q" "inenqueue q" "enqueuethresh q = count" "chan + left \<le> numChannels (queue q)" "\<not> terminated env"
  shows "\<exists>q'. raw_enqueue_chans env data count chanStride chan left q = Some (Returned (), q') \<and>
    stored env data count chanStride {chan..<chan + left} q q'"
  using assms
proof (induction left arbitrary: chan q)
  case 0
  then show ?case by (simp add: stored_def)
next
  case (Suc left)
  obtain p where p: "GetRawEnqueuePtr_cpn env q count chan = Some (Returned p, q)"
    using write_again [OF Suc.prems(1-3,5)] by blast
  let ?q = "client_store q chan (chan_block data count chanStride chan)"
  have s: "stored env data count chanStride {chan} q ?q"
    using stored_one Suc.prems by simp
  then obtain q' where q': "raw_enqueue_chans env data count chanStride (chan + 1) left ?q = Some (Returned (), q')"
      "stored env data count chanStride {chan + 1..<chan + 1 + left} ?q q'"
    using Suc.IH [of ?q "chan + 1"] Suc.prems by (auto simp: stored_def)
  have "{chan} \<union> {chan + 1..<chan + 1 + left} = {chan..<chan + Suc left}" by auto
  then show ?case
    using stored_trans [OF s q'(2)] q'(1) p by (simp add: chan_block_def)
qed

text \<open>What a \<open>RawEnqueue\<close> can come to.\<close>

definition raw_sent :: "byte mem \<Rightarrow> nat \<Rightarrow> nat \<Rightarrow> cpnq \<Rightarrow> unit outcome \<Rightarrow> cpnq \<Rightarrow> bool" where
  "raw_sent data count chanStride q r q' = (case r of
      Returned u \<Rightarrow> (\<forall>c < numChannels (queue q). cpn_contents q' c = cpn_contents q c @ chan_block data count chanStride c)
    | Throws e \<Rightarrow> (readshutdown q \<or> writeshutdown q) \<and> e = BrokenQueueException (writerkey q) \<and>
        (\<forall>c < numChannels (queue q). cpn_contents q' c = cpn_contents q c)
    | Blocks \<Rightarrow> WriteBlocked q' \<and> \<not> ReadBlocked q' \<and> writerequest q' = count \<and>
        (\<forall>c < numChannels (queue q). cpn_contents q' c = cpn_contents q c))"

lemma raw_enqueue_sent:
  assumes "mon_inv env q" "writerequest q = 0" "\<not> inenqueue q" "count < 2 ^ 31" "\<not> terminated env" "GrowQueueMaxThreshold env"
    and "numChannels (queue q) = Suc left"
  shows "\<exists>r q'. RawEnqueue_cpn env data count (Suc left) chanStride q = Some (r, q') \<and> raw_sent data count chanStride q r q'"
proof -
  have loop: "GetRawEnqueuePtr_cpn env q count 0 = GetRawEnqueuePtr_loop env count 0 False (q\<lparr>enqueuethresh := count\<rparr>)"
    using assms(3,5) by (simp add: GetRawEnqueuePtr_cpn_def)
  obtain r q1 where r: "GetRawEnqueuePtr_cpn env q count 0 = Some (r, q1)" "cpn_inv env q1" "same_user (q\<lparr>enqueuethresh := count\<rparr>) q1"
      "write_result q count r q1"
    using write_loop_ok [OF mon_inv_get_write [OF assms(1-6)], of 0] unfolding loop by auto
  have c1: "numChannels (queue q1) = numChannels (queue q)" "writeshutdown q1 = writeshutdown q" "writerkey q1 = writerkey q" "enqueuethresh q1 = count"
      "\<forall>c < numChannels (queue q). cpn_contents q1 c = cpn_contents q c"
    using r(3) by (auto simp: same_user_def cpn_contents_def)
  show ?thesis
  proof (cases r)
    case (Returned p)
    then have in1: "inenqueue q1"
      using r(4) by (simp add: write_result_def)
    let ?q = "client_store q1 0 (chan_block data count chanStride 0)"
    have s: "stored env data count chanStride {0} q1 ?q"
      using stored_one [OF r(2) in1 c1(4)] c1(1) assms(7) by simp
    then obtain q2 where q2: "raw_enqueue_chans env data count chanStride 1 left ?q = Some (Returned (), q2)"
        "stored env data count chanStride {1..<1 + left} ?q q2"
      using raw_enqueue_chans_stored [of env ?q count 1 left data chanStride] c1(1) assms(5,7) s by (auto simp: stored_def)
    have "{0} \<union> {1..<1 + left} = {..<Suc left}" by auto
    then have st: "stored env data count chanStride {..<Suc left} q1 q2"
      using stored_trans [OF s q2(2)] by simp
    have all: "raw_enqueue_chans env data count chanStride 0 (max 1 (Suc left)) q = Some (Returned (), q2)"
      using r(1) Returned q2(1) by (simp add: chan_block_def)
    have run: "RawEnqueue_cpn env data count (Suc left) chanStride q = (case Enqueue_cpn q2 count of
        None \<Rightarrow> None
      | Some (Inl e) \<Rightarrow> Some (Throws e, q2\<lparr>enqueuethresh := 0, inenqueue := False\<rparr>)
      | Some (Inr q'') \<Rightarrow> Some (Returned (), q''))"
      unfolding RawEnqueue_cpn_def all by simp
    have st': "cpn_inv env q2" "inenqueue q2" "enqueuethresh q2 = count"
        "numChannels (queue q2) = Suc left" "writeshutdown q2 = writeshutdown q" "writerkey q2 = writerkey q"
        "\<forall>d < Suc left. cpn_contents q2 d = cpn_contents q d \<and> enq_window q2 d count = chan_block data count chanStride d"
      using st c1 assms(7) by (auto simp: stored_def)
    show ?thesis
    proof (cases "writeshutdown q")
      case True
      then have "Enqueue_cpn q2 count = Some (Inl (BrokenQueueException (writerkey q)))"
        using st' by (simp add: Enqueue_cpn_def)
      then show ?thesis
        using run st' True assms(7) by (simp add: raw_sent_def cpn_contents_def)
    next
      case False
      then obtain q3 where "Enqueue_cpn q2 count = Some (Inr q3)"
          "\<forall>c < numChannels (queue q2). cpn_contents q3 c = cpn_contents q2 c @ enq_window q2 c count"
        using Enqueue_cpn_ok [OF st'(1,2), of count] st'(3,5) by auto
      then show ?thesis
        using run st' assms(7) by (simp add: raw_sent_def)
    qed
  next
    case Blocks
    then show ?thesis
      using r(1,4) c1(5) by (simp add: RawEnqueue_cpn_def raw_sent_def write_result_def)
  next
    case (Throws e)
    then show ?thesis
      using r(1,4) c1(5) by (simp add: RawEnqueue_cpn_def raw_sent_def write_result_def)
  qed
qed

section \<open>Copying out\<close>

lemma read_again:
  assumes "cpn_inv env q" "indequeue q" "count \<le> dequeuethresh q" "\<not> terminated env"
  shows "\<exists>p. GetRawDequeuePtr_cpn env q count c = Some (Returned (Some p), q)"
proof -
  note D = cpn_invD [OF assms(1)]
  have "\<exists>p. InternalGetRawDequeuePtr q count c = Inr (Some p)"
  proof (cases "dequeueUseOld q")
    case False
    then show ?thesis
      using D(5) [OF assms(2)] assms(3) by (simp add: InternalGetRawDequeuePtr_def GetRawDequeuePtr_tqb_def)
  next
    case True
    then obtain old where old: "oldqueue q = Some old" using D(9) by (cases "oldqueue q") auto
    show ?thesis
      using D(12) [OF old True] True old assms(2,3) by (simp add: InternalGetRawDequeuePtr_def GetRawDequeuePtr_tqb_def)
  qed
  then obtain p where "InternalGetRawDequeuePtr q count c = Inr (Some p)" by blast
  then have "GetRawDequeuePtr_loop env count c q = Some (Returned (Some p), q\<lparr>indequeue := True\<rparr>)"
    by (subst GetRawDequeuePtr_loop.simps) simp
  then show ?thesis
    using assms by (simp add: GetRawDequeuePtr_cpn_def)
qed

text \<open>Blocks that lie a stride apart do not overlap.\<close>

lemma chan_block_write:
  assumes "length bs = count" "count \<le> chanStride"
  shows "chan_block (write_block id dest (c * chanStride) bs) count chanStride d = (if d = c then bs else chan_block dest count chanStride d)"
proof (cases "d = c")
  case True
  then show ?thesis
    using assms(1) write_block_in [of _ bs id "c * chanStride" dest] by (intro nth_equalityI) (auto simp: chan_block_def)
next
  case False
  have "d * chanStride + k < c * chanStride \<or> c * chanStride + count \<le> d * chanStride + k" if "k < count" for k
  proof (cases "d < c")
    case True
    then have "Suc d * chanStride \<le> c * chanStride" by (intro mult_le_mono1) simp
    then show ?thesis using that assms(2) by simp
  next
    case False
    then have "Suc c * chanStride \<le> d * chanStride" using \<open>d \<noteq> c\<close> by (intro mult_le_mono1) simp
    then show ?thesis using assms(2) by simp
  qed
  then have "write_block id dest (c * chanStride) bs (d * chanStride + k) = dest (d * chanStride + k)" if "k < count" for k
    using that assms(1) by (intro write_block_other) fastforce
  then show ?thesis
    using False by (simp add: chan_block_def read_block_def)
qed

lemma raw_dequeue_chans_copies:
  assumes "cpn_inv env q" "indequeue q" "count \<le> dequeuethresh q" "\<not> terminated env" "count \<le> chanStride"
    and "chan + left \<le> numChannels (queue q)"
  shows "\<exists>dest'. raw_dequeue_chans env count chanStride chan left dest q = Some (Returned (), dest', q) \<and>
    (\<forall>d. chan_block dest' count chanStride d =
       (if chan \<le> d \<and> d < chan + left then take count (cpn_contents q d) else chan_block dest count chanStride d))"
  using assms(6)
proof (induction left arbitrary: chan dest)
  case (Suc left)
  obtain p where p: "GetRawDequeuePtr_cpn env q count chan = Some (Returned (Some p), q)"
    using read_again [OF assms(1-4)] by blast
  have w: "deq_window q chan count = take count (cpn_contents q chan)"
    using deq_window_contents [OF assms(1-3)] Suc.prems by simp
  have n: "count \<le> Count_tqb (queue q)"
    using cpn_invD(5) [OF assms(1,2)] assms(3) by simp
  have l: "length (deq_window q chan count) = count"
    using n cpn_invD(3) [OF assms(1)] by (simp add: w cpn_contents_def contents_tqb_def)
  let ?dest = "write_block id dest (chan * chanStride) (deq_window q chan count)"
  obtain dest' where "raw_dequeue_chans env count chanStride (chan + 1) left ?dest q = Some (Returned (), dest', q)"
    "\<forall>d. chan_block dest' count chanStride d =
      (if chan + 1 \<le> d \<and> d < chan + 1 + left then take count (cpn_contents q d) else chan_block ?dest count chanStride d)"
    using Suc.IH [of "chan + 1" ?dest] Suc.prems by auto
  then show ?case
    using p chan_block_write [OF l assms(5), of dest chan] w by (auto simp: not_less_eq_eq le_Suc_eq)
qed auto

definition raw_received :: "byte mem \<Rightarrow> nat \<Rightarrow> nat \<Rightarrow> cpnq \<Rightarrow> bool outcome \<Rightarrow> cpnq \<Rightarrow> bool" where
  "raw_received dest count chanStride q r q' = (case r of
      Returned True \<Rightarrow> (\<forall>c < numChannels (queue q). cpn_contents q c = chan_block dest count chanStride c @ cpn_contents q' c)
    | Returned False \<Rightarrow> writeshutdown q \<and> (\<forall>c < numChannels (queue q). cpn_contents q' c = cpn_contents q c)
    | Throws e \<Rightarrow> readshutdown q \<and> e = BrokenQueueException (readerkey q) \<and>
        (\<forall>c < numChannels (queue q). cpn_contents q' c = cpn_contents q c)
    | Blocks \<Rightarrow> ReadBlocked q' \<and> \<not> WriteBlocked q' \<and> readrequest q' = count \<and>
        (\<forall>c < numChannels (queue q). cpn_contents q' c = cpn_contents q c))"

lemma raw_dequeue_received:
  assumes "mon_inv env q" "readrequest q = 0" "\<not> indequeue q" "count < 2 ^ 31" "\<not> terminated env" "GrowQueueMaxThreshold env"
    and "numChannels (queue q) = Suc left" "count \<le> chanStride"
  shows "\<exists>r dest' q'. RawDequeue_cpn env dest count (Suc left) chanStride q = Some (r, dest', q') \<and>
    raw_received dest' count chanStride q r q'"
proof -
  have loop: "GetRawDequeuePtr_cpn env q count 0 = GetRawDequeuePtr_loop env count 0 (q\<lparr>dequeuethresh := count\<rparr>)"
    using assms(3,5) by (simp add: GetRawDequeuePtr_cpn_def)
  obtain r q1 where r: "GetRawDequeuePtr_cpn env q count 0 = Some (r, q1)" "cpn_inv env q1" "same_user (q\<lparr>dequeuethresh := count\<rparr>) q1"
      "read_result q count r q1"
    using read_loop_ok [OF mon_inv_get_read [OF assms(1-6)], of 0] unfolding loop by auto
  have c1: "numChannels (queue q1) = Suc left" "readshutdown q1 = readshutdown q" "readerkey q1 = readerkey q" "dequeuethresh q1 = count"
      "\<forall>c < Suc left. cpn_contents q1 c = cpn_contents q c"
    using r(3) assms(7) by (auto simp: same_user_def cpn_contents_def)
  show ?thesis
  proof (cases r)
    case (Returned src)
    show ?thesis
    proof (cases src)
      case None
      then show ?thesis
        using Returned r(1,4) c1(5) assms(7) by (simp add: RawDequeue_cpn_def raw_received_def read_result_def)
    next
      case (Some p)
      then have in1: "indequeue q1" "count \<le> Count_tqb (queue q1)"
        using r(4) Returned by (simp_all add: read_result_def)
      have all: "raw_dequeue_chans env count chanStride 0 (Suc left) dest q1 =
          raw_dequeue_chans env count chanStride 1 left (write_block id dest 0 (deq_window q1 0 count)) q1"
        using read_again [OF r(2) in1(1), of count 0] c1(4) assms(5) by auto
      obtain dest' where d: "raw_dequeue_chans env count chanStride 0 (Suc left) dest q1 = Some (Returned (), dest', q1)"
          "\<forall>d. chan_block dest' count chanStride d = (if d < Suc left then take count (cpn_contents q1 d) else chan_block dest count chanStride d)"
        using raw_dequeue_chans_copies [OF r(2) in1(1), of count chanStride 0 "Suc left" dest] c1(1,4) assms(5,8) by auto
      have run: "RawDequeue_cpn env dest count (Suc left) chanStride q = (case Dequeue_cpn q1 count of
          Inl e \<Rightarrow> Some (Throws e, dest', q1\<lparr>dequeuethresh := 0, indequeue := False\<rparr>)
        | Inr q2 \<Rightarrow> Some (Returned True, dest', q2))"
        using r(1) Returned Some d(1) [unfolded all] by (simp add: RawDequeue_cpn_def)
      show ?thesis
      proof (cases "readshutdown q")
        case True
        then have "Dequeue_cpn q1 count = Inl (BrokenQueueException (readerkey q))"
          using c1 by (simp add: Dequeue_cpn_def)
        then show ?thesis
          using run c1(5) True assms(7) by (simp add: raw_received_def cpn_contents_def)
      next
        case False
        then obtain q2 where "Dequeue_cpn q1 count = Inr q2"
            "\<forall>c < numChannels (queue q1). cpn_contents q2 c = drop count (cpn_contents q1 c)"
          using Dequeue_cpn_ok [OF r(2) in1(2)] c1(2) by auto
        then show ?thesis
          using run d(2) c1(1,5) assms(7) by (simp add: raw_received_def)
      qed
    qed
  next
    case Blocks
    then show ?thesis
      using r(1,4) c1(5) assms(7) by (simp add: RawDequeue_cpn_def raw_received_def read_result_def)
  next
    case (Throws e)
    then show ?thesis
      using r(1,4) c1(5) assms(7) by (simp add: RawDequeue_cpn_def raw_received_def read_result_def)
  qed
qed

text \<open>C40: \<open>RawEnqueue\<close> and \<open>RawDequeue\<close> with all channels of the queue: what is copied in is appended to every channel, what is copied out is
  the front of every channel, which is taken off; and a call that throws, waits, or finds the writer gone changes no contents.\<close>

theorem raw_copy_exact:
  assumes "mon_inv env q" "\<not> terminated env" "GrowQueueMaxThreshold env" "count < 2 ^ 31" "0 < numChannels (queue q)"
  shows "(writerequest q = 0 \<and> \<not> inenqueue q \<longrightarrow>
      (\<exists>r q'. RawEnqueue_cpn env data count (numChannels (queue q)) chanStride q = Some (r, q') \<and> raw_sent data count chanStride q r q')) \<and>
    (readrequest q = 0 \<and> \<not> indequeue q \<and> count \<le> chanStride \<longrightarrow>
      (\<exists>r dest' q'. RawDequeue_cpn env dest count (numChannels (queue q)) chanStride q = Some (r, dest', q') \<and>
         raw_received dest' count chanStride q r q'))"
proof -
  obtain left where "numChannels (queue q) = Suc left"
    using assms(5) by (cases "numChannels (queue q)") auto
  then show ?thesis
    using raw_enqueue_sent [OF assms(1) _ _ assms(4,2,3)] raw_dequeue_received [OF assms(1) _ _ assms(4,2,3)] by simp
qed

theorem raw_copy_exact_witness:
  "\<exists>r q'. RawEnqueue_cpn demo_env (\<lambda>_. 7) 2 1 2 demo_q = Some (r, q') \<and> raw_sent (\<lambda>_. 7) 2 2 demo_q r q'"
  using raw_copy_exact [of demo_env demo_q 2 "\<lambda>_. 7" 2] demo_inv(1,2) by simp

end
