(* ===== verification/Spec2Isabelle.thy ===== *)
theory Spec2Isabelle
  imports CircQueue CPNQueue Packet D4R LocalCtx RemoteQ KernelSys Loader RemoteWait SieveNet NodeLib Base64
    SockWrite ThreadPool CircIter RawCopy
begin

text \<open>
  A verification of CPN, a runtime for computational process networks in C++ (src/libraries).

  \<^bold>\<open>The program.\<close> A program is a network of nodes, threads that read and write first-in first-out
  queues. A kernel runs nodes and creates queues; a context is the directory in which kernels, nodes
  and ports find each other. A queue between nodes of one kernel is a block of memory both ends work
  in directly; a queue between two kernels has a buffer at either end and a packet protocol on a
  socket. Queues are finite while the networks are not: when every node of a cycle waits, the D4R
  algorithm finds the deadlock by passing tags around, and one queue of the cycle grows. A
  configuration value describes a network, and the loader creates it.

  \<^bold>\<open>Theories, bottom up.\<close>
  \<^item> \<open>Prelude\<close>: 32 and 64 bit arithmetic on natural numbers, the errors of the library as a datatype,
    outcomes of calls that may wait, memory as a function and lemmas on blocks of it.
  \<^item> \<open>Ring\<close>, \<open>Fifo\<close>: the arithmetic of ring buffers, and the interfaces of this development as locales: a
    queue that refines a list, its clients, and runs of puts, gets and grows.
  \<^item> \<open>TQBase\<close>, \<open>TQStream\<close>: \<open>ThresholdQueueBase\<close> (ThresholdQueue/ThresholdQueueBase.cc), a ring buffer that
    hands out contiguous blocks, with a mirrored region or doubly mapped pages
    (MirrorBufferSet/MirrorBufferSet.cc). Every operation keeps the representation invariant, pointers stay in the block,
    and any sequence of operations behaves as a list of bytes per channel.
  \<^item> \<open>CircQueue\<close>: \<open>CircularQueue\<close> (CircularQueue/CircularQueue.cc), the same for the queue that copies.
  \<^item> \<open>CPNQueue\<close>: \<open>QueueBase\<close> and \<open>ThresholdQueue\<close> (CPN/QueueBase.cc, CPN/ThresholdQueue.cc), the queue between two
    threads: blocking, growing under outstanding pointers with the old buffer kept for one end,
    shutdown. Streams are exact, no mutual blocking, and calls end. \<open>RawCopy\<close>: \<open>RawEnqueue\<close> and \<open>RawDequeue\<close>, which copy a
    block for every channel.
  \<^item> \<open>Packet\<close>: headers, encoder and decoder (CPN/PacketHeader.cc, CPN/PacketEncoder.cc, CPN/PacketDecoder.cc): what is
    encoded is decoded, however the bytes are cut.
  \<^item> \<open>D4R\<close>: tags and nodes (D4R/D4RNode.cc, D4R/D4RTag.cc, D4R/D4RQueue.cc) as a step relation on a network:
    reports are sound and unique.
  \<^item> \<open>Attrs\<close>: \<open>QueueAttr\<close>, \<open>NodeAttr\<close>, \<open>KernelAttr\<close>.
  \<^item> \<open>LocalCtx\<close>: \<open>LocalContext\<close> (CPN/LocalContext.cc), with the invariant of the directory.
  \<^item> \<open>RemoteQ\<close>: \<open>RemoteQueue\<close> (CPN/RemoteQueue.cc) as a pair of ends with two channels of packets: exact streams,
    flow control, no failing assertion, ending loops.
  \<^item> \<open>KernelSys\<close>: \<open>Kernel\<close>, \<open>PseudoNode\<close>, \<open>NodeBase\<close>, the holder of remote queues (CPN/Kernel.cc, CPN/PseudoNode.cc,
    CPN/NodeBase.cc, CPN/RemoteQueueHolder.cc) as methods on the state of a process with several
    kernels, a small logic of such methods, and the steps of a kernel's thread.
  \<^item> \<open>VariantM\<close>, \<open>Loader\<close>: \<open>Variant\<close> and \<open>ParseBool\<close> (Variant/Variant.cc, Variant/ParseBool.cc) and \<open>VariantCPNLoader\<close>
    (VariantCPNLoader/VariantCPNLoader.cc), from configuration to calls of the kernel.
  \<^item> \<open>RemoteCtx\<close>: \<open>RemoteContextServer\<close> and \<open>RemoteContextClient\<close> (CPN/RemoteContextServer.cc,
    CPN/RemoteContextClient.cc), the directory of a network that spans processes, as handlers of messages that are
    delivered once and in order. \<open>RemoteRefine\<close> runs every call on it and on \<open>LocalContext\<close>: within a contract,
    which says where the two differ, clients cannot tell them apart; and requests between kernels
    keep their attributes. \<open>RemoteWait\<close>: no wait misses its event.
  \<^item> \<open>FileHandle\<close>, \<open>SockWrite\<close>: the reads, writes and polls of \<open>FileHandle\<close> (FileHandle/FileHandle.cc), with the answers of the
    system calls as arguments, and on it \<open>RemoteQueue::WriteBytes\<close>, the loops that hand the sections of a packet to
    a socket that takes a part at a time, or fails.
  \<^item> \<open>ThreadPool\<close> (Synchronize/ThreadPool.cc): tasks, threads and callers as interleaved steps, with who has been signalled on
    which condition variable. Every task is run exactly once, no wake-up for a task is lost, and a shutdown ends; a
    second caller of \<open>Wait\<close> may sleep for ever.
  \<^item> \<open>CircIter\<close>: \<open>circular_iterator\<close> (utils/CircularIterator.h), random access against single steps.
  \<^item> \<open>SieveNet\<close>: a program on the library (src/apps/SieveOfEratosthenes/SimpleSieve), its nodes as functions on the
    sequences that the queues carry. The network finds exactly the primes for every bound up to 1357; for the
    bound 1358 a filter that lags behind lets a product through.
  \<^item> \<open>NodeLib\<close>: \<open>ForkNode\<close>, \<open>JoinNode\<close> and \<open>ForkJoinNode\<close> (src/nodelibraries): joining undoes forking.
  \<^item> \<open>Base64\<close>: \<open>Base64Encoder\<close> and \<open>Base64Decoder\<close> (Base64/Base64.cc), resumable in the middle of a group: decoding
    undoes encoding.

  \<^bold>\<open>Modelling.\<close> A class is a record, a method a function on it; what it throws is a value of
  \<open>cpn_error\<close>. Unsigned integers are natural numbers with the wrap-around written out; packet headers
  are words. A method under a lock is one step; a wait on a condition variable is the predicate it
  tests, so that a call is \<open>Returned\<close>, \<open>Blocks\<close> or \<open>Throws\<close>. Threads are interleaved steps: an inductive
  relation or a run over a list of operations. Loops are structural recursion, or \<open>partial_function\<close>
  where the code may loop for ever, with theorems that say exactly when it ends; no fuel is used.
  Addresses, page sizes, and fresh memory of an allocation are parameters.

  \<^bold>\<open>Not modelled.\<close> Threads, locks, sockets and files themselves (PthreadLib, Synchronize, FileHandle, apart from the above), logging,
  loading of shared objects (CPN/NodeLoader.cc), the text form of messages and their transport
  (CPN/RemoteContext.cc, CPN/RemoteContextDaemon.cc), the beamformers, the JSON and XML parsers, tools,
  tests, and the example programs and node libraries other than those above: system calls, floating point kernels and vendored code. Of the modelled
  classes, \<open>LogState\<close> and accessors that only read a field under the lock are left out.
\<close>

end
